(* ===== verification/Dg_Prelude.thy ===== *)
theory Dg_Prelude
  imports Main "HOL-Library.Word" "HOL-Library.Multiset"
begin

text \<open>
  What every component of the development shares: the types the C++ classes have in common
  (\<open>Common::Hash\<close>, opaque pointers), the Qt list operations the code calls
  (\<open>QList::insert\<close>, \<open>removeAt\<close>, \<open>removeOne\<close>, \<open>move\<close>, \<open>indexOf\<close>)
  with what Qt does out of range, and the lemma collections the component proofs use:
  \<open>qlist\<close> for the list operations and \<open>dg_defs\<close> for definitions that proofs unfold.
\<close>

named_theorems qlist
named_theorems dg_defs

subsection \<open>Types\<close>

text \<open>A \<open>Common::Hash\<close> is its \<open>HASH_SIZE\<close> bytes; the null hash has every byte zero.\<close>

type_synonym byte = "8 word"
type_synonym hash = "byte list"

subsection \<open>The list operations of Qt\<close>

text \<open>
  \<open>QList::insert(i, x)\<close> appends when \<open>i\<close> is past the end; \<open>removeAt(i)\<close> does nothing
  out of range; \<open>removeOne(x)\<close> removes the first occurrence; \<open>indexOf(x)\<close> is the
  position of the first occurrence (\<open>-1\<close>, here \<open>None\<close>, when there is none).
\<close>

definition insert_at :: "nat \<Rightarrow> 'a \<Rightarrow> 'a list \<Rightarrow> 'a list" where
  "insert_at i x xs = take i xs @ x # drop i xs"

definition remove_at :: "nat \<Rightarrow> 'a list \<Rightarrow> 'a list" where
  "remove_at i xs = take i xs @ drop (Suc i) xs"

fun index_of :: "'a \<Rightarrow> 'a list \<Rightarrow> nat option" where
  "index_of x [] = None"
| "index_of x (y # ys) = (if x = y then Some 0 else map_option Suc (index_of x ys))"

lemma length_insert_at [simp]: "length (insert_at i x xs) = Suc (length xs)"
  by (simp add: insert_at_def)

lemma length_remove_at: "i < length xs \<Longrightarrow> length (remove_at i xs) = length xs - 1"
  by (simp add: remove_at_def)

lemma set_insert_at [simp]: "set (insert_at i x xs) = insert x (set xs)"
  unfolding insert_at_def
  by (metis append_take_drop_id list.simps(15) set_append Un_insert_right)

lemma mset_insert_at [simp]: "mset (insert_at i x xs) = add_mset x (mset xs)"
  unfolding insert_at_def
  by (metis append_take_drop_id mset_append mset.simps(2) union_mset_add_mset_right)

lemma set_remove_at_subset: "set (remove_at i xs) \<subseteq> set xs"
  by (auto simp: remove_at_def dest: in_set_takeD in_set_dropD)

lemma remove_at_append1 [qlist]: "i < length xs \<Longrightarrow> remove_at i (xs @ ys) = remove_at i xs @ ys"
  by (simp add: remove_at_def)

lemma remove_at_append2 [qlist]:
  "length xs \<le> i \<Longrightarrow> remove_at i (xs @ ys) = xs @ remove_at (i - length xs) ys"
  by (simp add: remove_at_def Suc_diff_le)

lemma remove_at_length_append [simp]: "remove_at (length xs) (xs @ y # ys) = xs @ ys"
  by (simp add: remove_at_def)

lemma remove_at_0 [simp]: "remove_at 0 (x # xs) = xs"
  by (simp add: remove_at_def)

lemma insert_at_0 [simp]: "insert_at 0 x xs = x # xs"
  by (simp add: insert_at_def)

lemma insert_at_length [simp]: "insert_at (length xs) x xs = xs @ [x]"
  by (simp add: insert_at_def)

lemma insert_at_append1 [qlist]: "i \<le> length xs \<Longrightarrow> insert_at i x (xs @ ys) = insert_at i x xs @ ys"
  by (simp add: insert_at_def)

lemma insert_at_append2 [qlist]:
  "length xs \<le> i \<Longrightarrow> insert_at i x (xs @ ys) = xs @ insert_at (i - length xs) x ys"
  by (simp add: insert_at_def)

lemma insert_at_length_append [simp]: "insert_at (length xs) x (xs @ ys) = xs @ x # ys"
  by (simp add: insert_at_def)

lemma nth_insert_at:
  assumes "i \<le> length xs" "j \<le> length xs"
  shows "insert_at i x xs ! j = (if j < i then xs ! j else if j = i then x else xs ! (j - 1))"
  using assms by (auto simp: insert_at_def nth_append nth_Cons')

lemma nth_remove_at:
  assumes "i < length xs" "Suc j < length xs"
  shows "remove_at i xs ! j = (if j < i then xs ! j else xs ! Suc j)"
  using assms by (auto simp: remove_at_def nth_append)

lemma remove_insert_at [simp]: "i \<le> length xs \<Longrightarrow> remove_at i (insert_at i x xs) = xs"
  by (simp add: remove_at_def insert_at_def)

lemma mset_remove_at: "i < length xs \<Longrightarrow> mset (remove_at i xs) = mset xs - {# xs ! i #}"
proof -
  assume "i < length xs"
  then have "xs = take i xs @ xs ! i # drop (Suc i) xs" by (simp add: id_take_nth_drop)
  then have "mset xs = mset (take i xs @ xs ! i # drop (Suc i) xs)" by simp
  then show ?thesis by (simp add: remove_at_def)
qed

lemma index_of_None: "index_of x xs = None \<longleftrightarrow> x \<notin> set xs"
  by (induction xs) auto

lemma index_of_notin [simp]: "x \<notin> set xs \<Longrightarrow> index_of x xs = None"
  by (simp add: index_of_None)

lemma index_of_SomeD: "index_of x xs = Some i \<Longrightarrow> i < length xs \<and> xs ! i = x"
  by (induction xs arbitrary: i) (auto split: if_splits)

lemma index_of_Some_notin_take: "index_of x xs = Some i \<Longrightarrow> x \<notin> set (take i xs)"
  by (induction xs arbitrary: i) (auto split: if_splits)

lemma index_of_in_set: "x \<in> set xs \<Longrightarrow> \<exists>i. index_of x xs = Some i"
  by (metis index_of_None option.exhaust)

text \<open>Removing the first occurrence with the library's \<open>remove1\<close> is \<open>QList::removeOne\<close>.\<close>

lemma remove_at_index_of: "index_of x xs = Some i \<Longrightarrow> remove_at i xs = remove1 x xs"
  by (induction xs arbitrary: i) (auto simp: remove_at_def split: if_splits)

subsection \<open>Scanning a list\<close>

lemma filter_take_Suc:
  "i < length xs \<Longrightarrow> filter P (take (Suc i) xs) =
     filter P (take i xs) @ (if P (xs ! i) then [xs ! i] else [])"
  by (simp add: take_Suc_conv_app_nth)

lemma filter_drop_step:
  "i < length xs \<Longrightarrow> filter P (drop i xs) =
     (if P (xs ! i) then xs ! i # filter P (drop (Suc i) xs) else filter P (drop (Suc i) xs))"
  by (metis Cons_nth_drop_Suc filter.simps(2))

lemma all_take_Suc:
  "i < length xs \<Longrightarrow> (\<forall>x \<in> set (take (Suc i) xs). P x) \<longleftrightarrow> (\<forall>x \<in> set (take i xs). P x) \<and> P (xs ! i)"
  by (auto simp: take_Suc_conv_app_nth)

end
