(* ===== verification/Download_Queue.thy ===== *)
theory Download_Queue
  imports Dg_Prelude
begin

text \<open>
  The download queue: \<open>Core/DownloadManager/priv/DownloadQueue.h\<close> and \<open>.cpp\<close>, with the
  predicates of \<open>DownloadPredicate.cpp\<close> and the part of \<open>Download\<close> the queue reads.

  A \<open>Download*\<close> is its \<open>ID\<close> (\<open>Download::currentID\<close> counts up, so no two objects
  share one); the objects are kept in a heap from IDs to records, which the queue's lists point
  into.  Qt's \<open>QMultiMap\<close> and \<open>QMultiHash\<close> are association lists that may repeat a
  key; the map sorted by time is kept in key order, a new pair in front of the pairs with the
  same key, as \<open>QMultiMap::insert\<close> does.
\<close>

subsection \<open>Downloads\<close>

type_synonym dl_ref = nat

text \<open>\<open>DM::Status\<close>, with the values of \<open>IDownload.h\<close>.\<close>

datatype status =
    QUEUED | GETTING_THE_HASHES | DOWNLOADING | COMPLETE | PAUSED | DELETED
  | UNKNOWN_PEER_SOURCE | ENTRY_NOT_FOUND | NO_SOURCE
  | NO_SHARED_DIRECTORY_TO_WRITE | NO_ENOUGH_FREE_SPACE | UNABLE_TO_CREATE_THE_FILE
  | UNABLE_TO_CREATE_THE_DIRECTORY | UNABLE_TO_RETRIEVE_THE_HASHES
  | TRANSFER_ERROR | UNABLE_TO_OPEN_THE_FILE | FILE_IO_ERROR | FILE_NON_EXISTENT
  | GOT_TOO_MUCH_DATA | HASH_MISMATCH
  | REMOTE_SCANNING_IN_PROGRESS | LOCAL_SCANNING_IN_PROGRESS | UNABLE_TO_GET_ENTRIES

fun status_code :: "status \<Rightarrow> nat" where
  "status_code QUEUED = 0x0"
| "status_code GETTING_THE_HASHES = 0x1"
| "status_code DOWNLOADING = 0x2"
| "status_code COMPLETE = 0x3"
| "status_code PAUSED = 0x4"
| "status_code DELETED = 0x5"
| "status_code UNKNOWN_PEER_SOURCE = 0x10"
| "status_code ENTRY_NOT_FOUND = 0x11"
| "status_code NO_SOURCE = 0x12"
| "status_code NO_SHARED_DIRECTORY_TO_WRITE = 0x20"
| "status_code NO_ENOUGH_FREE_SPACE = 0x21"
| "status_code UNABLE_TO_CREATE_THE_FILE = 0x22"
| "status_code UNABLE_TO_CREATE_THE_DIRECTORY = 0x30"
| "status_code UNABLE_TO_RETRIEVE_THE_HASHES = 0x23"
| "status_code TRANSFER_ERROR = 0x24"
| "status_code UNABLE_TO_OPEN_THE_FILE = 0x25"
| "status_code FILE_IO_ERROR = 0x26"
| "status_code FILE_NON_EXISTENT = 0x27"
| "status_code GOT_TOO_MUCH_DATA = 0x28"
| "status_code HASH_MISMATCH = 0x29"
| "status_code REMOTE_SCANNING_IN_PROGRESS = 0x31"
| "status_code LOCAL_SCANNING_IN_PROGRESS = 0x33"
| "status_code UNABLE_TO_GET_ENTRIES = 0x32"

definition isStatusErroneous :: "status \<Rightarrow> bool" where
  "isStatusErroneous s \<longleftrightarrow> status_code s \<ge> 0x20"

datatype dl_kind = FileDL | DirDL

record download =
  dl_kind :: dl_kind
  dl_status :: status
  dl_peerSourceID :: hash
  dl_name :: string                \<comment> \<open>\<open>localEntry.name()\<close>\<close>
  dl_path :: string                \<comment> \<open>\<open>localEntry.path()\<close>\<close>
  dl_shared :: "hash option"       \<comment> \<open>\<open>localEntry.shared_entry().id().hash()\<close>, if it has one\<close>
  dl_lastTime :: "nat option"      \<comment> \<open>\<open>lastTimeGetAllUnfinishedChunks\<close>; \<open>None\<close> is the null \<open>QTime\<close>\<close>

type_synonym dl_heap = "dl_ref \<Rightarrow> download"

subsection \<open>Predicates\<close>

datatype predicate = IsDownloadable | IsADirectory | IsComplete | IsContainedInAList "dl_ref list"

fun holds :: "dl_heap \<Rightarrow> predicate \<Rightarrow> dl_ref \<Rightarrow> bool" where
  "holds h IsDownloadable d \<longleftrightarrow>
     dl_kind (h d) = FileDL \<and> dl_status (h d) \<noteq> COMPLETE \<and> dl_status (h d) \<noteq> DELETED"
| "holds h IsADirectory d \<longleftrightarrow> dl_kind (h d) = DirDL"
| "holds h IsComplete d \<longleftrightarrow> dl_status (h d) = COMPLETE"
| "holds h (IsContainedInAList ids) d \<longleftrightarrow> d \<in> set ids"

text \<open>\<open>typeid(P) == typeid(*predicate)\<close>: the class only, not the list an instance holds.\<close>

fun same_class :: "predicate \<Rightarrow> predicate \<Rightarrow> bool" where
  "same_class IsDownloadable IsDownloadable = True"
| "same_class IsADirectory IsADirectory = True"
| "same_class IsComplete IsComplete = True"
| "same_class (IsContainedInAList _) (IsContainedInAList _) = True"
| "same_class _ _ = False"

subsection \<open>The queue\<close>

record marker =
  m_pred :: predicate
  m_pos :: nat

record queue =
  q_downloads :: "dl_ref list"
  q_erroneous :: "dl_ref list"
  q_byTime :: "(nat option \<times> dl_ref) list"
  q_byPeer :: "(hash \<times> dl_ref) list"
  q_byName :: "(string \<times> dl_ref) list"
  q_markers :: "marker list"

definition empty_queue :: queue where
  "empty_queue = \<lparr>q_downloads = [], q_erroneous = [], q_byTime = [], q_byPeer = [],
                  q_byName = [], q_markers = []\<rparr>"

text \<open>The null time sorts before every other (\<open>QTime\<close> compares its milliseconds, -1 when null).\<close>

fun time_le :: "nat option \<Rightarrow> nat option \<Rightarrow> bool" where
  "time_le None _ = True"
| "time_le (Some _) None = False"
| "time_le (Some a) (Some b) = (a \<le> b)"

fun mm_insert :: "nat option \<Rightarrow> dl_ref \<Rightarrow> (nat option \<times> dl_ref) list \<Rightarrow> (nat option \<times> dl_ref) list" where
  "mm_insert k v [] = [(k, v)]"
| "mm_insert k v ((k', v') # r) = (if time_le k k' then (k, v) # (k', v') # r else (k', v') # mm_insert k v r)"

text \<open>\<open>QMultiMap::remove(key, value)\<close> and \<open>QMultiHash::remove(key, value)\<close> remove every such pair.\<close>

definition mm_remove :: "'k \<Rightarrow> 'v \<Rightarrow> ('k \<times> 'v) list \<Rightarrow> ('k \<times> 'v) list" where
  "mm_remove k v m = filter (\<lambda>p. p \<noteq> (k, v)) m"

text \<open>The bodies of the three loops over the markers, for one marker each.\<close>

definition markerInsert :: "dl_heap \<Rightarrow> nat \<Rightarrow> dl_ref \<Rightarrow> marker \<Rightarrow> marker" where
  "markerInsert h position d m =
     (if \<not> holds h (m_pred m) d
      then (if position \<le> m_pos m then m\<lparr>m_pos := m_pos m + 1\<rparr> else m)
      else (if position < m_pos m then m\<lparr>m_pos := position\<rparr> else m))"

definition markerRemove :: "nat \<Rightarrow> marker \<Rightarrow> marker" where
  "markerRemove position m = (if position < m_pos m then m\<lparr>m_pos := m_pos m - 1\<rparr> else m)"

definition markerMove :: "dl_heap \<Rightarrow> nat \<Rightarrow> nat \<Rightarrow> dl_ref \<Rightarrow> marker \<Rightarrow> marker" where
  "markerMove h insertPosition removePosition d m =
     (if \<not> holds h (m_pred m) d
      then (let m = (if insertPosition \<le> m_pos m then m\<lparr>m_pos := m_pos m + 1\<rparr> else m)
            in if removePosition < m_pos m then m\<lparr>m_pos := m_pos m - 1\<rparr> else m)
      else (let m = (if removePosition > m_pos m \<and> insertPosition < m_pos m
                     then m\<lparr>m_pos := insertPosition\<rparr> else m)
            in if removePosition < m_pos m \<and> insertPosition > m_pos m
               then m\<lparr>m_pos := m_pos m - 1\<rparr> else m))"

definition updateMarkersInsert :: "dl_heap \<Rightarrow> nat \<Rightarrow> dl_ref \<Rightarrow> marker list \<Rightarrow> marker list" where
  "updateMarkersInsert h position d ms = map (markerInsert h position d) ms"

definition updateMarkersRemove :: "nat \<Rightarrow> marker list \<Rightarrow> marker list" where
  "updateMarkersRemove position ms = map (markerRemove position) ms"

definition updateMarkersMove :: "dl_heap \<Rightarrow> nat \<Rightarrow> nat \<Rightarrow> dl_ref \<Rightarrow> marker list \<Rightarrow> marker list" where
  "updateMarkersMove h insertPosition removePosition d ms =
     map (markerMove h insertPosition removePosition d) ms"

definition dq_insert :: "dl_heap \<Rightarrow> nat \<Rightarrow> dl_ref \<Rightarrow> queue \<Rightarrow> queue" where
  "dq_insert h position d q =
     (let q = q\<lparr>q_markers := updateMarkersInsert h position d (q_markers q)\<rparr>;
          q = q\<lparr>q_downloads := insert_at position d (q_downloads q),
                q_byPeer := (dl_peerSourceID (h d), d) # q_byPeer q\<rparr>
      in if dl_kind (h d) = FileDL
         then q\<lparr>q_byName := (dl_name (h d), d) # q_byName q,
                q_byTime := mm_insert None d (q_byTime q)\<rparr>
         else q)"

definition dq_find :: "dl_ref \<Rightarrow> queue \<Rightarrow> nat option" where
  "dq_find d q = index_of d (q_downloads q)"

definition dq_remove :: "dl_heap \<Rightarrow> nat \<Rightarrow> queue \<Rightarrow> queue" where
  "dq_remove h position q =
     (let d = q_downloads q ! position;
          q = q\<lparr>q_markers := updateMarkersRemove position (q_markers q)\<rparr>;
          q = (if dl_kind (h d) = FileDL
               then q\<lparr>q_byTime := mm_remove (dl_lastTime (h d)) d (q_byTime q)\<rparr> else q)
      in q\<lparr>q_byName := mm_remove (dl_name (h d)) d (q_byName q),
           q_byPeer := mm_remove (dl_peerSourceID (h d)) d (q_byPeer q),
           q_downloads := remove_at position (q_downloads q),
           q_erroneous := remove1 d (q_erroneous q)\<rparr>)"

definition isAPeerSource :: "hash option \<Rightarrow> queue \<Rightarrow> bool" where
  "isAPeerSource peer q \<longleftrightarrow> (case peer of None \<Rightarrow> False | Some i \<Rightarrow> i \<in> set (map fst (q_byPeer q)))"

definition setDownloadAsErroneous :: "dl_ref \<Rightarrow> queue \<Rightarrow> queue" where
  "setDownloadAsErroneous d q = q\<lparr>q_erroneous := q_erroneous q @ [d]\<rparr>"

definition getAnErroneousDownload :: "queue \<Rightarrow> dl_ref option \<times> queue" where
  "getAnErroneousDownload q = (case q_erroneous q of
     [] \<Rightarrow> (None, q) | d # r \<Rightarrow> (Some d, q\<lparr>q_erroneous := r\<rparr>))"

definition fileDownloadTimeChanged :: "dl_heap \<Rightarrow> nat option \<Rightarrow> dl_ref \<Rightarrow> queue \<Rightarrow> queue" where
  "fileDownloadTimeChanged h oldTime d q =
     q\<lparr>q_byTime := mm_insert (dl_lastTime (h d)) d (mm_remove oldTime d (q_byTime q))\<rparr>"


subsubsection \<open>Moving downloads\<close>

datatype move_position = BEFORE | AFTER

text \<open>
  The local variables of \<open>moveDownloads\<close> and the two fields it changes: \<open>mv_ids\<close> is
  \<open>downloadIDsCopy\<close>, \<open>mv_refs\<close> is \<open>downloadIDRefsCopy\<close>, \<open>mv_ref\<close> is
  \<open>downloadIDRef\<close> (0 while it is not chosen), \<open>mv_iRef\<close> its index (\<open>None\<close> for
  \<open>-1\<close>) and \<open>mv_toMove\<close> is \<open>iToMove\<close>.
\<close>

record move_state =
  mv_ds :: "dl_ref list"
  mv_ms :: "marker list"
  mv_ids :: "dl_ref list"
  mv_refs :: "dl_ref list"
  mv_ref :: dl_ref
  mv_iRef :: "nat option"
  mv_toMove :: "nat list"

text \<open>\<open>updateMarkersMove\<close>, then \<open>downloads.insert\<close> and \<open>downloads.removeAt\<close>.\<close>

definition move_one :: "dl_heap \<Rightarrow> nat \<Rightarrow> nat \<Rightarrow> dl_ref \<Rightarrow> move_state \<Rightarrow> move_state" where
  "move_one h whereToInsert whereToRemove d s =
     s\<lparr>mv_ms := updateMarkersMove h whereToInsert whereToRemove d (mv_ms s),
       mv_ds := remove_at whereToRemove (insert_at whereToInsert d (mv_ds s))\<rparr>"

text \<open>The loop over \<open>iToMove\<close>, run when the reference is met; \<open>shift\<close> is counted upwards.\<close>

fun move_flush :: "dl_heap \<Rightarrow> move_position \<Rightarrow> nat \<Rightarrow> nat \<Rightarrow> nat list \<Rightarrow> move_state \<Rightarrow> nat \<times> move_state" where
  "move_flush h position iRef shift [] s = (iRef, s)"
| "move_flush h position iRef shift (j # js) s =
     (if j = iRef \<and> position = BEFORE then move_flush h position (iRef + 1) shift js s
      else (let whereToInsert = (if position = AFTER then iRef + 1 else iRef);
                whereToRemove = j - shift
            in move_flush h position iRef (shift + 1) js
                 (move_one h whereToInsert whereToRemove (mv_ds s ! whereToRemove) s)))"

text \<open>The search of a reference among \<open>downloadIDRefsCopy\<close>.\<close>

definition move_search :: "move_position \<Rightarrow> dl_ref \<Rightarrow> move_state \<Rightarrow> move_state" where
  "move_search position d s =
     (if mv_ref s \<noteq> 0 then s
      else (case index_of d (mv_refs s) of
              None \<Rightarrow> s
            | Some k \<Rightarrow>
                (if position = BEFORE then s\<lparr>mv_ref := d\<rparr>
                 else if length (mv_refs s) = 1 then s\<lparr>mv_ref := hd (mv_refs s)\<rparr>
                 else s\<lparr>mv_refs := remove_at k (mv_refs s)\<rparr>)))"

definition move_at_ref :: "dl_heap \<Rightarrow> move_position \<Rightarrow> nat \<Rightarrow> move_state \<Rightarrow> move_state" where
  "move_at_ref h position i s =
     (let s = move_search position (mv_ds s ! i) s
      in if mv_ds s ! i = mv_ref s
         then (let (iRef, s) = move_flush h position i 0 (mv_toMove s) s
               in s\<lparr>mv_iRef := Some iRef, mv_toMove := []\<rparr>)
         else s)"

definition move_step :: "dl_heap \<Rightarrow> move_position \<Rightarrow> nat \<Rightarrow> move_state \<Rightarrow> move_state" where
  "move_step h position i s =
     (case index_of (mv_ds s ! i) (mv_ids s) of
        Some j \<Rightarrow>
          (case mv_iRef s of
             Some iRef \<Rightarrow>
               (let whereToInsert = (if position = BEFORE then iRef else iRef + 1)
                in (move_one h whereToInsert (i + 1) (mv_ds s ! i) s)\<lparr>mv_iRef := Some (iRef + 1)\<rparr>)
           | None \<Rightarrow>
               move_at_ref h position i
                 (s\<lparr>mv_toMove := mv_toMove s @ [i], mv_ids := remove_at j (mv_ids s)\<rparr>))
      | None \<Rightarrow> move_at_ref h position i s)"

definition move_init :: "dl_ref list \<Rightarrow> dl_ref list \<Rightarrow> queue \<Rightarrow> move_state" where
  "move_init refs ids q =
     \<lparr>mv_ds = q_downloads q, mv_ms = q_markers q, mv_ids = ids, mv_refs = refs,
      mv_ref = (if length refs = 1 then hd refs else 0), mv_iRef = None, mv_toMove = []\<rparr>"

definition moveDownloads :: "dl_heap \<Rightarrow> dl_ref list \<Rightarrow> dl_ref list \<Rightarrow> move_position \<Rightarrow> queue \<Rightarrow> queue" where
  "moveDownloads h downloadIDRefs downloadIDs position q =
     (if downloadIDRefs = [] \<or> downloadIDs = [] then q
      else (let s = fold (move_step h position) [0..<length (q_downloads q)]
                      (move_init downloadIDRefs downloadIDs q)
            in q\<lparr>q_downloads := mv_ds s, q_markers := mv_ms s\<rparr>))"

subsubsection \<open>Removing, pausing and looking up\<close>

text \<open>
  The iterators \<open>i\<close> and \<open>j\<close> of \<open>removeDownloads\<close> are \<open>i\<close> and
  \<open>i + n\<close>: the \<open>n\<close> downloads between them are waiting to be erased.
  \<open>rm_deleted\<close> is \<open>downloadsToDelete\<close>: after the loop the code calls
  \<open>remove()\<close> on each of them, which frees it.
\<close>

record rm_state =
  rm_q :: queue
  rm_h :: dl_heap
  rm_i :: nat
  rm_n :: nat
  rm_position :: nat
  rm_changed :: bool
  rm_deleted :: "dl_ref list"

definition setStatus :: "status \<Rightarrow> dl_ref \<Rightarrow> dl_heap \<Rightarrow> dl_heap" where
  "setStatus st d h = h(d := (h d)\<lparr>dl_status := st\<rparr>)"

definition rm_matching :: "rm_state \<Rightarrow> rm_state" where
  "rm_matching s =
     (let q = rm_q s; d = q_downloads q ! (rm_i s + rm_n s);
          h = setStatus DELETED d (rm_h s);
          q = (if dl_kind (h d) = FileDL
               then q\<lparr>q_byName := mm_remove (dl_name (h d)) d (q_byName q),
                      q_byTime := mm_remove (dl_lastTime (h d)) d (q_byTime q)\<rparr>
               else q);
          q = q\<lparr>q_byPeer := mm_remove (dl_peerSourceID (h d)) d (q_byPeer q),
                q_erroneous := remove1 d (q_erroneous q),
                q_markers := updateMarkersRemove (rm_position s) (q_markers q)\<rparr>
      in s\<lparr>rm_q := q, rm_h := h, rm_n := rm_n s + 1, rm_changed := True,
           rm_deleted := rm_deleted s @ [d]\<rparr>)"

definition erase :: "nat \<Rightarrow> nat \<Rightarrow> queue \<Rightarrow> queue" where
  "erase i n q = q\<lparr>q_downloads := take i (q_downloads q) @ drop (i + n) (q_downloads q)\<rparr>"

lemma q_downloads_rm_matching [simp]:
  "q_downloads (rm_q (rm_matching s)) = q_downloads (rm_q s)"
  "rm_i (rm_matching s) = rm_i s" "rm_n (rm_matching s) = Suc (rm_n s)"
  by (simp_all add: rm_matching_def Let_def)

function rm_loop :: "predicate \<Rightarrow> rm_state \<Rightarrow> rm_state" where
  "rm_loop p s =
     (if rm_i s + rm_n s < length (q_downloads (rm_q s))
      then (if holds (rm_h s) p (q_downloads (rm_q s) ! (rm_i s + rm_n s))
            then rm_loop p (rm_matching s)
            else if rm_n s \<noteq> 0
            then rm_loop p (s\<lparr>rm_q := erase (rm_i s) (rm_n s) (rm_q s), rm_n := 0\<rparr>)
            else rm_loop p (s\<lparr>rm_i := rm_i s + 1, rm_position := rm_position s + 1\<rparr>))
      else (if rm_n s \<noteq> 0 then s\<lparr>rm_q := erase (rm_i s) (rm_n s) (rm_q s), rm_n := 0\<rparr> else s))"
  by pat_completeness auto
termination
  by (relation "measure (\<lambda>(p, s). 2 * (length (q_downloads (rm_q s)) - (rm_i s + rm_n s))
                                   + (if rm_n s \<noteq> 0 then 1 else 0))")
    (auto simp: erase_def)

declare rm_loop.simps [simp del]

definition removeDownloads :: "dl_heap \<Rightarrow> predicate \<Rightarrow> queue \<Rightarrow> rm_state" where
  "removeDownloads h p q =
     rm_loop p \<lparr>rm_q = q, rm_h = h, rm_i = 0, rm_n = 0, rm_position = 0, rm_changed = False,
               rm_deleted = []\<rparr>"

text \<open>
  \<open>pauseDownloads\<close>; \<open>pause\<close> is the virtual \<open>Download::pause\<close>, which changes
  the object and tells whether its state changed.
\<close>

fun pause_loop :: "(bool \<Rightarrow> dl_ref \<Rightarrow> dl_heap \<Rightarrow> bool \<times> dl_heap) \<Rightarrow> bool \<Rightarrow> dl_ref list \<Rightarrow> dl_ref list
                    \<Rightarrow> bool \<Rightarrow> dl_heap \<Rightarrow> bool \<times> dl_heap" where
  "pause_loop pause b remaining [] changed h = (changed, h)"
| "pause_loop pause b remaining (d # ds) changed h =
     (if remaining = [] then (changed, h)
      else if d \<in> set remaining
      then (let (c, h) = pause b d h in pause_loop pause b (removeAll d remaining) ds (changed \<or> c) h)
      else pause_loop pause b remaining ds changed h)"

definition pauseDownloads :: "(bool \<Rightarrow> dl_ref \<Rightarrow> dl_heap \<Rightarrow> bool \<times> dl_heap) \<Rightarrow> dl_ref list \<Rightarrow> bool
                               \<Rightarrow> queue \<Rightarrow> dl_heap \<Rightarrow> bool \<times> dl_heap" where
  "pauseDownloads pause ids b q h = pause_loop pause b ids (q_downloads q) False h"

text \<open>An unset shared entry reads as the empty hash.\<close>

definition shared_hash :: "hash option \<Rightarrow> hash" where
  "shared_hash o' = (case o' of None \<Rightarrow> [] | Some x \<Rightarrow> x)"

definition isEntryAlreadyQueued :: "dl_heap \<Rightarrow> string \<Rightarrow> string \<Rightarrow> hash option \<Rightarrow> queue \<Rightarrow> bool" where
  "isEntryAlreadyQueued h name path shared q \<longleftrightarrow>
     list_ex (\<lambda>(k, d). k = name \<and> dl_path (h d) = path \<and>
                (shared = None \<or> shared_hash (dl_shared (h d)) = shared_hash shared)) (q_byName q)"


subsubsection \<open>Scanning\<close>

text \<open>
  A \<open>ScanningIterator<P>\<close> is the index of its marker and its position.  The constructor
  takes the first marker whose predicate has class \<open>P\<close>, or appends a new one.
\<close>

fun find_marker :: "predicate \<Rightarrow> nat \<Rightarrow> marker list \<Rightarrow> nat option" where
  "find_marker p k [] = None"
| "find_marker p k (m # ms) = (if same_class p (m_pred m) then Some k else find_marker p (Suc k) ms)"

definition scan_start :: "predicate \<Rightarrow> queue \<Rightarrow> (nat \<times> nat) \<times> queue" where
  "scan_start p q =
     (case find_marker p 0 (q_markers q) of
        Some k \<Rightarrow> ((k, m_pos (q_markers q ! k)), q)
      | None \<Rightarrow> ((length (q_markers q), 0), q\<lparr>q_markers := q_markers q @ [\<lparr>m_pred = p, m_pos = 0\<rparr>]\<rparr>))"

definition bump_marker :: "nat \<Rightarrow> marker list \<Rightarrow> marker list" where
  "bump_marker k ms = ms[k := (ms ! k)\<lparr>m_pos := m_pos (ms ! k) + 1\<rparr>]"

function scan_next :: "dl_heap \<Rightarrow> nat \<Rightarrow> nat \<Rightarrow> queue \<Rightarrow> dl_ref option \<times> nat \<times> queue" where
  "scan_next h k position q =
     (if position < length (q_downloads q)
      then (let d = q_downloads q ! position; m = q_markers q ! k
            in if \<not> holds h (m_pred m) d
               then scan_next h k (position + 1)
                      (if position = m_pos m then q\<lparr>q_markers := bump_marker k (q_markers q)\<rparr> else q)
               else (Some d, position + 1, q))
      else (None, position, q))"
  by pat_completeness auto
termination
  by (relation "measure (\<lambda>(h, k, position, q). length (q_downloads q) - position)") auto

declare scan_next.simps [simp del]

text \<open>The loop of a client: \<open>next()\<close> until it returns no download.\<close>

fun scan_all :: "nat \<Rightarrow> dl_heap \<Rightarrow> nat \<Rightarrow> nat \<Rightarrow> queue \<Rightarrow> dl_ref list \<times> queue" where
  "scan_all 0 h k position q = ([], q)"
| "scan_all (Suc fuel) h k position q =
     (case scan_next h k position q of
        (None, _, q) \<Rightarrow> ([], q)
      | (Some d, position, q) \<Rightarrow> (let (ds, q) = scan_all fuel h k position q in (d # ds, q)))"

definition scan_queue :: "dl_heap \<Rightarrow> predicate \<Rightarrow> queue \<Rightarrow> dl_ref list \<times> queue" where
  "scan_queue h p q =
     (let ((k, position), q) = scan_start p q
      in scan_all (Suc (length (q_downloads q))) h k position q)"

subsection \<open>Markers\<close>

text \<open>
  What a marker promises: no download in front of its position satisfies its predicate, so a scan
  may start there.
\<close>

definition marker_ok :: "dl_heap \<Rightarrow> dl_ref list \<Rightarrow> marker \<Rightarrow> bool" where
  "marker_ok h ds m \<longleftrightarrow> m_pos m \<le> length ds \<and> (\<forall>d \<in> set (take (m_pos m) ds). \<not> holds h (m_pred m) d)"

definition markers_ok :: "dl_heap \<Rightarrow> dl_ref list \<Rightarrow> marker list \<Rightarrow> bool" where
  "markers_ok h ds ms \<longleftrightarrow> (\<forall>m \<in> set ms. marker_ok h ds m)"

lemma markers_ok_map:
  assumes "markers_ok h ds ms" and "\<And>m. marker_ok h ds m \<Longrightarrow> marker_ok h' ds' (f m)"
  shows "markers_ok h' ds' (map f ms)"
  using assms by (auto simp: markers_ok_def)

text \<open>A position inside \<open>X @ Y\<close> is in \<open>X\<close> or a distance \<open>k\<close> behind it.\<close>

lemma pos_cases:
  fixes n a :: nat
  obtains "n < a" | k where "n = a + k"
  by (metis le_Suc_ex not_le)

lemma markers_ok_insert:
  assumes ok: "markers_ok h ds ms" and le: "position \<le> length ds"
  shows "markers_ok h (insert_at position d ds) (updateMarkersInsert h position d ms)"
proof -
  obtain X Y where ds: "ds = X @ Y" and pos: "position = length X"
    using le by (metis append_take_drop_id length_take min.absorb2)
  have "marker_ok h (X @ d # Y) (markerInsert h (length X) d m)" if "marker_ok h (X @ Y) m" for m
    by (rule pos_cases [of "m_pos m" "length X"]) (use that in \<open>auto simp: marker_ok_def markerInsert_def\<close>)
  then show ?thesis
    unfolding updateMarkersInsert_def
    by (intro markers_ok_map [OF ok]) (simp add: ds pos insert_at_def)
qed

lemma markers_ok_remove:
  assumes ok: "markers_ok h ds ms" and lt: "position < length ds"
  shows "markers_ok h (remove_at position ds) (updateMarkersRemove position ms)"
proof -
  obtain X d Y where ds: "ds = X @ d # Y" and pos: "position = length X"
    using lt by (metis id_take_nth_drop length_take min.absorb2 less_imp_le)
  have "marker_ok h (X @ Y) (markerRemove (length X) m)" if "marker_ok h (X @ d # Y) m" for m
    by (rule pos_cases [of "m_pos m" "Suc (length X)"])
      (use that in \<open>auto simp: marker_ok_def markerRemove_def\<close>)
  then show ?thesis
    unfolding updateMarkersRemove_def
    by (intro markers_ok_map [OF ok]) (simp add: ds pos)
qed

text \<open>
  The two shapes of \<open>move_one\<close>: a download taken from behind the insertion point (it is
  inserted at \<open>length X\<close>, then removed one place further than it was), and one taken from in
  front of it.
\<close>

lemma move_back_list:
  "remove_at (Suc (length X + length Y)) (insert_at (length X) d (X @ Y @ d # Z)) = X @ d # Y @ Z"
  by (simp add: insert_at_def remove_at_def)

lemma move_forth_list:
  "remove_at (length X) (insert_at (Suc (length X + length Y)) d (X @ d # Y @ Z)) = X @ Y @ d # Z"
  by (simp add: insert_at_def remove_at_def)

lemma marker_ok_move_back:
  assumes m: "marker_ok h (X @ Y @ d # Z) m"
  shows "marker_ok h (X @ d # Y @ Z) (markerMove h (length X) (Suc (length X + length Y)) d m)"
proof (rule pos_cases [of "m_pos m" "length X"])
  fix k assume k: "m_pos m = length X + k"
  show ?thesis
    by (rule pos_cases [of k "length Y"])
      (use m k in \<open>auto simp: marker_ok_def markerMove_def take_Cons' split: if_splits\<close>)
qed (use m in \<open>auto simp: marker_ok_def markerMove_def\<close>)

lemma marker_ok_move_forth:
  assumes m: "marker_ok h (X @ d # Y @ Z) m"
  shows "marker_ok h (X @ Y @ d # Z) (markerMove h (Suc (length X + length Y)) (length X) d m)"
proof (rule pos_cases [of "m_pos m" "Suc (length X)"])
  fix k assume k: "m_pos m = Suc (length X) + k"
  show ?thesis
    by (rule pos_cases [of k "length Y"])
      (use m k in \<open>auto simp: marker_ok_def markerMove_def Let_def take_Cons split: nat.splits\<close>)
qed (use m in \<open>auto simp: marker_ok_def markerMove_def\<close>)

lemma markers_ok_move_back:
  "markers_ok h (X @ Y @ d # Z) ms \<Longrightarrow>
   markers_ok h (X @ d # Y @ Z) (updateMarkersMove h (length X) (Suc (length X + length Y)) d ms)"
  unfolding updateMarkersMove_def by (erule markers_ok_map) (rule marker_ok_move_back)

lemma markers_ok_move_forth:
  "markers_ok h (X @ d # Y @ Z) ms \<Longrightarrow>
   markers_ok h (X @ Y @ d # Z) (updateMarkersMove h (Suc (length X + length Y)) (length X) d ms)"
  unfolding updateMarkersMove_def by (erule markers_ok_map) (rule marker_ok_move_forth)


subsection \<open>What moving does\<close>

text \<open>
  The specification of \<open>moveDownloads\<close>: the moved downloads, in queue order, stand together
  before or after the reference \<open>r\<close>; when the reference is itself moved, at its place.
\<close>

definition chosen_ref :: "move_position \<Rightarrow> dl_ref list \<Rightarrow> dl_ref list \<Rightarrow> dl_ref" where
  "chosen_ref position refs ds =
     (let found = filter (\<lambda>d. d \<in> set refs) ds in if position = BEFORE then hd found else last found)"

definition move_spec :: "move_position \<Rightarrow> dl_ref \<Rightarrow> dl_ref set \<Rightarrow> dl_ref list \<Rightarrow> dl_ref list" where
  "move_spec position r ids ds =
     (let front = filter (\<lambda>d. d \<notin> ids) (takeWhile (\<lambda>d. d \<noteq> r) ds);
          back = filter (\<lambda>d. d \<notin> ids) (tl (dropWhile (\<lambda>d. d \<noteq> r) ds));
          moved = filter (\<lambda>d. d \<in> ids) ds
      in if r \<in> ids then front @ moved @ back
         else if position = BEFORE then front @ moved @ r # back
         else front @ r # moved @ back)"

text \<open>\<open>iToMove\<close>: the indices, from \<open>k\<close> on, of the elements that are to be moved.\<close>

fun positions :: "('a \<Rightarrow> bool) \<Rightarrow> nat \<Rightarrow> 'a list \<Rightarrow> nat list" where
  "positions P k [] = []"
| "positions P k (x # xs) = (if P x then [k] else []) @ positions P (Suc k) xs"

lemma positions_append: "positions P k (xs @ ys) = positions P k xs @ positions P (k + length xs) ys"
  by (induction xs arbitrary: k) auto

lemma positions_less: "j \<in> set (positions P k xs) \<Longrightarrow> j < k + length xs"
  by (induction xs arbitrary: k) (fastforce split: if_splits)+

text \<open>
  The loop over \<open>iToMove\<close>: \<open>N\<close> is the reference, if it stays in front, with the
  downloads moved so far.
\<close>

lemma move_flush_moves:
  assumes "mv_ds s = X @ Y @ N @ W" and "markers_ok h (mv_ds s) (mv_ms s)"
    and "(if position = AFTER then iRef + 1 else iRef) = length X + length Y + length N"
    and "c \<le> length N"
  shows "\<exists>ms. move_flush h position iRef c (positions P (length X + c) Y @ js) s =
     move_flush h position iRef (c + length (filter P Y)) js
       (s\<lparr>mv_ds := X @ filter (\<lambda>d. \<not> P d) Y @ N @ filter P Y @ W, mv_ms := ms\<rparr>) \<and>
     markers_ok h (X @ filter (\<lambda>d. \<not> P d) Y @ N @ filter P Y @ W) ms"
  using assms
proof (induction Y arbitrary: X N c s)
  case Nil
  then have "s = s\<lparr>mv_ds := X @ N @ W, mv_ms := mv_ms s\<rparr>" by simp
  with Nil show ?case by (metis append_Nil filter.simps(1) list.size(3) positions.simps(1) add_0_right)
next
  case (Cons y Y)
  show ?case
  proof (cases "P y")
    case False
    with Cons.IH [of s "X @ [y]" N c] Cons.prems show ?thesis by (auto simp: add.commute)
  next
    case True
    let ?ip = "length X + Suc (length Y) + length N"
    have js: "positions P (length X + c) (y # Y) = (length X + c) # positions P (length X + Suc c) Y"
      using True by simp
    have ins: "(if position = AFTER then iRef + 1 else iRef) = ?ip" using Cons.prems by simp
    have noskip: "\<not> (length X + c = iRef \<and> position = BEFORE)" using Cons.prems(3,4) by auto
    have nth: "mv_ds s ! length X = y" using Cons.prems(1) by (simp add: nth_append)
    define s' where "s' = move_one h ?ip (length X) y s"
    have ip: "?ip = Suc (length X + length (Y @ N))" by simp
    have ds': "mv_ds s' = X @ Y @ (N @ [y]) @ W"
      using Cons.prems(1) move_forth_list [of X "Y @ N" y W]
      unfolding s'_def move_one_def ip by simp
    have "markers_ok h (X @ y # (Y @ N) @ W) (mv_ms s)" using Cons.prems(1,2) by simp
    then have ms': "markers_ok h (mv_ds s') (mv_ms s')"
      unfolding ds' unfolding s'_def move_one_def ip using markers_ok_move_forth by fastforce
    have "move_flush h position iRef c (positions P (length X + c) (y # Y) @ js) s =
        move_flush h position iRef (Suc c) (positions P (length X + Suc c) Y @ js) s'"
      unfolding js s'_def using noskip ins nth by (auto simp: Let_def)
    moreover have "\<exists>ms. move_flush h position iRef (Suc c) (positions P (length X + Suc c) Y @ js) s' =
       move_flush h position iRef (Suc c + length (filter P Y)) js
         (s'\<lparr>mv_ds := X @ filter (\<lambda>d. \<not> P d) Y @ (N @ [y]) @ filter P Y @ W, mv_ms := ms\<rparr>) \<and>
       markers_ok h (X @ filter (\<lambda>d. \<not> P d) Y @ (N @ [y]) @ filter P Y @ W) ms"
      using Cons.IH [OF ds' ms', of "Suc c"] Cons.prems by simp
    ultimately show ?thesis using True by (auto simp: s'_def move_one_def)
  qed
qed


text \<open>
  The reference \<open>r\<close> is still ahead, and the search will stop at it: it is already chosen, or
  it is the first (\<open>BEFORE\<close>) or last (\<open>AFTER\<close>) of the candidates that are left.
\<close>

definition ref_ahead :: "move_position \<Rightarrow> dl_ref \<Rightarrow> dl_ref list \<Rightarrow> move_state \<Rightarrow> bool" where
  "ref_ahead position r rest s \<longleftrightarrow> r \<in> set rest \<and> r \<noteq> 0 \<and>
     (mv_ref s = r
      \<or> mv_ref s = 0 \<and> position = BEFORE \<and> filter (\<lambda>d. d \<in> set (mv_refs s)) rest \<noteq> []
          \<and> r = hd (filter (\<lambda>d. d \<in> set (mv_refs s)) rest)
      \<or> mv_ref s = 0 \<and> position = AFTER \<and> distinct (mv_refs s) \<and> mv_refs s \<noteq> []
          \<and> set (mv_refs s) \<subseteq> set rest \<and> r = last (filter (\<lambda>d. d \<in> set (mv_refs s)) rest))"

lemma move_search_frame [simp]:
  "mv_ds (move_search position d s) = mv_ds s" "mv_ms (move_search position d s) = mv_ms s"
  "mv_ids (move_search position d s) = mv_ids s" "mv_iRef (move_search position d s) = mv_iRef s"
  "mv_toMove (move_search position d s) = mv_toMove s"
  by (auto simp: move_search_def split: option.splits)

lemma move_search_chosen: "mv_ref s \<noteq> 0 \<Longrightarrow> move_search position d s = s"
  by (simp add: move_search_def)

lemma move_search_notin: "d \<notin> set (mv_refs s) \<Longrightarrow> move_search position d s = s"
  by (simp add: move_search_def)

lemma filter_member_subset: "set xs \<subseteq> set ys \<Longrightarrow> xs \<noteq> [] \<Longrightarrow> filter (\<lambda>d. d \<in> set xs) ys \<noteq> []"
  by (auto simp: filter_empty_conv neq_Nil_conv)

text \<open>The three ways in which the reference can be ahead of the head of the rest.\<close>

lemma ref_ahead_cases:
  assumes "ref_ahead position r rest s"
  obtains (chosen) "mv_ref s = r" "r \<in> set rest" "r \<noteq> 0"
  | (before) "mv_ref s = 0" "position = BEFORE" "filter (\<lambda>x. x \<in> set (mv_refs s)) rest \<noteq> []"
      "hd (filter (\<lambda>x. x \<in> set (mv_refs s)) rest) = r" "r \<in> set rest" "r \<noteq> 0"
  | (after) "mv_ref s = 0" "position = AFTER" "distinct (mv_refs s)" "mv_refs s \<noteq> []"
      "set (mv_refs s) \<subseteq> set rest" "last (filter (\<lambda>x. x \<in> set (mv_refs s)) rest) = r"
      "r \<in> set rest" "r \<noteq> 0"
  using assms unfolding ref_ahead_def by metis

lemma move_search_hit:
  assumes "ref_ahead position d (d # rest) s" "distinct (d # rest)"
  shows "mv_ref (move_search position d s) = d"
  using assms(1)
proof (cases rule: ref_ahead_cases)
  case chosen
  then show ?thesis by (simp add: move_search_chosen)
next
  case before
  then have "d \<in> set (mv_refs s)"
    by (metis (no_types, lifting) hd_in_set mem_Collect_eq set_filter Int_iff)
  then obtain k where "index_of d (mv_refs s) = Some k" by (metis index_of_in_set)
  with before(1,2) show ?thesis by (simp add: move_search_def)
next
  case after
  have none: "filter (\<lambda>x. x \<in> set (mv_refs s)) rest = []"
  proof (rule ccontr)
    assume ne: "filter (\<lambda>x. x \<in> set (mv_refs s)) rest \<noteq> []"
    then have "last (filter (\<lambda>x. x \<in> set (mv_refs s)) (d # rest)) = last (filter (\<lambda>x. x \<in> set (mv_refs s)) rest)"
      by simp
    with last_in_set [OF ne] after(6) assms(2) show False by simp
  qed
  then have "set (mv_refs s) \<subseteq> {d}" using after(5) by (auto simp: filter_empty_conv)
  with after(3,4) have refs: "mv_refs s = [d]"
    by (metis distinct.simps(2) empty_iff insert_iff list.exhaust list.set(1) list.set_intros(1)
        list.set_intros(2) set_empty subset_singletonD neq_Nil_conv)
  with after(1,2) show ?thesis by (simp add: move_search_def)
qed

lemma move_search_miss:
  assumes ahead: "ref_ahead position r (d # rest) s" and dist: "distinct (d # rest)"
    and ne: "r \<noteq> d" "d \<noteq> 0"
  shows "ref_ahead position r rest (move_search position d s) \<and> mv_ref (move_search position d s) \<noteq> d"
  using ahead
proof (cases rule: ref_ahead_cases)
  case chosen
  with ne show ?thesis by (simp add: move_search_chosen ref_ahead_def)
next
  case before
  then have "d \<notin> set (mv_refs s)" using ne by auto
  moreover from this have "filter (\<lambda>x. x \<in> set (mv_refs s)) (d # rest) = filter (\<lambda>x. x \<in> set (mv_refs s)) rest"
    by simp
  ultimately show ?thesis using before ne by (simp add: move_search_notin ref_ahead_def)
next
  case after
  show ?thesis
  proof (cases "d \<in> set (mv_refs s)")
    case False
    then have "set (mv_refs s) \<subseteq> set rest" "filter (\<lambda>x. x \<in> set (mv_refs s)) (d # rest) = filter (\<lambda>x. x \<in> set (mv_refs s)) rest"
      using after(5) by auto
    with after False ne show ?thesis by (simp add: move_search_notin ref_ahead_def)
  next
    case True
    then obtain k where k: "index_of d (mv_refs s) = Some k" by (metis index_of_in_set)
    have r: "r \<in> set (mv_refs s)"
      using last_in_set [of "filter (\<lambda>x. x \<in> set (mv_refs s)) (d # rest)"] after(6) True by auto
    have len: "length (mv_refs s) \<noteq> Suc 0" using True r ne(1) by (auto simp: length_Suc_conv)
    have refs: "set (remove1 d (mv_refs s)) = set (mv_refs s) - {d}" using after(3) by (rule set_remove1_eq)
    have same: "filter (\<lambda>x. x \<in> set (remove1 d (mv_refs s))) rest = filter (\<lambda>x. x \<in> set (mv_refs s)) rest"
      unfolding refs using dist by (intro filter_cong) auto
    have nonempty: "filter (\<lambda>x. x \<in> set (mv_refs s)) rest \<noteq> []"
      using r after(7) ne(1) by (auto simp: filter_empty_conv)
    then have "last (filter (\<lambda>x. x \<in> set (mv_refs s)) rest) = r" using after(6) True by simp
    moreover have "r \<in> set (remove1 d (mv_refs s))" unfolding refs using r ne(1) by simp
    then have "remove1 d (mv_refs s) \<noteq> []" by (metis list.distinct(1) list.set_cases)
    moreover have "move_search position d s = s\<lparr>mv_refs := remove1 d (mv_refs s)\<rparr>"
      using k len after(1,2) by (simp add: move_search_def remove_at_index_of)
    ultimately show ?thesis
      using after(1-3,5,7,8) ne refs same unfolding ref_ahead_def by fastforce
  qed
qed

text \<open>
  After the reference: \<open>L\<close> ends where the next moved download goes and \<open>Q\<close> is what
  the scan has left in place behind it.
\<close>

lemma move_after_ref:
  assumes "mv_ds s = L @ Q @ rest" and "markers_ok h (mv_ds s) (mv_ms s)"
    and "mv_ref s \<noteq> 0" and "mv_ref s \<notin> set rest"
    and "mv_iRef s = Some iRef" and "(if position = BEFORE then iRef else iRef + 1) = length L"
    and "\<forall>d \<in> set rest. d \<in> set (mv_ids s) \<longleftrightarrow> P d"
  shows "mv_ds (fold (move_step h position) [length (L @ Q)..<length (L @ Q) + length rest] s) =
           L @ filter P rest @ Q @ filter (\<lambda>d. \<not> P d) rest \<and>
         markers_ok h (L @ filter P rest @ Q @ filter (\<lambda>d. \<not> P d) rest)
           (mv_ms (fold (move_step h position) [length (L @ Q)..<length (L @ Q) + length rest] s))"
  using assms
proof (induction rest arbitrary: L Q iRef s)
  case Nil
  then show ?case by simp
next
  case (Cons d rest)
  have upt: "[length (L @ Q)..<length (L @ Q) + length (d # rest)] =
     length (L @ Q) # [Suc (length (L @ Q))..<Suc (length (L @ Q)) + length rest]"
    by (simp add: upt_conv_Cons del: upt_Suc)
  have nth: "mv_ds s ! length (L @ Q) = d" using Cons.prems(1) by (simp add: nth_append)
  show ?case
  proof (cases "P d")
    case False
    then have "index_of d (mv_ids s) = None" using Cons.prems(7) by simp
    then have "move_step h position (length (L @ Q)) s = s"
      using nth Cons.prems(3,4) by (auto simp: move_step_def move_at_ref_def move_search_chosen Let_def)
    then show ?thesis
      using Cons.IH [of s L "Q @ [d]" iRef] Cons.prems False unfolding upt by simp
  next
    case True
    then obtain j where j: "index_of d (mv_ids s) = Some j"
      using Cons.prems(7) by (metis index_of_in_set list.set_intros(1))
    define s' where "s' = (move_one h (length L) (Suc (length L + length Q)) d s)\<lparr>mv_iRef := Some (iRef + 1)\<rparr>"
    have step: "move_step h position (length L + length Q) s = s'"
      using nth j Cons.prems(5,6) by (auto simp: move_step_def s'_def Let_def split: if_splits)
    have ds': "mv_ds s' = (L @ [d]) @ Q @ rest"
      using Cons.prems(1) move_back_list [of L Q d rest] by (simp add: s'_def move_one_def)
    moreover have "markers_ok h (mv_ds s') (mv_ms s')"
      unfolding ds' using markers_ok_move_back [of h L Q d rest "mv_ms s"] Cons.prems(1,2)
      by (simp add: s'_def move_one_def)
    moreover have "mv_ref s' = mv_ref s" "mv_ids s' = mv_ids s" "mv_iRef s' = Some (iRef + 1)"
      by (simp_all add: s'_def move_one_def)
    ultimately show ?thesis
      using Cons.IH [of s' "L @ [d]" Q "iRef + 1"] Cons.prems True unfolding upt
      by (simp add: step del: upt_Suc split: if_splits)
  qed
qed

text \<open>The step at the reference: what has been collected so far is put around it.\<close>

lemma move_at_hit:
  assumes ds: "mv_ds s = seen @ r # rest" and ok: "markers_ok h (mv_ds s) (mv_ms s)"
    and ref: "mv_ref (move_search position r s) = r"
    and toMove: "mv_toMove s = positions P 0 (seen @ (if P r then [r] else []))"
    and s': "s' = move_at_ref h position (length seen) s"
    and L: "L = filter (\<lambda>d. \<not> P d) seen @ (if position = AFTER \<and> \<not> P r then [r] else [])
           @ filter P seen @ (if P r then [r] else [])"
    and Q: "Q = (if position = BEFORE \<and> \<not> P r then [r] else [])"
  shows "\<exists>iRef. mv_ds s' = L @ Q @ rest \<and> markers_ok h (mv_ds s') (mv_ms s') \<and>
     mv_ref s' = r \<and> mv_ids s' = mv_ids s \<and> mv_iRef s' = Some iRef \<and>
     (if position = BEFORE then iRef else iRef + 1) = length L \<and> length (L @ Q) = Suc (length seen)"
proof -
  define t where "t = move_search position r s"
  have nth: "mv_ds s ! length seen = r" by (simp add: ds)
  have t: "mv_ds t = seen @ r # rest" "markers_ok h (mv_ds t) (mv_ms t)" "mv_ref t = r"
    "mv_ids t = mv_ids s" "mv_toMove t = mv_toMove s"
    using ds ok ref by (simp_all add: t_def)
  have s'_eq: "s' = (let (iRef, u) = move_flush h position (length seen) 0 (mv_toMove s) t
                     in u\<lparr>mv_iRef := Some iRef, mv_toMove := []\<rparr>)"
    using t nth by (simp add: s' move_at_ref_def t_def [symmetric] Let_def)
  have len: "length (filter P seen) + length (filter (\<lambda>d. \<not> P d) seen) = length seen"
    by (simp add: sum_length_filter_compl)
  show ?thesis
  proof (cases "position = AFTER \<and> P r")
    case True
    have pos: "positions P (length ([] :: dl_ref list) + 0) (seen @ [r]) @ [] = mv_toMove s"
      using toMove True by simp
    have "\<exists>ms. move_flush h position (length seen) 0 (mv_toMove s) t =
        move_flush h position (length seen) (0 + length (filter P (seen @ [r]))) []
          (t\<lparr>mv_ds := [] @ filter (\<lambda>d. \<not> P d) (seen @ [r]) @ [] @ filter P (seen @ [r]) @ rest, mv_ms := ms\<rparr>) \<and>
        markers_ok h ([] @ filter (\<lambda>d. \<not> P d) (seen @ [r]) @ [] @ filter P (seen @ [r]) @ rest) ms"
      unfolding pos [symmetric]
      by (rule move_flush_moves) (use t True in auto)
    then obtain ms where "move_flush h position (length seen) 0 (mv_toMove s) t =
        (length seen, t\<lparr>mv_ds := filter (\<lambda>d. \<not> P d) seen @ filter P seen @ r # rest, mv_ms := ms\<rparr>)"
      and "markers_ok h (filter (\<lambda>d. \<not> P d) seen @ filter P seen @ r # rest) ms"
      using True by auto
    moreover have "length (filter (\<lambda>d. \<not> P d) seen) + length (filter P seen) = length seen" using len by simp
    ultimately show ?thesis using True t(3,4) by (simp add: s'_eq L Q)
  next
    case False
    define N where "N = (if position = AFTER then [r] else [])"
    define W where "W = (if position = AFTER then rest else r # rest)"
    have js: "mv_toMove s = positions P (length ([] :: dl_ref list) + 0) seen @ (if P r then [length seen] else [])"
      using toMove by (simp add: positions_append)
    have "\<exists>ms. move_flush h position (length seen) 0 (mv_toMove s) t =
        move_flush h position (length seen) (0 + length (filter P seen)) (if P r then [length seen] else [])
          (t\<lparr>mv_ds := [] @ filter (\<lambda>d. \<not> P d) seen @ N @ filter P seen @ W, mv_ms := ms\<rparr>) \<and>
        markers_ok h ([] @ filter (\<lambda>d. \<not> P d) seen @ N @ filter P seen @ W) ms"
      unfolding js
      by (rule move_flush_moves) (use t in \<open>auto simp: N_def W_def\<close>)
    then obtain ms where flush: "move_flush h position (length seen) 0 (mv_toMove s) t =
        move_flush h position (length seen) (length (filter P seen)) (if P r then [length seen] else [])
          (t\<lparr>mv_ds := filter (\<lambda>d. \<not> P d) seen @ N @ filter P seen @ W, mv_ms := ms\<rparr>)"
      and ms: "markers_ok h (filter (\<lambda>d. \<not> P d) seen @ N @ filter P seen @ W) ms"
      by auto
    show ?thesis
    proof (cases "position = BEFORE")
      case True
      then show ?thesis
        using flush ms t(3,4) len by (auto simp: s'_eq L Q N_def W_def add.commute)
    next
      case False
      then have "position = AFTER" "\<not> P r" using \<open>\<not> (position = AFTER \<and> P r)\<close> by (auto intro: move_position.exhaust)
      then show ?thesis
        using flush ms t(3,4) len by (auto simp: s'_eq L Q N_def W_def add.commute)
    qed
  qed
qed

text \<open>In front of the reference the list does not change: the downloads to move are collected.\<close>

definition collecting :: "dl_heap \<Rightarrow> (dl_ref \<Rightarrow> bool) \<Rightarrow> dl_ref list \<Rightarrow> dl_ref list \<Rightarrow> move_state \<Rightarrow> bool" where
  "collecting h P seen rest s \<longleftrightarrow>
     mv_ds s = seen @ rest \<and> markers_ok h (mv_ds s) (mv_ms s) \<and> mv_iRef s = None \<and>
     mv_toMove s = positions P 0 seen \<and> (\<forall>d \<in> set rest. d \<in> set (mv_ids s) \<longleftrightarrow> P d)"

text \<open>Taking the download off \<open>downloadIDsCopy\<close> and noting its index.\<close>

definition note_move :: "nat \<Rightarrow> dl_ref \<Rightarrow> move_state \<Rightarrow> move_state" where
  "note_move i d s = (case index_of d (mv_ids s) of
      None \<Rightarrow> s | Some j \<Rightarrow> s\<lparr>mv_toMove := mv_toMove s @ [i], mv_ids := remove_at j (mv_ids s)\<rparr>)"

lemma move_step_None:
  "mv_iRef s = None \<Longrightarrow> move_step h position i s = move_at_ref h position i (note_move i (mv_ds s ! i) s)"
  by (simp add: move_step_def note_move_def split: option.splits)

lemma note_move_collecting:
  assumes "collecting h P seen (d # rest) s" "distinct (seen @ d # rest)"
  shows "mv_ds (note_move (length seen) d s) = seen @ d # rest"
    and "mv_ms (note_move (length seen) d s) = mv_ms s"
    and "mv_iRef (note_move (length seen) d s) = None"
    and "mv_toMove (note_move (length seen) d s) = positions P 0 (seen @ (if P d then [d] else []))"
    and "\<forall>x \<in> set rest. x \<in> set (mv_ids (note_move (length seen) d s)) \<longleftrightarrow> P x"
    and "markers_ok h (seen @ d # rest) (mv_ms (note_move (length seen) d s))"
proof -
  have "\<forall>x \<in> set rest. x \<in> set (remove_at j (mv_ids s)) \<longleftrightarrow> P x" if "index_of d (mv_ids s) = Some j" for j
  proof
    fix x assume x: "x \<in> set rest"
    then have "x \<noteq> d" using assms(2) by auto
    then show "x \<in> set (remove_at j (mv_ids s)) \<longleftrightarrow> P x"
      using x assms(1) by (simp add: collecting_def remove_at_index_of [OF that])
  qed
  then show "\<forall>x \<in> set rest. x \<in> set (mv_ids (note_move (length seen) d s)) \<longleftrightarrow> P x"
    using assms(1) by (auto simp: collecting_def note_move_def split: option.splits)
  show "mv_toMove (note_move (length seen) d s) = positions P 0 (seen @ (if P d then [d] else []))"
    using assms(1)
    by (auto simp: collecting_def note_move_def positions_append index_of_None dest: index_of_SomeD nth_mem
        split: option.splits)
qed (use assms(1) in \<open>auto simp: collecting_def note_move_def split: option.splits\<close>)

lemma note_move_ref_ahead [simp]: "ref_ahead position r rest (note_move i d s) = ref_ahead position r rest s"
  by (simp add: ref_ahead_def note_move_def split: option.splits)

lemma positions_skip: "positions P k (xs @ (if P d then [d] else [])) = positions P k (xs @ [d])"
  by (auto simp: positions_append)

lemma filter_split_at: "r \<notin> set X \<Longrightarrow> takeWhile (\<lambda>d. d \<noteq> r) (X @ r # Y) = X \<and> dropWhile (\<lambda>d. d \<noteq> r) (X @ r # Y) = r # Y"
  by (induction X) auto

text \<open>A step that does not meet the reference: only the search can change the reference.\<close>

lemma move_collect_step:
  assumes c: "collecting h P seen (d # rest) s" and dist: "distinct (seen @ d # rest)"
    and ne: "mv_ref (move_search position d (note_move (length seen) d s)) \<noteq> d"
  shows "move_step h position (length seen) s = move_search position d (note_move (length seen) d s)"
    and "collecting h P (seen @ [d]) rest (move_step h position (length seen) s)"
proof -
  define t where "t = note_move (length seen) d s"
  note t = note_move_collecting [OF c dist, folded t_def]
  have nth: "mv_ds s ! length seen = d" "mv_ds t ! length seen = d"
    using c t(1) by (auto simp: collecting_def)
  have iRef: "mv_iRef s = None" using c by (simp add: collecting_def)
  show eq: "move_step h position (length seen) s = move_search position d (note_move (length seen) d s)"
    using ne nth by (simp add: move_step_None [OF iRef] move_at_ref_def t_def [symmetric] Let_def)
  show "collecting h P (seen @ [d]) rest (move_step h position (length seen) s)"
    unfolding eq t_def [symmetric] using t by (simp add: collecting_def positions_skip)
qed

text \<open>The step that meets the reference \<open>r\<close>, and the rest of the scan.\<close>

lemma move_from_ref:
  assumes c: "collecting h P front (r # rest) s" and dist: "distinct (front @ r # rest)" and zero: "r \<noteq> 0"
    and hit: "mv_ref (move_search position r (note_move (length front) r s)) = r"
    and s'': "s'' = fold (move_step h position) [length front..<length (front @ r # rest)] s"
  shows "mv_ds s'' = move_spec position r (Collect P) (front @ r # rest) \<and> markers_ok h (mv_ds s'') (mv_ms s'')"
proof -
  let ?n = "length front"
  have split: "[?n..<length (front @ r # rest)] = ?n # [Suc ?n..<Suc ?n + length rest]"
    by (simp add: upt_conv_Cons del: upt_Suc)
  define t where "t = note_move ?n r s"
  note t = note_move_collecting [OF c dist, folded t_def]
  define s2 where "s2 = move_step h position ?n s"
  have "mv_ds s ! ?n = r" "mv_iRef s = None" using c by (simp_all add: collecting_def)
  then have s2: "s2 = move_at_ref h position ?n t" by (simp add: s2_def t_def move_step_None)
  define L where "L = filter (\<lambda>d. \<not> P d) front @ (if position = AFTER \<and> \<not> P r then [r] else [])
      @ filter P front @ (if P r then [r] else [])"
  define Q where "Q = (if position = BEFORE \<and> \<not> P r then [r] else [])"
  have "\<exists>iRef. mv_ds s2 = L @ Q @ rest \<and> markers_ok h (mv_ds s2) (mv_ms s2) \<and>
     mv_ref s2 = r \<and> mv_ids s2 = mv_ids t \<and> mv_iRef s2 = Some iRef \<and>
     (if position = BEFORE then iRef else iRef + 1) = length L \<and> length (L @ Q) = Suc ?n"
    using t hit by (intro move_at_hit [OF _ _ _ _ s2 L_def Q_def]) (auto simp: t_def)
  then obtain iRef where at: "mv_ds s2 = L @ Q @ rest" "markers_ok h (mv_ds s2) (mv_ms s2)"
     "mv_ref s2 = r" "mv_ids s2 = mv_ids t" "mv_iRef s2 = Some iRef"
     "(if position = BEFORE then iRef else iRef + 1) = length L" "length (L @ Q) = Suc ?n" by blast
  have s''2: "s'' = fold (move_step h position) [length (L @ Q)..<length (L @ Q) + length rest] s2"
    unfolding s'' split at(7) s2_def by simp
  have fin: "mv_ds s'' = L @ filter P rest @ Q @ filter (\<lambda>d. \<not> P d) rest \<and>
       markers_ok h (L @ filter P rest @ Q @ filter (\<lambda>d. \<not> P d) rest) (mv_ms s'')"
    unfolding s''2 using at t(5) dist zero by (intro move_after_ref [where iRef = iRef]) auto
  have sp: "takeWhile (\<lambda>d. d \<noteq> r) (front @ r # rest) = front" "dropWhile (\<lambda>d. d \<noteq> r) (front @ r # rest) = r # rest"
    using filter_split_at [of r front rest] dist by auto
  show ?thesis
    using fin by (cases position) (auto simp: move_spec_def sp L_def Q_def Let_def)
qed

text \<open>Whatever the references are, the scan leaves the list alone or moves next to one of its members.\<close>

lemma move_fold_any:
  assumes "collecting h P seen rest s" "distinct (seen @ rest)" "0 \<notin> set rest"
    and "s'' = fold (move_step h position) [length seen..<length (seen @ rest)] s"
  shows "markers_ok h (mv_ds s'') (mv_ms s'') \<and>
     (mv_ds s'' = seen @ rest \<or>
      (\<exists>r \<in> set rest. mv_ds s'' = move_spec position r (Collect P) (seen @ rest)))"
  using assms
proof (induction rest arbitrary: seen s)
  case Nil
  then show ?case by (auto simp: collecting_def)
next
  case (Cons d rest)
  show ?case
  proof (cases "mv_ref (move_search position d (note_move (length seen) d s)) = d")
    case True
    with move_from_ref [OF Cons.prems(1,2) _ True Cons.prems(4)] Cons.prems(3) show ?thesis by auto
  next
    case False
    have split: "[length seen..<length (seen @ d # rest)] = length seen # [length (seen @ [d])..<length ((seen @ [d]) @ rest)]"
      by (simp add: upt_conv_Cons del: upt_Suc)
    have "s'' = fold (move_step h position) [length (seen @ [d])..<length ((seen @ [d]) @ rest)]
           (move_step h position (length seen) s)"
      unfolding Cons.prems(4) split by simp
    from Cons.IH [OF move_collect_step(2) [OF Cons.prems(1,2) False] _ _ this] Cons.prems(2,3)
    show ?thesis by auto
  qed
qed

lemma move_fold_ahead:
  assumes "collecting h P seen rest s" "ref_ahead position r rest s" "distinct (seen @ rest)" "0 \<notin> set rest"
    and "s'' = fold (move_step h position) [length seen..<length (seen @ rest)] s"
  shows "mv_ds s'' = move_spec position r (Collect P) (seen @ rest)"
  using assms
proof (induction rest arbitrary: seen s)
  case Nil
  then show ?case by (simp add: ref_ahead_def)
next
  case (Cons d rest)
  let ?t = "note_move (length seen) d s"
  show ?case
  proof (cases "d = r")
    case True
    then have "mv_ref (move_search position r ?t) = r"
      using move_search_hit [of position r rest ?t] Cons.prems(2,3) by simp
    with move_from_ref [of h P seen r rest s position s''] Cons.prems True show ?thesis by simp
  next
    case False
    have "ref_ahead position r (d # rest) ?t" using Cons.prems(2) by simp
    from move_search_miss [OF this] False Cons.prems(3,4)
    have miss: "ref_ahead position r rest (move_search position d ?t)" "mv_ref (move_search position d ?t) \<noteq> d"
      by auto
    have split: "[length seen..<length (seen @ d # rest)] = length seen # [length (seen @ [d])..<length ((seen @ [d]) @ rest)]"
      by (simp add: upt_conv_Cons del: upt_Suc)
    have "s'' = fold (move_step h position) [length (seen @ [d])..<length ((seen @ [d]) @ rest)]
           (move_step h position (length seen) s)"
      unfolding Cons.prems(5) split by simp
    from Cons.IH [OF move_collect_step(2) [OF Cons.prems(1,3) miss(2)] _ _ _ this]
    show ?thesis using miss(1) Cons.prems(3,4) by (simp add: move_collect_step(1) [OF Cons.prems(1,3) miss(2)])
  qed
qed

lemma chosen_ref_in:
  assumes "refs \<noteq> []" "set refs \<subseteq> set ds"
  shows "chosen_ref position refs ds \<in> set ds"
proof -
  have "filter (\<lambda>d. d \<in> set refs) ds \<noteq> []" using assms by (intro filter_member_subset)
  then have "chosen_ref position refs ds \<in> set (filter (\<lambda>d. d \<in> set refs) ds)"
    unfolding chosen_ref_def Let_def by (auto simp del: set_filter)
  then show ?thesis by simp
qed

lemma collecting_init:
  "markers_ok h (q_downloads q) (q_markers q) \<Longrightarrow>
   collecting h (\<lambda>d. d \<in> set ids) [] (q_downloads q) (move_init refs ids q)"
  by (simp add: collecting_def move_init_def)

lemma ref_ahead_init:
  assumes "refs \<noteq> []" "distinct refs" "set refs \<subseteq> set (q_downloads q)" "0 \<notin> set (q_downloads q)"
  shows "ref_ahead position (chosen_ref position refs (q_downloads q)) (q_downloads q) (move_init refs ids q)"
proof -
  let ?r = "chosen_ref position refs (q_downloads q)"
  have r: "?r \<in> set (q_downloads q)" using assms(1,3) by (rule chosen_ref_in)
  have nz: "?r \<noteq> 0" using r assms(4) by metis
  have ne: "filter (\<lambda>d. d \<in> set refs) (q_downloads q) \<noteq> []" using assms(1,3) by (intro filter_member_subset)
  show ?thesis
  proof (cases "length refs = 1")
    case True
    then obtain x where x: "refs = [x]" by (auto simp: length_Suc_conv)
    have "?r = x" using ne hd_in_set [OF ne] last_in_set [OF ne] by (auto simp: chosen_ref_def x Let_def)
    with r nz show ?thesis unfolding ref_ahead_def move_init_def by (simp add: x)
  next
    case False
    have cases: "position = BEFORE \<and> ?r = hd (filter (\<lambda>d. d \<in> set refs) (q_downloads q)) \<or>
       position = AFTER \<and> ?r = last (filter (\<lambda>d. d \<in> set refs) (q_downloads q))"
      by (cases position) (auto simp: chosen_ref_def)
    with False nz r ne assms(1-3) show ?thesis unfolding ref_ahead_def move_init_def by auto
  qed
qed

lemma moveDownloads_frame [simp]:
  "q_erroneous (moveDownloads h refs ids position q) = q_erroneous q"
  "q_byTime (moveDownloads h refs ids position q) = q_byTime q"
  "q_byPeer (moveDownloads h refs ids position q) = q_byPeer q"
  "q_byName (moveDownloads h refs ids position q) = q_byName q"
  by (simp_all add: moveDownloads_def Let_def)

lemma moveDownloads_chosen:
  assumes "refs \<noteq> []" "ids \<noteq> []" "distinct refs" "set refs \<subseteq> set (q_downloads q)"
    and "distinct (q_downloads q)" "0 \<notin> set (q_downloads q)" "markers_ok h (q_downloads q) (q_markers q)"
  shows "q_downloads (moveDownloads h refs ids position q) =
      move_spec position (chosen_ref position refs (q_downloads q)) (set ids) (q_downloads q)"
proof -
  have "mv_ds (fold (move_step h position) [0..<length (q_downloads q)] (move_init refs ids q)) =
      move_spec position (chosen_ref position refs (q_downloads q)) (Collect (\<lambda>d. d \<in> set ids)) ([] @ q_downloads q)"
    using assms by (intro move_fold_ahead [OF collecting_init ref_ahead_init]) auto
  then show ?thesis using assms(1,2) by (simp add: moveDownloads_def Let_def)
qed

lemma moveDownloads_any:
  assumes "distinct (q_downloads q)" "0 \<notin> set (q_downloads q)" "markers_ok h (q_downloads q) (q_markers q)"
    and q': "q' = moveDownloads h refs ids position q"
  shows "markers_ok h (q_downloads q') (q_markers q') \<and>
     (q_downloads q' = q_downloads q \<or>
      (\<exists>r \<in> set (q_downloads q). q_downloads q' = move_spec position r (set ids) (q_downloads q)))"
proof (cases "refs = [] \<or> ids = []")
  case True
  with assms show ?thesis by (simp add: moveDownloads_def)
next
  case False
  define s'' where "s'' = fold (move_step h position) [0..<length (q_downloads q)] (move_init refs ids q)"
  have "markers_ok h (mv_ds s'') (mv_ms s'') \<and> (mv_ds s'' = [] @ q_downloads q \<or>
      (\<exists>r \<in> set (q_downloads q). mv_ds s'' = move_spec position r (Collect (\<lambda>d. d \<in> set ids)) ([] @ q_downloads q)))"
    by (rule move_fold_any [OF collecting_init]) (use assms(1-3) in \<open>auto simp: s''_def\<close>)
  with False show ?thesis by (simp add: q' moveDownloads_def Let_def s''_def)
qed

lemma mset_move_spec: "r \<in> set ds \<Longrightarrow> distinct ds \<Longrightarrow> mset (move_spec position r ids ds) = mset ds"
proof -
  assume "r \<in> set ds" "distinct ds"
  then obtain X Y where ds: "ds = X @ r # Y" by (metis split_list)
  with \<open>distinct ds\<close> have "takeWhile (\<lambda>d. d \<noteq> r) ds = X" "dropWhile (\<lambda>d. d \<noteq> r) ds = r # Y"
    using filter_split_at [of r X Y] by auto
  moreover have "mset (filter (\<lambda>d. d \<notin> ids) Z) + mset (filter (\<lambda>d. d \<in> ids) Z) = mset Z" for Z
    by (induction Z) auto
  ultimately show ?thesis
    by (auto simp: move_spec_def Let_def ds ac_simps)
qed

lemma move_one_preds [simp]: "map m_pred (mv_ms (move_one h i j d s)) = map m_pred (mv_ms s)"
  by (simp add: move_one_def updateMarkersMove_def markerMove_def Let_def)

lemma move_flush_preds [simp]:
  "map m_pred (mv_ms (snd (move_flush h position iRef shift js s))) = map m_pred (mv_ms s)"
  by (induction h position iRef shift js s rule: move_flush.induct) (simp_all add: Let_def)

lemma move_at_ref_preds [simp]: "map m_pred (mv_ms (move_at_ref h position k s)) = map m_pred (mv_ms s)"
  using move_flush_preds [of h position k 0 "mv_toMove (move_search position (mv_ds s ! k) s)"
      "move_search position (mv_ds s ! k) s"]
  by (auto simp: move_at_ref_def Let_def simp del: move_flush_preds split: prod.splits)

lemma move_step_preds: "map m_pred (mv_ms (move_step h position k s)) = map m_pred (mv_ms s)"
  by (simp add: move_step_def Let_def split: option.splits)

lemma moveDownloads_preds: "map m_pred (q_markers (moveDownloads h refs ids position q)) = map m_pred (q_markers q)"
proof -
  have "map m_pred (mv_ms (fold (move_step h position) is s)) = map m_pred (mv_ms s)" for "is" s
    by (induction "is" arbitrary: s) (simp_all add: move_step_preds)
  then show ?thesis by (simp add: moveDownloads_def Let_def) (simp add: move_init_def)
qed

end
