(* ===== verification/Queue_Scan.thy ===== *)
theory Queue_Scan
  imports Download_Queue
begin

text \<open>
  What a scan of the download queue sees, and what removing downloads leaves:
  \<open>DownloadQueue::ScanningIterator<P>::next\<close>, \<open>removeDownloads\<close> and
  \<open>getTheOldestUnfinishedChunks\<close>.  The contract of a scanner is the locale \<open>scanner\<close>,
  which the queue's iterator satisfies; the loops of \<open>DownloadManager\<close> rely on it alone.
\<close>

subsection \<open>Markers and the state of the downloads\<close>

text \<open>The predicates that \<open>DownloadManager\<close> scans with.\<close>

fun scannable :: "predicate \<Rightarrow> bool" where
  "scannable IsDownloadable = True"
| "scannable IsADirectory = True"
| "scannable _ = False"

lemma scannable_same_class: "scannable p \<Longrightarrow> same_class p p' \<longleftrightarrow> p' = p"
  by (cases p; cases p') auto

lemma marker_ok_weaken:
  assumes "marker_ok h ds m" and "\<And>d. d \<in> set ds \<Longrightarrow> holds h' (m_pred m) d \<Longrightarrow> holds h (m_pred m) d"
  shows "marker_ok h' ds m"
  using assms by (auto simp: marker_ok_def dest: in_set_takeD)

lemma markers_ok_weaken:
  assumes "markers_ok h ds ms"
    and "\<And>m d. m \<in> set ms \<Longrightarrow> d \<in> set ds \<Longrightarrow> holds h' (m_pred m) d \<Longrightarrow> holds h (m_pred m) d"
  shows "markers_ok h' ds ms"
  using assms unfolding markers_ok_def by (meson marker_ok_weaken)

lemma holds_other [simp]: "d \<noteq> e \<Longrightarrow> holds (h(e := x)) p d \<longleftrightarrow> holds h p d"
  by (cases p) auto

lemma holds_setStatus_other: "d \<noteq> e \<Longrightarrow> holds (setStatus st e h) p d \<longleftrightarrow> holds h p d"
  by (simp add: setStatus_def)

definition terminal :: "status \<Rightarrow> bool" where
  "terminal st \<longleftrightarrow> st = COMPLETE \<or> st = DELETED"

lemma holds_setStatus_scannable:
  assumes "\<not> terminal (dl_status (h e))" "scannable p" "holds (setStatus st e h) p d"
  shows "holds h p d"
  using assms by (cases p; cases "d = e") (auto simp: setStatus_def terminal_def)

subsection \<open>The iterator\<close>

lemma bump_marker_ok:
  assumes "markers_ok h ds ms" "k < length ms" "m_pos (ms ! k) < length ds"
    and "\<not> holds h (m_pred (ms ! k)) (ds ! m_pos (ms ! k))"
  shows "markers_ok h ds (bump_marker k ms)"
proof -
  have "marker_ok h ds (ms ! k)" using assms(1,2) by (simp add: markers_ok_def)
  then have "marker_ok h ds ((ms ! k)\<lparr>m_pos := m_pos (ms ! k) + 1\<rparr>)"
    using assms(3,4) by (auto simp: marker_ok_def take_Suc_conv_app_nth)
  with assms(1) show ?thesis
    using set_update_subset_insert [of ms k] by (fastforce simp: markers_ok_def bump_marker_def)
qed

lemma bump_marker_preds [simp]: "map m_pred (bump_marker k ms) = map m_pred ms"
  by (cases "k < length ms") (simp_all add: bump_marker_def map_update list_update_same_conv list_update_beyond)

lemma bump_marker_length [simp]: "length (bump_marker k ms) = length ms"
  by (simp add: bump_marker_def)

lemma bump_marker_pred_nth [simp]: "k < length ms \<Longrightarrow> m_pred (bump_marker k ms ! k) = m_pred (ms ! k)"
  by (simp add: bump_marker_def)

text \<open>The queue a scan leaves differs from the one it found in the markers alone.\<close>

definition same_but_markers :: "dl_heap \<Rightarrow> queue \<Rightarrow> queue \<Rightarrow> bool" where
  "same_but_markers h q q' \<longleftrightarrow> q' = q\<lparr>q_markers := q_markers q'\<rparr> \<and>
     map m_pred (q_markers q') = map m_pred (q_markers q) \<and>
     (markers_ok h (q_downloads q) (q_markers q) \<longrightarrow> markers_ok h (q_downloads q) (q_markers q'))"

lemma same_but_markers_refl [simp]: "same_but_markers h q q"
  by (simp add: same_but_markers_def)

lemma same_but_markers_trans:
  assumes "same_but_markers h q q'" "same_but_markers h q' q''"
  shows "same_but_markers h q q''"
proof -
  from assms(1) have d: "q_downloads q' = q_downloads q"
    unfolding same_but_markers_def by (metis queue.ext_inject queue.surjective queue.update_convs(6))
  from assms have "q'' = (q\<lparr>q_markers := q_markers q'\<rparr>)\<lparr>q_markers := q_markers q''\<rparr>"
    unfolding same_but_markers_def by metis
  then have "q'' = q\<lparr>q_markers := q_markers q''\<rparr>" by simp
  with assms d show ?thesis unfolding same_but_markers_def by simp
qed

lemma same_but_markers_nth:
  assumes "same_but_markers h q q'"
  shows "length (q_markers q') = length (q_markers q)"
    and "k < length (q_markers q) \<Longrightarrow> m_pred (q_markers q' ! k) = m_pred (q_markers q ! k)"
proof -
  have eq: "map m_pred (q_markers q') = map m_pred (q_markers q)" using assms by (simp only: same_but_markers_def)
  then show len: "length (q_markers q') = length (q_markers q)" by (rule map_eq_imp_length_eq)
  show "k < length (q_markers q) \<Longrightarrow> m_pred (q_markers q' ! k) = m_pred (q_markers q ! k)"
    using eq len by (metis nth_map)
qed

lemma same_but_markers_downloads: "same_but_markers h q q' \<Longrightarrow> q_downloads q' = q_downloads q"
  unfolding same_but_markers_def by (metis queue.ext_inject queue.surjective queue.update_convs(6))

text \<open>The first index, from \<open>i\<close> on, that satisfies the predicate.\<close>

lemma scan_next_spec:
  assumes "k < length (q_markers q)" "m_pred (q_markers q ! k) = p"
    and "scan_next h k i q = (r, i', q')"
  shows "same_but_markers h q q' \<and>
     (case r of
        None \<Rightarrow> filter (holds h p) (drop i (q_downloads q)) = []
      | Some d \<Rightarrow> i < i' \<and> i' \<le> length (q_downloads q) \<and>
          filter (holds h p) (drop i (q_downloads q)) = d # filter (holds h p) (drop i' (q_downloads q)))"
  using assms
proof (induction h k i q arbitrary: r i' q' rule: scan_next.induct)
  case (1 h k i q)
  show ?case
  proof (cases "i < length (q_downloads q)")
    case False
    with 1(4) show ?thesis by (simp add: scan_next.simps [of h k i q])
  next
    case lt: True
    show ?thesis
    proof (cases "holds h p (q_downloads q ! i)")
      case True
      with lt 1(3,4) show ?thesis
        by (auto simp: scan_next.simps [of h k i q] Let_def filter_drop_step)
    next
      case False
      define q1 where "q1 = (if i = m_pos (q_markers q ! k)
          then q\<lparr>q_markers := bump_marker k (q_markers q)\<rparr> else q)"
      have run: "scan_next h k (i + 1) q1 = (r, i', q')"
        using 1(4) lt False 1(3) by (simp add: scan_next.simps [of h k i q] Let_def q1_def split: if_splits)
      have q1: "same_but_markers h q q1" "k < length (q_markers q1)" "m_pred (q_markers q1 ! k) = p"
        using 1(2,3) lt False
        by (auto simp: same_but_markers_def q1_def intro!: bump_marker_ok)
      have "same_but_markers h q1 q' \<and>
         (case r of None \<Rightarrow> filter (holds h p) (drop (i + 1) (q_downloads q1)) = []
          | Some d \<Rightarrow> i + 1 < i' \<and> i' \<le> length (q_downloads q1) \<and>
              filter (holds h p) (drop (i + 1) (q_downloads q1)) = d # filter (holds h p) (drop i' (q_downloads q1)))"
        using 1(1) [OF lt refl refl] False 1(3) q1 run unfolding q1_def by metis
      then show ?thesis
        using same_but_markers_trans [OF q1(1)] same_but_markers_downloads [OF q1(1)] lt False
        by (auto simp: filter_drop_step split: option.splits)
    qed
  qed
qed

lemma scan_all_spec:
  assumes "k < length (q_markers q)" "m_pred (q_markers q ! k) = p"
    and "length (q_downloads q) < fuel + i" and "scan_all fuel h k i q = (ds, q')"
  shows "ds = filter (holds h p) (drop i (q_downloads q)) \<and> same_but_markers h q q'"
  using assms
proof (induction fuel arbitrary: i q ds)
  case 0
  then show ?case by simp
next
  case (Suc fuel)
  obtain r i' q1 where n: "scan_next h k i q = (r, i', q1)" by (metis prod_cases3)
  note s = scan_next_spec [OF Suc.prems(1,2) n]
  show ?case
  proof (cases r)
    case None
    with s n Suc.prems(4) show ?thesis by simp
  next
    case (Some d)
    obtain rest where rest: "scan_all fuel h k i' q1 = (rest, q')" "ds = d # rest"
      using Suc.prems(4) n Some by (auto split: prod.splits)
    have q1: "k < length (q_markers q1)" "m_pred (q_markers q1 ! k) = p" "q_downloads q1 = q_downloads q"
      using s Suc.prems(1,2) same_but_markers_downloads [of h q q1] same_but_markers_nth [of h q q1] by simp_all
    have "length (q_downloads q1) < fuel + i'" using s Some Suc.prems(3) q1(3) by simp
    from Suc.IH [OF q1(1,2) this rest(1)] s Some rest(2) q1(3) same_but_markers_trans show ?thesis
      by auto
  qed
qed

lemma find_marker_Some:
  "find_marker p j ms = Some k \<Longrightarrow> j \<le> k \<and> k - j < length ms \<and> same_class p (m_pred (ms ! (k - j)))"
proof (induction ms arbitrary: j)
  case (Cons m ms)
  then show ?case
    by (cases "same_class p (m_pred m)")
      (force simp: nth_Cons' dest: Cons.IH [of "Suc j"])+
qed simp

definition queue_ready :: "dl_heap \<Rightarrow> queue \<Rightarrow> bool" where
  "queue_ready h q \<longleftrightarrow> markers_ok h (q_downloads q) (q_markers q) \<and> (\<forall>m \<in> set (q_markers q). scannable (m_pred m))"

lemma scan_queue_spec:
  assumes ready: "queue_ready h q" and p: "scannable p"
  shows "fst (scan_queue h p q) = filter (holds h p) (q_downloads q)"
    and "snd (scan_queue h p q) = q\<lparr>q_markers := q_markers (snd (scan_queue h p q))\<rparr>"
    and "queue_ready h (snd (scan_queue h p q))"
proof -
  obtain k i q0 where start: "scan_start p q = ((k, i), q0)" by (metis surj_pair)
  obtain ds q' where run: "scan_all (Suc (length (q_downloads q0))) h k i q0 = (ds, q')" by (metis surj_pair)
  note [simp del] = scan_all.simps
  have q0: "k < length (q_markers q0)" "m_pred (q_markers q0 ! k) = p" "i = m_pos (q_markers q0 ! k)"
    "q0 = q\<lparr>q_markers := q_markers q0\<rparr>" "queue_ready h q0"
    using start ready p find_marker_Some [of p 0 "q_markers q" k] scannable_same_class [OF p]
    by (auto simp: scan_start_def queue_ready_def markers_ok_def marker_ok_def split: option.splits)
  have ds0: "q_downloads q0 = q_downloads q" using q0(4) by (metis queue.select_convs(1) queue.update_convs(6) queue.surjective)
  have all: "ds = filter (holds h p) (drop i (q_downloads q0)) \<and> same_but_markers h q0 q'"
    by (rule scan_all_spec [OF q0(1,2) _ run]) simp
  have "marker_ok h (q_downloads q) (q_markers q0 ! k)"
    using q0(1,5) ds0 by (simp add: queue_ready_def markers_ok_def)
  then have "filter (holds h p) (take i (q_downloads q)) = []"
    using q0(2,3) by (simp add: marker_ok_def filter_empty_conv)
  then have "filter (holds h p) (drop i (q_downloads q)) = filter (holds h p) (q_downloads q)"
    by (metis append_Nil append_take_drop_id filter_append)
  moreover have res: "scan_queue h p q = (ds, q')" by (simp add: scan_queue_def start run)
  ultimately show "fst (scan_queue h p q) = filter (holds h p) (q_downloads q)" using all ds0 by simp
  have "q' = (q\<lparr>q_markers := q_markers q0\<rparr>)\<lparr>q_markers := q_markers q'\<rparr>"
    using all q0(4) unfolding same_but_markers_def by metis
  then have "q' = q\<lparr>q_markers := q_markers q'\<rparr>" by simp
  then show "snd (scan_queue h p q) = q\<lparr>q_markers := q_markers (snd (scan_queue h p q))\<rparr>"
    by (simp only: res snd_conv)
  have preds: "map m_pred (q_markers q') = map m_pred (q_markers q0)"
    and ok: "markers_ok h (q_downloads q0) (q_markers q')"
    using all q0(5) by (simp_all only: same_but_markers_def queue_ready_def)
  have "\<forall>p' \<in> set (map m_pred (q_markers q')). scannable p'"
    unfolding preds using q0(5) by (simp add: queue_ready_def)
  moreover have "q_downloads q' = q_downloads q0" using all same_but_markers_downloads by blast
  ultimately show "queue_ready h (snd (scan_queue h p q))"
    using ok by (simp add: res queue_ready_def)
qed

subsection \<open>The contract of a scanner\<close>

text \<open>
  What the loops of \<open>DownloadManager\<close> need of the queue: a scan yields the downloads that
  satisfy the predicate, in queue order, and may be followed by another scan.
\<close>

locale scanner =
  fixes ready :: "'h \<Rightarrow> 'q \<Rightarrow> bool"
    and scan :: "'h \<Rightarrow> predicate \<Rightarrow> 'q \<Rightarrow> dl_ref list \<times> 'q"
    and content :: "'q \<Rightarrow> dl_ref list"
    and sat :: "'h \<Rightarrow> predicate \<Rightarrow> dl_ref \<Rightarrow> bool"
  assumes scan_result: "ready h q \<Longrightarrow> scannable p \<Longrightarrow> fst (scan h p q) = filter (sat h p) (content q)"
    and scan_content: "ready h q \<Longrightarrow> scannable p \<Longrightarrow> content (snd (scan h p q)) = content q"
    and scan_ready: "ready h q \<Longrightarrow> scannable p \<Longrightarrow> ready h (snd (scan h p q))"
begin

lemma scan_sat: "ready h q \<Longrightarrow> scannable p \<Longrightarrow> d \<in> set (fst (scan h p q)) \<longleftrightarrow> d \<in> set (content q) \<and> sat h p d"
  by (auto simp: scan_result)

text \<open>Scanning again, for the same or for another predicate, sees the same queue.\<close>

lemma scan_twice:
  assumes "ready h q" "scannable p" "scannable p'"
  shows "fst (scan h p' (snd (scan h p q))) = filter (sat h p') (content q)"
  using assms by (simp add: scan_result scan_content scan_ready)

lemma scan_fold_ready: "ready h q \<Longrightarrow> \<forall>p \<in> set ps. scannable p \<Longrightarrow>
    ready h (fold (\<lambda>p q. snd (scan h p q)) ps q) \<and> content (fold (\<lambda>p q. snd (scan h p q)) ps q) = content q"
  by (induction ps arbitrary: q) (simp_all add: scan_ready scan_content)

lemma scan_after_scans:
  "ready h q \<Longrightarrow> \<forall>p \<in> set ps. scannable p \<Longrightarrow> scannable p' \<Longrightarrow>
   fst (scan h p' (fold (\<lambda>p q. snd (scan h p q)) ps q)) = filter (sat h p') (content q)"
  using scan_fold_ready by (simp add: scan_result)

end

interpretation queue_scan: scanner queue_ready scan_queue q_downloads holds
proof
  fix h q p assume r: "queue_ready h q" "scannable p"
  show "fst (scan_queue h p q) = filter (holds h p) (q_downloads q)"
    and "queue_ready h (snd (scan_queue h p q))"
    using scan_queue_spec [OF r] by simp_all
  show "q_downloads (snd (scan_queue h p q)) = q_downloads q"
    by (subst scan_queue_spec(2) [OF r]) simp
qed

subsection \<open>Removing\<close>

lemma markers_ok_cong:
  "(\<And>d p. d \<in> set ds \<Longrightarrow> holds h' p d = holds h p d) \<Longrightarrow> markers_ok h' ds ms = markers_ok h ds ms"
  unfolding markers_ok_def marker_ok_def by (metis in_set_takeD)

lemma updateMarkersRemove_preds [simp]: "map m_pred (updateMarkersRemove position ms) = map m_pred ms"
  by (simp add: updateMarkersRemove_def markerRemove_def)

text \<open>
  The indexes of the queue against its list: by peer and by name they are exact.  The map sorted
  by time holds, for a file, its current time or the time before a change that is still in the
  event queue (\<open>pend\<close>), and it misses no file that is not finished.
\<close>

definition index_ok :: "dl_heap \<Rightarrow> (dl_ref \<times> nat option) list \<Rightarrow> dl_ref list \<Rightarrow> queue \<Rightarrow> bool" where
  "index_ok h pend ds q \<longleftrightarrow>
     set (q_byPeer q) = (\<lambda>d. (dl_peerSourceID (h d), d)) ` set ds \<and>
     set (q_byName q) = (\<lambda>d. (dl_name (h d), d)) ` {d \<in> set ds. dl_kind (h d) = FileDL} \<and>
     (\<forall>d \<in> set ds. dl_kind (h d) = FileDL \<longrightarrow>
        (\<forall>k. (k, d) \<in> set (q_byTime q) \<longrightarrow> k = dl_lastTime (h d) \<or> (d, k) \<in> set pend) \<and>
        (\<not> terminal (dl_status (h d)) \<longrightarrow> (\<exists>k. (k, d) \<in> set (q_byTime q))))"

lemma set_mm_remove [simp]: "set (mm_remove k v m) = set m - {(k, v)}"
  by (auto simp: mm_remove_def)

lemma set_mm_insert [simp]: "set (mm_insert k v m) = insert (k, v) (set m)"
  by (induction k v m rule: mm_insert.induct) auto

text \<open>Taking one download off every index: what \<open>remove\<close> and \<open>removeDownloads\<close> share.\<close>

definition unindex :: "dl_heap \<Rightarrow> dl_ref \<Rightarrow> queue \<Rightarrow> queue" where
  "unindex h d q = q\<lparr>
     q_byTime := (if dl_kind (h d) = FileDL then mm_remove (dl_lastTime (h d)) d (q_byTime q) else q_byTime q),
     q_byName := mm_remove (dl_name (h d)) d (q_byName q),
     q_byPeer := mm_remove (dl_peerSourceID (h d)) d (q_byPeer q),
     q_erroneous := remove1 d (q_erroneous q)\<rparr>"

lemma index_ok_unindex:
  assumes "index_ok h pend ds q" "distinct ds" "d \<in> set ds" "set ds' = set ds - {d}"
  shows "index_ok h pend ds' (unindex h d q)"
  using assms unfolding index_ok_def unindex_def by (auto split: if_splits)

lemma index_ok_cong:
  assumes "index_ok h pend ds q"
    and "q_byPeer q' = q_byPeer q" "q_byName q' = q_byName q" "q_byTime q' = q_byTime q" "set ds' = set ds"
    and "\<And>d. d \<in> set ds \<Longrightarrow> dl_peerSourceID (h' d) = dl_peerSourceID (h d) \<and> dl_name (h' d) = dl_name (h d) \<and>
       dl_kind (h' d) = dl_kind (h d) \<and> dl_lastTime (h' d) = dl_lastTime (h d) \<and>
       (terminal (dl_status (h d)) \<longrightarrow> terminal (dl_status (h' d)))"
  shows "index_ok h' pend ds' q'"
proof -
  have "(\<lambda>d. (dl_peerSourceID (h' d), d)) ` set ds = (\<lambda>d. (dl_peerSourceID (h d), d)) ` set ds"
    using assms(6) by (intro image_cong) auto
  moreover have "(\<lambda>d. (dl_name (h' d), d)) ` {d \<in> set ds. dl_kind (h' d) = FileDL} =
      (\<lambda>d. (dl_name (h d), d)) ` {d \<in> set ds. dl_kind (h d) = FileDL}"
    using assms(6) by (intro image_cong) auto
  moreover have "\<forall>d \<in> set ds. dl_kind (h' d) = FileDL \<longrightarrow>
        (\<forall>k. (k, d) \<in> set (q_byTime q) \<longrightarrow> k = dl_lastTime (h' d) \<or> (d, k) \<in> set pend) \<and>
        (\<not> terminal (dl_status (h' d)) \<longrightarrow> (\<exists>k. (k, d) \<in> set (q_byTime q)))"
    using assms(1,6) unfolding index_ok_def by fastforce
  moreover note assms(1)
  ultimately show ?thesis by (simp add: index_ok_def assms(2-5))
qed

lemma setStatus_fields [simp]:
  "dl_peerSourceID (setStatus st d h e) = dl_peerSourceID (h e)"
  "dl_name (setStatus st d h e) = dl_name (h e)"
  "dl_kind (setStatus st d h e) = dl_kind (h e)"
  "dl_lastTime (setStatus st d h e) = dl_lastTime (h e)"
  "dl_status (setStatus st d h e) = (if e = d then st else dl_status (h e))"
  by (simp_all add: setStatus_def)

lemma index_ok_setStatus:
  assumes "index_ok h pend ds q" "terminal (dl_status (h d)) \<longrightarrow> terminal st \<or> d \<notin> set ds"
  shows "index_ok (setStatus st d h) pend ds q"
  by (rule index_ok_cong [OF assms(1)]) (use assms(2) in auto)

lemma index_ok_markers [simp]:
  "index_ok h pend ds (q_markers_update f q) = index_ok h pend ds q"
  "index_ok h pend ds (q_downloads_update g q) = index_ok h pend ds q"
  "index_ok h pend ds (q_erroneous_update g q) = index_ok h pend ds q"
  by (simp_all add: index_ok_def)

lemma index_ok_erase [simp]: "index_ok h pend ds (erase i n q) = index_ok h pend ds q"
  by (simp add: erase_def)

text \<open>One round of \<open>removeDownloads\<close>; a directory is not in the index by name.\<close>

lemma rm_matching_index:
  assumes "index_ok (rm_h s) pend (A @ d # R) (rm_q s)" "distinct (A @ d # R)"
    and "q_downloads (rm_q s) ! (rm_i s + rm_n s) = d"
  shows "index_ok (rm_h (rm_matching s)) pend (A @ R) (rm_q (rm_matching s))"
proof -
  define h where "h = setStatus DELETED d (rm_h s)"
  have "index_ok h pend (A @ d # R) (rm_q s)"
    unfolding h_def using assms(1) by (intro index_ok_setStatus) (auto simp: terminal_def)
  note ix = this
  have u: "index_ok h pend (A @ R) (unindex h d (rm_q s))"
    by (rule index_ok_unindex [OF ix]) (use assms(2) in auto)
  have x: "set (q_byName (rm_q s)) = (\<lambda>d. (dl_name (h d), d)) ` {e \<in> set (A @ d # R). dl_kind (h e) = FileDL}"
    using ix unfolding index_ok_def by blast
  have "mm_remove (dl_name (h d)) d (q_byName (rm_q s)) = q_byName (rm_q s)" if "dl_kind (h d) \<noteq> FileDL"
    unfolding mm_remove_def using x that by (auto simp: filter_id_conv)
  then have "q_byPeer (rm_q (rm_matching s)) = q_byPeer (unindex h d (rm_q s))"
    "q_byName (rm_q (rm_matching s)) = q_byName (unindex h d (rm_q s))"
    "q_byTime (rm_q (rm_matching s)) = q_byTime (unindex h d (rm_q s))" "rm_h (rm_matching s) = h"
    by (auto simp: rm_matching_def Let_def assms(3) h_def unindex_def)
  then show ?thesis by (intro index_ok_cong [OF u]) auto
qed

lemma rm_loop_spec:
  assumes "q_downloads (rm_q s) = A @ M @ R" "rm_i s = length A" "rm_n s = length M" "rm_position s = length A"
    and "distinct (A @ M @ R)" and "markers_ok (rm_h s) (A @ R) (q_markers (rm_q s))"
    and "\<forall>d \<in> set A. \<not> holds (rm_h s) p d" and "\<forall>d \<in> set R. holds (rm_h s) p d \<longleftrightarrow> P d"
    and "index_ok (rm_h s) pend (A @ R) (rm_q s)" and "rm_loop p s = s'"
  shows "q_downloads (rm_q s') = A @ filter (\<lambda>d. \<not> P d) R \<and>
     markers_ok (rm_h s') (A @ filter (\<lambda>d. \<not> P d) R) (q_markers (rm_q s')) \<and>
     index_ok (rm_h s') pend (A @ filter (\<lambda>d. \<not> P d) R) (rm_q s') \<and>
     rm_deleted s' = rm_deleted s @ filter P R \<and>
     rm_h s' = fold (setStatus DELETED) (filter P R) (rm_h s) \<and>
     (rm_changed s' \<longleftrightarrow> rm_changed s \<or> filter P R \<noteq> []) \<and>
     map m_pred (q_markers (rm_q s')) = map m_pred (q_markers (rm_q s))"
  using assms
proof (induction p s arbitrary: A M R rule: rm_loop.induct)
  case (1 p s)
  show ?case
  proof (cases R)
    case Nil
    with 1(4-13) show ?thesis by (cases M) (auto simp: rm_loop.simps [of p s] erase_def)
  next
    case (Cons d R')
    have lt: "rm_i s + rm_n s < length (q_downloads (rm_q s))" using 1(4-6) Cons by simp
    have nth: "q_downloads (rm_q s) ! (rm_i s + rm_n s) = d"
      using 1(4-6) Cons by (simp add: nth_append)
    show ?thesis
    proof (cases "P d")
      case True
      with 1(11) Cons have hd: "holds (rm_h s) p d" by simp
      have h': "rm_h (rm_matching s) = setStatus DELETED d (rm_h s)"
        "rm_deleted (rm_matching s) = rm_deleted s @ [d]" "rm_changed (rm_matching s)"
        "rm_position (rm_matching s) = rm_position s"
        "q_markers (rm_q (rm_matching s)) = updateMarkersRemove (rm_position s) (q_markers (rm_q s))"
        using nth by (simp_all add: rm_matching_def Let_def)
      have other: "holds (setStatus DELETED d (rm_h s)) p' e = holds (rm_h s) p' e"
        if "e \<in> set A \<union> set R'" for p' e
        using that 1(8) Cons by (intro holds_setStatus_other) auto
      have "markers_ok (rm_h s) (remove_at (length A) (A @ d # R')) (updateMarkersRemove (length A) (q_markers (rm_q s)))"
        using 1(9) Cons by (intro markers_ok_remove) auto
      then have ok: "markers_ok (setStatus DELETED d (rm_h s)) (A @ R') (updateMarkersRemove (length A) (q_markers (rm_q s)))"
        using other by (subst markers_ok_cong [where h = "rm_h s"]) auto
      have ix: "index_ok (rm_h (rm_matching s)) pend (A @ R') (rm_q (rm_matching s))"
        using 1(8,12) Cons nth by (intro rm_matching_index) auto
      have run: "rm_loop p (rm_matching s) = s'"
        using 1(13) lt nth hd by (simp add: rm_loop.simps [of p s])
      have "q_downloads (rm_q (rm_matching s)) = A @ (M @ [d]) @ R'" using 1(4) Cons by simp
      from 1(1) [OF lt _ this _ _ _ _ _ _ _ _ run] 1(4-12) Cons h' ok other True nth hd ix
      show ?thesis by auto
    next
      case False
      with 1(11) Cons have nh: "\<not> holds (rm_h s) p d" by simp
      show ?thesis
      proof (cases M)
        case Nil
        have run: "rm_loop p (s\<lparr>rm_i := rm_i s + 1, rm_position := rm_position s + 1\<rparr>) = s'"
          using 1(6,13) lt nth nh Nil by (simp add: rm_loop.simps [of p s])
        from 1(3) [OF lt _ _ _ _ _ _ _ _ _ _ _ run, of "A @ [d]" "[]" R'] 1(4-12) Cons Nil False nh nth
        show ?thesis by auto
      next
        case (Cons e M')
        have run: "rm_loop p (s\<lparr>rm_q := erase (rm_i s) (rm_n s) (rm_q s), rm_n := 0\<rparr>) = s'"
          using 1(6,13) lt nth nh Cons by (simp add: rm_loop.simps [of p s])
        have "q_downloads (erase (rm_i s) (rm_n s) (rm_q s)) = A @ [] @ R"
          using 1(4-6) by (simp add: erase_def)
        with 1(2) [OF lt _ _ _ _ _ _ _ _ _ _ _ run, of A "[]" R] 1(4-12) Cons nh nth
        show ?thesis by (auto simp: erase_def)
      qed
    qed
  qed
qed

end
