(* ===== verification/Queue_Steps.thy ===== *)
theory Queue_Steps
  imports Queue_Scan
begin

text \<open>
  The life of the download queue: every operation that changes it as a step, with the status
  changes of the downloads and the queued signals of \<open>FileDownload\<close> between them, and what
  holds in every state that can be reached.
\<close>

subsection \<open>The remaining operations\<close>

text \<open>
  \<open>getTheOldestUnfinishedChunks\<close> walks the map sorted by time; \<open>get\<close> is
  \<open>FileDownload::getUnfinishedChunks\<close>, which is given how many chunks are wanted and yields
  some, the changed object and the signals it emitted (the download and its old time).
\<close>

type_synonym event = "dl_ref \<times> nat option"
type_synonym 'c chunk_source = "nat \<Rightarrow> dl_ref \<Rightarrow> dl_heap \<Rightarrow> 'c list \<times> dl_heap \<times> event list"

fun oldest_loop :: "'c chunk_source \<Rightarrow> nat \<Rightarrow> (nat option \<times> dl_ref) list \<Rightarrow> 'c list \<Rightarrow> dl_heap
                     \<Rightarrow> (nat option \<times> dl_ref) list \<times> 'c list \<times> dl_heap \<times> event list" where
  "oldest_loop get n [] chunks h = ([], chunks, h, [])"
| "oldest_loop get n ((k, d) # r) chunks h =
     (if length chunks < n
      then (if dl_status (h d) = COMPLETE \<or> dl_status (h d) = DELETED
            then oldest_loop get n r chunks h
            else (let (cs, h, ev) = get (n - length chunks) d h;
                      (kept, chunks, h, evs) = oldest_loop get n r (chunks @ cs) h
                  in ((k, d) # kept, chunks, h, ev @ evs)))
      else ((k, d) # r, chunks, h, []))"

definition getTheOldestUnfinishedChunks :: "'c chunk_source \<Rightarrow> nat \<Rightarrow> dl_heap \<Rightarrow> queue
                                             \<Rightarrow> 'c list \<times> dl_heap \<times> event list \<times> queue" where
  "getTheOldestUnfinishedChunks get n h q =
     (let (kept, chunks, h, evs) = oldest_loop get n (q_byTime q) [] h
      in (chunks, h, evs, q\<lparr>q_byTime := kept\<rparr>))"

text \<open>
  \<open>peerBecomesAvailable\<close> tells the downloads whose source is the peer, found through the index;
  \<open>peerBecomesUnavailable\<close> tells every download.
\<close>

definition peerBecomesAvailable :: "(hash \<Rightarrow> dl_ref \<Rightarrow> dl_heap \<Rightarrow> dl_heap) \<Rightarrow> hash option \<Rightarrow> queue
                                     \<Rightarrow> dl_heap \<Rightarrow> dl_heap" where
  "peerBecomesAvailable tell peer q h = (case peer of
     None \<Rightarrow> h
   | Some i \<Rightarrow> fold (tell i) (map snd (filter (\<lambda>(k, _). k = i) (q_byPeer q))) h)"

definition peerBecomesUnavailable :: "(hash \<Rightarrow> dl_ref \<Rightarrow> dl_heap \<Rightarrow> dl_heap) \<Rightarrow> hash option \<Rightarrow> queue
                                       \<Rightarrow> dl_heap \<Rightarrow> dl_heap" where
  "peerBecomesUnavailable tell peer q h = (case peer of None \<Rightarrow> h | Some i \<Rightarrow> fold (tell i) (q_downloads q) h)"

text \<open>\<open>Download::setStatus\<close>, with the slot of \<open>becomeErroneous\<close> that the manager connects.\<close>

definition changeStatus :: "status \<Rightarrow> dl_ref \<Rightarrow> dl_heap \<Rightarrow> queue \<Rightarrow> dl_heap \<times> queue" where
  "changeStatus st d h q =
     (if dl_status (h d) = st then (h, q)
      else (let q = (if \<not> isStatusErroneous (dl_status (h d)) \<and> isStatusErroneous st
                     then setDownloadAsErroneous d q else q)
            in (setStatus st d h, q)))"

subsection \<open>Steps\<close>

text \<open>
  \<open>dq_next\<close> is \<open>Download::currentID\<close> and \<open>dq_pend\<close> the queued
  \<open>lastTimeGetAllUnfinishedChunksChanged\<close> signals, oldest first.
\<close>

record dq_state =
  dq_heap :: dl_heap
  dq_queue :: queue
  dq_pend :: "event list"
  dq_next :: dl_ref

definition dq_init :: "dl_heap \<Rightarrow> dq_state" where
  "dq_init h = \<lparr>dq_heap = h, dq_queue = empty_queue, dq_pend = [], dq_next = 1\<rparr>"

text \<open>What \<open>getUnfinishedChunks\<close> does to the queue: it may set the time of its file and signal it.\<close>

definition chunk_source_ok :: "'c chunk_source \<Rightarrow> bool" where
  "chunk_source_ok get \<longleftrightarrow> (\<forall>m d h cs h' ev. get m d h = (cs, h', ev) \<longrightarrow> length cs \<le> m \<and>
     (h' = h \<and> ev = [] \<or>
      (\<exists>t. h' = h(d := (h d)\<lparr>dl_lastTime := Some t\<rparr>) \<and> ev = [(d, dl_lastTime (h d))])))"

inductive queue_step :: "dq_state \<Rightarrow> dq_state \<Rightarrow> bool" where
  insert: "\<lbrakk> d = dq_next s; position \<le> length (q_downloads (dq_queue s)); dl_lastTime obj = None;
             h = (dq_heap s)(d := obj) \<rbrakk> \<Longrightarrow>
     queue_step s (s\<lparr>dq_heap := h, dq_queue := dq_insert h position d (dq_queue s), dq_next := dq_next s + 1\<rparr>)"
| remove: "position < length (q_downloads (dq_queue s)) \<Longrightarrow>
     queue_step s (s\<lparr>dq_queue := dq_remove (dq_heap s) position (dq_queue s)\<rparr>)"
| move: "queue_step s (s\<lparr>dq_queue := moveDownloads (dq_heap s) refs ids position (dq_queue s)\<rparr>)"
| removeAll: "r = removeDownloads (dq_heap s) p (dq_queue s) \<Longrightarrow>
     queue_step s (s\<lparr>dq_heap := rm_h r, dq_queue := rm_q r\<rparr>)"
| status: "\<lbrakk> d \<in> set (q_downloads (dq_queue s)); \<not> terminal (dl_status (dq_heap s d));
             (h, q) = changeStatus st d (dq_heap s) (dq_queue s) \<rbrakk> \<Longrightarrow>
     queue_step s (s\<lparr>dq_heap := h, dq_queue := q\<rparr>)"
| erroneous: "(r, q) = getAnErroneousDownload (dq_queue s) \<Longrightarrow> queue_step s (s\<lparr>dq_queue := q\<rparr>)"
| scan: "scannable p \<Longrightarrow> queue_step s (s\<lparr>dq_queue := snd (scan_queue (dq_heap s) p (dq_queue s))\<rparr>)"
| oldest: "\<lbrakk> chunk_source_ok (get :: nat chunk_source);
             (cs, h, ev, q) = getTheOldestUnfinishedChunks get n (dq_heap s) (dq_queue s) \<rbrakk> \<Longrightarrow>
     queue_step s (s\<lparr>dq_heap := h, dq_queue := q, dq_pend := dq_pend s @ ev\<rparr>)"
| deliver: "\<lbrakk> dq_pend s = (d, old) # pend; d \<in> set (q_downloads (dq_queue s)) \<rbrakk> \<Longrightarrow>
     queue_step s (s\<lparr>dq_queue := fileDownloadTimeChanged (dq_heap s) old d (dq_queue s), dq_pend := pend\<rparr>)"
| lost: "\<lbrakk> dq_pend s = (d, old) # pend; d \<notin> set (q_downloads (dq_queue s)) \<rbrakk> \<Longrightarrow>
     queue_step s (s\<lparr>dq_pend := pend\<rparr>)"

inductive queue_reachable :: "dq_state \<Rightarrow> bool" where
  init: "queue_reachable (dq_init h)"
| step: "queue_reachable s \<Longrightarrow> queue_step s s' \<Longrightarrow> queue_reachable s'"

subsection \<open>The invariant\<close>

definition queue_inv :: "dq_state \<Rightarrow> bool" where
  "queue_inv s \<longleftrightarrow>
     distinct (q_downloads (dq_queue s)) \<and>
     (\<forall>d \<in> set (q_downloads (dq_queue s)). 0 < d \<and> d < dq_next s) \<and> 0 < dq_next s \<and>
     (\<forall>e \<in> set (q_byTime (dq_queue s)). snd e < dq_next s) \<and>
     queue_ready (dq_heap s) (dq_queue s) \<and>
     index_ok (dq_heap s) (dq_pend s) (q_downloads (dq_queue s)) (dq_queue s) \<and>
     sorted_wrt time_le (map fst (q_byTime (dq_queue s)))"

lemma time_le_trans: "time_le a b \<Longrightarrow> time_le b c \<Longrightarrow> time_le a c"
  by (cases a; cases b; cases c) auto

lemma time_le_total: "\<not> time_le a b \<Longrightarrow> time_le b a"
  by (cases a; cases b) auto

lemma mm_insert_sorted: "sorted_wrt time_le (map fst m) \<Longrightarrow> sorted_wrt time_le (map fst (mm_insert k v m))"
proof (induction k v m rule: mm_insert.induct)
  case (2 k v k' v' r)
  show ?case
  proof (cases "time_le k k'")
    case True
    with 2 show ?thesis by (auto intro: time_le_trans)
  next
    case False
    then have "time_le k' k" by (rule time_le_total)
    with 2 False show ?thesis by auto
  qed
qed simp

lemma mm_remove_sorted: "sorted_wrt time_le (map fst m) \<Longrightarrow> sorted_wrt time_le (map fst (mm_remove k v m))"
  unfolding mm_remove_def by (induction m) auto

lemma index_ok_extend: "index_ok h pend ds q \<Longrightarrow> index_ok h (pend @ ev) ds q"
  by (auto simp: index_ok_def)

lemma chunk_source_okD:
  assumes "chunk_source_ok get" "get m d h = (cs, h', ev)"
  shows "length cs \<le> m"
    and "h' = h \<and> ev = [] \<or> (\<exists>t. h' = h(d := (h d)\<lparr>dl_lastTime := Some t\<rparr>) \<and> ev = [(d, dl_lastTime (h d))])"
  using assms unfolding chunk_source_ok_def by blast+

text \<open>A heap in which only times have changed, each change with its signal.\<close>

definition times_changed :: "dl_heap \<Rightarrow> event list \<Rightarrow> dl_heap \<Rightarrow> bool" where
  "times_changed h ev h' \<longleftrightarrow> (\<forall>d. (\<exists>t. h' d = (h d)\<lparr>dl_lastTime := t\<rparr>) \<and>
     (dl_lastTime (h' d) = dl_lastTime (h d) \<or> (d, dl_lastTime (h d)) \<in> set ev))"

lemma same_time: "\<exists>t. x = x\<lparr>dl_lastTime := t\<rparr>" for x :: download
  by (cases x) simp

lemma times_changed_refl: "times_changed h ev h"
  by (simp add: times_changed_def same_time)

lemma times_changed_fields:
  assumes "times_changed h ev h'"
  shows "dl_kind (h' d) = dl_kind (h d)" "dl_status (h' d) = dl_status (h d)"
    "dl_peerSourceID (h' d) = dl_peerSourceID (h d)" "dl_name (h' d) = dl_name (h d)"
proof -
  obtain t where "h' d = (h d)\<lparr>dl_lastTime := t\<rparr>" using assms unfolding times_changed_def by blast
  then show "dl_kind (h' d) = dl_kind (h d)" "dl_status (h' d) = dl_status (h d)"
    "dl_peerSourceID (h' d) = dl_peerSourceID (h d)" "dl_name (h' d) = dl_name (h d)" by simp_all
qed

lemma times_changed_trans:
  assumes "times_changed h ev h'" "times_changed h' ev' h''"
  shows "times_changed h (ev @ ev') h''"
  unfolding times_changed_def
proof (intro allI conjI)
  fix d
  obtain t t' where t: "h' d = (h d)\<lparr>dl_lastTime := t\<rparr>" "h'' d = (h' d)\<lparr>dl_lastTime := t'\<rparr>"
    using assms unfolding times_changed_def by metis
  then show "\<exists>t. h'' d = (h d)\<lparr>dl_lastTime := t\<rparr>" by auto
  show "dl_lastTime (h'' d) = dl_lastTime (h d) \<or> (d, dl_lastTime (h d)) \<in> set (ev @ ev')"
    using assms unfolding times_changed_def by (metis Un_iff set_append)
qed

lemma chunk_source_times: "chunk_source_ok get \<Longrightarrow> get m d h = (cs, h', ev) \<Longrightarrow> times_changed h ev h'"
proof -
  assume "chunk_source_ok get" "get m d h = (cs, h', ev)"
  from chunk_source_okD(2) [OF this] show ?thesis
  proof
    assume "h' = h \<and> ev = []"
    then show ?thesis by (simp add: times_changed_refl)
  next
    assume "\<exists>t. h' = h(d := (h d)\<lparr>dl_lastTime := Some t\<rparr>) \<and> ev = [(d, dl_lastTime (h d))]"
    then obtain t where t: "h' = h(d := (h d)\<lparr>dl_lastTime := Some t\<rparr>)" "ev = [(d, dl_lastTime (h d))]" by blast
    have "(\<exists>t. h' e = (h e)\<lparr>dl_lastTime := t\<rparr>) \<and>
        (dl_lastTime (h' e) = dl_lastTime (h e) \<or> (e, dl_lastTime (h e)) \<in> set ev)" for e
      using same_time [of "h e"] by (cases "e = d") (auto simp: t)
    then show ?thesis by (simp add: times_changed_def)
  qed
qed

lemma oldest_loop_spec:
  assumes "chunk_source_ok get" "oldest_loop get n r chunks h = (kept, chunks', h', evs)"
  shows "length chunks' \<le> max n (length chunks) \<and> times_changed h evs h' \<and>
     set kept \<subseteq> set r \<and> (\<forall>e \<in> set r. \<not> terminal (dl_status (h (snd e))) \<longrightarrow> e \<in> set kept) \<and>
     (sorted_wrt time_le (map fst r) \<longrightarrow> sorted_wrt time_le (map fst kept))"
  using assms(2)
proof (induction r arbitrary: chunks h kept evs)
  case Nil
  then show ?case by (auto simp: times_changed_refl)
next
  case (Cons e r)
  obtain k d where e: "e = (k, d)" by (cases e)
  show ?case
  proof (cases "length chunks < n")
    case False
    with Cons.prems e show ?thesis by (auto simp: times_changed_refl)
  next
    case lt: True
    show ?thesis
    proof (cases "dl_status (h d) = COMPLETE \<or> dl_status (h d) = DELETED")
      case True
      with Cons.prems e lt have "oldest_loop get n r chunks h = (kept, chunks', h', evs)" by simp
      from Cons.IH [OF this] True e show ?thesis by (auto simp: terminal_def)
    next
      case False
      obtain cs h1 ev where g: "get (n - length chunks) d h = (cs, h1, ev)" by (metis prod_cases3)
      obtain kept2 evs2 where rec: "oldest_loop get n r (chunks @ cs) h1 = (kept2, chunks', h', evs2)"
        and eq: "kept = (k, d) # kept2" "evs = ev @ evs2"
        using Cons.prems e lt False g by (auto split: prod.splits)
      note ih = Cons.IH [OF rec] and t1 = chunk_source_times [OF assms(1) g]
      have "times_changed h evs h'" unfolding eq using ih t1 by (intro times_changed_trans) auto
      moreover have "length chunks' \<le> max n (length chunks)"
        using ih chunk_source_okD(1) [OF assms(1) g] lt by auto
      ultimately show ?thesis using ih e eq times_changed_fields(2) [OF t1] by auto
    qed
  qed
qed

lemma times_changed_holds: "times_changed h ev h' \<Longrightarrow> holds h' p d = holds h p d"
  by (cases p) (simp_all add: times_changed_fields)

lemma index_ok_times:
  assumes "index_ok h pend ds q" "times_changed h ev h'" "set kept \<subseteq> set (q_byTime q)"
    and "\<forall>e \<in> set (q_byTime q). \<not> terminal (dl_status (h (snd e))) \<longrightarrow> e \<in> set kept"
  shows "index_ok h' (pend @ ev) ds (q\<lparr>q_byTime := kept\<rparr>)"
proof -
  have t: "dl_lastTime (h' d) = dl_lastTime (h d) \<or> (d, dl_lastTime (h d)) \<in> set ev" for d
    using assms(2) by (auto simp: times_changed_def)
  have "(k = dl_lastTime (h' d) \<or> (d, k) \<in> set (pend @ ev))"
    if "d \<in> set ds" "dl_kind (h d) = FileDL" "(k, d) \<in> set kept" for d k
  proof -
    have "k = dl_lastTime (h d) \<or> (d, k) \<in> set pend" using assms(1,3) that unfolding index_ok_def by blast
    with t [of d] show ?thesis by auto
  qed
  moreover have "\<exists>k. (k, d) \<in> set kept"
    if d: "d \<in> set ds" "dl_kind (h d) = FileDL" "\<not> terminal (dl_status (h d))" for d
  proof -
    obtain k where "(k, d) \<in> set (q_byTime q)" using assms(1) d unfolding index_ok_def by blast
    with assms(4) d(3) have "(k, d) \<in> set kept" by fastforce
    then show ?thesis ..
  qed
  ultimately show ?thesis
    using assms(1) by (simp add: index_ok_def times_changed_fields [OF assms(2)])
qed

text \<open>Each operation keeps the invariant.\<close>

lemma queue_inv_frame:
  assumes "queue_inv s" "q' = (dq_queue s)\<lparr>q_markers := ms, q_erroneous := es\<rparr>" "queue_ready (dq_heap s) q'"
  shows "queue_inv (s\<lparr>dq_queue := q'\<rparr>)"
  using assms by (simp add: queue_inv_def index_ok_def)

lemma map_pred_scannable:
  "map m_pred ms' = map m_pred ms \<Longrightarrow> (\<forall>m \<in> set ms'. scannable (m_pred m)) = (\<forall>m \<in> set ms. scannable (m_pred m))"
  by (metis (no_types, lifting) image_iff image_set)

lemma updateMarkers_preds [simp]:
  "map m_pred (updateMarkersInsert h position d ms) = map m_pred ms"
  "map m_pred (updateMarkersMove h i j d ms) = map m_pred ms"
  by (simp_all add: updateMarkersInsert_def markerInsert_def updateMarkersMove_def markerMove_def Let_def)

lemma queue_inv_insert:
  assumes inv: "queue_inv s" and d: "d = dq_next s" and pos: "position \<le> length (q_downloads (dq_queue s))"
    and obj: "dl_lastTime obj = None" and h: "h = (dq_heap s)(d := obj)"
  shows "queue_inv (s\<lparr>dq_heap := h, dq_queue := dq_insert h position d (dq_queue s), dq_next := dq_next s + 1\<rparr>)"
proof -
  let ?q = "dq_queue s" and ?ds = "q_downloads (dq_queue s)"
  have new: "d \<notin> set ?ds" and keys: "\<And>k. (k, d) \<notin> set (q_byTime ?q)"
    using inv d by (auto simp: queue_inv_def)
  have "markers_ok h ?ds (q_markers ?q)"
    using inv new by (subst markers_ok_cong [where h = "dq_heap s"])
      (unfold h, rule holds_other, auto simp: queue_inv_def queue_ready_def)
  then have m: "markers_ok h (insert_at position d ?ds) (updateMarkersInsert h position d (q_markers ?q))"
    using pos by (rule markers_ok_insert)
  have sc: "\<forall>m \<in> set (updateMarkersInsert h position d (q_markers ?q)). scannable (m_pred m)"
    using inv map_pred_scannable [OF updateMarkers_preds(1)] by (simp add: queue_inv_def queue_ready_def)
  have dist: "distinct (insert_at position d ?ds)"
    using inv new by (metis distinct.simps(2) queue_inv_def mset_eq_imp_distinct_iff mset_insert_at mset.simps(2))
  have ix: "index_ok h (dq_pend s) ?ds ?q"
    by (rule index_ok_cong [where h = "dq_heap s" and q = ?q and ds = ?ds]) (use inv new in \<open>auto simp: queue_inv_def h\<close>)
  have hd: "h d = obj" by (simp add: h)
  have "index_ok h (dq_pend s) (insert_at position d ?ds) (dq_insert h position d ?q)"
  proof (cases "dl_kind obj")
    case FileDL
    have "{e. (e = d \<or> e \<in> set ?ds) \<and> dl_kind (h e) = FileDL} = insert d {e \<in> set ?ds. dl_kind (h e) = FileDL}"
      using FileDL hd by auto
    with ix keys obj FileDL show ?thesis by (simp add: index_ok_def dq_insert_def hd Let_def) blast
  next
    case DirDL
    have "{e. (e = d \<or> e \<in> set ?ds) \<and> dl_kind (h e) = FileDL} = {e \<in> set ?ds. dl_kind (h e) = FileDL}"
      using DirDL hd by auto
    with ix keys obj DirDL show ?thesis by (simp add: index_ok_def dq_insert_def hd Let_def)
  qed
  moreover have "q_downloads (dq_insert h position d ?q) = insert_at position d ?ds"
    "q_markers (dq_insert h position d ?q) = updateMarkersInsert h position d (q_markers ?q)"
    by (simp_all add: dq_insert_def Let_def)
  moreover have "\<forall>e \<in> set (q_byTime (dq_insert h position d ?q)). snd e < dq_next s + 1"
    "sorted_wrt time_le (map fst (q_byTime (dq_insert h position d ?q)))"
    using inv d by (auto simp: dq_insert_def Let_def queue_inv_def less_Suc_eq intro: mm_insert_sorted)
  ultimately show ?thesis
    using inv m sc dist d by (auto simp: queue_inv_def queue_ready_def)
qed

lemma queue_inv_remove:
  assumes inv: "queue_inv s" and pos: "position < length (q_downloads (dq_queue s))"
  shows "queue_inv (s\<lparr>dq_queue := dq_remove (dq_heap s) position (dq_queue s)\<rparr>)"
proof -
  let ?q = "dq_queue s" and ?ds = "q_downloads (dq_queue s)" and ?h = "dq_heap s"
  define d where "d = ?ds ! position"
  define q' where "q' = dq_remove ?h position ?q"
  have dist: "distinct ?ds" and d: "d \<in> set ?ds" using inv pos by (auto simp: queue_inv_def d_def)
  obtain X Y where XY: "?ds = X @ d # Y" "position = length X"
    using pos unfolding d_def by (metis id_take_nth_drop length_take min.absorb2 less_imp_le)
  have set': "set (remove_at position ?ds) = set ?ds - {d}" "distinct (remove_at position ?ds)"
    using dist by (auto simp: XY)
  have f: "q_downloads q' = remove_at position ?ds" "q_markers q' = updateMarkersRemove position (q_markers ?q)"
    "q_byPeer q' = q_byPeer (unindex ?h d ?q)" "q_byName q' = q_byName (unindex ?h d ?q)"
    "q_byTime q' = q_byTime (unindex ?h d ?q)"
    by (simp_all add: q'_def dq_remove_def unindex_def Let_def d_def)
  have "index_ok ?h (dq_pend s) (remove_at position ?ds) (unindex ?h d ?q)"
    using inv dist d set'(1) by (intro index_ok_unindex) (auto simp: queue_inv_def)
  then have "index_ok ?h (dq_pend s) (q_downloads q') q'"
    by (rule index_ok_cong) (simp_all add: f)
  moreover have "queue_ready ?h q'"
    using inv pos map_pred_scannable [OF updateMarkersRemove_preds]
    unfolding queue_ready_def f queue_inv_def by (auto intro: markers_ok_remove)
  moreover have "sorted_wrt time_le (map fst (q_byTime q'))" "\<forall>e \<in> set (q_byTime q'). snd e < dq_next s"
    using inv by (auto simp: f unindex_def queue_inv_def intro: mm_remove_sorted)
  ultimately show ?thesis
    using inv set' unfolding q'_def [symmetric] queue_inv_def by (simp add: f)
qed

lemma queue_inv_move:
  assumes inv: "queue_inv s"
  shows "queue_inv (s\<lparr>dq_queue := moveDownloads (dq_heap s) refs ids position (dq_queue s)\<rparr>)"
proof -
  let ?q = "dq_queue s" and ?h = "dq_heap s"
  define q' where "q' = moveDownloads ?h refs ids position ?q"
  have zero: "0 \<notin> set (q_downloads ?q)" using inv by (auto simp: queue_inv_def)
  have any: "markers_ok ?h (q_downloads q') (q_markers q') \<and>
     (q_downloads q' = q_downloads ?q \<or>
      (\<exists>r \<in> set (q_downloads ?q). q_downloads q' = move_spec position r (set ids) (q_downloads ?q)))"
    by (rule moveDownloads_any [OF _ zero _ q'_def]) (use inv in \<open>auto simp: queue_inv_def queue_ready_def\<close>)
  then have "mset (q_downloads q') = mset (q_downloads ?q)"
    using inv mset_move_spec by (auto simp: queue_inv_def)
  then have same: "set (q_downloads q') = set (q_downloads ?q)" "distinct (q_downloads q')"
    using inv by (auto simp: queue_inv_def dest: mset_eq_setD mset_eq_imp_distinct_iff)
  have sc: "\<forall>m \<in> set (q_markers q'). scannable (m_pred m)"
    using inv moveDownloads_preds [of ?h refs ids position ?q] map_pred_scannable
    unfolding q'_def queue_inv_def queue_ready_def by metis
  have "index_ok ?h (dq_pend s) (q_downloads q') q'"
    by (rule index_ok_cong [where h = ?h and q = ?q and ds = "q_downloads ?q"])
      (use inv same in \<open>auto simp: queue_inv_def q'_def\<close>)
  with any same sc inv show ?thesis
    unfolding q'_def [symmetric] queue_inv_def queue_ready_def by (simp add: q'_def)
qed

lemma terminal_deleted_fold:
  "dl_status (fold (setStatus DELETED) ds h d) = (if d \<in> set ds then DELETED else dl_status (h d))"
  by (induction ds arbitrary: h) auto

lemma rm_loop_time:
  assumes "sorted_wrt time_le (map fst (q_byTime (rm_q s)))" "\<forall>e \<in> set (q_byTime (rm_q s)). snd e < n"
  shows "sorted_wrt time_le (map fst (q_byTime (rm_q (rm_loop p s)))) \<and>
    (\<forall>e \<in> set (q_byTime (rm_q (rm_loop p s))). snd e < n)"
  using assms
proof (induction p s rule: rm_loop.induct)
  case (1 p s)
  have "sorted_wrt time_le (map fst (q_byTime (rm_q (rm_matching s))))"
    "\<forall>e \<in> set (q_byTime (rm_q (rm_matching s))). snd e < n"
    using 1(4,5) by (auto simp: rm_matching_def Let_def intro: mm_remove_sorted)
  with 1 show ?case by (subst (1 2) rm_loop.simps) (auto simp: erase_def)
qed

lemma removeDownloads_spec:
  assumes "distinct (q_downloads q)" "markers_ok h (q_downloads q) (q_markers q)"
    and "index_ok h pend (q_downloads q) q" and r: "r = removeDownloads h p q"
  shows "q_downloads (rm_q r) = filter (\<lambda>d. \<not> holds h p d) (q_downloads q)"
    and "markers_ok (rm_h r) (q_downloads (rm_q r)) (q_markers (rm_q r))"
    and "index_ok (rm_h r) pend (q_downloads (rm_q r)) (rm_q r)"
    and "rm_deleted r = filter (holds h p) (q_downloads q)"
    and "rm_h r = fold (setStatus DELETED) (filter (holds h p) (q_downloads q)) h"
    and "rm_changed r \<longleftrightarrow> filter (holds h p) (q_downloads q) \<noteq> []"
    and "map m_pred (q_markers (rm_q r)) = map m_pred (q_markers q)"
proof -
  let ?s = "\<lparr>rm_q = q, rm_h = h, rm_i = 0, rm_n = 0, rm_position = 0, rm_changed = False, rm_deleted = []\<rparr>"
  have "rm_loop p ?s = r" by (simp add: r removeDownloads_def)
  note spec = rm_loop_spec [where A = "[]" and M = "[]" and R = "q_downloads q" and P = "holds h p" and pend = pend,
      OF _ _ _ _ _ _ _ _ _ this]
  have *: "q_downloads (rm_q r) = [] @ filter (\<lambda>d. \<not> holds h p d) (q_downloads q) \<and>
     markers_ok (rm_h r) ([] @ filter (\<lambda>d. \<not> holds h p d) (q_downloads q)) (q_markers (rm_q r)) \<and>
     index_ok (rm_h r) pend ([] @ filter (\<lambda>d. \<not> holds h p d) (q_downloads q)) (rm_q r) \<and>
     rm_deleted r = rm_deleted ?s @ filter (holds h p) (q_downloads q) \<and>
     rm_h r = fold (setStatus DELETED) (filter (holds h p) (q_downloads q)) (rm_h ?s) \<and>
     (rm_changed r \<longleftrightarrow> rm_changed ?s \<or> filter (holds h p) (q_downloads q) \<noteq> []) \<and>
     map m_pred (q_markers (rm_q r)) = map m_pred (q_markers (rm_q ?s))"
    by (rule spec) (use assms(1-3) in simp_all)
  then show "q_downloads (rm_q r) = filter (\<lambda>d. \<not> holds h p d) (q_downloads q)"
    and "markers_ok (rm_h r) (q_downloads (rm_q r)) (q_markers (rm_q r))"
    and "index_ok (rm_h r) pend (q_downloads (rm_q r)) (rm_q r)"
    and "rm_deleted r = filter (holds h p) (q_downloads q)"
    and "rm_h r = fold (setStatus DELETED) (filter (holds h p) (q_downloads q)) h"
    and "rm_changed r \<longleftrightarrow> filter (holds h p) (q_downloads q) \<noteq> []"
    and "map m_pred (q_markers (rm_q r)) = map m_pred (q_markers q)"
    by (simp_all only: append_Nil rm_state.simps) auto
qed

lemma queue_inv_removeAll:
  assumes inv: "queue_inv s" and r: "r = removeDownloads (dq_heap s) p (dq_queue s)"
  shows "queue_inv (s\<lparr>dq_heap := rm_h r, dq_queue := rm_q r\<rparr>)"
proof -
  let ?q = "dq_queue s"
  have pre: "distinct (q_downloads ?q)" "markers_ok (dq_heap s) (q_downloads ?q) (q_markers ?q)"
    "index_ok (dq_heap s) (dq_pend s) (q_downloads ?q) ?q"
    using inv by (simp_all add: queue_inv_def queue_ready_def)
  note rs = removeDownloads_spec [OF pre r]
  have "sorted_wrt time_le (map fst (q_byTime (rm_q r))) \<and> (\<forall>e \<in> set (q_byTime (rm_q r)). snd e < dq_next s)"
    unfolding r removeDownloads_def by (rule rm_loop_time) (use inv in \<open>simp_all add: queue_inv_def\<close>)
  moreover have "\<forall>m \<in> set (q_markers (rm_q r)). scannable (m_pred m)"
    using inv map_pred_scannable [OF rs(7)] by (simp add: queue_inv_def queue_ready_def)
  ultimately show ?thesis
    using inv rs(2,3) unfolding queue_inv_def queue_ready_def by (simp add: rs(1))
qed

lemma same_erroneous: "\<exists>es. q = q\<lparr>q_erroneous := es\<rparr>" for q :: queue
  by (cases q) simp

lemma queue_inv_erroneous:
  assumes "queue_inv s" "(r, q) = getAnErroneousDownload (dq_queue s)"
  shows "queue_inv (s\<lparr>dq_queue := q\<rparr>)"
proof -
  obtain es where "q = (dq_queue s)\<lparr>q_erroneous := es\<rparr>"
    using assms(2) same_erroneous [of "dq_queue s"]
    by (cases "q_erroneous (dq_queue s)") (auto simp: getAnErroneousDownload_def)
  then show ?thesis
    using queue_inv_frame [OF assms(1), of q es "q_markers (dq_queue s)"] assms(1)
    by (simp add: queue_inv_def queue_ready_def)
qed

lemma queue_inv_scan:
  assumes inv: "queue_inv s" and p: "scannable p"
  shows "queue_inv (s\<lparr>dq_queue := snd (scan_queue (dq_heap s) p (dq_queue s))\<rparr>)"
proof -
  have ready: "queue_ready (dq_heap s) (dq_queue s)" using inv by (simp add: queue_inv_def)
  define q' where "q' = snd (scan_queue (dq_heap s) p (dq_queue s))"
  have "q' = (dq_queue s)\<lparr>q_markers := q_markers q'\<rparr>" "queue_ready (dq_heap s) q'"
    unfolding q'_def using scan_queue_spec [OF ready p] by auto
  then have "q' = (dq_queue s)\<lparr>q_markers := q_markers q', q_erroneous := q_erroneous (dq_queue s)\<rparr>"
    by (metis queue.select_convs(2) queue.surjective queue.update_convs(2) queue.update_convs(6))
  from queue_inv_frame [OF inv this] show ?thesis
    unfolding q'_def using scan_queue_spec(3) [OF ready p] by blast
qed

lemma queue_inv_status:
  assumes inv: "queue_inv s" and d: "d \<in> set (q_downloads (dq_queue s))"
    and t: "\<not> terminal (dl_status (dq_heap s d))"
    and st: "(h, q) = changeStatus st d (dq_heap s) (dq_queue s)"
  shows "queue_inv (s\<lparr>dq_heap := h, dq_queue := q\<rparr>)"
proof (cases "dl_status (dq_heap s d) = st")
  case True
  with st inv show ?thesis by (simp add: changeStatus_def)
next
  case False
  then have h: "h = setStatus st d (dq_heap s)" and q: "\<exists>es. q = (dq_queue s)\<lparr>q_erroneous := es\<rparr>"
    using st same_erroneous [of "dq_queue s"] by (auto simp: changeStatus_def Let_def setDownloadAsErroneous_def)
  obtain es where es: "q = (dq_queue s)\<lparr>q_erroneous := es\<rparr>" using q by blast
  have "markers_ok h (q_downloads (dq_queue s)) (q_markers (dq_queue s))"
    unfolding h
  proof (rule markers_ok_weaken)
    show "markers_ok (dq_heap s) (q_downloads (dq_queue s)) (q_markers (dq_queue s))"
      using inv by (simp add: queue_inv_def queue_ready_def)
    fix m e assume m: "m \<in> set (q_markers (dq_queue s))" and hs: "holds (setStatus st d (dq_heap s)) (m_pred m) e"
    have "scannable (m_pred m)" using inv m by (simp add: queue_inv_def queue_ready_def)
    from holds_setStatus_scannable [where h = "dq_heap s", OF t this hs] show "holds (dq_heap s) (m_pred m) e" .
  qed
  moreover have "index_ok h (dq_pend s) (q_downloads (dq_queue s)) (dq_queue s)"
    unfolding h using inv t by (intro index_ok_setStatus) (auto simp: queue_inv_def)
  ultimately show ?thesis using inv by (simp add: es queue_inv_def queue_ready_def)
qed

lemma queue_inv_oldest:
  assumes inv: "queue_inv s" and get: "chunk_source_ok get"
    and run: "(cs, h, ev, q) = getTheOldestUnfinishedChunks get n (dq_heap s) (dq_queue s)"
  shows "queue_inv (s\<lparr>dq_heap := h, dq_queue := q, dq_pend := dq_pend s @ ev\<rparr>)"
proof -
  obtain kept where loop: "oldest_loop get n (q_byTime (dq_queue s)) [] (dq_heap s) = (kept, cs, h, ev)"
    and q: "q = (dq_queue s)\<lparr>q_byTime := kept\<rparr>"
    using run by (auto simp: getTheOldestUnfinishedChunks_def split: prod.splits)
  note spec = oldest_loop_spec [OF get loop]
  have "index_ok h (dq_pend s @ ev) (q_downloads (dq_queue s)) q"
    unfolding q using inv spec by (intro index_ok_times [where h = "dq_heap s"]) (auto simp: queue_inv_def)
  moreover have "queue_ready h q"
    using inv spec times_changed_holds [of "dq_heap s" ev h]
    unfolding queue_ready_def q by (auto simp: queue_inv_def queue_ready_def markers_ok_def marker_ok_def)
  moreover have "sorted_wrt time_le (map fst kept)" "\<forall>e \<in> set kept. snd e < dq_next s"
    using inv spec by (auto simp: queue_inv_def)
  ultimately show ?thesis using inv by (simp add: queue_inv_def q)
qed

lemma queue_inv_deliver:
  assumes inv: "queue_inv s" and pend: "dq_pend s = (d, old) # pend" and d: "d \<in> set (q_downloads (dq_queue s))"
  shows "queue_inv (s\<lparr>dq_queue := fileDownloadTimeChanged (dq_heap s) old d (dq_queue s), dq_pend := pend\<rparr>)"
proof -
  have ix: "index_ok (dq_heap s) ((d, old) # pend) (q_downloads (dq_queue s)) (dq_queue s)"
    using inv pend by (simp add: queue_inv_def)
  have "index_ok (dq_heap s) pend (q_downloads (dq_queue s)) (fileDownloadTimeChanged (dq_heap s) old d (dq_queue s))"
    using ix unfolding index_ok_def fileDownloadTimeChanged_def by auto blast+
  moreover have "d < dq_next s" using inv d by (auto simp: queue_inv_def)
  ultimately show ?thesis
    using inv unfolding queue_inv_def fileDownloadTimeChanged_def queue_ready_def
    by (auto intro!: mm_insert_sorted mm_remove_sorted)
qed

lemma queue_inv_lost:
  assumes "queue_inv s" "dq_pend s = (d, old) # pend" "d \<notin> set (q_downloads (dq_queue s))"
  shows "queue_inv (s\<lparr>dq_pend := pend\<rparr>)"
  using assms unfolding queue_inv_def index_ok_def by auto

lemma queue_inv_step: "queue_step s s' \<Longrightarrow> queue_inv s \<Longrightarrow> queue_inv s'"
  by (induction rule: queue_step.induct)
    (blast intro: queue_inv_insert queue_inv_remove queue_inv_move queue_inv_removeAll queue_inv_status
      queue_inv_erroneous queue_inv_scan queue_inv_oldest queue_inv_deliver queue_inv_lost)+

lemma queue_inv_init: "queue_inv (dq_init h)"
  by (simp add: queue_inv_def dq_init_def empty_queue_def queue_ready_def markers_ok_def index_ok_def)

lemma reachable_inv: "queue_reachable s \<Longrightarrow> queue_inv s"
  by (induction rule: queue_reachable.induct) (auto intro: queue_inv_init queue_inv_step)

subsection \<open>A state to look at\<close>

definition sample_file :: "string \<Rightarrow> download" where
  "sample_file name = \<lparr>dl_kind = FileDL, dl_status = QUEUED, dl_peerSourceID = [1], dl_name = name,
     dl_path = ''/'', dl_shared = None, dl_lastTime = None\<rparr>"

text \<open>The state after adding three files at the end of an empty queue.\<close>

definition sample_add :: "string \<Rightarrow> dq_state \<Rightarrow> dq_state" where
  "sample_add name s = (let h = (dq_heap s)(dq_next s := sample_file name)
     in s\<lparr>dq_heap := h, dq_queue := dq_insert h (length (q_downloads (dq_queue s))) (dq_next s) (dq_queue s),
          dq_next := dq_next s + 1\<rparr>)"

definition sample_state :: dq_state where
  "sample_state = sample_add ''c'' (sample_add ''b'' (sample_add ''a'' (dq_init (\<lambda>_. sample_file []))))"

lemma sample_add_reachable: "queue_reachable s \<Longrightarrow> queue_reachable (sample_add name s)"
  unfolding sample_add_def Let_def
  by (erule queue_reachable.step, rule queue_step.insert) (simp_all add: sample_file_def)

lemma sample_reachable: "queue_reachable sample_state"
  unfolding sample_state_def by (intro sample_add_reachable queue_reachable.init)

lemma sample_state_downloads: "q_downloads (dq_queue sample_state) = [1, 2, 3]"
  by (simp add: sample_state_def sample_add_def dq_insert_def dq_init_def empty_queue_def sample_file_def
      insert_at_def updateMarkersInsert_def)

lemma sample_state_heap: "dq_heap sample_state =
   (\<lambda>_. sample_file [])(1 := sample_file ''a'', 2 := sample_file ''b'', 3 := sample_file ''c'')"
  by (simp add: sample_state_def sample_add_def dq_init_def Let_def eval_nat_numeral)

subsection \<open>Properties\<close>



text \<open>
  C2: \<open>moveDownloads\<close> with references that are in the queue puts the moved downloads, in
  queue order, together before the first or after the last reference; if that one is itself moved
  the group stands at its place.
\<close>

theorem moveDownloads_correct:
  assumes "refs \<noteq> []" "ids \<noteq> []" "distinct refs" "set refs \<subseteq> set (q_downloads q)"
    and "distinct (q_downloads q)" "0 \<notin> set (q_downloads q)" "markers_ok h (q_downloads q) (q_markers q)"
  shows "q_downloads (moveDownloads h refs ids position q) =
      move_spec position (chosen_ref position refs (q_downloads q)) (set ids) (q_downloads q)"
  using assms by (rule moveDownloads_chosen)

theorem moveDownloads_correct_witness:
  "q_downloads (moveDownloads (\<lambda>_. sample_file []) [4, 2] [1, 5] AFTER
      (empty_queue\<lparr>q_downloads := [1, 2, 3, 4, 5, 6]\<rparr>)) = [2, 3, 4, 1, 5, 6]"
proof -
  let ?q = "empty_queue\<lparr>q_downloads := [1, 2, 3, 4, 5, 6]\<rparr>"
  have "q_downloads (moveDownloads (\<lambda>_. sample_file []) [4, 2] [1, 5] AFTER ?q) =
      move_spec AFTER (chosen_ref AFTER [4, 2] (q_downloads ?q)) (set [1, 5]) (q_downloads ?q)"
    by (rule moveDownloads_correct) (simp_all add: empty_queue_def markers_ok_def)
  then show ?thesis by (simp add: chosen_ref_def move_spec_def empty_queue_def)
qed

text \<open>
  whatever references and downloads the GUI names, \<open>moveDownloads\<close> loses and duplicates
  no download, and keeps the order both of the moved downloads and of the others.
\<close>

theorem moveDownloads_permutes:
  assumes "queue_reachable s"
    and "q' = moveDownloads (dq_heap s) refs ids position (dq_queue s)"
  shows "mset (q_downloads q') = mset (q_downloads (dq_queue s)) \<and>
     filter (\<lambda>d. d \<in> set ids) (q_downloads q') = filter (\<lambda>d. d \<in> set ids) (q_downloads (dq_queue s))"
proof -
  let ?q = "dq_queue s"
  have inv: "queue_inv s" by (rule reachable_inv [OF assms(1)])
  then have "0 \<notin> set (q_downloads ?q)" by (auto simp: queue_inv_def)
  with inv moveDownloads_any [OF _ _ _ assms(2)] consider "q_downloads q' = q_downloads ?q"
    | r where "r \<in> set (q_downloads ?q)" "q_downloads q' = move_spec position r (set ids) (q_downloads ?q)"
    by (auto simp: queue_inv_def queue_ready_def)
  then show ?thesis
  proof cases
    case 2
    have "filter (\<lambda>d. d \<in> I) (filter (\<lambda>d. d \<notin> I) xs) = []" for I and xs :: "dl_ref list" by (induction xs) auto
    then have "filter (\<lambda>d. d \<in> set ids) (move_spec position r (set ids) (q_downloads ?q)) =
        filter (\<lambda>d. d \<in> set ids) (q_downloads ?q)"
      by (auto simp: move_spec_def Let_def)
    moreover have "distinct (q_downloads ?q)" using inv by (simp add: queue_inv_def)
    ultimately show ?thesis using 2 by (simp add: mset_move_spec)
  qed simp
qed

theorem moveDownloads_permutes_witness:
  "mset (q_downloads (moveDownloads (dq_heap sample_state) [7, 2, 2] [3, 1] BEFORE (dq_queue sample_state)))
     = {#1, 2, 3#}"
  using moveDownloads_permutes [OF sample_reachable refl, of "[7, 2, 2]" "[3, 1]" BEFORE]
  by (simp add: sample_state_downloads)

text \<open>
  C21: a scan of a reachable queue returns exactly the downloads that match, in queue order, though
  it starts at the marker and not at the front, and also after any scans: advancing the marker of
  one predicate hides nothing from the others.
\<close>

theorem scan_queue_after_scans:
  assumes "queue_reachable s" "\<forall>p \<in> set ps. scannable p" "scannable p'"
  shows "fst (scan_queue (dq_heap s) p' (fold (\<lambda>p q. snd (scan_queue (dq_heap s) p q)) ps (dq_queue s))) =
      filter (holds (dq_heap s) p') (q_downloads (dq_queue s))"
proof -
  have "queue_ready (dq_heap s) (dq_queue s)" using reachable_inv [OF assms(1)] by (simp add: queue_inv_def)
  from queue_scan.scan_after_scans [OF this assms(2,3)] show ?thesis .
qed

theorem scan_queue_after_scans_witness:
  "fst (scan_queue (dq_heap sample_state) IsDownloadable (fold (\<lambda>p q. snd (scan_queue (dq_heap sample_state) p q))
     [IsADirectory, IsDownloadable] (dq_queue sample_state))) = [1, 2, 3]"
  using scan_queue_after_scans [OF sample_reachable, of "[IsADirectory, IsDownloadable]" IsDownloadable]
  by (simp add: sample_state_downloads sample_state_heap sample_file_def)



text \<open>
  in a reachable queue \<open>isEntryAlreadyQueued\<close> is true exactly if a file of the queue has
  the entry's name and path and, when the entry has a shared directory, its shared directory.
\<close>

theorem isEntryAlreadyQueued_iff:
  assumes "queue_reachable s"
  shows "isEntryAlreadyQueued (dq_heap s) name path shared (dq_queue s) \<longleftrightarrow>
     (\<exists>d \<in> set (q_downloads (dq_queue s)). dl_kind (dq_heap s d) = FileDL \<and> dl_name (dq_heap s d) = name \<and>
        dl_path (dq_heap s d) = path \<and>
        (shared = None \<or> shared_hash (dl_shared (dq_heap s d)) = shared_hash shared))"
proof -
  have "set (q_byName (dq_queue s)) =
      (\<lambda>d. (dl_name (dq_heap s d), d)) ` {d \<in> set (q_downloads (dq_queue s)). dl_kind (dq_heap s d) = FileDL}"
    using reachable_inv [OF assms] by (simp add: queue_inv_def index_ok_def)
  then show ?thesis by (auto simp: isEntryAlreadyQueued_def list_ex_iff)
qed

theorem isEntryAlreadyQueued_iff_witness:
  "isEntryAlreadyQueued (dq_heap sample_state) ''b'' ''/'' None (dq_queue sample_state)"
  using isEntryAlreadyQueued_iff [OF sample_reachable, of "''b''" "''/''" None]
  by (simp add: sample_state_downloads sample_state_heap sample_file_def)

text \<open>
  \<open>isAPeerSource\<close> answers from the index, and \<open>peerBecomesAvailable\<close> tells through
  it exactly the downloads of the queue whose source is the peer.
\<close>

lemma peerBecomesAvailable_exact:
  assumes "queue_reachable s"
  shows "(isAPeerSource (Some i) (dq_queue s) \<longleftrightarrow>
       (\<exists>d \<in> set (q_downloads (dq_queue s)). dl_peerSourceID (dq_heap s d) = i)) \<and>
     (\<exists>ds. set ds = {d \<in> set (q_downloads (dq_queue s)). dl_peerSourceID (dq_heap s d) = i} \<and>
       peerBecomesAvailable tell (Some i) (dq_queue s) h = fold (tell i) ds h)"
proof -
  have peers: "set (q_byPeer (dq_queue s)) = (\<lambda>d. (dl_peerSourceID (dq_heap s d), d)) ` set (q_downloads (dq_queue s))"
    using reachable_inv [OF assms] by (simp add: queue_inv_def index_ok_def)
  let ?ds = "map snd (filter (\<lambda>(k, _). k = i) (q_byPeer (dq_queue s)))"
  have "set ?ds = {d \<in> set (q_downloads (dq_queue s)). dl_peerSourceID (dq_heap s d) = i}"
    by (auto simp: peers image_iff)
  moreover have "isAPeerSource (Some i) (dq_queue s) \<longleftrightarrow>
       (\<exists>d \<in> set (q_downloads (dq_queue s)). dl_peerSourceID (dq_heap s d) = i)"
    by (auto simp: isAPeerSource_def peers image_iff)
  moreover have "peerBecomesAvailable tell (Some i) (dq_queue s) h = fold (tell i) ?ds h"
    by (simp add: peerBecomesAvailable_def)
  ultimately show ?thesis by blast
qed

lemma peerBecomesAvailable_sample:
  "isAPeerSource (Some [1]) (dq_queue sample_state) \<and> \<not> isAPeerSource (Some [2]) (dq_queue sample_state)"
  using peerBecomesAvailable_exact [OF sample_reachable, of "[1]" "\<lambda>_ _ n. n" "dq_heap sample_state"]
    peerBecomesAvailable_exact [OF sample_reachable, of "[2]" "\<lambda>_ _ n. n" "dq_heap sample_state"]
  by (simp add: sample_state_downloads sample_state_heap sample_file_def)

text \<open>
  \<open>getTheOldestUnfinishedChunks(n)\<close> returns at most \<open>n\<close> chunks and prunes from the
  map sorted by time only files that are complete or deleted.
\<close>

theorem getTheOldestUnfinishedChunks_bound:
  assumes "chunk_source_ok get" and "getTheOldestUnfinishedChunks get n h q = (cs, h', ev, q')"
  shows "length cs \<le> n \<and> set (q_byTime q') \<subseteq> set (q_byTime q) \<and>
     (\<forall>e \<in> set (q_byTime q) - set (q_byTime q'). terminal (dl_status (h (snd e))))"
proof -
  obtain kept where "oldest_loop get n (q_byTime q) [] h = (kept, cs, h', ev)" "q' = q\<lparr>q_byTime := kept\<rparr>"
    using assms(2) by (auto simp: getTheOldestUnfinishedChunks_def split: prod.splits)
  with oldest_loop_spec [OF assms(1) this(1)] show ?thesis by auto
qed

theorem getTheOldestUnfinishedChunks_bound_witness:
  "length (fst (getTheOldestUnfinishedChunks (\<lambda>m d h. (replicate (min m 2) d, h, [])) 3
      (dq_heap sample_state) (dq_queue sample_state))) \<le> 3"
proof -
  let ?get = "\<lambda>m d h. (replicate (min m 2) d, h, []) :: dl_ref list \<times> dl_heap \<times> event list"
  have "chunk_source_ok ?get" by (simp add: chunk_source_ok_def)
  then show ?thesis
    using getTheOldestUnfinishedChunks_bound [of ?get 3 "dq_heap sample_state" "dq_queue sample_state"]
    by (metis prod.exhaust_sel)
qed

text \<open>A download that fails, is tried again and fails again.\<close>

definition step_status :: "status \<Rightarrow> dl_ref \<Rightarrow> dq_state \<Rightarrow> dq_state" where
  "step_status st d s = (let (h, q) = changeStatus st d (dq_heap s) (dq_queue s) in s\<lparr>dq_heap := h, dq_queue := q\<rparr>)"

definition fails_twice :: dq_state where
  "fails_twice = step_status HASH_MISMATCH 1 (step_status QUEUED 1 (step_status TRANSFER_ERROR 1
     (sample_add ''a'' (dq_init (\<lambda>_. sample_file [])))))"

lemma step_status_reachable:
  assumes "queue_reachable s \<and> d \<in> set (q_downloads (dq_queue s)) \<and> \<not> terminal (dl_status (dq_heap s d))"
    and "\<not> terminal st"
  shows "queue_reachable (step_status st d s) \<and> d \<in> set (q_downloads (dq_queue (step_status st d s))) \<and>
     \<not> terminal (dl_status (dq_heap (step_status st d s) d))"
proof -
  obtain h q where hq: "changeStatus st d (dq_heap s) (dq_queue s) = (h, q)" by (metis surj_pair)
  have "queue_reachable (s\<lparr>dq_heap := h, dq_queue := q\<rparr>)"
    using assms(1) hq [symmetric] by (intro queue_reachable.step [OF _ queue_step.status]) auto
  moreover have "q_downloads q = q_downloads (dq_queue s)" "dl_status (h d) = st"
    using hq by (auto simp: changeStatus_def Let_def setDownloadAsErroneous_def split: if_splits)
  ultimately show ?thesis using assms by (simp add: step_status_def hq)
qed

lemma fails_twice_reachable: "queue_reachable fails_twice"
proof -
  have "queue_reachable (sample_add ''a'' (dq_init (\<lambda>_. sample_file [])))"
    by (intro sample_add_reachable queue_reachable.init)
  then have "queue_reachable fails_twice \<and> 1 \<in> set (q_downloads (dq_queue fails_twice)) \<and>
      \<not> terminal (dl_status (dq_heap fails_twice 1))"
    unfolding fails_twice_def
    by (intro step_status_reachable conjI)
      (simp_all add: terminal_def sample_add_def dq_init_def dq_insert_def empty_queue_def sample_file_def Let_def insert_at_def)
  then show ?thesis ..
qed

text \<open>
  a reachable queue can keep a deleted download in \<open>erroneousDownloads\<close>: a download that
  becomes erroneous twice is listed twice and \<open>remove\<close> takes off one of the two, so that
  \<open>getAnErroneousDownload\<close> later returns a download that is no longer in the queue.
\<close>

theorem erroneous_left_after_remove:
  "\<exists>s s'. queue_reachable s \<and> s' = s\<lparr>dq_queue := dq_remove (dq_heap s) 0 (dq_queue s)\<rparr> \<and> queue_step s s' \<and>
     q_downloads (dq_queue s') = [] \<and> fst (getAnErroneousDownload (dq_queue s')) = Some 1"
proof -
  have "q_downloads (dq_queue fails_twice) = [1]" "q_erroneous (dq_queue fails_twice) = [1, 1]"
    by (simp_all add: fails_twice_def sample_add_def dq_init_def dq_insert_def empty_queue_def sample_file_def
        Let_def insert_at_def step_status_def changeStatus_def isStatusErroneous_def setDownloadAsErroneous_def setStatus_def)
  then have "q_downloads (dq_remove (dq_heap fails_twice) 0 (dq_queue fails_twice)) = []"
    "q_erroneous (dq_remove (dq_heap fails_twice) 0 (dq_queue fails_twice)) = [1]"
    by (simp_all add: dq_remove_def Let_def)
  moreover have "queue_step fails_twice (fails_twice\<lparr>dq_queue := dq_remove (dq_heap fails_twice) 0 (dq_queue fails_twice)\<rparr>)"
    by (rule queue_step.remove) (simp add: \<open>q_downloads (dq_queue fails_twice) = [1]\<close>)
  ultimately show ?thesis using fails_twice_reachable
    by (intro exI [of _ fails_twice] exI [of _ "fails_twice\<lparr>dq_queue := dq_remove (dq_heap fails_twice) 0 (dq_queue fails_twice)\<rparr>"])
      (simp add: getAnErroneousDownload_def)
qed

end
