(* ===== verification/File_Chunks.thy ===== *)
theory File_Chunks
  imports Dg_Prelude
begin

text \<open>
  A shared file and its chunks: \<open>Core/FileManager/priv/Cache/File.cpp\<close>, \<open>Chunk.h\<close>,
  \<open>Chunk.cpp\<close> and \<open>DataWriter.cpp\<close>.

  The chunk size (\<open>Chunk::CHUNK_SIZE\<close>) and the suffix of unfinished files are settings, here the
  arguments \<open>cs\<close> and \<open>suf\<close>.  What the operating system answers (\<open>QFile\<close>,
  \<open>FilePool::open\<close>, the renaming) is the argument \<open>dev\<close>.  The notifications to the cache
  (\<open>onChunkHashKnown\<close>, \<open>onChunkRemoved\<close>, \<open>onEntryAdded\<close>, \<open>onEntryRemoved\<close>) are
  logged in order.  An exception is an \<open>Inl\<close>, with the state the object is left in.
\<close>

subsection \<open>State\<close>

record fchunk =
  fc_known :: nat              \<comment> \<open>\<open>knownBytes\<close>\<close>
  fc_hash :: "hash option"     \<comment> \<open>\<open>None\<close> is the null hash\<close>
  fc_file :: bool              \<comment> \<open>whether \<open>file\<close> is set\<close>

datatype file_event = ChunkHashKnown nat | ChunkRemoved nat | EntryAdded string | EntryRemoved string

record cfile =
  fi_name :: string
  fi_size :: nat
  fi_complete :: bool
  fi_chunks :: "fchunk list"
  fi_data :: "byte list"       \<comment> \<open>the bytes on the disk\<close>
  fi_numW :: nat               \<comment> \<open>\<open>numDataWriter\<close>\<close>
  fi_numR :: nat
  fi_w :: bool                 \<comment> \<open>whether \<open>fileInWriteMode\<close> is set\<close>
  fi_r :: bool
  fi_log :: "file_event list"

datatype io_error =
    IOError | ChunkDeleted | ChunkDataUnknown | TryToWriteBeyondTheEndOfChunk
  | UnableToOpenFileInWriteMode | UnableToOpenFileInReadMode | FileReset | HashMismatch
  | UnableToCreateNewFile

text \<open>
  \<open>dv_write offset n\<close> is the number of bytes written of \<open>n\<close>, or \<open>-1\<close>;
  \<open>dv_openW\<close> is \<open>None\<close> when the file cannot be opened, else tells whether it was created.
\<close>

record device =
  dv_seek :: "nat \<Rightarrow> bool"
  dv_write :: "nat \<Rightarrow> nat \<Rightarrow> int"
  dv_read :: bool
  dv_rename :: bool
  dv_openW :: "bool option"
  dv_openR :: bool
  dv_resize :: bool

definition good_device :: device where
  "good_device = \<lparr>dv_seek = (\<lambda>_. True), dv_write = (\<lambda>_ n. int n), dv_read = True, dv_rename = True,
                  dv_openW = Some False, dv_openR = True, dv_resize = True\<rparr>"

subsection \<open>Names and sizes\<close>

definition isFileUnfinished :: "string \<Rightarrow> string \<Rightarrow> bool" where
  "isFileUnfinished suf name \<longleftrightarrow> length name > length suf \<and> drop (length name - length suf) name = suf"

definition removeUnfinishedSuffix :: "string \<Rightarrow> string \<Rightarrow> string" where
  "removeUnfinishedSuffix suf name = (if isFileUnfinished suf name then take (length name - length suf) name else name)"

definition getNbChunks :: "nat \<Rightarrow> cfile \<Rightarrow> nat" where
  "getNbChunks cs f = fi_size f div cs + (if fi_size f mod cs = 0 then 0 else 1)"

definition getChunkSize :: "nat \<Rightarrow> cfile \<Rightarrow> nat \<Rightarrow> nat" where
  "getChunkSize cs f k =
     (if \<not> fc_file (fi_chunks f ! k) then 0
      else if k < getNbChunks cs f - 1 then cs
      else (let sz = fi_size f mod cs in if sz = 0 then cs else sz))"

definition chunk_isComplete :: "nat \<Rightarrow> cfile \<Rightarrow> nat \<Rightarrow> bool" where
  "chunk_isComplete cs f k \<longleftrightarrow>
     fc_file (fi_chunks f ! k) \<and> fc_known (fi_chunks f ! k) \<ge> getChunkSize cs f k"

definition hasAllHashes :: "cfile \<Rightarrow> bool" where
  "hasAllHashes f \<longleftrightarrow> fi_size f \<noteq> 0 \<and> list_all (\<lambda>c. fc_hash c \<noteq> None) (fi_chunks f)"

definition hasOneOrMoreHashes :: "cfile \<Rightarrow> bool" where
  "hasOneOrMoreHashes f \<longleftrightarrow> list_ex (\<lambda>c. fc_hash c \<noteq> None) (fi_chunks f)"

definition note_event :: "file_event \<Rightarrow> cfile \<Rightarrow> cfile" where
  "note_event e f = f\<lparr>fi_log := fi_log f @ [e]\<rparr>"

definition set_known :: "nat \<Rightarrow> nat \<Rightarrow> cfile \<Rightarrow> cfile" where
  "set_known k n f = f\<lparr>fi_chunks := (fi_chunks f)[k := (fi_chunks f ! k)\<lparr>fc_known := n\<rparr>]\<rparr>"

subsection \<open>Creating and deleting\<close>

text \<open>\<open>hashes ! i\<close> is \<open>None\<close> for a null hash.\<close>

definition new_chunk :: "nat \<Rightarrow> hash option list \<Rightarrow> nat \<Rightarrow> cfile \<Rightarrow> cfile" where
  "new_chunk cs hashes i f =
     (let known = (if \<not> fi_complete f then 0
                   else if i = getNbChunks cs f - 1 \<and> fi_size f mod cs \<noteq> 0 then fi_size f mod cs else cs)
      in if i < length hashes \<and> hashes ! i \<noteq> None
         then (let f = f\<lparr>fi_chunks := fi_chunks f @ [\<lparr>fc_known = known, fc_hash = hashes ! i, fc_file = True\<rparr>]\<rparr>
               in if chunk_isComplete cs f i then note_event (ChunkHashKnown i) f else f)
         else f\<lparr>fi_chunks := fi_chunks f @ [\<lparr>fc_known = known, fc_hash = None, fc_file = True\<rparr>]\<rparr>)"

definition setHashes :: "nat \<Rightarrow> hash option list \<Rightarrow> cfile \<Rightarrow> cfile" where
  "setHashes cs hashes f = fold (new_chunk cs hashes) [0..<getNbChunks cs f] f"

definition deleteAllChunks :: "cfile \<Rightarrow> cfile" where
  "deleteAllChunks f = (fold (\<lambda>i. note_event (ChunkRemoved i)) [0..<length (fi_chunks f)] f)\<lparr>fi_chunks := []\<rparr>"

text \<open>\<open>resize\<close> of a new physical file fills it with zeros.\<close>

definition createPhysicalFile :: "string \<Rightarrow> device \<Rightarrow> cfile \<Rightarrow> io_error + cfile" where
  "createPhysicalFile suf dev f =
     (if fi_size f > 0 \<and> \<not> isFileUnfinished suf (fi_name f) then Inr f
      else if dv_openW dev = None \<or> \<not> dv_resize dev then Inl UnableToCreateNewFile
      else Inr (f\<lparr>fi_data := replicate (fi_size f) 0\<rparr>))"

definition new_file :: "nat \<Rightarrow> string \<Rightarrow> device \<Rightarrow> string \<Rightarrow> nat \<Rightarrow> hash option list \<Rightarrow> bool \<Rightarrow> byte list \<Rightarrow> io_error + cfile" where
  "new_file cs suf dev name sz hashes createPhysically disk =
     (let nm = name @ (if createPhysically \<and> sz > 0 then suf else []);
          f = note_event (EntryAdded nm) \<lparr>fi_name = nm, fi_size = sz, fi_complete = \<not> isFileUnfinished suf nm,
                fi_chunks = [], fi_data = disk, fi_numW = 0, fi_numR = 0, fi_w = False, fi_r = False, fi_log = []\<rparr>
      in if createPhysically
         then (case createPhysicalFile suf dev f of Inl e \<Rightarrow> Inl e | Inr f \<Rightarrow> Inr (setHashes cs hashes f))
         else Inr (setHashes cs hashes f))"

definition setToUnfinished :: "nat \<Rightarrow> string \<Rightarrow> device \<Rightarrow> nat \<Rightarrow> hash option list \<Rightarrow> cfile \<Rightarrow> io_error + cfile" where
  "setToUnfinished cs suf dev sz hashes f =
     (let f = f\<lparr>fi_complete := False\<rparr>;
          f = note_event (EntryRemoved (fi_name f)) f;
          f = f\<lparr>fi_name := fi_name f @ suf, fi_size := sz\<rparr>;
          f = setHashes cs hashes (deleteAllChunks f)
      in createPhysicalFile suf dev f)"

subsection \<open>Opening\<close>

definition newDataWriterCreated :: "device \<Rightarrow> cfile \<Rightarrow> (io_error \<times> cfile) + cfile" where
  "newDataWriterCreated dev f =
     (let f = f\<lparr>fi_numW := fi_numW f + 1\<rparr> in
      if fi_numW f = 1
      then (case dv_openW dev of
              None \<Rightarrow> Inl (UnableToOpenFileInWriteMode, f\<lparr>fi_w := False\<rparr>)
            | Some created \<Rightarrow>
                (let f = f\<lparr>fi_w := True\<rparr> in
                 if created
                 then (if \<not> dv_resize dev then Inl (UnableToOpenFileInWriteMode, f)
                       else (let f = f\<lparr>fi_data := replicate (fi_size f) 0\<rparr>;
                                 known = filter (\<lambda>k. fc_known (fi_chunks f ! k) \<noteq> 0) [0..<length (fi_chunks f)];
                                 f = fold (\<lambda>k f. note_event (ChunkRemoved k) (set_known k 0 f)) known f
                             in if known \<noteq> [] then Inl (FileReset, f) else Inr f))
                 else Inr f))
      else Inr f)"

definition dataWriterDeleted :: "cfile \<Rightarrow> cfile" where
  "dataWriterDeleted f = (let f = f\<lparr>fi_numW := fi_numW f - 1\<rparr> in if fi_numW f = 0 then f\<lparr>fi_w := False\<rparr> else f)"

definition newDataReaderCreated :: "device \<Rightarrow> cfile \<Rightarrow> (io_error \<times> cfile) + cfile" where
  "newDataReaderCreated dev f =
     (let f = f\<lparr>fi_numR := fi_numR f + 1\<rparr> in
      if fi_numR f = 1
      then (if dv_openR dev then Inr (f\<lparr>fi_r := True\<rparr>) else Inl (UnableToOpenFileInReadMode, f\<lparr>fi_r := False\<rparr>))
      else Inr f)"

definition dataReaderDeleted :: "cfile \<Rightarrow> cfile" where
  "dataReaderDeleted f = (let f = f\<lparr>fi_numR := fi_numR f - 1\<rparr> in if fi_numR f = 0 then f\<lparr>fi_r := False\<rparr> else f)"

subsection \<open>Reading and writing\<close>

definition file_write :: "device \<Rightarrow> byte list \<Rightarrow> nat \<Rightarrow> cfile \<Rightarrow> io_error + (nat \<times> cfile)" where
  "file_write dev buffer offset f =
     (if \<not> fi_w f \<or> offset \<ge> fi_size f \<or> \<not> dv_seek dev offset then Inl IOError
      else (let maxSize = fi_size f - offset;
                n = dv_write dev offset (if length buffer > maxSize then maxSize else length buffer)
            in if n < 0 then Inl IOError
               else Inr (nat n, f\<lparr>fi_data := take offset (fi_data f) @ take (nat n) buffer
                                              @ drop (offset + nat n) (fi_data f)\<rparr>)))"

definition file_read :: "device \<Rightarrow> nat \<Rightarrow> nat \<Rightarrow> cfile \<Rightarrow> io_error + byte list" where
  "file_read dev offset maxBytesToRead f =
     (if \<not> fi_r f \<or> offset \<ge> fi_size f then Inr []
      else if \<not> dv_seek dev offset \<or> \<not> dv_read dev then Inl IOError
      else Inr (take maxBytesToRead (drop offset (fi_data f))))"

definition setAsComplete :: "string \<Rightarrow> device \<Rightarrow> cfile \<Rightarrow> cfile" where
  "setAsComplete suf dev f =
     (if isFileUnfinished suf (fi_name f)
      then (let f = (if fi_numR f > 0 \<or> fi_numW f > 0 then f\<lparr>fi_r := False, fi_w := False\<rparr> else f)
            in if \<not> dv_rename dev then f
               else (let f = f\<lparr>fi_complete := True, fi_name := removeUnfinishedSuffix suf (fi_name f)\<rparr>
                     in note_event (EntryAdded (fi_name f)) f))
      else f)"

definition chunkComplete :: "nat \<Rightarrow> string \<Rightarrow> device \<Rightarrow> nat \<Rightarrow> cfile \<Rightarrow> cfile" where
  "chunkComplete cs suf dev k f =
     (let f = note_event (ChunkHashKnown k) f;
          nbChunkComplete = length (filter (chunk_isComplete cs f) [0..<length (fi_chunks f)])
      in if nbChunkComplete = getNbChunks cs f then setAsComplete suf dev f else f)"

definition chunk_read :: "nat \<Rightarrow> nat \<Rightarrow> device \<Rightarrow> nat \<Rightarrow> nat \<Rightarrow> cfile \<Rightarrow> io_error + byte list" where
  "chunk_read cs bufferSize dev k offset f =
     (if \<not> fc_file (fi_chunks f ! k) then Inl ChunkDeleted
      else if fc_known (fi_chunks f ! k) = 0 then Inl ChunkDataUnknown
      else if offset \<ge> fc_known (fi_chunks f ! k) then Inr []
      else (let bytesRemaining = getChunkSize cs f k - offset
            in file_read dev (offset + k * cs) (if bytesRemaining \<ge> bufferSize then bufferSize else bytesRemaining) f))"

definition chunk_write :: "nat \<Rightarrow> string \<Rightarrow> device \<Rightarrow> nat \<Rightarrow> byte list \<Rightarrow> cfile \<Rightarrow> io_error + (bool \<times> cfile)" where
  "chunk_write cs suf dev k buffer f =
     (if \<not> fc_file (fi_chunks f ! k) then Inl ChunkDeleted
      else (let sz = getChunkSize cs f k; known = fc_known (fi_chunks f ! k) in
            if known + length buffer > sz then Inl TryToWriteBeyondTheEndOfChunk
            else (case file_write dev buffer (known + k * cs) f of
                    Inl e \<Rightarrow> Inl e
                  | Inr (n, f) \<Rightarrow>
                      (let f = set_known k (if known + n > sz then sz else known + n) f;
                           complete = (fc_known (fi_chunks f ! k) = sz)
                       in Inr (complete, if complete then chunkComplete cs suf dev k f else f)))))"

subsection \<open>The data writer\<close>

text \<open>
  \<open>DataWriter\<close>: the state of its hasher is the bytes that were added, and \<open>H\<close> is the hash
  function of \<open>Common::Hasher\<close>.  \<open>computeChunkHash\<close> reads the chunk until a read returns
  nothing; each read advances, so the size of the chunk is enough fuel.
\<close>

fun hash_known :: "nat \<Rightarrow> nat \<Rightarrow> nat \<Rightarrow> device \<Rightarrow> nat \<Rightarrow> nat \<Rightarrow> cfile \<Rightarrow> io_error + byte list" where
  "hash_known 0 cs bufferSize dev k offset f = Inr []"
| "hash_known (Suc fuel) cs bufferSize dev k offset f =
     (case chunk_read cs bufferSize dev k offset f of
        Inl e \<Rightarrow> Inl e
      | Inr [] \<Rightarrow> Inr []
      | Inr bytes \<Rightarrow> (case hash_known fuel cs bufferSize dev k (offset + length bytes) f of
            Inl e \<Rightarrow> Inl e | Inr rest \<Rightarrow> Inr (bytes @ rest)))"

definition computeChunkHash :: "nat \<Rightarrow> nat \<Rightarrow> device \<Rightarrow> bool \<Rightarrow> nat \<Rightarrow> cfile
      \<Rightarrow> (io_error \<times> cfile) + (byte list \<times> cfile)" where
  "computeChunkHash cs bufferSize dev check k f =
     (if check \<and> fc_known (fi_chunks f ! k) > 0
      then (case newDataReaderCreated dev f of
              Inl (UnableToOpenFileInReadMode, f) \<Rightarrow> Inr ([], f)
            | Inl (e, f) \<Rightarrow> Inl (e, f)
            | Inr f \<Rightarrow> (case hash_known (Suc cs) cs bufferSize dev k 0 f of
                  Inl e \<Rightarrow> Inl (e, dataReaderDeleted f) | Inr bytes \<Rightarrow> Inr (bytes, dataReaderDeleted f)))
      else Inr ([], f))"

definition new_DataWriter :: "nat \<Rightarrow> nat \<Rightarrow> device \<Rightarrow> bool \<Rightarrow> nat \<Rightarrow> cfile
      \<Rightarrow> (io_error \<times> cfile) + (byte list \<times> cfile)" where
  "new_DataWriter cs bufferSize dev check k f =
     (case computeChunkHash cs bufferSize dev check k f of
        Inl e \<Rightarrow> Inl e
      | Inr (hasher, f) \<Rightarrow>
          (if fc_file (fi_chunks f ! k)
           then (case newDataWriterCreated dev f of Inl (e, f) \<Rightarrow> Inl (e, f) | Inr f \<Rightarrow> Inr (hasher, f))
           else Inr (hasher, f)))"

definition DataWriter_write :: "(byte list \<Rightarrow> hash) \<Rightarrow> nat \<Rightarrow> string \<Rightarrow> device \<Rightarrow> bool \<Rightarrow> nat \<Rightarrow> byte list
      \<Rightarrow> byte list \<times> cfile \<Rightarrow> (io_error \<times> byte list \<times> cfile) + (bool \<times> byte list \<times> cfile)" where
  "DataWriter_write H cs suf dev check k buffer w =
     (let (hasher, f) = w; hasher = (if check then hasher @ buffer else hasher) in
      if check \<and> fc_known (fi_chunks f ! k) + length buffer = getChunkSize cs f k
           \<and> Some (H hasher) \<noteq> fc_hash (fi_chunks f ! k)
      then Inl (HashMismatch, hasher, set_known k 0 f)
      else (case chunk_write cs suf dev k buffer f of
              Inl e \<Rightarrow> Inl (e, hasher, f) | Inr (complete, f) \<Rightarrow> Inr (complete, hasher, f)))"

subsection \<open>The layout of the chunks\<close>

definition file_ok :: "nat \<Rightarrow> cfile \<Rightarrow> bool" where
  "file_ok cs f \<longleftrightarrow> 0 < cs \<and> length (fi_data f) = fi_size f \<and> length (fi_chunks f) = getNbChunks cs f \<and>
     (\<forall>k < getNbChunks cs f. fc_file (fi_chunks f ! k) \<and> fc_known (fi_chunks f ! k) \<le> getChunkSize cs f k)"

lemma file_okD:
  assumes "file_ok cs f"
  shows "0 < cs" "length (fi_data f) = fi_size f" "length (fi_chunks f) = getNbChunks cs f"
    "k < getNbChunks cs f \<Longrightarrow> fc_file (fi_chunks f ! k)"
    "k < getNbChunks cs f \<Longrightarrow> fc_known (fi_chunks f ! k) \<le> getChunkSize cs f k"
  using assms by (auto simp: file_ok_def)

text \<open>The chunks but the last are full; together they cover the file.\<close>

lemma nb_chunks_bounds:
  assumes "0 < cs" "k < getNbChunks cs f"
  shows "k * cs < fi_size f" and "Suc k < getNbChunks cs f \<Longrightarrow> Suc k * cs \<le> fi_size f"
    and "Suc k = getNbChunks cs f \<Longrightarrow> fi_size f = k * cs + (if fi_size f mod cs = 0 then cs else fi_size f mod cs)"
proof -
  let ?q = "fi_size f div cs" and ?r = "fi_size f mod cs"
  have eq: "fi_size f = ?q * cs + ?r" by (simp add: div_mult_mod_eq)
  show "k * cs < fi_size f"
  proof (cases "?r = 0")
    case True
    then have "k < ?q" using assms(2) by (simp add: getNbChunks_def)
    then have "k * cs < ?q * cs" using assms(1) by simp
    then show ?thesis using eq by linarith
  next
    case False
    then have "k \<le> ?q" using assms(2) by (simp add: getNbChunks_def)
    then have "k * cs \<le> ?q * cs" by simp
    then show ?thesis using eq False by linarith
  qed
  show "Suc k * cs \<le> fi_size f" if "Suc k < getNbChunks cs f"
  proof -
    have "Suc k \<le> ?q" using that by (auto simp: getNbChunks_def split: if_splits)
    then have "Suc k * cs \<le> ?q * cs" by (rule mult_le_mono1)
    then show ?thesis using eq by linarith
  qed
  show "fi_size f = k * cs + (if ?r = 0 then cs else ?r)" if "Suc k = getNbChunks cs f"
  proof (cases "?r = 0")
    case True
    then have "?q = Suc k" using that by (simp add: getNbChunks_def)
    with True eq show ?thesis by simp
  next
    case False
    then have "?q = k" using that by (simp add: getNbChunks_def)
    with False eq show ?thesis by simp
  qed
qed

lemma chunk_fits:
  assumes "0 < cs" "k < getNbChunks cs f" "fc_file (fi_chunks f ! k)"
  shows "k * cs + getChunkSize cs f k \<le> fi_size f" and "getChunkSize cs f k \<le> cs" and "0 < getChunkSize cs f k"
proof -
  consider (mid) "Suc k < getNbChunks cs f" | (last) "Suc k = getNbChunks cs f" using assms(2) by linarith
  then show "k * cs + getChunkSize cs f k \<le> fi_size f"
  proof cases
    case mid
    with nb_chunks_bounds(2) [OF assms(1,2) mid] assms(3) show ?thesis by (simp add: getChunkSize_def)
  next
    case last
    have "getChunkSize cs f k = (if fi_size f mod cs = 0 then cs else fi_size f mod cs)"
      using last assms(3) by (simp add: getChunkSize_def Let_def flip: last)
    with nb_chunks_bounds(3) [OF assms(1,2) last] show ?thesis by linarith
  qed
  show "getChunkSize cs f k \<le> cs" "0 < getChunkSize cs f k"
    using assms by (auto simp: getChunkSize_def Let_def mod_less_divisor less_imp_le)
qed

text \<open>What is known of a chunk, on the disk.\<close>

definition content :: "nat \<Rightarrow> nat \<Rightarrow> cfile \<Rightarrow> byte list" where
  "content cs k f = take (fc_known (fi_chunks f ! k)) (drop (k * cs) (fi_data f))"

lemma content_length:
  assumes "file_ok cs f" "k < getNbChunks cs f"
  shows "length (content cs k f) = fc_known (fi_chunks f ! k)"
  using chunk_fits(1) [OF file_okD(1) [OF assms(1)] assms(2) file_okD(4) [OF assms]] file_okD(2,5) [OF assms(1)] assms(2)
  by (fastforce simp: content_def)

text \<open>Only the bytes and counters of a chunk matter to the layout.\<close>

lemma note_event_frame [simp]:
  "fi_size (note_event e f) = fi_size f" "fi_chunks (note_event e f) = fi_chunks f" "fi_data (note_event e f) = fi_data f"
  "fi_name (note_event e f) = fi_name f" "fi_w (note_event e f) = fi_w f" "fi_complete (note_event e f) = fi_complete f"
  "fi_numW (note_event e f) = fi_numW f" "fi_numR (note_event e f) = fi_numR f" "fi_r (note_event e f) = fi_r f"
  by (simp_all add: note_event_def)

lemma set_known_frame [simp]:
  "fi_size (set_known k n f) = fi_size f" "fi_data (set_known k n f) = fi_data f" "fi_name (set_known k n f) = fi_name f"
  "fi_w (set_known k n f) = fi_w f" "length (fi_chunks (set_known k n f)) = length (fi_chunks f)"
  "fi_complete (set_known k n f) = fi_complete f" "fi_numW (set_known k n f) = fi_numW f"
  by (simp_all add: set_known_def)

lemma set_known_nth:
  "k < length (fi_chunks f) \<Longrightarrow> j < length (fi_chunks f) \<Longrightarrow>
   fi_chunks (set_known k n f) ! j = (if j = k then (fi_chunks f ! k)\<lparr>fc_known := n\<rparr> else fi_chunks f ! j)"
  by (simp add: set_known_def nth_list_update)

lemma getNbChunks_cong: "fi_size f' = fi_size f \<Longrightarrow> getNbChunks cs f' = getNbChunks cs f"
  by (simp add: getNbChunks_def)

lemma getChunkSize_cong:
  "fi_size f' = fi_size f \<Longrightarrow> fc_file (fi_chunks f' ! k) = fc_file (fi_chunks f ! k) \<Longrightarrow>
   getChunkSize cs f' k = getChunkSize cs f k"
  by (simp add: getChunkSize_def getNbChunks_def)

lemma setAsComplete_frame [simp]:
  "fi_size (setAsComplete suf dev f) = fi_size f" "fi_chunks (setAsComplete suf dev f) = fi_chunks f"
  "fi_data (setAsComplete suf dev f) = fi_data f"
  by (auto simp: setAsComplete_def Let_def)

lemma chunkComplete_frame [simp]:
  "fi_size (chunkComplete cs suf dev k f) = fi_size f" "fi_chunks (chunkComplete cs suf dev k f) = fi_chunks f"
  "fi_data (chunkComplete cs suf dev k f) = fi_data f"
  by (auto simp: chunkComplete_def Let_def)

text \<open>A write at an offset changes the bytes written and no other.\<close>

lemma overwrite_take_drop:
  assumes "length xs = n" "off + length ys \<le> n" "a + b \<le> off \<or> off + length ys \<le> a"
  shows "take b (drop a (take off xs @ ys @ drop (off + length ys) xs)) = take b (drop a xs)"
proof -
  define zs where "zs = take off xs @ ys @ drop (off + length ys) xs"
  have len: "length zs = n" using assms(1,2) by (simp add: zs_def)
  have "take b (drop a zs) = take b (drop a xs)"
  proof (rule nth_equalityI)
    show "length (take b (drop a zs)) = length (take b (drop a xs))" using len assms(1) by simp
    fix i assume "i < length (take b (drop a zs))"
    then have i: "i < b" "a + i < n" using len by auto
    moreover have "zs ! (a + i) = xs ! (a + i)"
      using assms i by (auto simp: zs_def nth_append)
    ultimately show "take b (drop a zs) ! i = take b (drop a xs) ! i" using len assms(1) by simp
  qed
  then show ?thesis by (simp add: zs_def)
qed

lemma overwrite_self:
  assumes "length xs = n" "a + b + length ys \<le> n"
  shows "take (b + length ys) (drop a (take (a + b) xs @ ys @ drop (a + b + length ys) xs)) = take b (drop a xs) @ ys"
  using assms by (simp add: take_add drop_take)

text \<open>A device that writes what it is given.\<close>

definition writes_all :: "device \<Rightarrow> bool" where
  "writes_all dev \<longleftrightarrow> (\<forall>off. dv_seek dev off) \<and> (\<forall>off n. dv_write dev off n = int n)"

text \<open>The effect of a successful write, before the file is told that the chunk is complete.\<close>

lemma chunk_write_effect:
  assumes ok: "file_ok cs f" and k: "k < getNbChunks cs f" and dev: "writes_all dev"
    and run: "chunk_write cs suf dev k buffer f = Inr (complete, f')"
  shows "fi_size f' = fi_size f \<and> fc_known (fi_chunks f ! k) + length buffer \<le> getChunkSize cs f k \<and>
     fi_chunks f' = (fi_chunks f)[k := (fi_chunks f ! k)\<lparr>fc_known := fc_known (fi_chunks f ! k) + length buffer\<rparr>] \<and>
     (let off = fc_known (fi_chunks f ! k) + k * cs in
      fi_data f' = take off (fi_data f) @ buffer @ drop (off + length buffer) (fi_data f)) \<and>
     (complete \<longleftrightarrow> fc_known (fi_chunks f ! k) + length buffer = getChunkSize cs f k)"
proof -
  let ?known = "fc_known (fi_chunks f ! k)" and ?size = "getChunkSize cs f k"
  let ?off = "?known + k * cs"
  have hasf: "fc_file (fi_chunks f ! k)" using file_okD(4) [OF ok k] .
  have fits: "k * cs + ?size \<le> fi_size f" using chunk_fits(1) [OF file_okD(1) [OF ok] k hasf] .
  have le: "?known + length buffer \<le> ?size" and w: "fi_w f" "?off < fi_size f"
    using run hasf by (auto simp: chunk_write_def file_write_def Let_def split: if_splits)
  have maxs: "\<not> length buffer > fi_size f - ?off" using fits le by linarith
  have fw: "file_write dev buffer ?off f =
      Inr (length buffer, f\<lparr>fi_data := take ?off (fi_data f) @ buffer @ drop (?off + length buffer) (fi_data f)\<rparr>)"
    using w dev maxs by (simp add: file_write_def writes_all_def Let_def)
  define g where "g = set_known k (?known + length buffer)
      (f\<lparr>fi_data := take ?off (fi_data f) @ buffer @ drop (?off + length buffer) (fi_data f)\<rparr>)"
  have kl: "k < length (fi_chunks f)" using file_okD(3) [OF ok] k by simp
  have kn: "fc_known (fi_chunks g ! k) = ?known + length buffer"
    using kl by (simp add: g_def set_known_def)
  have "chunk_write cs suf dev k buffer f =
      Inr (?known + length buffer = ?size, if ?known + length buffer = ?size then chunkComplete cs suf dev k g else g)"
    using hasf le fw kn [unfolded g_def] by (simp add: chunk_write_def Let_def g_def)
  with run have c: "complete \<longleftrightarrow> ?known + length buffer = ?size"
    and f': "f' = (if complete then chunkComplete cs suf dev k g else g)" by auto
  show ?thesis using le c by (auto simp: f' g_def set_known_def Let_def)
qed

lemma chunk_write_ok:
  assumes ok: "file_ok cs f" and k: "k < getNbChunks cs f" and dev: "writes_all dev"
    and run: "chunk_write cs suf dev k buffer f = Inr (complete, f')"
  shows "file_ok cs f'" and "content cs k f' = content cs k f @ buffer"
    and "j < getNbChunks cs f \<Longrightarrow> j \<noteq> k \<Longrightarrow> content cs j f' = content cs j f"
    and "getNbChunks cs f' = getNbChunks cs f"
proof -
  let ?known = "fc_known (fi_chunks f ! k)"
  note eff = chunk_write_effect [OF assms]
  have kl: "k < length (fi_chunks f)" using file_okD(3) [OF ok] k by simp
  show nb: "getNbChunks cs f' = getNbChunks cs f" using eff by (intro getNbChunks_cong) simp
  have size: "getChunkSize cs f' j = getChunkSize cs f j" if "j < getNbChunks cs f" for j
    using eff kl by (intro getChunkSize_cong) (auto simp: nth_list_update)
  have fits: "j * cs + getChunkSize cs f j \<le> fi_size f" "getChunkSize cs f j \<le> cs" if "j < getNbChunks cs f" for j
    using chunk_fits [OF file_okD(1) [OF ok] that file_okD(4) [OF ok that]] by auto
  have len: "length (fi_data f) = fi_size f" using file_okD(2) [OF ok] .
  have data: "fi_data f' = take (?known + k * cs) (fi_data f) @ buffer @ drop (?known + k * cs + length buffer) (fi_data f)"
    and le: "?known + length buffer \<le> getChunkSize cs f k" using eff by (simp_all add: Let_def)
  show "file_ok cs f'"
    unfolding file_ok_def nb
  proof (intro conjI allI impI)
    show "0 < cs" using file_okD(1) [OF ok] .
    show "length (fi_data f') = fi_size f'" using data le fits(1) [OF k] len eff by simp
    show "length (fi_chunks f') = getNbChunks cs f" using eff file_okD(3) [OF ok] by simp
    fix j assume j: "j < getNbChunks cs f"
    show "fc_file (fi_chunks f' ! j)" using eff file_okD(4) [OF ok] j k kl by (auto simp: nth_list_update)
    show "fc_known (fi_chunks f' ! j) \<le> getChunkSize cs f' j"
      unfolding size [OF j] using eff file_okD(5) [OF ok] j k kl by (auto simp: nth_list_update)
  qed
  have known': "fc_known (fi_chunks f' ! j) = (if j = k then ?known + length buffer else fc_known (fi_chunks f ! j))"
    if "j < getNbChunks cs f" for j
    using eff kl by (auto simp: nth_list_update)
  show "content cs k f' = content cs k f @ buffer"
    unfolding content_def known' [OF k] data
    using overwrite_self [of "fi_data f" "fi_size f" "k * cs" ?known buffer] len le fits(1) [OF k]
    by (simp add: add.commute)
  show "content cs j f' = content cs j f" if j: "j < getNbChunks cs f" "j \<noteq> k"
  proof -
    have "fc_known (fi_chunks f ! j) \<le> cs" using file_okD(5) [OF ok j(1)] fits(2) [OF j(1)] by linarith
    moreover have "?known + length buffer \<le> cs" using le fits(2) [OF k] by linarith
    moreover have "j * cs + cs \<le> k * cs \<or> k * cs + cs \<le> j * cs"
      using j(2) by (metis add.commute mult_Suc mult_le_mono1 not_less_eq_eq linorder_neqE_nat Suc_leI)
    ultimately have "j * cs + fc_known (fi_chunks f ! j) \<le> ?known + k * cs \<or> ?known + k * cs + length buffer \<le> j * cs"
      by linarith
    then show ?thesis
      unfolding content_def data known' [OF j(1)] if_not_P [OF j(2)]
      by (intro overwrite_take_drop [OF len]) (use le fits(1) [OF k] in linarith)+
  qed
qed

text \<open>When the last chunk is complete the file loses its suffix and is complete, and not before.\<close>

lemma length_filter_all: "length (filter P xs) = length xs \<longleftrightarrow> (\<forall>x \<in> set xs. P x)"
  by (metis filter_True filter_id_conv length_filter_less less_irrefl)

lemma chunk_isComplete_known:
  "file_ok cs f \<Longrightarrow> k < getNbChunks cs f \<Longrightarrow> chunk_isComplete cs f k \<longleftrightarrow> fc_known (fi_chunks f ! k) = getChunkSize cs f k"
  using file_okD(4,5) by (fastforce simp: chunk_isComplete_def)

lemma chunkComplete_complete:
  assumes "length (fi_chunks f) = getNbChunks cs f" "isFileUnfinished suf (fi_name f)" "dv_rename dev" "\<not> fi_complete f"
  shows "fi_complete (chunkComplete cs suf dev k f) \<longleftrightarrow> (\<forall>j < getNbChunks cs f. chunk_isComplete cs f j)"
proof -
  have cong: "chunk_isComplete cs (note_event e f) j = chunk_isComplete cs f j" for e j
    by (simp add: chunk_isComplete_def getChunkSize_def getNbChunks_def)
  have nb: "getNbChunks cs (note_event e f) = getNbChunks cs f" for e by (simp add: getNbChunks_def)
  have "length (filter (chunk_isComplete cs f) [0..<length (fi_chunks f)]) = getNbChunks cs f \<longleftrightarrow>
      (\<forall>j < getNbChunks cs f. chunk_isComplete cs f j)"
    using length_filter_all [of "chunk_isComplete cs f" "[0..<length (fi_chunks f)]"] assms(1) by (auto simp del: length_filter_map)
  with assms show ?thesis
    by (simp add: chunkComplete_def Let_def cong [abs_def] nb setAsComplete_def)
qed

lemma chunk_write_complete:
  assumes ok: "file_ok cs f" and k: "k < getNbChunks cs f" and dev: "writes_all dev" "dv_rename dev"
    and name: "isFileUnfinished suf (fi_name f)" "\<not> fi_complete f"
    and run: "chunk_write cs suf dev k buffer f = Inr (complete, f')"
  shows "fi_complete f' \<longleftrightarrow> (\<forall>j < getNbChunks cs f. chunk_isComplete cs f' j)"
    and "\<not> fi_complete f' \<Longrightarrow> fi_name f' = fi_name f"
proof -
  let ?known = "fc_known (fi_chunks f ! k)"
  note eff = chunk_write_effect [OF ok k dev(1) run]
  note ok' = chunk_write_ok [OF ok k dev(1) run]
  have hasf: "fc_file (fi_chunks f ! k)" using file_okD(4) [OF ok k] .
  obtain n g where fw: "file_write dev buffer (?known + k * cs) f = Inr (n, g)"
    and f': "f' = (if complete then chunkComplete cs suf dev k (set_known k (if ?known + n > getChunkSize cs f k then getChunkSize cs f k else ?known + n) g)
                   else set_known k (if ?known + n > getChunkSize cs f k then getChunkSize cs f k else ?known + n) g)"
    using run hasf by (auto simp: chunk_write_def Let_def split: if_splits sum.splits)
  define g' where "g' = set_known k (if ?known + n > getChunkSize cs f k then getChunkSize cs f k else ?known + n) g"
  have g: "fi_name g' = fi_name f" "fi_complete g' = fi_complete f" "fi_size g' = fi_size f"
    using fw by (auto simp: g'_def file_write_def Let_def split: if_splits)
  have f'g: "f' = (if complete then chunkComplete cs suf dev k g' else g')" using f' by (simp add: g'_def)
  have chunks: "fi_chunks f' = fi_chunks g'" "fi_size f' = fi_size g'" by (simp_all add: f'g)
  have nb: "getNbChunks cs g' = getNbChunks cs f" by (rule getNbChunks_cong) (rule g(3))
  have same: "chunk_isComplete cs f' j = chunk_isComplete cs g' j" for j
    by (simp add: chunk_isComplete_def getChunkSize_def getNbChunks_def chunks)
  have len: "length (fi_chunks g') = getNbChunks cs g'"
    using file_okD(3) [OF ok'(1)] chunks ok'(4) nb by simp
  show "fi_complete f' \<longleftrightarrow> (\<forall>j < getNbChunks cs f. chunk_isComplete cs f' j)"
  proof (cases complete)
    case True
    have "fi_complete (chunkComplete cs suf dev k g') \<longleftrightarrow> (\<forall>j < getNbChunks cs g'. chunk_isComplete cs g' j)"
      using name dev(2) g by (intro chunkComplete_complete [OF len]) auto
    with True show ?thesis unfolding same nb by (simp add: f'g)
  next
    case False
    have "fc_known (fi_chunks f' ! k) \<noteq> getChunkSize cs f k"
      using eff False file_okD(3) [OF ok] k by simp
    moreover have "getChunkSize cs f' k = getChunkSize cs f k"
      using eff file_okD(3) [OF ok] k by (intro getChunkSize_cong) auto
    ultimately have "\<not> chunk_isComplete cs f' k"
      using chunk_isComplete_known [OF ok'(1)] ok'(4) k by simp
    with False name k g show ?thesis by (auto simp: f'g)
  qed
  show "\<not> fi_complete f' \<Longrightarrow> fi_name f' = fi_name f"
    using g name by (auto simp: f'g chunkComplete_def Let_def setAsComplete_def split: if_splits)
qed

subsection \<open>Assembling a file\<close>

text \<open>Writes to the chunks of one file, in any order, as long as each succeeds.\<close>

fun write_seq :: "nat \<Rightarrow> string \<Rightarrow> device \<Rightarrow> (nat \<times> byte list) list \<Rightarrow> cfile \<Rightarrow> cfile option" where
  "write_seq cs suf dev [] f = Some f"
| "write_seq cs suf dev ((k, buffer) # ws) f =
     (case chunk_write cs suf dev k buffer f of Inl e \<Rightarrow> None | Inr (c, f) \<Rightarrow> write_seq cs suf dev ws f)"

definition written_to :: "nat \<Rightarrow> (nat \<times> byte list) list \<Rightarrow> byte list" where
  "written_to k ws = concat (map snd (filter (\<lambda>(j, _). j = k) ws))"

lemma write_seq_content:
  assumes "file_ok cs f" "writes_all dev" "\<forall>(k, b) \<in> set ws. k < getNbChunks cs f" "write_seq cs suf dev ws f = Some f'"
  shows "file_ok cs f' \<and> getNbChunks cs f' = getNbChunks cs f \<and>
     (\<forall>k < getNbChunks cs f. content cs k f' = content cs k f @ written_to k ws)"
  using assms
proof (induction ws arbitrary: f)
  case Nil
  then show ?case by (simp add: written_to_def)
next
  case (Cons w ws)
  obtain k b where w: "w = (k, b)" by (cases w)
  with Cons.prems(4) obtain c g where run: "chunk_write cs suf dev k b f = Inr (c, g)"
    and rest: "write_seq cs suf dev ws g = Some f'"
    by (auto split: sum.splits)
  have k: "k < getNbChunks cs f" using Cons.prems(3) w by simp
  note g = chunk_write_ok [OF Cons.prems(1) k Cons.prems(2) run]
  have "\<forall>(k, b) \<in> set ws. k < getNbChunks cs g" using Cons.prems(3) g(4) by auto
  from Cons.IH [OF g(1) Cons.prems(2) this rest] have ih:
    "file_ok cs f'" "getNbChunks cs f' = getNbChunks cs f"
    "\<And>j. j < getNbChunks cs f \<Longrightarrow> content cs j f' = content cs j g @ written_to j ws"
    using g(4) by auto
  have "content cs j f' = content cs j f @ written_to j (w # ws)" if "j < getNbChunks cs f" for j
    using ih(3) [OF that] g(2,3) that by (cases "j = k") (simp_all add: written_to_def w)
  with ih show ?case by blast
qed

text \<open>The chunks of a complete file, one after the other, are its bytes.\<close>

lemma concat_chunks:
  assumes "0 < cs" "(m - 1) * cs \<le> length xs" "\<forall>k < m. n k \<le> cs" "\<forall>k. Suc k < m \<longrightarrow> n k = cs" "0 < m"
  shows "concat (map (\<lambda>k. take (n k) (drop (k * cs) xs)) [0..<m]) = take ((m - 1) * cs + n (m - 1)) xs"
  using assms(2-)
proof (induction m)
  case (Suc m)
  show ?case
  proof (cases "m = 0")
    case True
    then show ?thesis by simp
  next
    case False
    have full: "n (m - 1) = cs" using Suc.prems(3) False by simp
    have "(m - 1) * cs \<le> m * cs" by (rule mult_le_mono1) simp
    moreover have "m * cs \<le> length xs" using Suc.prems(1) by simp
    ultimately have le: "(m - 1) * cs \<le> length xs" by (rule le_trans)
    have "concat (map (\<lambda>k. take (n k) (drop (k * cs) xs)) [0..<m]) = take ((m - 1) * cs + n (m - 1)) xs"
      by (rule Suc.IH) (use Suc.prems False le in auto)
    also have "(m - 1) * cs + n (m - 1) = m * cs"
      unfolding full using False by (cases m) simp_all
    finally show ?thesis by (simp add: take_add)
  qed
qed simp


text \<open>A file of five bytes in chunks of two, new and open for writing.\<close>

definition sample_cfile :: cfile where
  "sample_cfile = \<lparr>fi_name = ''a.unfinished'', fi_size = 5, fi_complete = False,
     fi_chunks = replicate 3 \<lparr>fc_known = 0, fc_hash = None, fc_file = True\<rparr>, fi_data = replicate 5 0,
     fi_numW = 1, fi_numR = 0, fi_w = True, fi_r = False, fi_log = []\<rparr>"

definition sample_writes :: "(nat \<times> byte list) list" where
  "sample_writes = [(2, [5]), (0, [1]), (1, [3, 4]), (0, [2])]"

lemma sample_cfile_chunks: "getNbChunks 2 sample_cfile = 3"
  "k < 3 \<Longrightarrow> fi_chunks sample_cfile ! k = \<lparr>fc_known = 0, fc_hash = None, fc_file = True\<rparr>"
  by (simp_all add: sample_cfile_def getNbChunks_def)

lemma sample_cfile_ok: "file_ok 2 sample_cfile"
  by (auto simp: file_ok_def sample_cfile_chunks) (simp_all add: sample_cfile_def)


text \<open>
  once opening a file for writing has failed it can never be written again: the failed writer is
  counted but never deleted (its constructor threw), so the next one, though the file could now be
  opened, does not open it and every write raises \<open>IOError\<close>.
\<close>

theorem failed_open_sticks:
  assumes "fi_numW f = 0" "dv_openW dev = None" "newDataWriterCreated dev f = Inl (e, f1)"
  shows "e = UnableToOpenFileInWriteMode \<and>
     (\<exists>f2. newDataWriterCreated good_device f1 = Inr f2 \<and> (\<forall>buffer offset. file_write good_device buffer offset f2 = Inl IOError))"
  using assms by (auto simp: newDataWriterCreated_def file_write_def Let_def)

theorem failed_open_sticks_witness:
  "\<exists>f1. newDataWriterCreated (good_device\<lparr>dv_openW := None\<rparr>) (sample_cfile\<lparr>fi_numW := 0, fi_w := False\<rparr>)
      = Inl (UnableToOpenFileInWriteMode, f1)"
proof -
  obtain e f1 where run: "newDataWriterCreated (good_device\<lparr>dv_openW := None\<rparr>) (sample_cfile\<lparr>fi_numW := 0, fi_w := False\<rparr>) = Inl (e, f1)"
    by (simp add: newDataWriterCreated_def Let_def)
  from failed_open_sticks [OF _ _ this] run show ?thesis by (auto simp: sample_cfile_def)
qed

text \<open>
  resuming a chunk can reject the right data: \<open>computeChunkHash\<close> reads whole buffers, so that
  with two of four bytes known and a read buffer of three it hashes a byte that is not known yet.
  With a collision-free hash function the two missing bytes, though right, then give a mismatch and
  the chunk is emptied; with a buffer that ends at the known bytes they are accepted.
\<close>

theorem resume_rejects_right_data:
  "\<exists>f. content 4 0 f = [1, 2] \<and> fc_hash (fi_chunks f ! 0) = Some [1, 2, 3, 4] \<and> file_ok 4 f \<and>
     (case new_DataWriter 4 3 good_device True 0 f of Inl _ \<Rightarrow> False
      | Inr w \<Rightarrow> (case DataWriter_write (\<lambda>bytes. bytes) 4 ''.unfinished'' good_device True 0 [3, 4] w of
            Inl (e, _, f') \<Rightarrow> e = HashMismatch \<and> content 4 0 f' = [] | Inr _ \<Rightarrow> False)) \<and>
     (case new_DataWriter 4 2 good_device True 0 f of Inl _ \<Rightarrow> False
      | Inr w \<Rightarrow> (case DataWriter_write (\<lambda>bytes. bytes) 4 ''.unfinished'' good_device True 0 [3, 4] w of
            Inl _ \<Rightarrow> False | Inr (_, _, f') \<Rightarrow> content 4 0 f' = [1, 2, 3, 4]))"
proof -
  define f where "f = \<lparr>fi_name = ''a.unfinished'', fi_size = 4, fi_complete = False,
     fi_chunks = [\<lparr>fc_known = 2, fc_hash = Some [1, 2, 3, 4], fc_file = True\<rparr>], fi_data = [1, 2, 0, 0],
     fi_numW = 0, fi_numR = 0, fi_w = False, fi_r = False, fi_log = []\<rparr>"
  have "content 4 0 f = [1, 2] \<and> fc_hash (fi_chunks f ! 0) = Some [1, 2, 3, 4]"
    unfolding f_def by code_simp
  moreover have "file_ok 4 f"
    by (simp add: f_def file_ok_def getNbChunks_def getChunkSize_def)
  moreover have "(case new_DataWriter 4 3 good_device True 0 f of Inl _ \<Rightarrow> False
      | Inr w \<Rightarrow> (case DataWriter_write (\<lambda>bytes. bytes) 4 ''.unfinished'' good_device True 0 [3, 4] w of
            Inl (e, _, f') \<Rightarrow> e = HashMismatch \<and> content 4 0 f' = [] | Inr _ \<Rightarrow> False))"
    unfolding f_def by code_simp
  moreover have "(case new_DataWriter 4 2 good_device True 0 f of Inl _ \<Rightarrow> False
      | Inr w \<Rightarrow> (case DataWriter_write (\<lambda>bytes. bytes) 4 ''.unfinished'' good_device True 0 [3, 4] w of
            Inl _ \<Rightarrow> False | Inr (_, _, f') \<Rightarrow> content 4 0 f' = [1, 2, 3, 4]))"
    unfolding f_def by code_simp
  ultimately show ?thesis by blast
qed

end
