(* ===== verification/Peers_In_Use.thy ===== *)
theory Peers_In_Use
  imports Dg_Prelude
begin

text \<open>
  Which peers the download manager uses: \<open>OccupiedPeers\<close> (the peers a request is running
  with, \<open>Core/DownloadManager/priv/OccupiedPeers.cpp\<close>) and \<open>LinkedPeers\<close> (how many
  chunks each peer owns, \<open>priv/LinkedPeers.h\<close>).

  A \<open>PM::IPeer*\<close> is a reference into a heap of peers, \<open>None\<close> the null pointer.  A
  function that emits signals returns them, in order, beside its result.  Two locales state what
  the rest of the manager relies on: a peer is granted to one request at a time, and a peer is
  linked exactly while a chunk counts it.
\<close>

type_synonym peer_ref = nat

record peer =
  p_id :: hash
  p_available :: bool
  p_speed :: nat

type_synonym peer_heap = "peer_ref \<Rightarrow> peer"

subsection \<open>Occupied peers\<close>

type_synonym occupied = "hash set"

definition isPeerFree :: "peer_heap \<Rightarrow> peer_ref option \<Rightarrow> occupied \<Rightarrow> bool" where
  "isPeerFree ph peer occ = (case peer of None \<Rightarrow> False | Some p \<Rightarrow> p_id (ph p) \<notin> occ)"

definition setPeerAsOccupied :: "peer_heap \<Rightarrow> peer_ref option \<Rightarrow> occupied \<Rightarrow> bool \<times> occupied" where
  "setPeerAsOccupied ph peer occ = (case peer of
     None \<Rightarrow> (False, occ)
   | Some p \<Rightarrow> (if p_id (ph p) \<in> occ then (False, occ) else (True, insert (p_id (ph p)) occ)))"

text \<open>The second component is the \<open>newFreePeer\<close> signals.\<close>

definition setPeerAsFree :: "peer_heap \<Rightarrow> peer_ref option \<Rightarrow> occupied \<Rightarrow> occupied \<times> peer_ref list" where
  "setPeerAsFree ph peer occ = (case peer of
     None \<Rightarrow> (occ, [])
   | Some p \<Rightarrow> (occ - {p_id (ph p)}, if p_available (ph p) then [p] else []))"

definition newPeer :: "peer_heap \<Rightarrow> peer_ref option \<Rightarrow> occupied \<Rightarrow> peer_ref list" where
  "newPeer ph peer occ = (case peer of
     None \<Rightarrow> [] | Some p \<Rightarrow> (if p_id (ph p) \<notin> occ then [p] else []))"

definition removePeer :: "peer_heap \<Rightarrow> peer_ref option \<Rightarrow> occupied \<Rightarrow> occupied" where
  "removePeer ph peer occ = (case peer of None \<Rightarrow> occ | Some p \<Rightarrow> occ - {p_id (ph p)})"

definition nbOccupiedPeers :: "occupied \<Rightarrow> nat" where
  "nbOccupiedPeers occ = card occ"

subsection \<open>The contract: one grant at a time\<close>

datatype 'k grant_op = Acquire 'k | Release 'k

locale exclusive_grants =
  fixes held :: "'o \<Rightarrow> 'k \<Rightarrow> bool"
    and acquire :: "'k \<Rightarrow> 'o \<Rightarrow> bool \<times> 'o"
    and release :: "'k \<Rightarrow> 'o \<Rightarrow> 'o"
  assumes acquire_granted: "fst (acquire k x) \<longleftrightarrow> \<not> held x k"
    and acquire_held: "held (snd (acquire k x)) j \<longleftrightarrow> held x j \<or> j = k"
    and release_held: "held (release k x) j \<longleftrightarrow> held x j \<and> j \<noteq> k"
begin

primrec grant_step :: "'k grant_op \<Rightarrow> 'o \<Rightarrow> 'o" where
  "grant_step (Acquire k) x = snd (acquire k x)"
| "grant_step (Release k) x = release k x"

lemma held_until_release: "held x k \<Longrightarrow> Release k \<notin> set ops \<Longrightarrow> held (fold grant_step ops x) k"
proof (induction ops arbitrary: x)
  case (Cons op ops)
  then show ?case by (cases op) (simp_all add: acquire_held release_held)
qed simp

text \<open>A second grant of the same key is given only after a release.\<close>

lemma granted_twice:
  assumes "fst (acquire k x)" and "fst (acquire k (fold grant_step ops (snd (acquire k x))))"
  shows "Release k \<in> set ops"
proof (rule ccontr)
  assume "Release k \<notin> set ops"
  then have "held (fold grant_step ops (snd (acquire k x))) k"
    by (intro held_until_release) (simp add: acquire_held)
  with assms(2) show False by (simp add: acquire_granted)
qed

lemma free_after_release: "fst (acquire k (release k x))"
  by (simp add: acquire_granted release_held)

end

text \<open>The operations on the IDs, which the code reads off the peer it is given.\<close>

definition occupy_id :: "hash \<Rightarrow> occupied \<Rightarrow> bool \<times> occupied" where
  "occupy_id i occ = setPeerAsOccupied (\<lambda>_. \<lparr>p_id = i, p_available = True, p_speed = 0\<rparr>) (Some 0) occ"

definition free_id :: "hash \<Rightarrow> occupied \<Rightarrow> occupied" where
  "free_id i occ = fst (setPeerAsFree (\<lambda>_. \<lparr>p_id = i, p_available = True, p_speed = 0\<rparr>) (Some 0) occ)"

lemma setPeerAsOccupied_id: "setPeerAsOccupied ph (Some p) occ = occupy_id (p_id (ph p)) occ"
  by (simp add: occupy_id_def setPeerAsOccupied_def)

lemma setPeerAsFree_id: "fst (setPeerAsFree ph (Some p) occ) = free_id (p_id (ph p)) occ"
  by (simp add: free_id_def setPeerAsFree_def)

lemma removePeer_id: "removePeer ph (Some p) occ = free_id (p_id (ph p)) occ"
  by (simp add: free_id_def setPeerAsFree_def removePeer_def)

interpretation occupied: exclusive_grants "\<lambda>occ i. i \<in> occ" occupy_id free_id
  by standard (auto simp: occupy_id_def free_id_def setPeerAsOccupied_def setPeerAsFree_def)

text \<open>The operations of one \<open>OccupiedPeers\<close>, as its clients call them.\<close>

datatype occ_call = CallOccupy peer_ref | CallFree peer_ref | CallRemove peer_ref | CallNew peer_ref

fun occ_step :: "peer_heap \<Rightarrow> occ_call \<Rightarrow> occupied \<Rightarrow> occupied" where
  "occ_step ph (CallOccupy p) occ = snd (setPeerAsOccupied ph (Some p) occ)"
| "occ_step ph (CallFree p) occ = fst (setPeerAsFree ph (Some p) occ)"
| "occ_step ph (CallRemove p) occ = removePeer ph (Some p) occ"
| "occ_step ph (CallNew p) occ = occ"

fun grants_of :: "peer_heap \<Rightarrow> occ_call \<Rightarrow> hash grant_op list" where
  "grants_of ph (CallOccupy p) = [Acquire (p_id (ph p))]"
| "grants_of ph (CallFree p) = [Release (p_id (ph p))]"
| "grants_of ph (CallRemove p) = [Release (p_id (ph p))]"
| "grants_of ph (CallNew p) = []"

lemma occ_step_grants: "fold (occ_step ph) cs occ = fold occupied.grant_step (concat (map (grants_of ph) cs)) occ"
proof (induction cs arbitrary: occ)
  case (Cons c cs)
  then show ?case
    by (cases c) (simp_all add: setPeerAsOccupied_id setPeerAsFree_id removePeer_id)
qed simp

text \<open>
  a peer is never occupied twice: when \<open>setPeerAsOccupied\<close> succeeds for a peer and, after
  any calls, succeeds again for a peer with the same ID, one of those calls freed or removed it.
\<close>

theorem occupied_exclusive:
  assumes "setPeerAsOccupied ph (Some p) occ = (True, occ')"
    and "setPeerAsOccupied ph (Some p') (fold (occ_step ph) cs occ') = (True, occ'')"
    and "p_id (ph p') = p_id (ph p)"
  shows "\<exists>c \<in> set cs. \<exists>q. p_id (ph q) = p_id (ph p) \<and> (c = CallFree q \<or> c = CallRemove q)"
proof -
  have occ': "occ' = snd (occupy_id (p_id (ph p)) occ)" and g: "fst (occupy_id (p_id (ph p)) occ)"
    using assms(1) by (simp_all add: setPeerAsOccupied_id)
  have "Release (p_id (ph p)) \<in> set (concat (map (grants_of ph) cs))"
    by (rule occupied.granted_twice [OF g]) (use assms(2,3) in \<open>simp add: setPeerAsOccupied_id occ_step_grants occ'\<close>)
  then obtain c where "c \<in> set cs" "Release (p_id (ph p)) \<in> set (grants_of ph c)" by auto
  then show ?thesis by (intro bexI [of _ c]) (cases c, auto)
qed

definition two_peers :: peer_heap where
  "two_peers p = (if p = 0 then \<lparr>p_id = [1], p_available = True, p_speed = 10\<rparr>
                  else \<lparr>p_id = [2], p_available = True, p_speed = 20\<rparr>)"

theorem occupied_exclusive_witness:
  "\<exists>c \<in> set [CallNew 1, CallOccupy 1, CallFree 0]. \<exists>q. p_id (two_peers q) = p_id (two_peers 0) \<and>
     (c = CallFree q \<or> c = CallRemove q)"
  by (rule occupied_exclusive [where p = 0 and p' = 0 and occ = "{}" and occ' = "{[1]}" and occ'' = "{[1], [2]}"])
    (auto simp: setPeerAsOccupied_def setPeerAsFree_def two_peers_def)

subsection \<open>Linked peers\<close>

type_synonym links = "hash \<rightharpoonup> 32 word"

definition no_links :: links where
  "no_links = (\<lambda>_. None)"

definition getPeerIDs :: "links \<Rightarrow> hash set" where
  "getPeerIDs m = dom m"

definition addLink :: "peer_heap \<Rightarrow> peer_ref option \<Rightarrow> links \<Rightarrow> links" where
  "addLink ph peer m = (case peer of
     None \<Rightarrow> m
   | Some p \<Rightarrow> (let i = p_id (ph p) in m(i \<mapsto> (case m i of None \<Rightarrow> 0 | Some n \<Rightarrow> n) + 1)))"

definition rmLink :: "peer_heap \<Rightarrow> peer_ref option \<Rightarrow> links \<Rightarrow> links" where
  "rmLink ph peer m = (case peer of
     None \<Rightarrow> m
   | Some p \<Rightarrow> (case m (p_id (ph p)) of
        None \<Rightarrow> m
      | Some n \<Rightarrow> (if n > 1 then m(p_id (ph p) \<mapsto> n - 1) else m(p_id (ph p) := None))))"

subsection \<open>The contract: counted references\<close>

datatype 'k count_op = Add 'k | Rm 'k

locale counted =
  fixes count :: "'m \<Rightarrow> 'k \<Rightarrow> nat" and add :: "'k \<Rightarrow> 'm \<Rightarrow> 'm" and rm :: "'k \<Rightarrow> 'm \<Rightarrow> 'm"
    and valid :: "'m \<Rightarrow> bool" and limit :: nat
  assumes add_count: "valid m \<Longrightarrow> count m k + 1 < limit \<Longrightarrow> count (add k m) j = (if j = k then count m j + 1 else count m j)"
    and add_valid: "valid m \<Longrightarrow> count m k + 1 < limit \<Longrightarrow> valid (add k m)"
    and rm_count: "valid m \<Longrightarrow> count (rm k m) j = (if j = k then count m j - 1 else count m j)"
    and rm_valid: "valid m \<Longrightarrow> valid (rm k m)"
begin

text \<open>The counters mirror a multiset of references, as long as it has fewer than \<open>limit\<close> elements.\<close>

definition mirrors :: "'m \<Rightarrow> 'k multiset \<Rightarrow> bool" where
  "mirrors m refs \<longleftrightarrow> valid m \<and> (\<forall>k. count m k = Multiset.count refs k)"

lemma mirrors_add: "mirrors m refs \<Longrightarrow> size refs + 1 < limit \<Longrightarrow> mirrors (add k m) (add_mset k refs)"
proof -
  assume m: "mirrors m refs" and "size refs + 1 < limit"
  then have "count m k + 1 < limit" using count_le_size [of refs k] by (simp add: mirrors_def)
  with m show ?thesis by (simp add: mirrors_def add_count add_valid)
qed

lemma mirrors_rm: "mirrors m refs \<Longrightarrow> mirrors (rm k m) (refs - {#k#})"
  by (simp add: mirrors_def rm_count rm_valid)

lemma mirrors_rm_added: "mirrors m (add_mset k refs) \<Longrightarrow> mirrors (rm k m) refs"
  using mirrors_rm [of m "add_mset k refs" k] by simp

end

definition link_count :: "links \<Rightarrow> hash \<Rightarrow> nat" where
  "link_count m k = (case m k of None \<Rightarrow> 0 | Some n \<Rightarrow> unat n)"

definition links_valid :: "links \<Rightarrow> bool" where
  "links_valid m \<longleftrightarrow> (\<forall>k. m k \<noteq> Some 0)"

definition add_id :: "hash \<Rightarrow> links \<Rightarrow> links" where
  "add_id i m = addLink (\<lambda>_. \<lparr>p_id = i, p_available = True, p_speed = 0\<rparr>) (Some 0) m"

definition rm_id :: "hash \<Rightarrow> links \<Rightarrow> links" where
  "rm_id i m = rmLink (\<lambda>_. \<lparr>p_id = i, p_available = True, p_speed = 0\<rparr>) (Some 0) m"

lemma addLink_id: "addLink ph (Some p) m = add_id (p_id (ph p)) m"
  by (simp add: add_id_def addLink_def)

lemma rmLink_id: "rmLink ph (Some p) m = rm_id (p_id (ph p)) m"
  by (cases "m (p_id (ph p))") (simp_all add: rm_id_def rmLink_def)

lemma unat_Suc32: "unat (n :: 32 word) + 1 < 2 ^ 32 \<Longrightarrow> unat (n + 1) = unat n + 1"
  by (simp add: unat_word_ariths)

interpretation links: counted link_count add_id rm_id links_valid "2 ^ 32"
proof
  fix m k j assume v: "links_valid m" and b: "link_count m k + 1 < 2 ^ 32"
  show "link_count (add_id k m) j = (if j = k then link_count m j + 1 else link_count m j)"
    using b unat_Suc32 [of "the (m k)"]
    by (cases "m k") (auto simp: link_count_def add_id_def addLink_def Let_def)
  have "x + 1 \<noteq> 0" if "m k = Some x" for x
    using b that unat_Suc32 [of x] by (auto simp: link_count_def)
  with v show "links_valid (add_id k m)"
    by (cases "m k") (auto simp: links_valid_def add_id_def addLink_def Let_def)
next
  fix m k j assume v: "links_valid m"
  have dec: "unat (x - 1) = unat x - 1" if "1 < x" for x :: "32 word"
    using that by (simp add: unat_sub word_le_nat_alt word_less_nat_alt)
  have one: "unat x = 1" if "x \<noteq> 0" "\<not> 1 < x" for x :: "32 word"
  proof -
    have "unat x \<noteq> 0" using that(1) by (simp add: unat_eq_zero)
    moreover have "unat x \<le> 1" using that(2) by (simp add: word_less_nat_alt)
    ultimately show ?thesis by simp
  qed
  show "link_count (rm_id k m) j = (if j = k then link_count m j - 1 else link_count m j)"
  proof (cases "m k")
    case None
    then show ?thesis by (simp add: link_count_def rm_id_def rmLink_def)
  next
    case (Some x)
    then have "x \<noteq> 0" using v by (auto simp: links_valid_def)
    with Some one [of x] dec [of x] show ?thesis by (simp add: link_count_def rm_id_def rmLink_def)
  qed
  have "x - 1 \<noteq> 0" if "1 < x" for x :: "32 word" using that by auto
  with v show "links_valid (rm_id k m)"
    by (cases "m k") (auto simp: links_valid_def rm_id_def rmLink_def)
qed

text \<open>A peer is linked exactly if it is counted.\<close>

lemma getPeerIDs_mirrors: "links.mirrors m refs \<Longrightarrow> getPeerIDs m = set_mset refs"
proof -
  assume m: "links.mirrors m refs"
  have "k \<in> dom m \<longleftrightarrow> k \<in># refs" for k
  proof -
    have "link_count m k = count refs k" "m k \<noteq> Some 0"
      using m by (simp_all add: links.mirrors_def links_valid_def)
    then have "m k = None \<longleftrightarrow> count refs k = 0"
      by (cases "m k") (simp add: link_count_def, metis link_count_def option.distinct(1) option.simps(5) unat_eq_zero)
    then show ?thesis by (metis domIff not_in_iff)
  qed
  then show ?thesis by (auto simp: getPeerIDs_def)
qed

end
