(* ===== verification/Chunk_Downloader.thy ===== *)
theory Chunk_Downloader
  imports Peers_In_Use Download_Queue
begin

text \<open>
  \<open>Core/DownloadManager/priv/ChunkDownloader.cpp\<close>: the download of one chunk from the peers
  that own it.  This theory has everything but the transfer loop \<open>run\<close>, which is in
  \<open>Chunk_Transfer\<close>.

  A \<open>chunk_dl\<close> is the object; \<open>dl_env\<close> is what it shares with the rest of the download
  manager (the peers, \<open>LinkedPeers\<close> and the \<open>OccupiedPeers\<close> of the running downloads).
  An operation takes the world of both and returns it changed; the signals it emits are appended to
  \<open>w_log\<close> in order.  The slots the signals run are not part of the operation.
\<close>

subsection \<open>State\<close>

text \<open>What is read of a \<open>FM::IChunk\<close>.\<close>

record chunk =
  ch_known :: nat
  ch_complete :: bool
  ch_hash :: hash

record chunk_dl =
  cd_hash :: hash
  cd_peers :: "peer_ref list"
  cd_current :: "peer_ref option"
  cd_chunk :: "chunk option"
  cd_socket :: bool                \<comment> \<open>whether \<open>socket\<close> is set\<close>
  cd_result :: bool                \<comment> \<open>whether \<open>getChunksResult\<close> is set\<close>
  cd_size :: int                   \<comment> \<open>\<open>chunkSize\<close>\<close>
  cd_downloading :: bool
  cd_close :: bool                 \<comment> \<open>\<open>closeTheSocket\<close>\<close>
  cd_last :: status                \<comment> \<open>\<open>lastTransferStatus\<close>\<close>

record dl_env =
  e_peers :: peer_heap
  e_links :: links
  e_occ :: occupied

datatype cd_event =
    DownloadStarted | DownloadFinished | NumberOfPeersChanged
  | NewFreePeer peer_ref           \<comment> \<open>of \<open>occupiedPeersDownloadingChunk\<close>\<close>
  | TransferStatus bool            \<comment> \<open>\<open>getChunksResult->setStatus\<close>\<close>

record world =
  w_cd :: chunk_dl
  w_env :: dl_env
  w_log :: "cd_event list"

definition emit :: "cd_event \<Rightarrow> world \<Rightarrow> world" where
  "emit e w = w\<lparr>w_log := w_log w @ [e]\<rparr>"

definition set_peers :: "peer_ref list \<Rightarrow> world \<Rightarrow> world" where
  "set_peers ps w = w\<lparr>w_cd := (w_cd w)\<lparr>cd_peers := ps\<rparr>\<rparr>"

definition set_links :: "links \<Rightarrow> world \<Rightarrow> world" where
  "set_links ls w = w\<lparr>w_env := (w_env w)\<lparr>e_links := ls\<rparr>\<rparr>"

definition new_chunk_dl :: "hash \<Rightarrow> chunk_dl" where
  "new_chunk_dl h = \<lparr>cd_hash = h, cd_peers = [], cd_current = None, cd_chunk = None, cd_socket = False,
     cd_result = False, cd_size = 0, cd_downloading = False, cd_close = False, cd_last = QUEUED\<rparr>"

subsection \<open>Queries\<close>

definition isComplete :: "chunk_dl \<Rightarrow> bool" where
  "isComplete cd \<longleftrightarrow> (case cd_chunk cd of None \<Rightarrow> False | Some c \<Rightarrow> ch_complete c)"

definition isPartiallyDownloaded :: "chunk_dl \<Rightarrow> bool" where
  "isPartiallyDownloaded cd \<longleftrightarrow> (case cd_chunk cd of None \<Rightarrow> False | Some c \<Rightarrow> \<not> ch_complete c \<and> ch_known c > 0)"

definition getDownloadedBytes :: "chunk_dl \<Rightarrow> nat" where
  "getDownloadedBytes cd = (case cd_chunk cd of None \<Rightarrow> 0 | Some c \<Rightarrow> ch_known c)"

subsection \<open>The peers of the chunk\<close>

fun indexOfPeerByID :: "peer_heap \<Rightarrow> peer_ref list \<Rightarrow> hash \<Rightarrow> nat option" where
  "indexOfPeerByID ph [] i = None"
| "indexOfPeerByID ph (p # ps) i = (if p_id (ph p) = i then Some 0 else map_option Suc (indexOfPeerByID ph ps i))"

definition rememberPeer :: "peer_ref \<Rightarrow> bool \<Rightarrow> world \<Rightarrow> bool \<times> world" where
  "rememberPeer p informOccupiedPeers w =
     (let ph = e_peers (w_env w) in
      case indexOfPeerByID ph (cd_peers (w_cd w)) (p_id (ph p)) of
        Some i \<Rightarrow> (False, set_peers ((cd_peers (w_cd w))[i := p]) w)
      | None \<Rightarrow>
          (let w = set_peers (cd_peers (w_cd w) @ [p]) w;
               w = set_links (addLink ph (Some p) (e_links (w_env w))) w;
               w = emit NumberOfPeersChanged w
           in (True, if informOccupiedPeers \<and> p_available (ph p)
                     then fold (\<lambda>q. emit (NewFreePeer q)) (newPeer ph (Some p) (e_occ (w_env w))) w
                     else w)))"

definition takePeer :: "hash \<Rightarrow> world \<Rightarrow> peer_ref option \<times> world" where
  "takePeer i w =
     (case indexOfPeerByID (e_peers (w_env w)) (cd_peers (w_cd w)) i of
        None \<Rightarrow> (None, w)
      | Some k \<Rightarrow> (Some (cd_peers (w_cd w) ! k), set_peers (remove_at k (cd_peers (w_cd w))) w))"

definition addPeer :: "peer_ref \<Rightarrow> world \<Rightarrow> world" where
  "addPeer p w = (if isComplete (w_cd w) then w else snd (rememberPeer p True w))"

definition rmPeer :: "peer_ref \<Rightarrow> world \<Rightarrow> world" where
  "rmPeer p w =
     (if cd_peers (w_cd w) = [] then w
      else (let ph = e_peers (w_env w) in
            case takePeer (p_id (ph p)) w of
              (None, w) \<Rightarrow> w
            | (Some q, w) \<Rightarrow> emit NumberOfPeersChanged (set_links (rmLink ph (Some q) (e_links (w_env w))) w)))"

definition setPeerSource :: "peer_ref option \<Rightarrow> bool \<Rightarrow> world \<Rightarrow> world" where
  "setPeerSource peer informOccupiedPeers w =
     (case peer of None \<Rightarrow> w | Some p \<Rightarrow> snd (rememberPeer p informOccupiedPeers w))"

text \<open>
  The three loops over the peers that drop the dead ones: each returns the peers kept, the links,
  whether a peer was dropped and what the loop is for.
\<close>

fun peers_loop :: "peer_heap \<Rightarrow> peer_ref list \<Rightarrow> links \<Rightarrow> peer_ref list \<times> links \<times> bool" where
  "peers_loop ph [] ls = ([], ls, False)"
| "peers_loop ph (p # ps) ls =
     (if p_available (ph p) then (let (kept, ls, changed) = peers_loop ph ps ls in (p # kept, ls, changed))
      else (let (kept, ls, changed) = peers_loop ph ps (rmLink ph (Some p) ls) in (kept, ls, True)))"

fun fastest_loop :: "peer_heap \<Rightarrow> occupied \<Rightarrow> peer_ref list \<Rightarrow> peer_ref option \<Rightarrow> links
                      \<Rightarrow> peer_ref list \<times> links \<times> bool \<times> peer_ref option" where
  "fastest_loop ph occ [] current ls = ([], ls, False, current)"
| "fastest_loop ph occ (p # ps) current ls =
     (if \<not> p_available (ph p)
      then (let (kept, ls, changed, cur) = fastest_loop ph occ ps current (rmLink ph (Some p) ls) in (kept, ls, True, cur))
      else (let current = (if isPeerFree ph (Some p) occ \<and>
                              (case current of None \<Rightarrow> True | Some c \<Rightarrow> p_speed (ph p) > p_speed (ph c))
                           then Some p else current);
                (kept, ls, changed, cur) = fastest_loop ph occ ps current ls
            in (p # kept, ls, changed, cur)))"

fun count_loop :: "peer_heap \<Rightarrow> occupied \<Rightarrow> peer_ref list \<Rightarrow> links \<Rightarrow> peer_ref list \<times> links \<times> bool \<times> nat" where
  "count_loop ph occ [] ls = ([], ls, False, 0)"
| "count_loop ph occ (p # ps) ls =
     (if \<not> p_available (ph p)
      then (let (kept, ls, changed, n) = count_loop ph occ ps (rmLink ph (Some p) ls) in (kept, ls, True, n))
      else (let (kept, ls, changed, n) = count_loop ph occ ps ls
            in (p # kept, ls, changed, if isPeerFree ph (Some p) occ then n + 1 else n)))"

definition dropped :: "peer_ref list \<Rightarrow> links \<Rightarrow> bool \<Rightarrow> world \<Rightarrow> world" where
  "dropped kept ls changed w =
     (let w = set_links ls (set_peers kept w) in if changed then emit NumberOfPeersChanged w else w)"

definition getPeers :: "world \<Rightarrow> peer_ref list \<times> world" where
  "getPeers w = (let (kept, ls, changed) = peers_loop (e_peers (w_env w)) (cd_peers (w_cd w)) (e_links (w_env w))
                 in (kept, dropped kept ls changed w))"

definition hasAtLeastAPeer :: "world \<Rightarrow> bool \<times> world" where
  "hasAtLeastAPeer w = (let (ps, w) = getPeers w in (ps \<noteq> [], w))"

definition getTheFastestFreePeer :: "world \<Rightarrow> peer_ref option \<times> world" where
  "getTheFastestFreePeer w =
     (let (kept, ls, changed, cur) = fastest_loop (e_peers (w_env w)) (e_occ (w_env w)) (cd_peers (w_cd w)) None (e_links (w_env w))
      in (cur, dropped kept ls changed w))"

definition getNumberOfFreePeer :: "world \<Rightarrow> nat \<times> world" where
  "getNumberOfFreePeer w =
     (let (kept, ls, changed, n) = count_loop (e_peers (w_env w)) (e_occ (w_env w)) (cd_peers (w_cd w)) (e_links (w_env w))
      in (n, dropped kept ls changed w))"

definition isReadyToDownload :: "world \<Rightarrow> nat \<times> world" where
  "isReadyToDownload w =
     (if cd_peers (w_cd w) = [] \<or> cd_downloading (w_cd w) \<or> isComplete (w_cd w) then (0, w)
      else getNumberOfFreePeer w)"

subsection \<open>Downloading\<close>

text \<open>\<open>getChunks p\<close> tells whether the peer returned a \<open>GetChunks\<close> request that can be started.\<close>

definition startDownloading :: "(peer_ref \<Rightarrow> bool) \<Rightarrow> world \<Rightarrow> peer_ref option \<times> world" where
  "startDownloading getChunks w =
     (if cd_chunk (w_cd w) = None then (None, w)
      else (let (cur, w) = getTheFastestFreePeer w;
                w = w\<lparr>w_cd := (w_cd w)\<lparr>cd_current := cur\<rparr>\<rparr> in
            case cur of
              None \<Rightarrow> (None, w)
            | Some p \<Rightarrow>
                (let w = w\<lparr>w_cd := (w_cd w)\<lparr>cd_result := getChunks p\<rparr>\<rparr> in
                 if \<not> getChunks p then (None, w)
                 else (let w = emit DownloadStarted (w\<lparr>w_cd := (w_cd w)\<lparr>cd_downloading := True\<rparr>\<rparr>);
                           occ = snd (setPeerAsOccupied (e_peers (w_env w)) (Some p) (e_occ (w_env w)))
                       in (Some p, w\<lparr>w_env := (w_env w)\<lparr>e_occ := occ\<rparr>\<rparr>)))))"

definition downloadingEnded :: "world \<Rightarrow> world" where
  "downloadingEnded w =
     (let w = w\<lparr>w_cd := (w_cd w)\<lparr>cd_socket := False\<rparr>\<rparr>;
          w = emit (TransferStatus (cd_close (w_cd w))) w;
          w = w\<lparr>w_cd := (w_cd w)\<lparr>cd_close := False, cd_result := False, cd_downloading := False\<rparr>\<rparr>;
          w = emit DownloadFinished w;
          currentPeer = cd_current (w_cd w);
          w = w\<lparr>w_cd := (w_cd w)\<lparr>cd_current := None\<rparr>\<rparr>;
          w = (if isComplete (w_cd w) then set_peers [] w else w);
          (occ, free) = setPeerAsFree (e_peers (w_env w)) currentPeer (e_occ (w_env w))
      in fold (\<lambda>q. emit (NewFreePeer q)) free (w\<lparr>w_env := (w_env w)\<lparr>e_occ := occ\<rparr>\<rparr>))"

text \<open>\<open>wait\<close> is \<open>threadPool.wait\<close>: the end of the transfer loop that sees \<open>downloading\<close> unset.\<close>

definition stop :: "(world \<Rightarrow> world) \<Rightarrow> world \<Rightarrow> world" where
  "stop wait w =
     (if cd_downloading (w_cd w)
      then downloadingEnded (wait (w\<lparr>w_cd := (w_cd w)\<lparr>cd_downloading := False\<rparr>\<rparr>)) else w)"

definition finished :: "world \<Rightarrow> world" where
  "finished w = (if cd_downloading (w_cd w) then downloadingEnded w else w)"

definition peerBecomesUnavailable_cd :: "(world \<Rightarrow> world) \<Rightarrow> peer_ref option \<Rightarrow> world \<Rightarrow> world" where
  "peerBecomesUnavailable_cd wait peer w =
     (case peer of
        None \<Rightarrow> w
      | Some p \<Rightarrow>
          (let ph = e_peers (w_env w);
               wasCurrent = (case cd_current (w_cd w) of None \<Rightarrow> False | Some c \<Rightarrow> p_id (ph c) = p_id (ph p));
               w = rmPeer p w
           in if wasCurrent then stop wait (w\<lparr>w_cd := (w_cd w)\<lparr>cd_last := TRANSFER_ERROR\<rparr>\<rparr>) else w))"

text \<open>
  The answer to \<open>GetChunks\<close>: whether the status is OK and, for the first chunk result, whether
  the peer has the chunk and its size (0 when the message has none).
\<close>

datatype get_chunks_result = ResultError | ResultNone | ResultDontHave | ResultChunk int

definition cd_on_result :: "get_chunks_result \<Rightarrow> world \<Rightarrow> world" where
  "cd_on_result r w =
     (case r of
        ResultError \<Rightarrow>
          (let ph = e_peers (w_env w);
               (removed, w) = (case cd_current (w_cd w) of None \<Rightarrow> (None, w) | Some c \<Rightarrow> takePeer (p_id (ph c)) w);
               w = (case removed of None \<Rightarrow> w
                    | Some q \<Rightarrow> emit NumberOfPeersChanged (set_links (rmLink ph (Some q) (e_links (w_env w))) w))
           in downloadingEnded w)
      | ResultNone \<Rightarrow> downloadingEnded w
      | ResultDontHave \<Rightarrow> downloadingEnded w
      | ResultChunk n \<Rightarrow>
          (if n = 0 then downloadingEnded (w\<lparr>w_cd := (w_cd w)\<lparr>cd_close := True\<rparr>\<rparr>)
           else w\<lparr>w_cd := (w_cd w)\<lparr>cd_size := n\<rparr>\<rparr>))"

definition cd_stream :: "world \<Rightarrow> world" where
  "cd_stream w = w\<lparr>w_cd := (w_cd w)\<lparr>cd_socket := True\<rparr>\<rparr>"

definition getChunkTimeout :: "world \<Rightarrow> world" where
  "getChunkTimeout w = downloadingEnded w"

definition setChunk :: "chunk \<Rightarrow> chunk_dl \<Rightarrow> chunk_dl" where
  "setChunk c cd = cd\<lparr>cd_chunk := Some (c\<lparr>ch_hash := cd_hash cd\<rparr>)\<rparr>"

definition updateHash :: "hash \<Rightarrow> chunk_dl \<Rightarrow> chunk_dl" where
  "updateHash h cd = cd\<lparr>cd_hash := h, cd_chunk := map_option (\<lambda>c. c\<lparr>ch_hash := h\<rparr>) (cd_chunk cd)\<rparr>"

definition cd_reset :: "chunk_dl \<Rightarrow> chunk_dl" where
  "cd_reset cd = cd\<lparr>cd_chunk := None\<rparr>"

definition resetLastTransferStatus :: "chunk_dl \<Rightarrow> chunk_dl" where
  "resetLastTransferStatus cd = cd\<lparr>cd_last := QUEUED\<rparr>"

definition destroy :: "(world \<Rightarrow> world) \<Rightarrow> world \<Rightarrow> world" where
  "destroy wait w = (let w = stop wait w
                     in fold (\<lambda>p w. set_links (rmLink (e_peers (w_env w)) (Some p) (e_links (w_env w))) w) (cd_peers (w_cd w)) w)"

subsection \<open>What the loops compute\<close>

abbreviation ids :: "peer_heap \<Rightarrow> peer_ref list \<Rightarrow> hash list" where
  "ids ph ps \<equiv> map (\<lambda>p. p_id (ph p)) ps"

definition unlink_dead :: "peer_heap \<Rightarrow> peer_ref list \<Rightarrow> links \<Rightarrow> links" where
  "unlink_dead ph ps ls = fold (\<lambda>p. rmLink ph (Some p)) (filter (\<lambda>p. \<not> p_available (ph p)) ps) ls"

lemma peers_loop_eq: "peers_loop ph ps ls =
   (filter (\<lambda>p. p_available (ph p)) ps, unlink_dead ph ps ls, \<not> (\<forall>p \<in> set ps. p_available (ph p)))"
  by (induction ps arbitrary: ls) (auto simp: unlink_dead_def)

lemma count_loop_eq: "count_loop ph occ ps ls =
   (filter (\<lambda>p. p_available (ph p)) ps, unlink_dead ph ps ls, \<not> (\<forall>p \<in> set ps. p_available (ph p)),
    length (filter (\<lambda>p. p_available (ph p) \<and> isPeerFree ph (Some p) occ) ps))"
  by (induction ps arbitrary: ls) (auto simp: unlink_dead_def)

text \<open>The peer chosen so far wins against the rest unless one is strictly faster.\<close>

definition candidates :: "peer_heap \<Rightarrow> occupied \<Rightarrow> peer_ref list \<Rightarrow> peer_ref list" where
  "candidates ph occ ps = filter (\<lambda>p. p_available (ph p) \<and> isPeerFree ph (Some p) occ) ps"

definition is_fastest :: "peer_heap \<Rightarrow> peer_ref list \<Rightarrow> peer_ref option \<Rightarrow> bool" where
  "is_fastest ph ps cur \<longleftrightarrow> (case cur of None \<Rightarrow> ps = []
     | Some c \<Rightarrow> c \<in> set ps \<and> (\<forall>q \<in> set ps. p_speed (ph q) \<le> p_speed (ph c)))"

lemma fastest_loop_frame: "\<exists>cur. fastest_loop ph occ ps current ls =
   (filter (\<lambda>p. p_available (ph p)) ps, unlink_dead ph ps ls, \<not> (\<forall>p \<in> set ps. p_available (ph p)), cur) \<and>
   is_fastest ph ((case current of None \<Rightarrow> [] | Some c \<Rightarrow> [c]) @ candidates ph occ ps) cur"
proof (induction ps arbitrary: current ls)
  case Nil
  then show ?case by (cases current) (auto simp: unlink_dead_def is_fastest_def candidates_def)
next
  case (Cons p ps)
  define next' where "next' = (if isPeerFree ph (Some p) occ \<and>
      (case current of None \<Rightarrow> True | Some c \<Rightarrow> p_speed (ph p) > p_speed (ph c)) then Some p else current)"
  show ?case
  proof (cases "p_available (ph p)")
    case False
    with Cons.IH [of current "rmLink ph (Some p) ls"] show ?thesis
      by (auto simp: unlink_dead_def candidates_def)
  next
    case True
    from Cons.IH [of next' ls] obtain cur where
      eq: "fastest_loop ph occ ps next' ls = (filter (\<lambda>p. p_available (ph p)) ps, unlink_dead ph ps ls,
         \<not> (\<forall>p \<in> set ps. p_available (ph p)), cur)"
      and best: "is_fastest ph ((case next' of None \<Rightarrow> [] | Some c \<Rightarrow> [c]) @ candidates ph occ ps) cur" by blast
    have "is_fastest ph ((case current of None \<Rightarrow> [] | Some c \<Rightarrow> [c]) @ candidates ph occ (p # ps)) cur"
      using best True
      by (cases cur; cases current) (auto simp: is_fastest_def candidates_def next'_def split: if_splits)
    with True eq show ?thesis by (auto simp: unlink_dead_def next'_def [symmetric] Let_def)
  qed
qed

lemma indexOfPeerByID_eq: "indexOfPeerByID ph ps i = index_of i (ids ph ps)"
  by (induction ps) (auto simp: map_option_case)

subsection \<open>Links\<close>

text \<open>
  The links count the peers of this chunk and those of all other chunks (\<open>others\<close>), and no two
  peers of the chunk have the same ID.
\<close>

definition linked :: "hash multiset \<Rightarrow> world \<Rightarrow> bool" where
  "linked others w \<longleftrightarrow>
     links.mirrors (e_links (w_env w)) (mset (ids (e_peers (w_env w)) (cd_peers (w_cd w))) + others) \<and>
     distinct (ids (e_peers (w_env w)) (cd_peers (w_cd w)))"

lemma mirrors_rmLink:
  "links.mirrors ls (add_mset (p_id (ph p)) refs) \<Longrightarrow> links.mirrors (rmLink ph (Some p) ls) refs"
  by (simp add: rmLink_id links.mirrors_rm_added)

lemma mirrors_unlink_dead:
  "links.mirrors ls (mset (ids ph ps) + refs) \<Longrightarrow>
   links.mirrors (unlink_dead ph ps ls) (mset (ids ph (filter (\<lambda>p. p_available (ph p)) ps)) + refs)"
proof (induction ps arbitrary: ls refs)
  case Nil
  then show ?case by (simp add: unlink_dead_def)
next
  case (Cons p ps)
  show ?case
  proof (cases "p_available (ph p)")
    case True
    with Cons.IH [of ls "add_mset (p_id (ph p)) refs"] Cons.prems show ?thesis by (simp add: unlink_dead_def)
  next
    case False
    have "links.mirrors (rmLink ph (Some p) ls) (mset (ids ph ps) + refs)"
      using Cons.prems by (intro mirrors_rmLink) simp
    from Cons.IH [OF this] False show ?thesis by (simp add: unlink_dead_def)
  qed
qed

text \<open>The pieces of a world that an operation may leave alone.\<close>

lemma emit_frame [simp]: "w_cd (emit e w) = w_cd w" "w_env (emit e w) = w_env w" "w_log (emit e w) = w_log w @ [e]"
  by (simp_all add: emit_def)

lemma emits_frame [simp]:
  "w_cd (fold (\<lambda>q. emit (f q)) qs w) = w_cd w" "w_env (fold (\<lambda>q. emit (f q)) qs w) = w_env w"
  "w_log (fold (\<lambda>q. emit (f q)) qs w) = w_log w @ map f qs"
  by (induction qs arbitrary: w) simp_all

lemma set_frame [simp]:
  "w_env (set_peers ps w) = w_env w" "w_log (set_peers ps w) = w_log w" "cd_peers (w_cd (set_peers ps w)) = ps"
  "w_cd (set_links ls w) = w_cd w" "w_log (set_links ls w) = w_log w" "e_links (w_env (set_links ls w)) = ls"
  "e_peers (w_env (set_links ls w)) = e_peers (w_env w)" "e_occ (w_env (set_links ls w)) = e_occ (w_env w)"
  "cd_chunk (w_cd (set_peers ps w)) = cd_chunk (w_cd w)" "cd_current (w_cd (set_peers ps w)) = cd_current (w_cd w)"
  "cd_downloading (w_cd (set_peers ps w)) = cd_downloading (w_cd w)"
  by (simp_all add: set_peers_def set_links_def)

lemma dropped_frame [simp]:
  "cd_peers (w_cd (dropped kept ls changed w)) = kept" "e_links (w_env (dropped kept ls changed w)) = ls"
  "e_peers (w_env (dropped kept ls changed w)) = e_peers (w_env w)"
  "e_occ (w_env (dropped kept ls changed w)) = e_occ (w_env w)"
  "cd_chunk (w_cd (dropped kept ls changed w)) = cd_chunk (w_cd w)"
  "cd_current (w_cd (dropped kept ls changed w)) = cd_current (w_cd w)"
  "cd_downloading (w_cd (dropped kept ls changed w)) = cd_downloading (w_cd w)"
  by (simp_all add: dropped_def Let_def)

lemma linked_cong:
  "linked others w \<Longrightarrow> cd_peers (w_cd w') = cd_peers (w_cd w) \<Longrightarrow> e_links (w_env w') = e_links (w_env w) \<Longrightarrow>
   e_peers (w_env w') = e_peers (w_env w) \<Longrightarrow> linked others w'"
  by (simp add: linked_def)

lemma linked_dropped:
  assumes "linked others w" "ph = e_peers (w_env w)"
  shows "linked others (dropped (filter (\<lambda>p. p_available (ph p)) (cd_peers (w_cd w)))
           (unlink_dead ph (cd_peers (w_cd w)) (e_links (w_env w))) changed w)"
  using assms mirrors_unlink_dead [of "e_links (w_env w)" ph "cd_peers (w_cd w)" others]
  by (simp add: linked_def distinct_map_filter)

lemma getPeers_linked: "linked others w \<Longrightarrow> linked others (snd (getPeers w))"
  by (simp add: getPeers_def peers_loop_eq linked_dropped)

lemma getNumberOfFreePeer_linked: "linked others w \<Longrightarrow> linked others (snd (getNumberOfFreePeer w))"
  by (simp add: getNumberOfFreePeer_def count_loop_eq linked_dropped)

lemma getTheFastestFreePeer_linked: "linked others w \<Longrightarrow> linked others (snd (getTheFastestFreePeer w))"
proof -
  assume l: "linked others w"
  let ?ph = "e_peers (w_env w)"
  obtain cur where "fastest_loop ?ph (e_occ (w_env w)) (cd_peers (w_cd w)) None (e_links (w_env w)) =
    (filter (\<lambda>p. p_available (?ph p)) (cd_peers (w_cd w)), unlink_dead ?ph (cd_peers (w_cd w)) (e_links (w_env w)),
     \<not> (\<forall>p \<in> set (cd_peers (w_cd w)). p_available (?ph p)), cur)"
    using fastest_loop_frame by blast
  with l show ?thesis by (simp add: getTheFastestFreePeer_def linked_dropped)
qed

lemma rememberPeer_linked:
  assumes l: "linked others w" and room: "length (cd_peers (w_cd w)) + size others + 1 < 2 ^ 32"
  shows "linked others (snd (rememberPeer p inform w))"
proof -
  let ?ph = "e_peers (w_env w)" and ?ps = "cd_peers (w_cd w)"
  show ?thesis
  proof (cases "indexOfPeerByID ?ph ?ps (p_id (?ph p))")
    case (Some i)
    then have i: "i < length ?ps" "p_id (?ph (?ps ! i)) = p_id (?ph p)"
      using index_of_SomeD [of "p_id (?ph p)" "ids ?ph ?ps" i] by (auto simp: indexOfPeerByID_eq)
    then have "ids ?ph (?ps[i := p]) = ids ?ph ?ps"
      by (metis (no_types, lifting) list_update_id map_update nth_map)
    with l Some show ?thesis by (simp add: rememberPeer_def linked_def)
  next
    case None
    then have new: "p_id (?ph p) \<notin> set (ids ?ph ?ps)"
      by (metis index_of_in_set indexOfPeerByID_eq option.distinct(1))
    have "links.mirrors (addLink ?ph (Some p) (e_links (w_env w)))
        (add_mset (p_id (?ph p)) (mset (ids ?ph ?ps) + others))"
      unfolding addLink_id using l room by (intro links.mirrors_add) (simp_all add: linked_def)
    with None l new show ?thesis by (simp add: rememberPeer_def linked_def Let_def)
  qed
qed

lemma takePeer_linked:
  assumes l: "linked others w"
  shows "case takePeer i w of (None, w') \<Rightarrow> w' = w
     | (Some q, w') \<Rightarrow> linked others (set_links (rmLink (e_peers (w_env w)) (Some q) (e_links (w_env w))) w') \<and>
         p_id (e_peers (w_env w) q) = i \<and> w_env w' = w_env w"
proof -
  let ?ph = "e_peers (w_env w)" and ?ps = "cd_peers (w_cd w)"
  show ?thesis
  proof (cases "index_of i (ids ?ph ?ps)")
    case None
    then show ?thesis by (simp add: takePeer_def indexOfPeerByID_eq)
  next
    case (Some k)
    then have k: "k < length ?ps" "p_id (?ph (?ps ! k)) = i" using index_of_SomeD by fastforce+
    have m: "mset (ids ?ph ?ps) = add_mset i (mset (ids ?ph (remove_at k ?ps)))"
    proof -
      have "?ps = take k ?ps @ ?ps ! k # drop (Suc k) ?ps" using k by (simp add: id_take_nth_drop)
      then have "mset (ids ?ph ?ps) = mset (ids ?ph (take k ?ps @ ?ps ! k # drop (Suc k) ?ps))" by metis
      with k(2) show ?thesis by (simp add: remove_at_def)
    qed
    have "links.mirrors (rmLink ?ph (Some (?ps ! k)) (e_links (w_env w))) (mset (ids ?ph (remove_at k ?ps)) + others)"
      using l m k(2) by (intro mirrors_rmLink) (simp add: linked_def)
    moreover have "distinct (ids ?ph (remove_at k ?ps))"
    proof -
      have "ids ?ph (remove_at k ?ps) = remove_at k (ids ?ph ?ps)"
        by (simp add: remove_at_def take_map drop_map)
      moreover have "distinct (ids ?ph ?ps)" using l by (simp add: linked_def)
      ultimately show ?thesis using Some by (simp add: remove_at_index_of)
    qed
    ultimately show ?thesis using Some k by (simp add: takePeer_def indexOfPeerByID_eq linked_def)
  qed
qed

text \<open>Every operation that does not end a complete chunk keeps the links exact.\<close>

lemma addPeer_linked:
  "linked others w \<Longrightarrow> length (cd_peers (w_cd w)) + size others + 1 < 2 ^ 32 \<Longrightarrow> linked others (addPeer p w)"
  by (simp add: addPeer_def rememberPeer_linked)

lemma setPeerSource_linked:
  "linked others w \<Longrightarrow> length (cd_peers (w_cd w)) + size others + 1 < 2 ^ 32 \<Longrightarrow>
   linked others (setPeerSource peer inform w)"
  by (simp add: setPeerSource_def rememberPeer_linked split: option.splits)

lemma rmPeer_linked: "linked others w \<Longrightarrow> linked others (rmPeer p w)"
  using takePeer_linked [of others w "p_id (e_peers (w_env w) p)"]
  by (auto simp: rmPeer_def Let_def split: option.splits prod.splits intro: linked_cong)

lemma setPeerAsFree_parts: "setPeerAsFree ph peer occ = (fst (setPeerAsFree ph peer occ), snd (setPeerAsFree ph peer occ))"
  by simp

lemma downloadingEnded_frame [simp]:
  "cd_peers (w_cd (downloadingEnded w)) = (if isComplete (w_cd w) then [] else cd_peers (w_cd w))"
  "e_links (w_env (downloadingEnded w)) = e_links (w_env w)"
  "e_peers (w_env (downloadingEnded w)) = e_peers (w_env w)"
  "e_occ (w_env (downloadingEnded w)) = fst (setPeerAsFree (e_peers (w_env w)) (cd_current (w_cd w)) (e_occ (w_env w)))"
  "cd_current (w_cd (downloadingEnded w)) = None" "\<not> cd_downloading (w_cd (downloadingEnded w))"
  "cd_chunk (w_cd (downloadingEnded w)) = cd_chunk (w_cd w)" "\<not> cd_result (w_cd (downloadingEnded w))"
  "w_log (downloadingEnded w) = w_log w @ [TransferStatus (cd_close (w_cd w)), DownloadFinished] @
     map NewFreePeer (snd (setPeerAsFree (e_peers (w_env w)) (cd_current (w_cd w)) (e_occ (w_env w))))"
  by (auto simp: downloadingEnded_def Let_def isComplete_def set_peers_def split: prod.splits)

lemma downloadingEnded_linked: "linked others w \<Longrightarrow> \<not> isComplete (w_cd w) \<Longrightarrow> linked others (downloadingEnded w)"
  by (simp add: linked_def)

lemma startDownloading_linked: "linked others w \<Longrightarrow> linked others (snd (startDownloading get w))"
  using getTheFastestFreePeer_linked [of others w]
  by (auto simp: startDownloading_def Let_def linked_def split: prod.splits option.splits)

subsection \<open>Choosing a peer\<close>

lemma getTheFastestFreePeer_spec:
  assumes "getTheFastestFreePeer w = (cur, w')"
  shows "is_fastest (e_peers (w_env w)) (candidates (e_peers (w_env w)) (e_occ (w_env w)) (cd_peers (w_cd w))) cur \<and>
     cd_peers (w_cd w') = filter (\<lambda>p. p_available (e_peers (w_env w) p)) (cd_peers (w_cd w)) \<and>
     e_peers (w_env w') = e_peers (w_env w) \<and> e_occ (w_env w') = e_occ (w_env w) \<and>
     cd_chunk (w_cd w') = cd_chunk (w_cd w) \<and> cd_downloading (w_cd w') = cd_downloading (w_cd w)"
proof -
  let ?ph = "e_peers (w_env w)" and ?ps = "cd_peers (w_cd w)"
  obtain c where loop: "fastest_loop ?ph (e_occ (w_env w)) ?ps None (e_links (w_env w)) =
     (filter (\<lambda>p. p_available (?ph p)) ?ps, unlink_dead ?ph ?ps (e_links (w_env w)),
      \<not> (\<forall>p \<in> set ?ps. p_available (?ph p)), c)"
    and best: "is_fastest ?ph ([] @ candidates ?ph (e_occ (w_env w)) ?ps) c"
    using fastest_loop_frame [of ?ph "e_occ (w_env w)" ?ps None "e_links (w_env w)"] by auto
  with assms show ?thesis by (auto simp: getTheFastestFreePeer_def)
qed

definition sample_chunk_dl :: "peer_ref list \<Rightarrow> world" where
  "sample_chunk_dl ps = \<lparr>w_cd = (new_chunk_dl [9])\<lparr>cd_peers := ps, cd_chunk := Some \<lparr>ch_known = 0, ch_complete = False, ch_hash = [9]\<rparr>\<rparr>,
     w_env = \<lparr>e_peers = two_peers, e_links = fold (\<lambda>p. addLink two_peers (Some p)) ps no_links, e_occ = {}\<rparr>, w_log = []\<rparr>"

text \<open>
  when \<open>startDownloading\<close> returns a peer, that peer owns the chunk, is alive and was free, no
  other such peer is faster, it is now occupied and the chunk is downloading from it.
\<close>

theorem startDownloading_picks_fastest:
  assumes "startDownloading getChunks w = (Some p, w')"
  shows "p \<in> set (cd_peers (w_cd w)) \<and> p_available (e_peers (w_env w) p) \<and>
     p_id (e_peers (w_env w) p) \<notin> e_occ (w_env w) \<and>
     (\<forall>q \<in> set (cd_peers (w_cd w)). p_available (e_peers (w_env w) q) \<and> p_id (e_peers (w_env w) q) \<notin> e_occ (w_env w) \<longrightarrow>
        p_speed (e_peers (w_env w) q) \<le> p_speed (e_peers (w_env w) p)) \<and>
     e_occ (w_env w') = insert (p_id (e_peers (w_env w) p)) (e_occ (w_env w)) \<and>
     cd_downloading (w_cd w') \<and> cd_current (w_cd w') = Some p"
proof -
  obtain cur w1 where f: "getTheFastestFreePeer w = (cur, w1)" by (metis surj_pair)
  note spec = getTheFastestFreePeer_spec [OF f]
  have cur: "cur = Some p" and w': "w' = (let v = emit DownloadStarted (w1\<lparr>w_cd := (w_cd w1)\<lparr>cd_current := Some p, cd_result := True, cd_downloading := True\<rparr>\<rparr>)
      in v\<lparr>w_env := (w_env v)\<lparr>e_occ := snd (setPeerAsOccupied (e_peers (w_env v)) (Some p) (e_occ (w_env v)))\<rparr>\<rparr>)"
    using assms f by (auto simp: startDownloading_def Let_def split: if_splits option.splits)
  have "p \<in> set (candidates (e_peers (w_env w)) (e_occ (w_env w)) (cd_peers (w_cd w)))"
    and best: "\<forall>q \<in> set (candidates (e_peers (w_env w)) (e_occ (w_env w)) (cd_peers (w_cd w))).
        p_speed (e_peers (w_env w) q) \<le> p_speed (e_peers (w_env w) p)"
    using spec by (auto simp: cur is_fastest_def)
  then show ?thesis
    using spec by (auto simp: w' candidates_def isPeerFree_def setPeerAsOccupied_def Let_def)
qed

theorem startDownloading_picks_fastest_witness:
  "fst (startDownloading (\<lambda>_. True) (sample_chunk_dl [0, 1])) = Some 1 \<and> p_speed (two_peers 0) \<le> p_speed (two_peers 1)"
proof -
  have run: "startDownloading (\<lambda>_. True) (sample_chunk_dl [0, 1]) = (Some 1, snd (startDownloading (\<lambda>_. True) (sample_chunk_dl [0, 1])))"
    by (simp add: startDownloading_def sample_chunk_dl_def getTheFastestFreePeer_def dropped_def isPeerFree_def two_peers_def Let_def)
  have "p_speed (two_peers 0) \<le> p_speed (two_peers 1)"
    using startDownloading_picks_fastest [OF run] by (simp add: sample_chunk_dl_def two_peers_def)
  then show ?thesis using arg_cong [OF run, of fst] by simp
qed

text \<open>
  \<open>isReadyToDownload\<close> is honest: when it counts a free peer and the chunk is known,
  \<open>startDownloading\<close> fails only if the chosen peer refuses the request; and the count is the
  number of living free peers of the chunk.
\<close>

theorem isReadyToDownload_startable:
  assumes "isReadyToDownload w = (n, w')" and "n > 0" and "cd_chunk (w_cd w) \<noteq> None" and "\<forall>p. getChunks p"
  shows "fst (startDownloading getChunks w') \<noteq> None \<and> \<not> cd_downloading (w_cd w) \<and> \<not> isComplete (w_cd w) \<and>
     n = length (candidates (e_peers (w_env w)) (e_occ (w_env w)) (cd_peers (w_cd w)))"
proof -
  let ?ph = "e_peers (w_env w)"
  have run: "getNumberOfFreePeer w = (n, w')" "\<not> cd_downloading (w_cd w)" "\<not> isComplete (w_cd w)"
    using assms(1,2) by (auto simp: isReadyToDownload_def split: if_splits)
  then have n: "n = length (candidates ?ph (e_occ (w_env w)) (cd_peers (w_cd w)))"
    and w': "cd_peers (w_cd w') = filter (\<lambda>p. p_available (?ph p)) (cd_peers (w_cd w))" "e_peers (w_env w') = ?ph"
      "e_occ (w_env w') = e_occ (w_env w)" "cd_chunk (w_cd w') = cd_chunk (w_cd w)"
    by (auto simp: getNumberOfFreePeer_def count_loop_eq candidates_def)
  obtain cur w1 where f: "getTheFastestFreePeer w' = (cur, w1)" by (metis surj_pair)
  have "candidates ?ph (e_occ (w_env w)) (cd_peers (w_cd w')) = candidates ?ph (e_occ (w_env w)) (cd_peers (w_cd w))"
    unfolding w'(1) candidates_def by (simp add: conj_commute)
  then have "cur \<noteq> None" using getTheFastestFreePeer_spec [OF f] n assms(2) w'
    by (cases cur) (auto simp: is_fastest_def)
  then have "fst (startDownloading getChunks w') \<noteq> None"
    using f assms(3,4) w'(4) by (auto simp: startDownloading_def Let_def)
  with run n show ?thesis by simp
qed

theorem isReadyToDownload_startable_witness:
  "fst (startDownloading (\<lambda>_. True) (snd (isReadyToDownload (sample_chunk_dl [0, 1])))) \<noteq> None"
proof -
  have "isReadyToDownload (sample_chunk_dl [0, 1]) = (2, snd (isReadyToDownload (sample_chunk_dl [0, 1])))"
    by (simp add: isReadyToDownload_def getNumberOfFreePeer_def sample_chunk_dl_def new_chunk_dl_def isComplete_def
        isPeerFree_def two_peers_def Let_def)
  from isReadyToDownload_startable [OF this, of "\<lambda>_. True"] show ?thesis by (simp add: sample_chunk_dl_def)
qed

subsection \<open>The links over the life of a chunk download\<close>

text \<open>The calls a \<open>ChunkDownloader\<close> receives; the transfer thread that is waited for closes its socket.\<close>

datatype cd_op =
    OpAddPeer peer_ref | OpRmPeer peer_ref | OpSetPeerSource "peer_ref option" bool
  | OpGetPeers | OpIsReady | OpStart "peer_ref list" | OpResult get_chunks_result | OpStream
  | OpTimeout | OpFinished | OpStop | OpUnavailable "peer_ref option"

definition wait_thread :: "world \<Rightarrow> world" where
  "wait_thread w = (if cd_socket (w_cd w) then w\<lparr>w_cd := (w_cd w)\<lparr>cd_close := True\<rparr>\<rparr> else w)"

primrec cd_apply :: "cd_op \<Rightarrow> world \<Rightarrow> world" where
  "cd_apply (OpAddPeer p) w = addPeer p w"
| "cd_apply (OpRmPeer p) w = rmPeer p w"
| "cd_apply (OpSetPeerSource p b) w = setPeerSource p b w"
| "cd_apply OpGetPeers w = snd (getPeers w)"
| "cd_apply OpIsReady w = snd (isReadyToDownload w)"
| "cd_apply (OpStart ok) w = snd (startDownloading (\<lambda>p. p \<in> set ok) w)"
| "cd_apply (OpResult r) w = cd_on_result r w"
| "cd_apply OpStream w = cd_stream w"
| "cd_apply OpTimeout w = getChunkTimeout w"
| "cd_apply OpFinished w = finished w"
| "cd_apply OpStop w = stop wait_thread w"
| "cd_apply (OpUnavailable p) w = peerBecomesUnavailable_cd wait_thread p w"

text \<open>One more peer at most, the same chunk, the same heap of peers.\<close>

definition grows :: "world \<Rightarrow> world \<Rightarrow> bool" where
  "grows w w' \<longleftrightarrow> length (cd_peers (w_cd w')) \<le> length (cd_peers (w_cd w)) + 1 \<and>
     cd_chunk (w_cd w') = cd_chunk (w_cd w)"

lemma takePeer_grows: "takePeer i w = (r, w') \<Longrightarrow>
   length (cd_peers (w_cd w')) \<le> length (cd_peers (w_cd w)) \<and> cd_chunk (w_cd w') = cd_chunk (w_cd w)"
  by (auto simp: takePeer_def remove_at_def split: option.splits)

lemma rmPeer_grows:
  "length (cd_peers (w_cd (rmPeer p w))) \<le> length (cd_peers (w_cd w)) \<and> cd_chunk (w_cd (rmPeer p w)) = cd_chunk (w_cd w)"
  using takePeer_grows [of "p_id (e_peers (w_env w) p)" w]
  by (auto simp: rmPeer_def Let_def split: prod.splits option.splits)

lemma rememberPeer_grows: "grows w (snd (rememberPeer p b w))"
  by (auto simp: grows_def rememberPeer_def Let_def split: option.splits)

lemma fastest_grows: "getTheFastestFreePeer w = (cur, w') \<Longrightarrow> length (cd_peers (w_cd w')) \<le> length (cd_peers (w_cd w)) \<and>
   cd_chunk (w_cd w') = cd_chunk (w_cd w)"
  using getTheFastestFreePeer_spec [of w cur w'] by simp

lemma stop_grows: "grows w (stop wait_thread w)"
  by (simp add: grows_def stop_def wait_thread_def)

lemma stop_linked: "linked others w \<Longrightarrow> \<not> isComplete (w_cd w) \<Longrightarrow> linked others (stop wait_thread w)"
  unfolding stop_def wait_thread_def
  by (auto intro!: downloadingEnded_linked linked_cong [of others w] simp: isComplete_def)

lemma unavailable_ok:
  assumes "linked others w" "\<not> isComplete (w_cd w)"
  shows "linked others (peerBecomesUnavailable_cd wait_thread peer w) \<and> grows w (peerBecomesUnavailable_cd wait_thread peer w)"
proof (cases peer)
  case None
  with assms show ?thesis by (simp add: peerBecomesUnavailable_cd_def grows_def)
next
  case (Some p)
  define v where "v = (rmPeer p w)\<lparr>w_cd := (w_cd (rmPeer p w))\<lparr>cd_last := TRANSFER_ERROR\<rparr>\<rparr>"
  have l: "linked others (rmPeer p w)" using assms(1) by (rule rmPeer_linked)
  then have lv: "linked others v" by (rule linked_cong) (simp_all add: v_def)
  have nc: "\<not> isComplete (w_cd v)" using assms(2) rmPeer_grows [of p w] by (simp add: isComplete_def v_def)
  have "peerBecomesUnavailable_cd wait_thread peer w = rmPeer p w \<or>
      peerBecomesUnavailable_cd wait_thread peer w = stop wait_thread v"
    by (simp add: Some peerBecomesUnavailable_cd_def v_def Let_def)
  moreover have "grows w (rmPeer p w)" using rmPeer_grows [of p w] by (simp add: grows_def)
  moreover have "grows w (stop wait_thread v)"
    using rmPeer_grows [of p w] by (simp add: grows_def stop_def wait_thread_def v_def)
  ultimately show ?thesis using l stop_linked [OF lv nc] by auto
qed

lemma on_result_ok:
  assumes "linked others w" "\<not> isComplete (w_cd w)"
  shows "linked others (cd_on_result r w) \<and> grows w (cd_on_result r w)"
proof (cases r)
  case ResultError
  let ?ph = "e_peers (w_env w)"
  obtain removed v where rv: "(case cd_current (w_cd w) of None \<Rightarrow> (None, w) | Some c \<Rightarrow> takePeer (p_id (?ph c)) w) = (removed, v)"
    by (metis surj_pair)
  define v' where "v' = (case removed of None \<Rightarrow> v
      | Some q \<Rightarrow> emit NumberOfPeersChanged (set_links (rmLink ?ph (Some q) (e_links (w_env v))) v))"
  have res: "cd_on_result r w = downloadingEnded v'"
    by (simp add: cd_on_result_def ResultError Let_def rv v'_def)
  have g: "length (cd_peers (w_cd v)) \<le> length (cd_peers (w_cd w)) \<and> cd_chunk (w_cd v) = cd_chunk (w_cd w)"
    using rv takePeer_grows by (cases "cd_current (w_cd w)") auto
  have "linked others v'"
  proof (cases "cd_current (w_cd w)")
    case None
    with rv assms(1) show ?thesis by (auto simp: v'_def)
  next
    case (Some c)
    with rv takePeer_linked [OF assms(1), of "p_id (?ph c)"] assms(1)
    show ?thesis by (cases removed) (auto simp: v'_def intro: linked_cong)
  qed
  moreover have "cd_chunk (w_cd v') = cd_chunk (w_cd w)" "cd_peers (w_cd v') = cd_peers (w_cd v)"
    using g by (auto simp: v'_def split: option.splits)
  ultimately show ?thesis
    using assms(2) g unfolding res by (auto intro!: downloadingEnded_linked simp: isComplete_def grows_def)
next
  case (ResultChunk n)
  let ?v = "w\<lparr>w_cd := (w_cd w)\<lparr>cd_close := True\<rparr>\<rparr>"
  have "linked others ?v" by (rule linked_cong [OF assms(1)]) simp_all
  moreover have "linked others (w\<lparr>w_cd := (w_cd w)\<lparr>cd_size := n\<rparr>\<rparr>)" by (rule linked_cong [OF assms(1)]) simp_all
  moreover have "\<not> isComplete (w_cd ?v)" using assms(2) by (simp add: isComplete_def)
  ultimately show ?thesis
    using downloadingEnded_linked [of others ?v] by (auto simp: cd_on_result_def ResultChunk grows_def)
qed (use assms downloadingEnded_linked in \<open>auto simp: cd_on_result_def grows_def\<close>)

lemma cd_apply_ok:
  assumes l: "linked others w" and room: "length (cd_peers (w_cd w)) + size others + 1 < 2 ^ 32"
    and nc: "\<not> isComplete (w_cd w)"
  shows "linked others (cd_apply op w) \<and> grows w (cd_apply op w)"
proof (cases op)
  case (OpAddPeer p)
  with l room rememberPeer_grows show ?thesis by (auto simp: addPeer_linked) (auto simp: addPeer_def grows_def)
next
  case (OpRmPeer p)
  with l rmPeer_grows [of p w] show ?thesis by (simp add: rmPeer_linked grows_def)
next
  case (OpSetPeerSource p b)
  with l room rememberPeer_grows show ?thesis
    by (auto simp: setPeerSource_linked) (auto simp: setPeerSource_def grows_def split: option.splits)
next
  case OpGetPeers
  have "grows w (snd (getPeers w))" by (simp add: grows_def getPeers_def peers_loop_eq le_SucI)
  with OpGetPeers l show ?thesis by (simp add: getPeers_linked)
next
  case OpIsReady
  have "grows w (snd (getNumberOfFreePeer w))" by (simp add: grows_def getNumberOfFreePeer_def count_loop_eq le_SucI)
  with OpIsReady l show ?thesis by (simp add: isReadyToDownload_def getNumberOfFreePeer_linked) (simp add: grows_def)
next
  case (OpStart ok)
  obtain cur v where "getTheFastestFreePeer w = (cur, v)" by (metis surj_pair)
  with fastest_grows [OF this] have "grows w (snd (startDownloading (\<lambda>p. p \<in> set ok) w))"
    by (auto simp: grows_def startDownloading_def Let_def split: option.splits)
  with OpStart l show ?thesis by (simp add: startDownloading_linked)
next
  case (OpResult r)
  with on_result_ok [OF l nc] show ?thesis by simp
next
  case OpStream
  with l show ?thesis by (auto simp: cd_stream_def grows_def intro: linked_cong)
next
  case OpTimeout
  with l nc show ?thesis by (simp add: getChunkTimeout_def downloadingEnded_linked grows_def)
next
  case OpFinished
  with l nc show ?thesis by (simp add: finished_def downloadingEnded_linked grows_def)
next
  case OpStop
  with l nc show ?thesis by (simp add: stop_linked stop_grows)
next
  case (OpUnavailable p)
  with unavailable_ok [OF l nc] show ?thesis by simp
qed

lemma cd_applies_linked:
  assumes "linked others w" "length (cd_peers (w_cd w)) + length ops + size others < 2 ^ 32" "\<not> isComplete (w_cd w)"
  shows "linked others (fold cd_apply ops w)"
  using assms
proof (induction ops arbitrary: w)
  case (Cons op ops)
  have ok: "linked others (cd_apply op w) \<and> grows w (cd_apply op w)"
    using Cons.prems by (intro cd_apply_ok) auto
  then have "\<not> isComplete (w_cd (cd_apply op w))" using Cons.prems(3) by (simp add: grows_def isComplete_def)
  with Cons.IH [of "cd_apply op w"] ok Cons.prems(2) show ?case by (simp add: grows_def)
qed simp

text \<open>
  while a chunk is not complete, whatever calls its downloader receives, \<open>LinkedPeers\<close> counts
  exactly the peers of this chunk beside those of the other chunks, and a peer is referenced there
  exactly if some chunk has it.
\<close>

theorem linked_peers_exact:
  assumes "linked others w" "length (cd_peers (w_cd w)) + length ops + size others < 2 ^ 32" "\<not> isComplete (w_cd w)"
    and "w' = fold cd_apply ops w"
  shows "getPeerIDs (e_links (w_env w')) = set (ids (e_peers (w_env w')) (cd_peers (w_cd w'))) \<union> set_mset others \<and>
     (\<forall>i. link_count (e_links (w_env w')) i = count (mset (ids (e_peers (w_env w')) (cd_peers (w_cd w')))) i + count others i)"
proof -
  have "linked others w'" unfolding assms(4) using assms(1-3) by (rule cd_applies_linked)
  then have m: "links.mirrors (e_links (w_env w')) (mset (ids (e_peers (w_env w')) (cd_peers (w_cd w'))) + others)"
    by (simp only: linked_def)
  from getPeerIDs_mirrors [OF m] m show ?thesis by (simp add: links.mirrors_def)
qed

lemma sample_linked: "linked {#} (sample_chunk_dl [])"
  by (simp add: linked_def sample_chunk_dl_def new_chunk_dl_def links.mirrors_def no_links_def link_count_def links_valid_def)

theorem linked_peers_exact_witness:
  "getPeerIDs (e_links (w_env (fold cd_apply [OpAddPeer 0, OpAddPeer 1, OpAddPeer 0, OpRmPeer 1] (sample_chunk_dl [])))) = {[1]}"
proof -
  let ?w = "fold cd_apply [OpAddPeer 0, OpAddPeer 1, OpAddPeer 0, OpRmPeer 1] (sample_chunk_dl [])"
  have "cd_peers (w_cd ?w) = [0]" "e_peers (w_env ?w) = two_peers"
    by (simp_all add: sample_chunk_dl_def new_chunk_dl_def addPeer_def isComplete_def rememberPeer_def rmPeer_def
        takePeer_def set_peers_def set_links_def emit_def newPeer_def two_peers_def remove_at_def Let_def)
  then show ?thesis
    using linked_peers_exact [OF sample_linked, of "[OpAddPeer 0, OpAddPeer 1, OpAddPeer 0, OpRmPeer 1]", OF _ _ refl]
    by (simp add: sample_chunk_dl_def new_chunk_dl_def isComplete_def two_peers_def)
qed

text \<open>
  the end of a complete chunk leaks its links: \<open>downloadingEnded\<close> empties the list of peers
  without \<open>rmLink\<close>, so that the peer stays in \<open>LinkedPeers\<close>, also when the downloader is
  destroyed.
\<close>

theorem complete_chunk_leaks_links:
  "\<exists>w. linked {#} w \<and> cd_peers (w_cd (destroy wait_thread (downloadingEnded w))) = [] \<and>
     getPeerIDs (e_links (w_env (destroy wait_thread (downloadingEnded w)))) = {[1]}"
proof -
  define w where "w = (let w = sample_chunk_dl [0]
     in w\<lparr>w_cd := (w_cd w)\<lparr>cd_chunk := Some \<lparr>ch_known = 5, ch_complete = True, ch_hash = [9]\<rparr>\<rparr>\<rparr>)"
  have "linked {#} w"
    unfolding w_def Let_def linked_def
    by (simp add: sample_chunk_dl_def addLink_id)
      (use links.mirrors_add [of no_links "{#}" "[1]"] in \<open>simp add: links.mirrors_def no_links_def link_count_def links_valid_def two_peers_def\<close>)
  moreover have "cd_peers (w_cd (destroy wait_thread (downloadingEnded w))) = []"
    "getPeerIDs (e_links (w_env (destroy wait_thread (downloadingEnded w)))) = {[1]}"
    by (simp_all add: destroy_def stop_def isComplete_def w_def Let_def sample_chunk_dl_def getPeerIDs_def addLink_def
        no_links_def two_peers_def)
  ultimately show ?thesis by blast
qed

text \<open>
  a peer that answers that it does not have the chunk is kept: once the download has ended it is
  free again and the same peer is chosen for the same chunk.
\<close>

theorem dont_have_chosen_again:
  "\<exists>w w'. fst (startDownloading (\<lambda>_. True) w) = Some 0 \<and>
     w' = cd_on_result ResultDontHave (snd (startDownloading (\<lambda>_. True) w)) \<and>
     last (w_log w') = NewFreePeer 0 \<and> fst (startDownloading (\<lambda>_. True) w') = Some 0"
  by (rule exI [of _ "sample_chunk_dl [0]"], rule exI, intro conjI, simp_all)
    (simp_all add: startDownloading_def sample_chunk_dl_def getTheFastestFreePeer_def dropped_def isPeerFree_def
      two_peers_def cd_on_result_def setPeerAsFree_def setPeerAsOccupied_def isComplete_def Let_def)

end
