(* ===== verification/Chunk_Transfer.thy ===== *)
theory Chunk_Transfer
  imports File_Chunks Chunk_Downloader
begin

text \<open>
  The transfer loop of a chunk, \<open>ChunkDownloader::run\<close>
  (\<open>Core/DownloadManager/priv/ChunkDownloader.cpp\<close>), over a script of what happens to it: what
  the socket answers, when the download is stopped, when it is time to look for a better peer and
  whether there is one.  The loop writes through \<open>FM::IDataWriter\<close>: its contract is the locale
  \<open>data_writer\<close>, which the \<open>DataWriter\<close> of \<open>File_Chunks\<close> satisfies.
\<close>

subsection \<open>The loop\<close>

text \<open>
  What one turn of the loop meets.  \<open>in_avail\<close> is the number of bytes \<open>QTcpSocket::read\<close> finds,
  \<open>None\<close> when it fails; \<open>in_ready\<close> is the answer of \<open>waitForReadyRead\<close>.
\<close>

record tr_input =
  in_stop :: bool              \<comment> \<open>\<open>downloading\<close> has been unset\<close>
  in_avail :: "nat option"
  in_ready :: bool
  in_check :: bool             \<comment> \<open>\<open>timer.elapsed() > TIME_PERIOD_CHOOSE_ANOTHER_PEER\<close>\<close>
  in_better :: bool            \<comment> \<open>another free peer is faster by the switch factor\<close>

text \<open>\<open>tr_sock\<close> is what the peer sends and has not been read yet.\<close>

record 'w tr =
  tr_toRead :: int             \<comment> \<open>\<open>bytesToRead\<close>\<close>
  tr_buffer :: "byte list"     \<comment> \<open>the first \<open>bytesToWrite\<close> bytes of \<open>buffer\<close>\<close>
  tr_written :: int            \<comment> \<open>\<open>bytesWritten\<close>\<close>
  tr_writer :: 'w
  tr_sock :: "byte list"
  tr_rate :: "nat list"        \<comment> \<open>the calls of \<open>transferRateCalculator.addData\<close>\<close>

text \<open>How the loop ends; \<open>end_block\<close> tells whether the peer is blocked.\<close>

record 'w tr_end =
  end_close :: bool            \<comment> \<open>\<open>closeTheSocket\<close>\<close>
  end_status :: status         \<comment> \<open>\<open>lastTransferStatus\<close>\<close>
  end_writer :: 'w
  end_sock :: "byte list"
  end_rate :: "nat list"
  end_block :: bool

text \<open>The \<open>catch\<close> clauses: every one closes the socket.\<close>

fun exception_status :: "io_error \<Rightarrow> status" where
  "exception_status FileReset = FILE_NON_EXISTENT"
| "exception_status ChunkDataUnknown = UNABLE_TO_OPEN_THE_FILE"
| "exception_status UnableToOpenFileInWriteMode = UNABLE_TO_OPEN_THE_FILE"
| "exception_status IOError = FILE_IO_ERROR"
| "exception_status ChunkDeleted = FILE_NON_EXISTENT"
| "exception_status TryToWriteBeyondTheEndOfChunk = GOT_TOO_MUCH_DATA"
| "exception_status HashMismatch = HASH_MISMATCH"
| "exception_status _ = QUEUED"

definition end_exception :: "io_error \<Rightarrow> 'w \<Rightarrow> 'w tr \<Rightarrow> 'w tr_end" where
  "end_exception e w s = \<lparr>end_close = True, end_status = exception_status e, end_writer = w, end_sock = tr_sock s,
                          end_rate = tr_rate s, end_block = (e = HashMismatch)\<rparr>"

definition end_break :: "bool \<Rightarrow> status \<Rightarrow> 'w tr \<Rightarrow> 'w tr_end" where
  "end_break close st s = \<lparr>end_close = close, end_status = st, end_writer = tr_writer s, end_sock = tr_sock s,
                          end_rate = tr_rate s, end_block = False\<rparr>"

text \<open>The size given to \<open>read\<close>, and the bytes it gives: \<open>None\<close> for \<open>-1\<close>.\<close>

definition read_size :: "nat \<Rightarrow> 'w tr \<Rightarrow> int" where
  "read_size bufferSize s =
     (if tr_toRead s < int bufferSize - int (length (tr_buffer s)) then tr_toRead s
      else int bufferSize - int (length (tr_buffer s)))"

definition sock_read :: "int \<Rightarrow> nat option \<Rightarrow> byte list \<Rightarrow> byte list option" where
  "sock_read n avail sock =
     (if n < 0 then None else case avail of None \<Rightarrow> None | Some a \<Rightarrow> Some (take (min (nat n) a) sock))"

definition take_in :: "byte list \<Rightarrow> 'w tr \<Rightarrow> 'w tr" where
  "take_in bytes s = s\<lparr>tr_toRead := tr_toRead s - int (length bytes), tr_buffer := tr_buffer s @ bytes,
                       tr_sock := drop (length bytes) (tr_sock s)\<rparr>"

type_synonym 'w writer = "byte list \<Rightarrow> 'w \<Rightarrow> (io_error \<times> 'w) + 'w"

text \<open>After bytes came in: the switch to a better peer, the flush of the buffer, the end of the chunk.\<close>

definition tr_after_read :: "'w writer \<Rightarrow> int \<Rightarrow> int \<Rightarrow> nat \<Rightarrow> tr_input \<Rightarrow> byte list \<Rightarrow> 'w tr \<Rightarrow> 'w tr_end + 'w tr" where
  "tr_after_read write chunkSize initialKnownBytes bufferSize i bytes s =
     (if in_check i \<and> in_better i
      then (if length (tr_buffer s) > 0
            then (case write (tr_buffer s) (tr_writer s) of
                    Inl (e, w) \<Rightarrow> Inl (end_exception e w s)
                  | Inr w \<Rightarrow> Inl (end_break True QUEUED (s\<lparr>tr_writer := w\<rparr>)))
            else Inl (end_break True QUEUED s))
      else (case (if int (length (tr_buffer s)) = int bufferSize \<or> tr_toRead s = 0
                  then (case write (tr_buffer s) (tr_writer s) of
                          Inl x \<Rightarrow> Inl x
                        | Inr w \<Rightarrow> Inr (s\<lparr>tr_writer := w, tr_written := tr_written s + int (length (tr_buffer s)),
                                          tr_buffer := []\<rparr>))
                  else Inr s) of
              Inl (e, w) \<Rightarrow> Inl (end_exception e w s)
            | Inr s \<Rightarrow>
                (let s = s\<lparr>tr_rate := tr_rate s @ [length bytes]\<rparr>
                 in if initialKnownBytes + tr_written s \<ge> chunkSize then Inl (end_break False QUEUED s)
                    else Inr s)))"

definition tr_iteration :: "'w writer \<Rightarrow> int \<Rightarrow> int \<Rightarrow> nat \<Rightarrow> tr_input \<Rightarrow> 'w tr \<Rightarrow> 'w tr_end + 'w tr" where
  "tr_iteration write chunkSize initialKnownBytes bufferSize i s =
     (if in_stop i then Inl (end_break True QUEUED s)
      else (case sock_read (read_size bufferSize s) (in_avail i) (tr_sock s) of
              None \<Rightarrow> Inl (end_break True TRANSFER_ERROR s)
            | Some [] \<Rightarrow> (if in_ready i then Inr s else Inl (end_break True TRANSFER_ERROR s))
            | Some bytes \<Rightarrow>
                tr_after_read write chunkSize initialKnownBytes bufferSize i bytes (take_in bytes s)))"

fun transfer :: "'w writer \<Rightarrow> int \<Rightarrow> int \<Rightarrow> nat \<Rightarrow> tr_input list \<Rightarrow> 'w tr \<Rightarrow> 'w tr_end option" where
  "transfer write chunkSize known bufferSize [] s = None"
| "transfer write chunkSize known bufferSize (i # ins) s =
     (case tr_iteration write chunkSize known bufferSize i s of
        Inl r \<Rightarrow> Some r | Inr s \<Rightarrow> transfer write chunkSize known bufferSize ins s)"

text \<open>\<open>getDataWriter\<close> may throw before the loop starts.\<close>

definition tr_start :: "int \<Rightarrow> int \<Rightarrow> 'w \<Rightarrow> byte list \<Rightarrow> 'w tr" where
  "tr_start chunkSize known w sock =
     \<lparr>tr_toRead = chunkSize - known, tr_buffer = [], tr_written = 0, tr_writer = w, tr_sock = sock, tr_rate = []\<rparr>"

definition run_transfer :: "'w writer \<Rightarrow> (io_error \<times> 'w) + 'w \<Rightarrow> int \<Rightarrow> int \<Rightarrow> nat \<Rightarrow> tr_input list \<Rightarrow> byte list \<Rightarrow> 'w tr_end option" where
  "run_transfer write opened chunkSize known bufferSize ins sock =
     (case opened of
        Inl (e, w) \<Rightarrow> Some (end_exception e w (tr_start chunkSize known w sock))
      | Inr w \<Rightarrow> transfer write chunkSize known bufferSize ins (tr_start chunkSize known w sock))"

subsection \<open>The contract of the writer\<close>

locale data_writer =
  fixes put :: "'w writer" and content_of :: "'w \<Rightarrow> byte list" and writer_ok :: "'w \<Rightarrow> bool"
  assumes put_appends: "writer_ok w \<Longrightarrow> put bytes w = Inr w' \<Longrightarrow> content_of w' = content_of w @ bytes"
    and put_ok: "writer_ok w \<Longrightarrow> put bytes w = Inr w' \<Longrightarrow> writer_ok w'"
begin

text \<open>
  What the loop keeps: the bytes written, those in the buffer and those still to be read are the
  start of the chunk and the stream; the buffer never overflows.
\<close>

definition tr_inv :: "int \<Rightarrow> nat \<Rightarrow> byte list \<Rightarrow> byte list \<Rightarrow> 'w tr \<Rightarrow> bool" where
  "tr_inv todo bufferSize start stream s \<longleftrightarrow>
     writer_ok (tr_writer s) \<and> content_of (tr_writer s) @ tr_buffer s @ tr_sock s = start @ stream \<and>
     int (length (content_of (tr_writer s))) = int (length start) + tr_written s \<and>
     tr_toRead s = todo - tr_written s - int (length (tr_buffer s)) \<and> 0 < tr_toRead s \<and>
     length (tr_buffer s) < bufferSize"

text \<open>How the loop ends without an exception of the writer.\<close>

definition end_ok :: "int \<Rightarrow> byte list \<Rightarrow> byte list \<Rightarrow> 'w tr_end \<Rightarrow> bool" where
  "end_ok todo start stream r \<longleftrightarrow>
     writer_ok (end_writer r) \<and> \<not> end_block r \<and>
     (\<exists>n. content_of (end_writer r) = start @ take n stream) \<and>
     (\<not> end_close r \<longrightarrow> end_status r = QUEUED \<and> todo \<le> int (length stream) \<and>
        content_of (end_writer r) = start @ take (nat todo) stream \<and> end_sock r = drop (nat todo) stream)"

definition end_raised :: "byte list \<Rightarrow> byte list \<Rightarrow> 'w tr_end \<Rightarrow> bool" where
  "end_raised start stream r \<longleftrightarrow> end_close r \<and>
     (\<exists>bytes w e n. writer_ok w \<and> content_of w = start @ take n stream \<and> put bytes w = Inl (e, end_writer r) \<and> end_status r = exception_status e \<and>
        (end_block r \<longleftrightarrow> e = HashMismatch))"

lemma prefix_end:
  assumes "a @ b = start @ stream" "length start \<le> length a"
  shows "a = start @ take (length a - length start) stream" and "b = drop (length a - length start) stream"
proof -
  have "a = take (length a) (a @ b)" "b = drop (length a) (a @ b)" by simp_all
  then show "a = start @ take (length a - length start) stream" "b = drop (length a - length start) stream"
    using assms by simp_all
qed

lemma tr_inv_end:
  assumes "tr_inv todo bufferSize start stream s" "0 \<le> tr_written s"
  shows "end_ok todo start stream (end_break True st s)"
proof -
  have "content_of (tr_writer s) = start @ take (length (content_of (tr_writer s)) - length start) stream"
    using assms by (intro prefix_end(1) [where b = "tr_buffer s @ tr_sock s"]) (auto simp: tr_inv_def)
  then have "\<exists>n. content_of (tr_writer s) = start @ take n stream" by blast
  with assms show ?thesis by (simp add: end_ok_def end_break_def tr_inv_def)
qed

lemma taken_in:
  assumes inv: "tr_inv todo bufferSize start stream s"
    and read: "sock_read (read_size bufferSize s) a (tr_sock s) = Some bytes"
  shows "content_of (tr_writer s) @ tr_buffer (take_in bytes s) @ tr_sock (take_in bytes s) = start @ stream"
    and "tr_toRead (take_in bytes s) = todo - tr_written s - int (length (tr_buffer (take_in bytes s)))"
    and "0 \<le> tr_toRead (take_in bytes s)" and "length (tr_buffer (take_in bytes s)) \<le> bufferSize"
proof -
  have sz: "0 \<le> read_size bufferSize s" "read_size bufferSize s \<le> tr_toRead s"
    "read_size bufferSize s \<le> int bufferSize - int (length (tr_buffer s))"
    using inv by (auto simp: tr_inv_def read_size_def)
  obtain m where m: "bytes = take (min (nat (read_size bufferSize s)) m) (tr_sock s)"
    using read by (auto simp: sock_read_def split: if_splits option.splits)
  then have len: "int (length bytes) \<le> read_size bufferSize s" using sz(1) by simp
  have "bytes @ drop (length bytes) (tr_sock s) = tr_sock s"
    by (metis append_take_drop_id length_take m min.assoc min.commute take_take append_eq_conv_conj)
  then show "content_of (tr_writer s) @ tr_buffer (take_in bytes s) @ tr_sock (take_in bytes s) = start @ stream"
    using inv by (simp add: tr_inv_def take_in_def)
  show "tr_toRead (take_in bytes s) = todo - tr_written s - int (length (tr_buffer (take_in bytes s)))"
    using inv by (simp add: tr_inv_def take_in_def)
  show "0 \<le> tr_toRead (take_in bytes s)" "length (tr_buffer (take_in bytes s)) \<le> bufferSize"
    using len sz by (simp_all add: take_in_def)
qed

text \<open>A flush: what it writes leaves the buffer.\<close>

definition flushed :: "'w \<Rightarrow> 'w tr \<Rightarrow> 'w tr" where
  "flushed w s = s\<lparr>tr_writer := w, tr_written := tr_written s + int (length (tr_buffer s)), tr_buffer := []\<rparr>"

lemma after_read_cases:
  assumes "writer_ok (tr_writer s)" "tr_after_read put (known + todo) known bufferSize i bytes s = x"
  obtains (raised) e w where "put (tr_buffer s) (tr_writer s) = Inl (e, w)" "x = Inl (end_exception e w s)"
  | (switch) w where "put (tr_buffer s) (tr_writer s) = Inr w" "x = Inl (end_break True QUEUED (s\<lparr>tr_writer := w\<rparr>))"
  | (switch_empty) "tr_buffer s = []" "x = Inl (end_break True QUEUED s)"
  | (last) w where "put (tr_buffer s) (tr_writer s) = Inr w" "todo \<le> tr_written s + int (length (tr_buffer s))"
      "x = Inl (end_break False QUEUED (flushed w s\<lparr>tr_rate := tr_rate s @ [length bytes]\<rparr>))"
  | (flush) w where "put (tr_buffer s) (tr_writer s) = Inr w" "tr_written s + int (length (tr_buffer s)) < todo"
      "x = Inr (flushed w s\<lparr>tr_rate := tr_rate s @ [length bytes]\<rparr>)"
  | (full) "todo \<le> tr_written s" "x = Inl (end_break False QUEUED (s\<lparr>tr_rate := tr_rate s @ [length bytes]\<rparr>))"
  | (keep) "int (length (tr_buffer s)) \<noteq> int bufferSize" "tr_toRead s \<noteq> 0" "tr_written s < todo"
      "x = Inr (s\<lparr>tr_rate := tr_rate s @ [length bytes]\<rparr>)"
proof (cases "put (tr_buffer s) (tr_writer s)")
  case (Inl ew)
  obtain e w where ew: "ew = (e, w)" by (cases ew)
  show ?thesis
    using assms(2) Inl ew raised switch_empty full keep
    by (auto simp: tr_after_read_def Let_def split: if_splits)
next
  case (Inr w)
  show ?thesis
    using assms(2) Inr switch switch_empty last flush full keep
    by (auto simp: tr_after_read_def Let_def flushed_def split: if_splits)
qed

lemma end_ok_break:
  assumes "writer_ok w" "content_of w @ rest = start @ stream" "length start \<le> length (content_of w)" "tr_writer s = w"
  shows "end_ok todo start stream (end_break True st s)"
  using prefix_end(1) [OF assms(2,3)] assms(1,4) by (auto simp: end_ok_def end_break_def)

text \<open>What the loop has between two turns.\<close>

definition tr_good :: "int \<Rightarrow> nat \<Rightarrow> byte list \<Rightarrow> byte list \<Rightarrow> 'w tr \<Rightarrow> bool" where
  "tr_good todo bufferSize start stream s \<longleftrightarrow> tr_inv todo bufferSize start stream s \<and> 0 \<le> tr_written s"

lemma after_read_good:
  assumes good: "tr_good todo bufferSize start stream s" "0 < bufferSize"
    and read: "sock_read (read_size bufferSize s) a (tr_sock s) = Some bytes"
    and run: "tr_after_read put (known + todo) known bufferSize i bytes (take_in bytes s) = x"
  shows "case x of Inl r \<Rightarrow> end_ok todo start stream r \<or> end_raised start stream r
         | Inr s' \<Rightarrow> tr_good todo bufferSize start stream s' \<and> tr_toRead s' = tr_toRead s - int (length bytes)"
proof -
  have inv: "tr_inv todo bufferSize start stream s" and pos: "0 \<le> tr_written s" using good by (auto simp: tr_good_def)
  define s1 where "s1 = take_in bytes s"
  note t = taken_in [OF inv read, folded s1_def]
  have s1: "tr_writer s1 = tr_writer s" "tr_written s1 = tr_written s" "tr_toRead s1 = tr_toRead s - int (length bytes)"
    by (simp_all add: s1_def take_in_def)
  have w: "writer_ok (tr_writer s1)"
    and len: "int (length (content_of (tr_writer s))) = int (length start) + tr_written s"
    using inv by (auto simp: s1 tr_inv_def)
  note cont = t(1) and left = t(2) and nonneg = t(3) and fits = t(4)
  from w run [folded s1_def] show ?thesis
  proof (cases rule: after_read_cases)
    case (raised e w)
    have "content_of (tr_writer s1) = start @ take (length (content_of (tr_writer s1)) - length start) stream"
      using cont len pos by (intro prefix_end(1) [where b = "tr_buffer s1 @ tr_sock s1"]) (auto simp: s1)
    then have "end_raised start stream (end_exception e w s1)"
      using \<open>writer_ok (tr_writer s1)\<close> raised(1) by (auto simp: end_raised_def end_exception_def)
    then show ?thesis using raised(2) by simp
  next
    case (switch w)
    have c: "content_of w = content_of (tr_writer s1) @ tr_buffer s1" using put_appends [OF \<open>writer_ok (tr_writer s1)\<close> switch(1)] .
    have "end_ok todo start stream (end_break True QUEUED (s1\<lparr>tr_writer := w\<rparr>))"
      using put_ok [OF \<open>writer_ok (tr_writer s1)\<close> switch(1)] c cont len pos
      by (intro end_ok_break [where w = w and rest = "tr_sock s1"]) (auto simp: s1)
    then show ?thesis using switch(2) by simp
  next
    case switch_empty
    have "end_ok todo start stream (end_break True QUEUED s1)"
      using w cont len pos by (intro end_ok_break [where rest = "tr_buffer s1 @ tr_sock s1"]) (auto simp: s1)
    then show ?thesis using switch_empty(2) by simp
  next
    case (last w)
    have c: "content_of w = content_of (tr_writer s1) @ tr_buffer s1" using put_appends [OF \<open>writer_ok (tr_writer s1)\<close> last(1)] .
    have all: "content_of w @ tr_sock s1 = start @ stream" using c cont by (simp add: s1)
    have "length start \<le> length (content_of w)" using c len pos by (simp add: s1)
    note p = prefix_end [OF all this]
    have n: "int (length (content_of w) - length start) = todo"
      using c len last(2) left nonneg pos by (simp add: s1 of_nat_diff)
    then have nt: "length (content_of w) - length start = nat todo" by linarith
    have "length (content_of w) \<le> length start + length stream"
      using arg_cong [OF all, of length] by simp
    with n have "todo \<le> int (length stream)" by linarith
    then have "end_ok todo start stream (end_break False QUEUED (flushed w s1\<lparr>tr_rate := tr_rate s1 @ [length bytes]\<rparr>))"
      using put_ok [OF \<open>writer_ok (tr_writer s1)\<close> last(1)] p unfolding nt
      by (auto simp: end_ok_def end_break_def flushed_def)
    then show ?thesis using last(3) by simp
  next
    case (flush w)
    have c: "content_of w = content_of (tr_writer s1) @ tr_buffer s1" using put_appends [OF \<open>writer_ok (tr_writer s1)\<close> flush(1)] .
    have "tr_good todo bufferSize start stream (flushed w s1\<lparr>tr_rate := tr_rate s1 @ [length bytes]\<rparr>)"
      using put_ok [OF \<open>writer_ok (tr_writer s1)\<close> flush(1)] c cont len left flush(2) pos good(2)
      by (simp add: tr_good_def tr_inv_def flushed_def s1)
    then show ?thesis using flush(3) by (simp add: flushed_def s1)
  next
    case full
    then have False using inv s1(2) by (simp add: tr_inv_def)
    then show ?thesis ..
  next
    case keep
    have "tr_good todo bufferSize start stream (s1\<lparr>tr_rate := tr_rate s1 @ [length bytes]\<rparr>)"
      using w cont len left nonneg keep(1,2) fits pos by (simp add: tr_good_def tr_inv_def s1)
    then show ?thesis using keep(4) by (simp add: s1)
  qed
qed

lemma iteration_good:
  assumes good: "tr_good todo bufferSize start stream s" "0 < bufferSize"
    and run: "tr_iteration put (known + todo) known bufferSize i s = x"
  shows "case x of Inl r \<Rightarrow> end_ok todo start stream r \<or> end_raised start stream r
         | Inr s' \<Rightarrow> tr_good todo bufferSize start stream s' \<and> tr_toRead s' \<le> tr_toRead s"
proof -
  have "end_ok todo start stream (end_break True st s)" for st
    using good by (auto simp: tr_good_def intro: tr_inv_end)
  note stops = this
  show ?thesis
  proof (cases "\<not> in_stop i")
    case True
    show ?thesis
    proof (cases "sock_read (read_size bufferSize s) (in_avail i) (tr_sock s)")
      case (Some bytes)
      show ?thesis
      proof (cases bytes)
        case Nil
        then show ?thesis using run True Some stops good by (auto simp: tr_iteration_def)
      next
        case (Cons b bs)
        have "tr_after_read put (known + todo) known bufferSize i bytes (take_in bytes s) = x"
          using run True Some Cons by (simp add: tr_iteration_def)
        from after_read_good [OF good Some this] show ?thesis by (auto split: sum.splits)
      qed
    qed (use run True stops in \<open>auto simp: tr_iteration_def\<close>)
  qed (use run stops in \<open>auto simp: tr_iteration_def\<close>)
qed

lemma transfer_ends:
  assumes "tr_good todo bufferSize start stream s" "0 < bufferSize"
    and "transfer put (known + todo) known bufferSize ins s = Some r"
  shows "end_ok todo start stream r \<or> end_raised start stream r"
  using assms
proof (induction ins arbitrary: s)
  case (Cons i ins)
  note it = iteration_good [OF Cons.prems(1,2) refl, of known i]
  show ?case
    using it Cons.prems(2,3) Cons.IH by (auto split: sum.splits)
qed simp

text \<open>
  A turn that reads nothing although \<open>waitForReadyRead\<close> said there was something is the only one
  that makes no progress; with enough bytes to come, the others end the loop or read a byte.
\<close>

lemma iteration_progress:
  assumes good: "tr_good todo bufferSize start stream s" "0 < bufferSize" "todo \<le> int (length stream)"
    and inp: "in_avail i = Some 0 \<Longrightarrow> \<not> in_ready i"
    and run: "tr_iteration put (known + todo) known bufferSize i s = Inr s'"
  shows "tr_toRead s' < tr_toRead s"
proof -
  have inv: "tr_inv todo bufferSize start stream s" using good(1) by (simp add: tr_good_def)
  from run obtain bytes where read: "sock_read (read_size bufferSize s) (in_avail i) (tr_sock s) = Some bytes"
    by (auto simp: tr_iteration_def split: if_splits option.splits)
  show ?thesis
  proof (cases "bytes = []")
    case False
    then obtain b bs where b: "bytes = b # bs" by (cases bytes) auto
    have "tr_after_read put (known + todo) known bufferSize i bytes (take_in bytes s) = Inr s'"
      using run read b by (auto simp: tr_iteration_def split: if_splits)
    from after_read_good [OF good(1,2) read this] b show ?thesis by simp
  next
    case True
    have "length (content_of (tr_writer s)) + length (tr_buffer s) + length (tr_sock s) = length start + length stream"
      using inv unfolding tr_inv_def by (metis append_assoc length_append)
    then have "tr_sock s \<noteq> []" using inv good(3) by (auto simp: tr_inv_def)
    moreover have "0 < read_size bufferSize s" using inv by (auto simp: tr_inv_def read_size_def)
    ultimately have "in_avail i = Some 0" using read True by (auto simp: sock_read_def split: if_splits option.splits)
    with inp run read True have False by (auto simp: tr_iteration_def split: if_splits)
    then show ?thesis ..
  qed
qed

lemma transfer_returns:
  assumes "tr_good todo bufferSize start stream s" "0 < bufferSize" "todo \<le> int (length stream)"
    and "\<forall>i \<in> set ins. in_avail i = Some 0 \<longrightarrow> \<not> in_ready i" "tr_toRead s \<le> int (length ins)"
  shows "transfer put (known + todo) known bufferSize ins s \<noteq> None"
  using assms
proof (induction ins arbitrary: s)
  case Nil
  then show ?case by (auto simp: tr_good_def tr_inv_def)
next
  case (Cons i ins)
  show ?case
  proof (cases "tr_iteration put (known + todo) known bufferSize i s")
    case (Inr s')
    have "tr_toRead s' < tr_toRead s"
      using iteration_progress [OF Cons.prems(1,2,3) _ Inr] Cons.prems(4) by simp
    moreover have "tr_good todo bufferSize start stream s'" using iteration_good [OF Cons.prems(1,2) Inr] by simp
    ultimately show ?thesis using Cons.IH [of s'] Cons.prems Inr by simp
  qed simp
qed

lemma start_good:
  assumes "writer_ok w" "0 < todo" "0 < bufferSize"
  shows "tr_good todo bufferSize (content_of w) sock (tr_start (known + todo) known w sock)"
  using assms by (simp add: tr_good_def tr_inv_def tr_start_def)

end

subsection \<open>The data writer of the file manager\<close>

definition data_write :: "(byte list \<Rightarrow> hash) \<Rightarrow> nat \<Rightarrow> string \<Rightarrow> device \<Rightarrow> bool \<Rightarrow> nat \<Rightarrow> (byte list \<times> cfile) writer" where
  "data_write H cs suf dev check k buffer w =
     (case DataWriter_write H cs suf dev check k buffer w of Inl e \<Rightarrow> Inl e | Inr (_, w) \<Rightarrow> Inr w)"

text \<open>\<open>n\<close> is the size of the chunk.  With \<open>clean\<close>, the hasher has seen the bytes of the chunk and nothing else.\<close>

definition data_writer_ok :: "(byte list \<Rightarrow> hash) \<Rightarrow> nat \<Rightarrow> device \<Rightarrow> bool \<Rightarrow> bool \<Rightarrow> nat \<Rightarrow> nat \<Rightarrow> byte list \<times> cfile \<Rightarrow> bool" where
  "data_writer_ok H cs dev check clean n k w \<longleftrightarrow>
     writes_all dev \<and> file_ok cs (snd w) \<and> k < getNbChunks cs (snd w) \<and> getChunkSize cs (snd w) k = n \<and>
     (clean \<longrightarrow> check \<and> fst w = content cs k (snd w) \<and>
        (fc_known (fi_chunks (snd w) ! k) = n \<longrightarrow> fc_hash (fi_chunks (snd w) ! k) = Some (H (fst w))))"

lemma data_write_Inr:
  assumes "data_write H cs suf dev check k buffer (h, f) = Inr (h', f')"
  obtains c where "chunk_write cs suf dev k buffer f = Inr (c, f')" "h' = (if check then h @ buffer else h)"
    "check \<Longrightarrow> fc_known (fi_chunks f ! k) + length buffer = getChunkSize cs f k \<Longrightarrow> fc_hash (fi_chunks f ! k) = Some (H (h @ buffer))"
  using assms by (auto simp: data_write_def DataWriter_write_def Let_def split: sum.splits if_splits)

lemma data_write_Inl:
  assumes "data_write H cs suf dev check k buffer (h, f) = Inl (e, h', f')"
  shows "f' = f \<or> e = HashMismatch \<and> f' = set_known k 0 f"
  using assms by (auto simp: data_write_def DataWriter_write_def Let_def split: sum.splits if_splits)

lemma data_write_keeps:
  assumes ok: "data_writer_ok H cs dev check clean n k w" and run: "data_write H cs suf dev check k bytes w = Inr w'"
  shows "content cs k (snd w') = content cs k (snd w) @ bytes \<and> data_writer_ok H cs dev check clean n k w'"
proof -
  obtain h f h' f' where w: "w = (h, f)" "w' = (h', f')" by (cases w, cases w')
  have dev: "writes_all dev" and fok: "file_ok cs f" and k: "k < getNbChunks cs f" and n: "getChunkSize cs f k = n"
    and clean: "clean \<Longrightarrow> check \<and> h = content cs k f"
    using ok w by (auto simp: data_writer_ok_def)
  from run [unfolded w] obtain c where run': "chunk_write cs suf dev k bytes f = Inr (c, f')"
    and h': "h' = (if check then h @ bytes else h)"
    and hash: "check \<Longrightarrow> fc_known (fi_chunks f ! k) + length bytes = getChunkSize cs f k \<Longrightarrow> fc_hash (fi_chunks f ! k) = Some (H (h @ bytes))"
    by (rule data_write_Inr) blast
  note eff = chunk_write_effect [OF fok k dev run']
  note ok' = chunk_write_ok [OF fok k dev run']
  have kl: "k < length (fi_chunks f)" using file_okD(3) [OF fok] k by simp
  have "getChunkSize cs f' k = getChunkSize cs f k" using eff kl by (intro getChunkSize_cong) auto
  then have "data_writer_ok H cs dev check clean n k w'"
    using ok' k dev clean h' hash eff kl n by (auto simp: data_writer_ok_def w)
  with ok'(2) w show ?thesis by simp
qed

interpretation disk: data_writer "data_write H cs suf dev check k" "\<lambda>w. content cs k (snd w)"
    "data_writer_ok H cs dev check clean n k"
  by unfold_locales (use data_write_keeps in blast)+

text \<open>Opening a writer keeps what is known of the chunk.\<close>

lemma newDataWriterCreated_keeps:
  assumes ok: "file_ok cs f" and run: "newDataWriterCreated dev f = Inr f0"
  shows "file_ok cs f0 \<and> fi_size f0 = fi_size f \<and> fi_chunks f0 = fi_chunks f \<and>
     (k < getNbChunks cs f \<longrightarrow> content cs k f0 = content cs k f)"
proof -
  have len: "length (fi_chunks f) = getNbChunks cs f" using file_okD(3) [OF ok] .
  have "fi_size f0 = fi_size f \<and> fi_chunks f0 = fi_chunks f \<and>
     (fi_data f0 = fi_data f \<or> fi_data f0 = replicate (fi_size f) 0 \<and> (\<forall>k < length (fi_chunks f). fc_known (fi_chunks f ! k) = 0))"
    using run
    by (auto simp: newDataWriterCreated_def Let_def filter_empty_conv split: if_splits option.splits)
  then have f0: "fi_size f0 = fi_size f" "fi_chunks f0 = fi_chunks f"
    "fi_data f0 = fi_data f \<or> fi_data f0 = replicate (fi_size f) 0 \<and> (\<forall>k < length (fi_chunks f). fc_known (fi_chunks f ! k) = 0)"
    by auto
  have nb: "getNbChunks cs f0 = getNbChunks cs f" using f0(1) by (rule getNbChunks_cong)
  have size: "getChunkSize cs f0 j = getChunkSize cs f j" for j
    by (simp add: getChunkSize_def nb f0(1,2))
  have "length (fi_data f0) = fi_size f" using f0(3) file_okD(2) [OF ok] by auto
  then have "file_ok cs f0" using ok by (simp add: file_ok_def nb size f0(1,2))
  moreover have "k < getNbChunks cs f \<longrightarrow> content cs k f0 = content cs k f"
    using f0(2,3) len by (auto simp: content_def)
  ultimately show ?thesis using f0 by simp
qed

lemma new_DataWriter_keeps:
  assumes ok: "file_ok cs f" and k: "k < getNbChunks cs f" and run: "new_DataWriter cs rb dev check k f = Inr (h, f0)"
  shows "file_ok cs f0 \<and> getNbChunks cs f0 = getNbChunks cs f \<and> getChunkSize cs f0 k = getChunkSize cs f k \<and>
     fi_chunks f0 = fi_chunks f \<and> content cs k f0 = content cs k f \<and>
     (fc_known (fi_chunks f ! k) = 0 \<longrightarrow> h = [])"
proof -
  obtain f1 where c: "computeChunkHash cs rb dev check k f = Inr (h, f1)"
    and n: "(if fc_file (fi_chunks f1 ! k) then newDataWriterCreated dev f1 else Inr f1) = Inr f0"
    using run by (auto simp: new_DataWriter_def split: sum.splits if_splits)
  have same: "fi_size f1 = fi_size f" "fi_chunks f1 = fi_chunks f" "fi_data f1 = fi_data f"
    and h: "fc_known (fi_chunks f ! k) = 0 \<longrightarrow> h = []"
    using c by (auto simp: computeChunkHash_def newDataReaderCreated_def dataReaderDeleted_def Let_def
        split: if_splits sum.splits io_error.splits)
  have nb: "getNbChunks cs f1 = getNbChunks cs f" using same(1) by (rule getNbChunks_cong)
  have size: "getChunkSize cs f1 j = getChunkSize cs f j" for j by (simp add: getChunkSize_def nb same(1,2))
  have ok1: "file_ok cs f1" using ok by (simp add: file_ok_def nb size same)
  have "newDataWriterCreated dev f1 = Inr f0" using n file_okD(4) [OF ok1] k nb by simp
  from newDataWriterCreated_keeps [OF ok1 this, of k] same nb k h
  show ?thesis by (auto simp: content_def getChunkSize_def getNbChunks_def)
qed

text \<open>The transfer of chunk \<open>k\<close> of \<open>f\<close>, from the opening of the writer.\<close>

definition transfer_chunk :: "(byte list \<Rightarrow> hash) \<Rightarrow> nat \<Rightarrow> string \<Rightarrow> device \<Rightarrow> bool \<Rightarrow> nat \<Rightarrow> nat \<Rightarrow> tr_input list \<Rightarrow> byte list \<Rightarrow> cfile
      \<Rightarrow> (byte list \<times> cfile) tr_end option" where
  "transfer_chunk H cs suf dev check bufferSize k ins sock f =
     run_transfer (data_write H cs suf dev check k)
       (case new_DataWriter cs bufferSize dev check k f of Inl (e, f) \<Rightarrow> Inl (e, [], f) | Inr w \<Rightarrow> Inr w)
       (int (getChunkSize cs f k)) (int (fc_known (fi_chunks f ! k))) bufferSize ins sock"

lemma transfer_chunk_good:
  assumes ok: "file_ok cs f" and k: "k < getNbChunks cs f" and dev: "writes_all dev"
    and part: "fc_known (fi_chunks f ! k) < getChunkSize cs f k" "0 < bufferSize"
    and opened: "new_DataWriter cs bufferSize dev check k f = Inr w"
    and clean: "clean \<Longrightarrow> check \<and> fc_known (fi_chunks f ! k) = 0"
  shows "disk.tr_good cs k H dev check clean (getChunkSize cs f k) (int (getChunkSize cs f k) - int (fc_known (fi_chunks f ! k))) bufferSize
     (content cs k f) sock (tr_start (int (getChunkSize cs f k)) (int (fc_known (fi_chunks f ! k))) w sock)"
proof -
  obtain h f0 where w: "w = (h, f0)" by (cases w)
  note n = new_DataWriter_keeps [OF ok k opened [unfolded w]]
  have "data_writer_ok H cs dev check clean (getChunkSize cs f k) k w"
    using n dev k part clean by (auto simp: data_writer_ok_def w content_def)
  from disk.start_good [OF this, of "int (getChunkSize cs f k) - int (fc_known (fi_chunks f ! k))" bufferSize
      sock "int (fc_known (fi_chunks f ! k))"] part n
  show ?thesis by (simp add: w)
qed

lemma transfer_chunk_ends:
  assumes ok: "file_ok cs f" "k < getNbChunks cs f" "writes_all dev"
    "fc_known (fi_chunks f ! k) < getChunkSize cs f k" "0 < bufferSize"
    and opened: "new_DataWriter cs bufferSize dev check k f = Inr w"
    and clean: "clean \<Longrightarrow> check \<and> fc_known (fi_chunks f ! k) = 0"
    and run: "transfer_chunk H cs suf dev check bufferSize k ins sock f = Some r"
  shows "disk.end_ok cs k H dev check clean (getChunkSize cs f k) (int (getChunkSize cs f k) - int (fc_known (fi_chunks f ! k))) (content cs k f) sock r
     \<or> disk.end_raised H cs suf dev check k clean (getChunkSize cs f k) (content cs k f) sock r"
proof -
  let ?known = "int (fc_known (fi_chunks f ! k))" and ?size = "int (getChunkSize cs f k)"
  have "transfer (data_write H cs suf dev check k) (?known + (?size - ?known)) ?known bufferSize ins
      (tr_start ?size ?known w sock) = Some r"
    using run opened by (simp add: transfer_chunk_def run_transfer_def)
  from disk.transfer_ends [OF transfer_chunk_good [OF ok opened clean] ok(5) this] show ?thesis by simp
qed


text \<open>Chunk 1 of the sample file, whose hash is known; the identity stands for the hash function.\<close>

definition hashed_cfile :: cfile where
  "hashed_cfile = sample_cfile\<lparr>fi_chunks := (fi_chunks sample_cfile)[1 := \<lparr>fc_known = 0, fc_hash = Some [3, 4], fc_file = True\<rparr>]\<rparr>"

definition sample_inputs :: "tr_input list" where
  "sample_inputs = map (\<lambda>a. \<lparr>in_stop = False, in_avail = Some a, in_ready = a > 0, in_check = False, in_better = False\<rparr>) [1, 5]"

lemma hashed_cfile_ok: "file_ok 2 hashed_cfile" "getNbChunks 2 hashed_cfile = 3" "getChunkSize 2 hashed_cfile 1 = 2"
    "fc_known (fi_chunks hashed_cfile ! 1) = 0" "writes_all good_device"
proof -
  show nb: "getNbChunks 2 hashed_cfile = 3" by (simp add: hashed_cfile_def sample_cfile_def getNbChunks_def)
  show "getChunkSize 2 hashed_cfile 1 = 2" by code_simp
  show "fc_known (fi_chunks hashed_cfile ! 1) = 0" by (simp add: hashed_cfile_def sample_cfile_def)
  show "writes_all good_device" by (simp add: writes_all_def good_device_def)
  have "list_all (\<lambda>k. fc_file (fi_chunks hashed_cfile ! k) \<and> fc_known (fi_chunks hashed_cfile ! k) \<le> getChunkSize 2 hashed_cfile k) [0..<3]"
    by code_simp
  moreover have "length (fi_data hashed_cfile) = fi_size hashed_cfile" "length (fi_chunks hashed_cfile) = 3" by code_simp+
  ultimately show "file_ok 2 hashed_cfile" by (simp add: file_ok_def nb list_all_iff)
qed


text \<open>
  however the transfer ends (stopped, connection lost, better peer, exception of the file
  manager), the chunk holds what it held followed by some first bytes of the stream, or nothing when
  the hash is wrong, and then the peer is blocked.  Nothing the peer sent is skipped or duplicated.
\<close>

theorem transfer_keeps_prefix:
  assumes "file_ok cs f" "k < getNbChunks cs f" "writes_all dev"
    and "fc_known (fi_chunks f ! k) < getChunkSize cs f k" "0 < bufferSize"
    and "new_DataWriter cs bufferSize dev check k f = Inr w"
    and "transfer_chunk H cs suf dev check bufferSize k ins sock f = Some r"
  shows "(\<exists>n. content cs k (snd (end_writer r)) = content cs k f @ take n sock) \<or>
     end_status r = HASH_MISMATCH \<and> end_block r \<and> content cs k (snd (end_writer r)) = []"
  using transfer_chunk_ends [of cs f k dev bufferSize check w False, OF assms(1-6) _ assms(7), simplified]
proof (elim disjE)
  assume "disk.end_raised H cs suf dev check k False (getChunkSize cs f k) (content cs k f) sock r"
  then obtain bytes v e n where v: "data_writer_ok H cs dev check False (getChunkSize cs f k) k v"
      "content cs k (snd v) = content cs k f @ take n sock"
    and put: "data_write H cs suf dev check k bytes v = Inl (e, end_writer r)"
    and st: "end_status r = exception_status e" "end_block r \<longleftrightarrow> e = HashMismatch"
    by (auto simp: disk.end_raised_def)
  have "snd (end_writer r) = snd v \<or> e = HashMismatch \<and> snd (end_writer r) = set_known k 0 (snd v)"
    using data_write_Inl [of H cs suf dev check k bytes "fst v" "snd v" e "fst (end_writer r)" "snd (end_writer r)"] put by simp
  moreover have "k < length (fi_chunks (snd v))" using v(1) file_okD(3) by (auto simp: data_writer_ok_def)
  ultimately show ?thesis using v(2) st by (auto simp: content_def set_known_def)
qed (auto simp: disk.end_ok_def)

theorem transfer_keeps_prefix_witness:
  "\<exists>r. transfer_chunk (\<lambda>b. b) 2 ''.unfinished'' good_device True 4 1 sample_inputs [7, 8] hashed_cfile = Some r \<and>
     end_status r = HASH_MISMATCH \<and> content 2 1 (snd (end_writer r)) = []"
proof -
  have run: "case transfer_chunk (\<lambda>b. b) 2 ''.unfinished'' good_device True 4 1 sample_inputs [7, 8] hashed_cfile of
      None \<Rightarrow> False | Some r \<Rightarrow> end_status r = HASH_MISMATCH \<and> content 2 1 (snd (end_writer r)) = []"
    by code_simp
  then obtain r where r: "transfer_chunk (\<lambda>b. b) 2 ''.unfinished'' good_device True 4 1 sample_inputs [7, 8] hashed_cfile = Some r"
    and fin: "end_status r = HASH_MISMATCH \<and> content 2 1 (snd (end_writer r)) = []"
    by (auto split: option.splits)
  have "case new_DataWriter 2 4 good_device True 1 hashed_cfile of Inl _ \<Rightarrow> False | Inr _ \<Rightarrow> True" by code_simp
  then obtain w where w: "new_DataWriter 2 4 good_device True 1 hashed_cfile = Inr w" by (auto split: sum.splits)
  note prems = hashed_cfile_ok
  have "(\<exists>n. content 2 1 (snd (end_writer r)) = content 2 1 hashed_cfile @ take n [7, 8]) \<or>
     end_status r = HASH_MISMATCH \<and> end_block r \<and> content 2 1 (snd (end_writer r)) = []"
    by (rule transfer_keeps_prefix [OF prems(1) _ prems(5) _ _ w r]) (use prems in simp_all)
  with r fin show ?thesis by blast
qed



end
