(* ===== verification/File_Download.thy ===== *)
theory File_Download
  imports Chunk_Downloader "HOL-Library.AList"
begin

text \<open>
  The download of a file: \<open>Core/DownloadManager/priv/FileDownload.cpp\<close> and the operations of
  \<open>Download.cpp\<close> it extends.

  A \<open>fdl\<close> is the object with what it shares with the rest of the manager.  A null
  \<open>QSharedPointer<ChunkDownloader>\<close> is \<open>None\<close>; \<open>fd_ub\<close> is set by an operation that
  dereferences one.  The slots the signals of a chunk downloader run (\<open>chunkDownloaderStarted\<close>,
  \<open>chunkDownloaderFinished\<close>, \<open>updateStatus\<close>: direct connections) run when the operation
  on the downloader returns; what those operations do after they emit (forgetting the current peer,
  marking it occupied or free) is not read by the slots.  The signals are logged in order.
\<close>

subsection \<open>State\<close>

datatype fd_event =
    BecomeErroneous | NewHashKnown | RetryScheduled
  | LastTimeChanged "nat option"        \<comment> \<open>\<open>lastTimeGetAllUnfinishedChunksChanged\<close>, with the old time\<close>
  | HashesFreePeer peer_ref             \<comment> \<open>\<open>newFreePeer\<close> of \<open>occupiedPeersAskingForHashes\<close>\<close>
  | DownloadFreePeer peer_ref           \<comment> \<open>\<open>newFreePeer\<close> of \<open>occupiedPeersDownloadingChunk\<close>\<close>
  | ChunkEvent nat cd_event
  | RemoveIncomplete nat | RemoveFile string

record fdl =
  fd_status :: status
  fd_size :: nat                        \<comment> \<open>\<open>remoteEntry.size()\<close>\<close>
  fd_entryHashes :: "hash option list"  \<comment> \<open>\<open>remoteEntry.chunk(i).hash()\<close>\<close>
  fd_exists :: bool                     \<comment> \<open>\<open>localEntry.exists()\<close>\<close>
  fd_shared :: bool                     \<comment> \<open>\<open>localEntry.has_shared_entry()\<close>\<close>
  fd_peerSource :: "peer_ref option"
  fd_peerSourceID :: hash
  fd_nbChunk :: nat                     \<comment> \<open>\<open>NB_CHUNK\<close>\<close>
  fd_dls :: "chunk_dl option list"      \<comment> \<open>\<open>chunkDownloaders\<close>\<close>
  fd_without :: "(nat \<times> chunk) list"   \<comment> \<open>\<open>chunksWithoutDownloader\<close>, a map\<close>
  fd_asked :: nat                       \<comment> \<open>\<open>nbChunkAsked\<close>\<close>
  fd_nbHashes :: nat                    \<comment> \<open>\<open>nbHashesKnown\<close>\<close>
  fd_request :: bool                    \<comment> \<open>whether \<open>getHashesResult\<close> is set\<close>
  fd_lastTime :: "nat option"
  fd_occHashes :: occupied              \<comment> \<open>\<open>occupiedPeersAskingForHashes\<close>\<close>
  fd_env :: dl_env
  fd_ub :: bool
  fd_log :: "fd_event list"

definition log_fd :: "fd_event \<Rightarrow> fdl \<Rightarrow> fdl" where
  "log_fd e f = f\<lparr>fd_log := fd_log f @ [e]\<rparr>"

definition fd_setStatus :: "status \<Rightarrow> fdl \<Rightarrow> fdl" where
  "fd_setStatus s f =
     (if fd_status f = s then f
      else (let f = (if \<not> isStatusErroneous (fd_status f) \<and> status_code s \<ge> 0x20 then log_fd BecomeErroneous f else f)
            in f\<lparr>fd_status := s\<rparr>))"

definition fd_hasAValidPeerSource :: "fdl \<Rightarrow> bool" where
  "fd_hasAValidPeerSource f \<longleftrightarrow>
     (case fd_peerSource f of None \<Rightarrow> False | Some p \<Rightarrow> p_available (e_peers (fd_env f) p))"

subsection \<open>Operations on the chunk downloaders\<close>

definition on_dl :: "nat \<Rightarrow> (world \<Rightarrow> 'a \<times> world) \<Rightarrow> fdl \<Rightarrow> 'a \<times> cd_event list \<times> fdl" where
  "on_dl i op f =
     (let (r, w) = op \<lparr>w_cd = the (fd_dls f ! i), w_env = fd_env f, w_log = []\<rparr>
      in (r, w_log w, f\<lparr>fd_dls := (fd_dls f)[i := Some (w_cd w)], fd_env := w_env w\<rparr>))"

text \<open>The slots, given \<open>updateStatus\<close>.\<close>

definition fd_slot :: "(fdl \<Rightarrow> fdl) \<Rightarrow> nat \<Rightarrow> cd_event \<Rightarrow> fdl \<Rightarrow> fdl" where
  "fd_slot update i e f =
     (let f = log_fd (ChunkEvent i e) f in
      case e of
        DownloadStarted \<Rightarrow> fd_setStatus DOWNLOADING f
      | DownloadFinished \<Rightarrow> update f
      | NumberOfPeersChanged \<Rightarrow> update f
      | NewFreePeer _ \<Rightarrow> f
      | TransferStatus _ \<Rightarrow> f)"

definition dl_call :: "(fdl \<Rightarrow> fdl) \<Rightarrow> nat \<Rightarrow> (world \<Rightarrow> 'a \<times> world) \<Rightarrow> fdl \<Rightarrow> 'a \<times> fdl" where
  "dl_call update i op f = (let (r, evs, f) = on_dl i op f in (r, fold (fd_slot update i) evs f))"

definition plain :: "(world \<Rightarrow> world) \<Rightarrow> world \<Rightarrow> unit \<times> world" where
  "plain op w = ((), op w)"

definition known_dls :: "fdl \<Rightarrow> nat list" where
  "known_dls f = filter (\<lambda>i. fd_dls f ! i \<noteq> None) [0..<length (fd_dls f)]"

subsection \<open>The status\<close>

text \<open>\<open>reset\<close> does not test the pointers it dereferences.\<close>

definition fd_reset :: "fdl \<Rightarrow> fdl" where
  "fd_reset f = f\<lparr>fd_without := [], fd_ub := fd_ub f \<or> None \<in> set (fd_dls f),
                  fd_dls := map (map_option cd_reset) (fd_dls f), fd_exists := False, fd_shared := False\<rparr>"

definition us_end :: "status \<Rightarrow> fdl \<Rightarrow> fdl" where
  "us_end newStatus f = fd_setStatus (if newStatus \<noteq> COMPLETE \<and> fd_request f then GETTING_THE_HASHES else newStatus) f"

text \<open>
  The loop of \<open>updateStatus\<close> from the downloader \<open>i\<close> on.  \<open>hasAtLeastAPeer\<close> may drop a dead
  peer, whose signal runs \<open>updateStatus\<close> again: \<open>nested\<close>.
\<close>

fun us_loop :: "(fdl \<Rightarrow> fdl) \<Rightarrow> nat list \<Rightarrow> status \<Rightarrow> bool \<Rightarrow> fdl \<Rightarrow> fdl" where
  "us_loop nested [] newStatus hasPeer f = us_end newStatus f"
| "us_loop nested (i # ks) newStatus hasPeer f =
     (case fd_dls f ! i of
        None \<Rightarrow> us_loop nested ks newStatus hasPeer f
      | Some cd \<Rightarrow>
          if cd_downloading cd then fd_setStatus DOWNLOADING f
          else if status_code (cd_last cd) \<ge> 0x20
          then (let f = f\<lparr>fd_dls := (fd_dls f)[i := Some (resetLastTransferStatus cd)]\<rparr> in
                if cd_last cd = FILE_NON_EXISTENT then fd_setStatus FILE_NON_EXISTENT (fd_reset f)
                else us_loop nested ks (cd_last cd) hasPeer f)
          else if \<not> hasPeer \<and> \<not> isComplete cd
          then (let (b, f) = dl_call nested i hasAtLeastAPeer f in
                if b then us_loop nested ks QUEUED True f else us_loop nested ks NO_SOURCE hasPeer f)
          else us_loop nested ks newStatus hasPeer f)"

definition us_final :: "status \<Rightarrow> bool" where
  "us_final s \<longleftrightarrow> s = DELETED \<or> s = COMPLETE \<or> s = PAUSED"

primrec us_fuel :: "nat \<Rightarrow> fdl \<Rightarrow> fdl" where
  "us_fuel 0 f = f"
| "us_fuel (Suc n) f =
     (if us_final (fd_status f) then f
      else us_loop (us_fuel n) [0..<length (fd_dls f)]
             (if fd_nbHashes f = fd_nbChunk f then COMPLETE else fd_status f) False f)"

text \<open>A nested call happens after a downloader has dropped its dead peers, once per downloader.\<close>

definition fd_updateStatus :: "fdl \<Rightarrow> fdl" where
  "fd_updateStatus f = us_fuel (Suc (length (fd_dls f))) f"

abbreviation fd_call :: "nat \<Rightarrow> (world \<Rightarrow> 'a \<times> world) \<Rightarrow> fdl \<Rightarrow> 'a \<times> fdl" where
  "fd_call \<equiv> dl_call fd_updateStatus"

text \<open>A loop over the downloaders that are not null.\<close>

definition each_dl :: "(world \<Rightarrow> world) \<Rightarrow> fdl \<Rightarrow> fdl" where
  "each_dl op f = fold (\<lambda>i f. snd (fd_call i (plain op) f)) (known_dls f) f"

subsection \<open>Hashes\<close>

text \<open>\<open>canAsk p\<close> tells whether \<open>p->getHashes\<close> returns a request.\<close>

definition retrieveHashes :: "(peer_ref \<Rightarrow> bool) \<Rightarrow> fdl \<Rightarrow> bool \<times> fdl" where
  "retrieveHashes canAsk f =
     (if fd_nbHashes f = fd_nbChunk f \<or> fd_status f \<in> {COMPLETE, DELETED, PAUSED, GETTING_THE_HASHES} then (False, f)
      else (case fd_peerSource f of
              None \<Rightarrow> (False, fd_setStatus UNKNOWN_PEER_SOURCE f)
            | Some p \<Rightarrow>
                (let f = f\<lparr>fd_request := canAsk p\<rparr> in
                 if \<not> canAsk p then (False, fd_setStatus UNKNOWN_PEER_SOURCE f)
                 else (let (granted, occ) = setPeerAsOccupied (e_peers (fd_env f)) (Some p) (fd_occHashes f);
                           f = f\<lparr>fd_occHashes := occ\<rparr>
                       in if \<not> granted then (False, f\<lparr>fd_request := False\<rparr>)
                          else (True, fd_setStatus GETTING_THE_HASHES f)))))"

text \<open>\<open>getHashesResult.clear()\<close> and \<open>setPeerAsFree\<close>.\<close>

definition end_request :: "fdl \<Rightarrow> fdl" where
  "end_request f =
     (let f = f\<lparr>fd_request := False\<rparr> in
      case fd_peerSource f of
        None \<Rightarrow> f
      | Some p \<Rightarrow> (let (occ, free) = setPeerAsFree (e_peers (fd_env f)) (Some p) (fd_occHashes f)
                   in fold (\<lambda>q. log_fd (HashesFreePeer q)) free (f\<lparr>fd_occHashes := occ\<rparr>)))"

datatype hashes_status = HashesOK | HashesDontHave | HashesError

definition fd_result :: "hashes_status \<Rightarrow> fdl \<Rightarrow> fdl" where
  "fd_result r f =
     (case r of
        HashesOK \<Rightarrow> f
      | HashesDontHave \<Rightarrow> log_fd RetryScheduled (end_request (fd_setStatus ENTRY_NOT_FOUND f))
      | HashesError \<Rightarrow> log_fd RetryScheduled (end_request (fd_setStatus UNABLE_TO_RETRIEVE_THE_HASHES f)))"

definition getHashTimeout :: "fdl \<Rightarrow> fdl" where
  "getHashTimeout f =
     log_fd RetryScheduled (end_request (fd_setStatus UNABLE_TO_RETRIEVE_THE_HASHES (f\<lparr>fd_request := False\<rparr>)))"

definition retryRetrieveHashes :: "(peer_ref \<Rightarrow> bool) \<Rightarrow> fdl \<Rightarrow> fdl" where
  "retryRetrieveHashes canAsk f =
     (if fd_status f = ENTRY_NOT_FOUND \<or> fd_status f = UNABLE_TO_RETRIEVE_THE_HASHES then snd (retrieveHashes canAsk f) else f)"

definition set_entry_hash :: "nat \<Rightarrow> hash \<Rightarrow> fdl \<Rightarrow> fdl" where
  "set_entry_hash num h f =
     (if num < length (fd_entryHashes f) then f\<lparr>fd_entryHashes := (fd_entryHashes f)[num := Some h]\<rparr> else f)"

definition nextHash :: "nat \<Rightarrow> hash option \<Rightarrow> fdl \<Rightarrow> fdl" where
  "nextHash num hash f =
     (case hash of
        None \<Rightarrow> f
      | Some h \<Rightarrow>
          if num \<ge> length (fd_dls f) then f
          else (case fd_dls f ! num of
                  Some cd \<Rightarrow>
                    (if cd_hash cd \<noteq> h
                     then set_entry_hash num h (f\<lparr>fd_dls := (fd_dls f)[num := Some (updateHash h cd)]\<rparr>) else f)
                | None \<Rightarrow>
                    (let cd = new_chunk_dl h;
                         cd = (case map_of (fd_without f) num of None \<Rightarrow> cd | Some c \<Rightarrow> setChunk c cd);
                         f = f\<lparr>fd_dls := (fd_dls f)[num := Some cd], fd_without := AList.delete num (fd_without f),
                               fd_nbHashes := fd_nbHashes f + 1\<rparr>;
                         f = (if fd_nbHashes f \<ge> fd_nbChunk f
                              then fd_updateStatus (end_request (f\<lparr>fd_nbHashes := fd_nbChunk f\<rparr>)) else f);
                         f = snd (fd_call num (plain (setPeerSource (fd_peerSource f) True)) f)
                     in log_fd NewHashKnown (set_entry_hash num h f))))"

subsection \<open>The file\<close>

definition giveChunksToDownloaders :: "fdl \<Rightarrow> fdl" where
  "giveChunksToDownloaders f =
     fold (\<lambda>i f. case map_of (fd_without f) i of
                   None \<Rightarrow> f
                 | Some c \<Rightarrow> f\<lparr>fd_dls := (fd_dls f)[i := map_option (setChunk c) (fd_dls f ! i)],
                               fd_without := AList.delete i (fd_without f)\<rparr>) (known_dls f) f"

definition put_chunks :: "(nat \<times> chunk) list \<Rightarrow> fdl \<Rightarrow> fdl" where
  "put_chunks cs f = fold (\<lambda>(n, c) f. f\<lparr>fd_without := AList.update n c (fd_without f)\<rparr>) cs f"

text \<open>\<open>getAllChunks\<close> is \<open>fileManager->getAllChunks(localEntry, hashes)\<close>.\<close>

definition tryToLinkToAnExistingFile :: "(hash list \<Rightarrow> (nat \<times> chunk) list) \<Rightarrow> fdl \<Rightarrow> bool \<times> fdl" where
  "tryToLinkToAnExistingFile getAllChunks f =
     (let f = f\<lparr>fd_exists := False\<rparr> in
      if fd_nbHashes f > 0
      then (let hashes = map (\<lambda>i. cd_hash (the (fd_dls f ! i))) (known_dls f);
                found = getAllChunks hashes;
                f = put_chunks found f;
                f = (if fd_without f \<noteq> [] then f\<lparr>fd_exists := True\<rparr> else f);
                f = giveChunksToDownloaders f
            in (fd_exists f, f))
      else (fd_exists f, f))"

datatype create_error = NoWriteableDirectory | InsufficientStorageSpace | CreateFileError | CreateDirError

fun create_status :: "create_error \<Rightarrow> status" where
  "create_status NoWriteableDirectory = NO_SHARED_DIRECTORY_TO_WRITE"
| "create_status InsufficientStorageSpace = NO_ENOUGH_FREE_SPACE"
| "create_status CreateFileError = UNABLE_TO_CREATE_THE_FILE"
| "create_status CreateDirError = UNABLE_TO_CREATE_THE_DIRECTORY"

text \<open>
  \<open>fileManager->newFile(localEntry)\<close> returns the chunks of the file and changes the entry: it
  exists then, and the boolean tells whether it has a shared entry (also when it throws).
\<close>

type_synonym new_file_result = "(create_error + (nat \<times> chunk) list) \<times> bool"

definition createFile :: "new_file_result \<Rightarrow> fdl \<Rightarrow> bool \<times> fdl" where
  "createFile newFile f =
     (case newFile of
        (Inl e, shared) \<Rightarrow> (False, fd_setStatus (create_status e) (f\<lparr>fd_shared := shared\<rparr>))
      | (Inr chunks, shared) \<Rightarrow>
          (True, giveChunksToDownloaders (put_chunks chunks (f\<lparr>fd_exists := True, fd_shared := shared\<rparr>))))"

subsection \<open>Choosing a chunk\<close>

text \<open>
  The loop over the downloaders: the chunks ready to be downloaded from the fewest peers, or the
  first one that is partially downloaded.
\<close>

fun ready_loop :: "nat list \<Rightarrow> nat list \<Rightarrow> nat option \<Rightarrow> fdl \<Rightarrow> nat list \<times> fdl" where
  "ready_loop [] ready best f = (ready, f)"
| "ready_loop (i # ks) ready best f =
     (case fd_dls f ! i of
        None \<Rightarrow> ready_loop ks ready best f
      | Some _ \<Rightarrow>
          (let (nbPeer, f) = fd_call i isReadyToDownload f in
           if nbPeer = 0 then ready_loop ks ready best f
           else if isPartiallyDownloaded (the (fd_dls f ! i)) then ([i], f)
           else if best = Some nbPeer then ready_loop ks (ready @ [i]) best f
           else if best = None \<or> nbPeer < the best then ready_loop ks [i] (Some nbPeer) f
           else ready_loop ks ready best f))"

text \<open>\<open>random n\<close> is \<open>QRandomGenerator64::bounded(n)\<close>.\<close>

definition getAChunkToDownload :: "(nat \<Rightarrow> nat) \<Rightarrow> new_file_result \<Rightarrow> fdl \<Rightarrow> nat option \<times> fdl" where
  "getAChunkToDownload random newFile f =
     (if fd_status f = COMPLETE \<or> fd_status f = DELETED \<or> fd_status f = PAUSED then (None, f)
      else (let (ready, f) = ready_loop [0..<length (fd_dls f)] [] None f in
            if ready = [] then (None, f)
            else (let i = (if length ready = 1 then hd ready else ready ! random (length ready)) in
                  if fd_exists f then (Some i, f)
                  else (let (ok, f) = createFile newFile f in
                        if \<not> ok then (None, f)
                        else if isComplete (the (fd_dls f ! i)) then (None, fd_updateStatus f)
                        else (Some i, f)))))"

fun unfinished_loop :: "nat list \<Rightarrow> nat \<Rightarrow> chunk_dl option list \<Rightarrow> nat \<Rightarrow> nat list \<times> nat" where
  "unfinished_loop [] left dls asked = ([], asked)"
| "unfinished_loop (i # ks) left dls asked =
     (if left = 0 then ([], asked)
      else (case dls ! i of
              None \<Rightarrow> unfinished_loop ks left dls asked
            | Some cd \<Rightarrow>
                (let asked = (if i \<ge> asked then asked + 1 else asked) in
                 if \<not> isComplete cd
                 then (let (chunks, asked) = unfinished_loop ks (left - 1) dls asked in (i # chunks, asked))
                 else unfinished_loop ks left dls asked)))"

text \<open>\<open>now\<close> is \<open>QTime::currentTime()\<close>.\<close>

definition getUnfinishedChunks :: "nat \<Rightarrow> nat \<Rightarrow> bool \<Rightarrow> fdl \<Rightarrow> nat list \<times> fdl" where
  "getUnfinishedChunks now nMax notAlreadyAsked f =
     (if fd_status f = COMPLETE \<or> fd_status f = DELETED \<or> fd_status f = PAUSED then ([], f)
      else (let (chunks, asked) = unfinished_loop [(if notAlreadyAsked then fd_asked f else 0)..<length (fd_dls f)] nMax
                                    (fd_dls f) (fd_asked f);
                f = f\<lparr>fd_asked := asked\<rparr>
            in (chunks, if asked = fd_nbHashes f
                        then log_fd (LastTimeChanged (fd_lastTime f)) (f\<lparr>fd_lastTime := Some now, fd_asked := 0\<rparr>)
                        else f)))"

subsection \<open>The life of the download\<close>

definition new_fdl :: "nat \<Rightarrow> status \<Rightarrow> nat \<Rightarrow> hash option list \<Rightarrow> bool \<Rightarrow> bool \<Rightarrow> peer_ref option \<Rightarrow> hash \<Rightarrow> occupied \<Rightarrow> dl_env \<Rightarrow> fdl" where
  "new_fdl cs status sz hashes exists shared peerSource peerSourceID occHashes env =
     (let nbChunk = sz div cs + (if sz mod cs = 0 then 0 else 1);
          dls = map (\<lambda>i. if i < length hashes then map_option new_chunk_dl (hashes ! i) else None) [0..<nbChunk]
      in fd_setStatus status
           \<lparr>fd_status = QUEUED, fd_size = sz, fd_entryHashes = hashes, fd_exists = exists, fd_shared = shared,
            fd_peerSource = peerSource, fd_peerSourceID = peerSourceID, fd_nbChunk = nbChunk, fd_dls = dls,
            fd_without = [], fd_asked = 0, fd_nbHashes = length (filter (\<lambda>d. d \<noteq> None) dls), fd_request = False,
            fd_lastTime = None, fd_occHashes = occHashes, fd_env = env, fd_ub = False, fd_log = []\<rparr>)"

definition fd_peerSourceBecomesAvailable :: "peer_ref option \<Rightarrow> fdl \<Rightarrow> fdl" where
  "fd_peerSourceBecomesAvailable peer f =
     (let f = (case peer of
                 None \<Rightarrow> f
               | Some p \<Rightarrow> if p_id (e_peers (fd_env f) p) \<noteq> fd_peerSourceID f then f else f\<lparr>fd_peerSource := Some p\<rparr>)
      in if fd_peerSource f = None then f
         else (let f = (if fd_status f = UNKNOWN_PEER_SOURCE then fd_setStatus QUEUED f else f)
               in each_dl (setPeerSource (fd_peerSource f) False) f))"

definition fd_peerBecomesUnavailable :: "(world \<Rightarrow> world) \<Rightarrow> peer_ref option \<Rightarrow> fdl \<Rightarrow> fdl" where
  "fd_peerBecomesUnavailable wait peer f =
     (case peer of
        None \<Rightarrow> f
      | Some p \<Rightarrow>
          (let ph = e_peers (fd_env f);
               isSourcePeer = (p_id (ph p) = fd_peerSourceID f);
               f = (if isSourcePeer \<and> fd_request f
                    then (let f = f\<lparr>fd_request := False, fd_occHashes := removePeer ph (Some p) (fd_occHashes f)\<rparr>
                          in if fd_status f = GETTING_THE_HASHES then fd_setStatus UNKNOWN_PEER_SOURCE f else f)
                    else f);
               f = each_dl (peerBecomesUnavailable_cd wait (Some p)) f
           in if fd_peerSource f \<noteq> None \<and> isSourcePeer then f\<lparr>fd_peerSource := None\<rparr> else f))"

definition fd_start :: "(peer_ref \<Rightarrow> bool) \<Rightarrow> (hash list \<Rightarrow> (nat \<times> chunk) list) \<Rightarrow> new_file_result \<Rightarrow> fdl \<Rightarrow> fdl" where
  "fd_start canAsk getAllChunks newFile f =
     (let f = snd (tryToLinkToAnExistingFile getAllChunks f);
          f = (if fd_hasAValidPeerSource f then fd_peerSourceBecomesAvailable (fd_peerSource f) f else f);
          f = fd_updateStatus f;
          f = (if fd_size f = 0 \<and> \<not> fd_exists f then snd (createFile newFile f) else f);
          (asked, f) = retrieveHashes canAsk f
      in if \<not> asked \<and> fd_hasAValidPeerSource f
         then fold (\<lambda>q. log_fd (DownloadFreePeer q)) (newPeer (e_peers (fd_env f)) (fd_peerSource f) (e_occ (fd_env f))) f
         else f)"

definition fd_stop :: "(world \<Rightarrow> world) \<Rightarrow> fdl \<Rightarrow> fdl" where
  "fd_stop wait f = each_dl (stop wait) (if fd_request f then end_request f else f)"

definition fd_pause :: "(world \<Rightarrow> world) \<Rightarrow> (peer_ref \<Rightarrow> bool) \<Rightarrow> bool \<Rightarrow> fdl \<Rightarrow> bool \<times> fdl" where
  "fd_pause wait canAsk pause f =
     (if fd_status f = COMPLETE \<or> fd_status f = DELETED then (False, f)
      else if pause \<and> fd_status f \<noteq> PAUSED then (True, fd_stop wait (fd_setStatus PAUSED f))
      else if \<not> pause \<and> fd_status f = PAUSED then (True, snd (retrieveHashes canAsk (fd_setStatus QUEUED f)))
      else (False, f))"

definition fd_getDownloadedBytes :: "fdl \<Rightarrow> nat" where
  "fd_getDownloadedBytes f =
     (if fd_status f = COMPLETE then fd_size f
      else (\<Sum>i \<leftarrow> known_dls f. getDownloadedBytes (the (fd_dls f ! i))))"

definition fd_getPeers :: "fdl \<Rightarrow> peer_ref set \<times> fdl" where
  "fd_getPeers f =
     fold (\<lambda>i (ps, f). let (qs, f) = fd_call i getPeers f in (ps \<union> set qs, f)) (known_dls f) ({}, f)"

text \<open>
  \<open>path i\<close> is \<open>getChunk()->getFilePath()\<close> of the downloader \<open>i\<close>, \<open>onDisk\<close> is
  \<open>QFile::exists\<close> once the incomplete file has been removed.
\<close>

definition fd_remove :: "(world \<Rightarrow> world) \<Rightarrow> (nat \<Rightarrow> string) \<Rightarrow> (string \<Rightarrow> bool) \<Rightarrow> fdl \<Rightarrow> fdl" where
  "fd_remove wait path onDisk f =
     (let f = fd_stop wait (fd_setStatus DELETED f);
          paths = filter (\<lambda>p. p \<noteq> []) (map path (filter (\<lambda>i. cd_chunk (the (fd_dls f ! i)) \<noteq> None) (known_dls f)));
          f = fold (\<lambda>i. log_fd (RemoveIncomplete i)) (known_dls f) f
      in if paths \<noteq> [] \<and> onDisk (hd paths) then log_fd (RemoveFile (hd paths)) f else f)"

text \<open>The destructor; the downloaders are destroyed, which unlinks their peers.\<close>

definition fd_destroy :: "(world \<Rightarrow> world) \<Rightarrow> fdl \<Rightarrow> fdl" where
  "fd_destroy wait f =
     (let f = fd_setStatus DELETED f;
          f = (if fd_request f then end_request f else f);
          f = f\<lparr>fd_without := []\<rparr>;
          f = fold (\<lambda>i f. snd (snd (on_dl i (plain (destroy wait)) f))) (known_dls f) f
      in f\<lparr>fd_dls := []\<rparr>)"

text \<open>\<open>populateQueueEntry\<close>: the hashes of the entry saved with the queue.\<close>

definition saved_hashes :: "fdl \<Rightarrow> hash option list" where
  "saved_hashes f = map (\<lambda>i. if fd_entryHashes f ! i = None \<and> i < length (fd_dls f)
                             then map_option cd_hash (fd_dls f ! i) else fd_entryHashes f ! i) [0..<length (fd_entryHashes f)]"

definition saved_status :: "fdl \<Rightarrow> status option" where
  "saved_status f = (if fd_status f = QUEUED \<or> fd_status f = COMPLETE \<or> fd_status f = PAUSED then Some (fd_status f) else None)"

subsection \<open>What the operations keep\<close>

text \<open>Which downloaders are null, and the two counters.\<close>

definition fd_shape :: "fdl \<Rightarrow> bool list \<times> nat \<times> nat" where
  "fd_shape f = (map (\<lambda>d. d = None) (fd_dls f), fd_nbChunk f, fd_nbHashes f)"

lemma fd_shapeD:
  assumes "fd_shape f' = fd_shape f"
  shows "length (fd_dls f') = length (fd_dls f)" "fd_nbChunk f' = fd_nbChunk f" "fd_nbHashes f' = fd_nbHashes f"
    "i < length (fd_dls f) \<Longrightarrow> fd_dls f' ! i = None \<longleftrightarrow> fd_dls f ! i = None"
    "known_dls f' = known_dls f"
proof -
  have m: "map (\<lambda>d. d = None) (fd_dls f') = map (\<lambda>d. d = None) (fd_dls f)" using assms by (simp add: fd_shape_def)
  show len: "length (fd_dls f') = length (fd_dls f)" using map_eq_imp_length_eq [OF m] .
  show "fd_nbChunk f' = fd_nbChunk f" "fd_nbHashes f' = fd_nbHashes f" using assms by (auto simp: fd_shape_def)
  show nth: "fd_dls f' ! i = None \<longleftrightarrow> fd_dls f ! i = None" if "i < length (fd_dls f)" for i
    using arg_cong [OF m, of "\<lambda>xs. xs ! i"] that len by simp
  show "known_dls f' = known_dls f" unfolding known_dls_def len by (rule filter_cong) (use nth in auto)
qed

lemma log_fd_frame [simp]:
  "fd_status (log_fd e f) = fd_status f" "fd_dls (log_fd e f) = fd_dls f" "fd_env (log_fd e f) = fd_env f"
  "fd_nbChunk (log_fd e f) = fd_nbChunk f" "fd_nbHashes (log_fd e f) = fd_nbHashes f" "fd_request (log_fd e f) = fd_request f"
  "fd_shape (log_fd e f) = fd_shape f" "fd_asked (log_fd e f) = fd_asked f" "fd_exists (log_fd e f) = fd_exists f"
  "fd_occHashes (log_fd e f) = fd_occHashes f" "fd_peerSource (log_fd e f) = fd_peerSource f" "fd_ub (log_fd e f) = fd_ub f"
  by (simp_all add: log_fd_def fd_shape_def)

lemma fd_setStatus_frame [simp]:
  "fd_status (fd_setStatus s f) = s" "fd_dls (fd_setStatus s f) = fd_dls f" "fd_env (fd_setStatus s f) = fd_env f"
  "fd_nbChunk (fd_setStatus s f) = fd_nbChunk f" "fd_nbHashes (fd_setStatus s f) = fd_nbHashes f"
  "fd_request (fd_setStatus s f) = fd_request f" "fd_shape (fd_setStatus s f) = fd_shape f"
  "fd_asked (fd_setStatus s f) = fd_asked f" "fd_exists (fd_setStatus s f) = fd_exists f"
  "fd_occHashes (fd_setStatus s f) = fd_occHashes f" "fd_peerSource (fd_setStatus s f) = fd_peerSource f" "fd_ub (fd_setStatus s f) = fd_ub f"
  by (simp_all add: fd_setStatus_def Let_def fd_shape_def)

lemma us_end_frame [simp]:
  "fd_dls (us_end s f) = fd_dls f" "fd_env (us_end s f) = fd_env f" "fd_shape (us_end s f) = fd_shape f"
  by (simp_all add: us_end_def)

lemma us_end_complete: "fd_status (us_end s f) = COMPLETE \<longleftrightarrow> s = COMPLETE"
  by (simp add: us_end_def)

lemma fd_reset_shape [simp]: "fd_shape (fd_reset f) = fd_shape f"
  by (simp add: fd_reset_def fd_shape_def comp_def)

lemma fold_keeps:
  assumes "\<And>x f. x \<in> set xs \<Longrightarrow> P f \<Longrightarrow> P (op x f)" "P f"
  shows "P (fold op xs f)"
  using assms by (induction xs arbitrary: f) auto

lemma on_dl_shape:
  assumes "i < length (fd_dls f)" "fd_dls f ! i \<noteq> None"
  shows "fd_shape (snd (snd (on_dl i op f))) = fd_shape f"
proof -
  have "map (\<lambda>d. d = None) ((fd_dls f)[i := Some x]) = map (\<lambda>d. d = None) (fd_dls f)" for x
    using assms by (intro nth_equalityI) (auto simp: nth_list_update)
  then show ?thesis by (simp add: on_dl_def fd_shape_def case_prod_beta Let_def)
qed

lemma fd_slot_shape:
  assumes "\<And>g. fd_shape (update g) = fd_shape g"
  shows "fd_shape (fd_slot update i e f) = fd_shape f"
  by (simp add: fd_slot_def Let_def assms split: cd_event.split)

lemma dl_call_shape:
  assumes "\<And>g. fd_shape (update g) = fd_shape g" "i < length (fd_dls f)" "fd_dls f ! i \<noteq> None"
  shows "fd_shape (snd (dl_call update i op f)) = fd_shape f"
proof -
  obtain r evs f1 where r: "on_dl i op f = (r, evs, f1)" by (metis surj_pair)
  have "fd_shape f1 = fd_shape f" using on_dl_shape [OF assms(2,3), of op] r by simp
  then have "fd_shape (fold (fd_slot update i) evs f1) = fd_shape f"
    by (intro fold_keeps [where P = "\<lambda>g. fd_shape g = fd_shape f"]) (simp_all add: fd_slot_shape assms(1))
  then show ?thesis by (simp add: dl_call_def r)
qed

lemma us_loop_shape:
  assumes "\<And>g. fd_shape (nested g) = fd_shape g" "\<forall>i \<in> set ks. i < length (fd_dls f)"
  shows "fd_shape (us_loop nested ks s b f) = fd_shape f"
  using assms(2)
proof (induction ks arbitrary: s b f)
  case (Cons i ks)
  show ?case
  proof (cases "fd_dls f ! i")
    case None
    with Cons show ?thesis by simp
  next
    case (Some cd)
    define f1 where "f1 = f\<lparr>fd_dls := (fd_dls f)[i := Some (resetLastTransferStatus cd)]\<rparr>"
    have "map (\<lambda>d. d = None) (fd_dls f1) = map (\<lambda>d. d = None) (fd_dls f)"
      using Some Cons.prems by (intro nth_equalityI) (auto simp: nth_list_update f1_def)
    then have f1: "fd_shape f1 = fd_shape f" by (simp add: fd_shape_def f1_def)
    obtain r f2 where r: "dl_call nested i hasAtLeastAPeer f = (r, f2)" by (metis surj_pair)
    have f2: "fd_shape f2 = fd_shape f"
      using dl_call_shape [OF assms(1), of i f hasAtLeastAPeer] r Some Cons.prems by simp
    have len: "\<forall>j \<in> set ks. j < length (fd_dls f1)" "\<forall>j \<in> set ks. j < length (fd_dls f2)"
      using Cons.prems fd_shapeD(1) [OF f1] fd_shapeD(1) [OF f2] by simp_all
    show ?thesis
      using Some Cons.IH [OF len(1)] Cons.IH [OF len(2)] Cons.IH [of f] Cons.prems f1 f2 r
      by (simp add: f1_def [symmetric] Let_def)
  qed
qed simp

lemma us_fuel_shape [simp]: "fd_shape (us_fuel n f) = fd_shape f"
  by (induction n arbitrary: f) (simp_all add: us_loop_shape)

lemma fd_updateStatus_shape [simp]: "fd_shape (fd_updateStatus f) = fd_shape f"
  unfolding fd_updateStatus_def by (rule us_fuel_shape)

lemma fd_call_shape:
  "i < length (fd_dls f) \<Longrightarrow> fd_dls f ! i \<noteq> None \<Longrightarrow> fd_shape (snd (fd_call i op f)) = fd_shape f"
  by (intro dl_call_shape) simp_all

lemma known_dlsD: "i \<in> set (known_dls f) \<Longrightarrow> i < length (fd_dls f) \<and> fd_dls f ! i \<noteq> None"
  by (simp add: known_dls_def)

text \<open>A fold over the downloaders that are not null, of operations that keep the shape.\<close>

lemma fold_known_shape:
  assumes "\<And>i g. i < length (fd_dls g) \<Longrightarrow> fd_dls g ! i \<noteq> None \<Longrightarrow> fd_shape (op i g) = fd_shape g"
  shows "fd_shape (fold op (known_dls f) f) = fd_shape f"
proof (rule fold_keeps [where P = "\<lambda>g. fd_shape g = fd_shape f"])
  fix i g assume i: "i \<in> set (known_dls f)" and g: "fd_shape g = fd_shape f"
  have "i < length (fd_dls g)" "fd_dls g ! i \<noteq> None"
    using known_dlsD [OF i] fd_shapeD(1,4) [OF g] by simp_all
  with assms g show "fd_shape (op i g) = fd_shape f" by simp
qed simp

lemma each_dl_shape [simp]: "fd_shape (each_dl op f) = fd_shape f"
  unfolding each_dl_def by (rule fold_known_shape) (simp add: fd_call_shape)

lemma retrieveHashes_shape [simp]: "fd_shape (snd (retrieveHashes canAsk f)) = fd_shape f"
proof -
  have upd: "fd_shape (g\<lparr>fd_request := r\<rparr>) = fd_shape g" "fd_shape (g\<lparr>fd_occHashes := occ\<rparr>) = fd_shape g" for g r occ
    by (simp_all add: fd_shape_def)
  show ?thesis by (simp add: retrieveHashes_def Let_def case_prod_beta upd split: option.split)
qed

lemma end_request_shape [simp]: "fd_shape (end_request f) = fd_shape f"
proof -
  have "fd_shape (fold (\<lambda>q. log_fd (HashesFreePeer q)) qs g) = fd_shape g" for qs g
    by (induction qs arbitrary: g) simp_all
  then show ?thesis by (simp add: end_request_def Let_def case_prod_beta fd_shape_def split: option.split)
qed

lemma put_chunks_shape [simp]: "fd_shape (put_chunks cs f) = fd_shape f"
  unfolding put_chunks_def
  by (intro fold_keeps [where P = "\<lambda>g. fd_shape g = fd_shape f"]) (auto simp: fd_shape_def)

lemma giveChunksToDownloaders_shape [simp]: "fd_shape (giveChunksToDownloaders f) = fd_shape f"
  unfolding giveChunksToDownloaders_def
proof (rule fold_known_shape)
  fix i :: nat and g :: fdl
  assume i: "i < length (fd_dls g)" "fd_dls g ! i \<noteq> None"
  have "map (\<lambda>d. d = None) ((fd_dls g)[i := map_option h (fd_dls g ! i)]) = map (\<lambda>d. d = None) (fd_dls g)" for h :: "chunk_dl \<Rightarrow> chunk_dl"
    using i by (intro nth_equalityI) (auto simp: nth_list_update)
  then show "fd_shape (case map_of (fd_without g) i of None \<Rightarrow> g
      | Some c \<Rightarrow> g\<lparr>fd_dls := (fd_dls g)[i := map_option (setChunk c) (fd_dls g ! i)], fd_without := AList.delete i (fd_without g)\<rparr>) = fd_shape g"
    by (simp add: fd_shape_def split: option.split)
qed

lemma fd_shape_other:
  "fd_shape (f\<lparr>fd_exists := b\<rparr>) = fd_shape f" "fd_shape (f\<lparr>fd_shared := b\<rparr>) = fd_shape f"
  "fd_shape (f\<lparr>fd_asked := n\<rparr>) = fd_shape f" "fd_shape (f\<lparr>fd_lastTime := t\<rparr>) = fd_shape f"
  "fd_shape (f\<lparr>fd_request := b\<rparr>) = fd_shape f" "fd_shape (f\<lparr>fd_occHashes := occ\<rparr>) = fd_shape f"
  "fd_shape (f\<lparr>fd_peerSource := p\<rparr>) = fd_shape f" "fd_shape (f\<lparr>fd_env := env\<rparr>) = fd_shape f"
  "fd_shape (f\<lparr>fd_entryHashes := hs\<rparr>) = fd_shape f"
  by (simp_all add: fd_shape_def)

lemmas fd_shape_simps = fd_shape_other Let_def case_prod_beta

lemma tryToLink_shape [simp]: "fd_shape (snd (tryToLinkToAnExistingFile getAllChunks f)) = fd_shape f"
  by (simp add: tryToLinkToAnExistingFile_def fd_shape_simps)

lemma createFile_shape [simp]: "fd_shape (snd (createFile newFile f)) = fd_shape f"
  by (simp add: createFile_def fd_shape_simps split: sum.split)

lemma ready_loop_shape:
  assumes "\<forall>i \<in> set ks. i < length (fd_dls f)"
  shows "fd_shape (snd (ready_loop ks ready best f)) = fd_shape f"
  using assms
proof (induction ks arbitrary: ready best f)
  case (Cons i ks)
  show ?case
  proof (cases "fd_dls f ! i")
    case None
    with Cons show ?thesis by simp
  next
    case (Some cd)
    obtain n f1 where n: "fd_call i isReadyToDownload f = (n, f1)" by (metis surj_pair)
    then have f1: "fd_shape f1 = fd_shape f"
      using fd_call_shape [of i f isReadyToDownload] Some Cons.prems by simp
    have "\<forall>j \<in> set ks. j < length (fd_dls f1)" using Cons.prems fd_shapeD(1) [OF f1] by simp
    from Cons.IH [OF this] f1 Some n show ?thesis by simp
  qed
qed simp

lemma getAChunk_shape [simp]: "fd_shape (snd (getAChunkToDownload random newFile f)) = fd_shape f"
  using ready_loop_shape [of "[0..<length (fd_dls f)]" f "[]" None]
  by (simp add: getAChunkToDownload_def fd_shape_simps)

lemma getUnfinishedChunks_shape [simp]: "fd_shape (snd (getUnfinishedChunks now n b f)) = fd_shape f"
  by (simp add: getUnfinishedChunks_def fd_shape_simps)

lemma fd_peerSourceBecomesAvailable_shape [simp]: "fd_shape (fd_peerSourceBecomesAvailable peer f) = fd_shape f"
  by (simp add: fd_peerSourceBecomesAvailable_def fd_shape_simps split: option.split)

lemma fd_peerBecomesUnavailable_shape [simp]: "fd_shape (fd_peerBecomesUnavailable wait peer f) = fd_shape f"
  by (simp add: fd_peerBecomesUnavailable_def fd_shape_simps split: option.split)

lemma fold_log_shape [simp]: "fd_shape (fold (\<lambda>q. log_fd (ev q)) qs f) = fd_shape f"
  by (induction qs arbitrary: f) simp_all

lemma fd_start_shape [simp]: "fd_shape (fd_start canAsk getAllChunks newFile f) = fd_shape f"
  unfolding fd_start_def by (simp add: fd_shape_simps)

lemma fd_stop_shape [simp]: "fd_shape (fd_stop wait f) = fd_shape f"
  by (simp add: fd_stop_def)

lemma fd_pause_shape [simp]: "fd_shape (snd (fd_pause wait canAsk b f)) = fd_shape f"
  by (simp add: fd_pause_def)

lemma fd_remove_shape [simp]: "fd_shape (fd_remove wait path onDisk f) = fd_shape f"
  by (simp add: fd_remove_def fd_shape_simps)

lemma fd_getPeers_shape [simp]: "fd_shape (snd (fd_getPeers f)) = fd_shape f"
proof -
  have "fd_shape (snd (fold (\<lambda>i (ps, f). let (qs, f) = fd_call i getPeers f in (ps \<union> set qs, f)) (known_dls f) (s0, f))) = fd_shape f" for s0
  proof (rule fold_keeps [where P = "\<lambda>x. fd_shape (snd x) = fd_shape f"])
    fix i and x :: "peer_ref set \<times> fdl"
    assume i: "i \<in> set (known_dls f)" and x: "fd_shape (snd x) = fd_shape f"
    have "fd_shape (snd (fd_call i getPeers (snd x))) = fd_shape f"
      unfolding x [symmetric] using known_dlsD [OF i] fd_shapeD(1,4) [OF x] by (intro fd_call_shape) simp_all
    then show "fd_shape (snd (case x of (ps, f) \<Rightarrow> let (qs, f) = fd_call i getPeers f in (ps \<union> set qs, f))) = fd_shape f"
      by (simp add: case_prod_beta Let_def)
  qed simp
  then show ?thesis by (simp add: fd_getPeers_def)
qed

lemma hashes_answers_shape [simp]:
  "fd_shape (fd_result r f) = fd_shape f" "fd_shape (getHashTimeout f) = fd_shape f"
  "fd_shape (retryRetrieveHashes canAsk f) = fd_shape f"
  by (simp_all add: fd_result_def getHashTimeout_def retryRetrieveHashes_def fd_shape_other split: hashes_status.split)

subsection \<open>The invariant of a file download\<close>

text \<open>One slot per chunk, and \<open>nbHashesKnown\<close> counts the downloaders.\<close>

definition fd_inv :: "fdl \<Rightarrow> bool" where
  "fd_inv f \<longleftrightarrow> length (fd_dls f) = fd_nbChunk f \<and> fd_nbHashes f = length (known_dls f)"

lemma fd_inv_shape: "fd_shape f' = fd_shape f \<Longrightarrow> fd_inv f \<Longrightarrow> fd_inv f'"
  using fd_shapeD [of f' f] by (simp add: fd_inv_def)

lemma known_dls_fill:
  assumes "num < length (fd_dls f)" "fd_dls f ! num = None" "fd_dls f' = (fd_dls f)[num := Some cd]"
  shows "length (known_dls f') = Suc (length (known_dls f))"
proof -
  let ?n = "length (fd_dls f)"
  have "length (known_dls g) = card {i. i < length (fd_dls g) \<and> fd_dls g ! i \<noteq> None}" for g
  proof -
    have "card {i. i < length [0..<length (fd_dls g)] \<and> fd_dls g ! ([0..<length (fd_dls g)] ! i) \<noteq> None} =
        card {i. i < length (fd_dls g) \<and> fd_dls g ! i \<noteq> None}"
      by (rule arg_cong [where f = card]) auto
    then show ?thesis by (simp add: known_dls_def length_filter_conv_card)
  qed
  note card = this
  have "{i. i < length (fd_dls f') \<and> fd_dls f' ! i \<noteq> None} = insert num {i. i < ?n \<and> fd_dls f ! i \<noteq> None}"
    using assms by (auto simp: nth_list_update)
  moreover have "num \<notin> {i. i < ?n \<and> fd_dls f ! i \<noteq> None}" using assms(2) by simp
  ultimately show ?thesis by (simp add: card)
qed

lemma known_dls_le: "length (known_dls f) \<le> length (fd_dls f)"
  unfolding known_dls_def by (metis length_filter_le length_upt minus_nat.diff_0)

lemma nextHash_inv:
  assumes "fd_inv f"
  shows "fd_inv (nextHash num hash f)"
proof (cases hash)
  case None
  with assms show ?thesis by (simp add: nextHash_def)
next
  case (Some h)
  show ?thesis
  proof (cases "num < length (fd_dls f) \<and> fd_dls f ! num = None")
    case True
    define cd where "cd = (case map_of (fd_without f) num of None \<Rightarrow> new_chunk_dl h | Some c \<Rightarrow> setChunk c (new_chunk_dl h))"
    define f1 where "f1 = f\<lparr>fd_dls := (fd_dls f)[num := Some cd], fd_without := AList.delete num (fd_without f), fd_nbHashes := fd_nbHashes f + 1\<rparr>"
    have len: "length (known_dls f1) = Suc (length (known_dls f))"
      by (rule known_dls_fill) (use True in \<open>auto simp: f1_def\<close>)
    have inv1: "fd_inv f1" using assms len by (simp add: fd_inv_def f1_def)
    define f2 where "f2 = (if fd_nbHashes f1 \<ge> fd_nbChunk f1
        then fd_updateStatus (end_request (f1\<lparr>fd_nbHashes := fd_nbChunk f1\<rparr>)) else f1)"
    have "fd_shape (f1\<lparr>fd_nbHashes := fd_nbChunk f1\<rparr>) = fd_shape f1" if "fd_nbHashes f1 \<ge> fd_nbChunk f1"
    proof -
      have "fd_nbHashes f1 = fd_nbChunk f1"
        using that inv1 known_dls_le [of f1] by (simp add: fd_inv_def)
      then show ?thesis by (simp add: fd_shape_def)
    qed
    then have f2: "fd_shape f2 = fd_shape f1" by (simp add: f2_def)
    have "num < length (fd_dls f2) \<and> fd_dls f2 ! num \<noteq> None"
      using True fd_shapeD(1,4) [OF f2] by (auto simp: f1_def)
    then have "fd_shape (snd (fd_call num (plain (setPeerSource (fd_peerSource f2) True)) f2)) = fd_shape f1"
      unfolding f2 [symmetric] by (intro fd_call_shape) blast+
    moreover have "nextHash num hash f = log_fd NewHashKnown (set_entry_hash num h
        (snd (fd_call num (plain (setPeerSource (fd_peerSource f2) True)) f2)))"
      using True Some by (simp add: nextHash_def Let_def cd_def f1_def f2_def)
    ultimately have "fd_shape (nextHash num hash f) = fd_shape f1" by (simp add: set_entry_hash_def fd_shape_other)
    with inv1 show ?thesis by (rule fd_inv_shape [rotated])
  next
    case False
    have "fd_shape (nextHash num hash f) = fd_shape f"
    proof (cases "num < length (fd_dls f)")
      case True
      with False obtain cd where cd: "fd_dls f ! num = Some cd" by auto
      have "map (\<lambda>d. d = None) ((fd_dls f)[num := Some x]) = map (\<lambda>d. d = None) (fd_dls f)" for x
        using True cd by (intro nth_equalityI) (auto simp: nth_list_update)
      then show ?thesis using True cd Some by (simp add: nextHash_def set_entry_hash_def fd_shape_def)
    qed (simp add: nextHash_def Some)
    with assms show ?thesis by (rule fd_inv_shape [rotated])
  qed
qed

lemma new_fdl_inv: "fd_inv (new_fdl cs st sz hs ex sh p pid occ env)"
proof -
  have len: "length (filter (\<lambda>i. ds ! i \<noteq> None) [0..<length ds]) = length (filter (\<lambda>d. d \<noteq> None) ds)" for ds :: "chunk_dl option list"
  proof -
    have "filter (\<lambda>d. d \<noteq> None) (map (\<lambda>i. ds ! i) [0..<length ds]) = map (\<lambda>i. ds ! i) (filter (\<lambda>i. ds ! i \<noteq> None) [0..<length ds])"
      by (simp add: filter_map comp_def)
    then show ?thesis by (metis length_map map_nth)
  qed
  define nb where "nb = sz div cs + (if sz mod cs = 0 then 0 else 1)"
  define dls where "dls = map (\<lambda>i. if i < length hs then map_option new_chunk_dl (hs ! i) else None) [0..<nb]"
  have "length dls = nb" by (simp add: dls_def)
  moreover have "fd_dls (new_fdl cs st sz hs ex sh p pid occ env) = dls \<and> fd_nbChunk (new_fdl cs st sz hs ex sh p pid occ env) = nb \<and>
      fd_nbHashes (new_fdl cs st sz hs ex sh p pid occ env) = length (filter (\<lambda>d. d \<noteq> None) dls)"
    unfolding new_fdl_def Let_def nb_def [symmetric] dls_def [symmetric] by simp
  ultimately show ?thesis using len [of dls] by (simp add: fd_inv_def known_dls_def del: not_None_eq)
qed

text \<open>
  The states a file download goes through: its operations, what the rest of the program does to one of
  its chunk downloaders, and the changes of what it shares with other downloads.
\<close>

inductive fd_step :: "fdl \<Rightarrow> fdl \<Rightarrow> bool" where
  step_start: "fd_step f (fd_start canAsk getAllChunks newFile f)"
| step_stop: "fd_step f (fd_stop wait f)"
| step_pause: "fd_step f (snd (fd_pause wait canAsk b f))"
| step_available: "fd_step f (fd_peerSourceBecomesAvailable peer f)"
| step_unavailable: "fd_step f (fd_peerBecomesUnavailable wait peer f)"
| step_getPeers: "fd_step f (snd (fd_getPeers f))"
| step_getAChunk: "fd_step f (snd (getAChunkToDownload random newFile f))"
| step_unfinished: "fd_step f (snd (getUnfinishedChunks now n b f))"
| step_remove: "fd_step f (fd_remove wait path onDisk f)"
| step_retrieve: "fd_step f (snd (retrieveHashes canAsk f))"
| step_result: "fd_step f (fd_result r f)"
| step_nextHash: "fd_step f (nextHash num hash f)"
| step_timeout: "fd_step f (getHashTimeout f)"
| step_retry: "fd_step f (retryRetrieveHashes canAsk f)"
| step_chunk: "i < length (fd_dls f) \<Longrightarrow> fd_dls f ! i \<noteq> None \<Longrightarrow> fd_step f (snd (fd_call i (plain op) f))"
| step_others: "fd_step f (f\<lparr>fd_env := env, fd_occHashes := occ\<rparr>)"

inductive fd_reachable :: "fdl \<Rightarrow> bool" where
  fd_new: "fd_reachable (new_fdl cs st sz hs ex sh p pid occ env)"
| fd_next: "fd_reachable f \<Longrightarrow> fd_step f f' \<Longrightarrow> fd_reachable f'"

lemma fd_step_inv: "fd_step f f' \<Longrightarrow> fd_inv f \<Longrightarrow> fd_inv f'"
proof (induction rule: fd_step.induct)
  case (step_nextHash f num hash)
  then show ?case by (rule nextHash_inv)
next
  case (step_chunk i f op)
  then show ?case by (intro fd_inv_shape [OF fd_call_shape [of i f "plain op"]])
next
  case (step_others f occ env)
  then show ?case by (intro fd_inv_shape [of "f\<lparr>fd_env := env, fd_occHashes := occ\<rparr>" f]) (simp_all add: fd_shape_def)
qed (rule fd_inv_shape; simp)+

lemma fd_reachable_inv: "fd_reachable f \<Longrightarrow> fd_inv f"
  by (induction rule: fd_reachable.induct) (auto intro: new_fdl_inv fd_step_inv)

subsection \<open>When a file is complete\<close>

definition dl_finished :: "chunk_dl \<Rightarrow> bool" where
  "dl_finished cd \<longleftrightarrow> isComplete cd \<and> \<not> cd_downloading cd \<and> status_code (cd_last cd) < 0x20"

lemma us_loop_complete:
  assumes "fd_status (us_loop nested ks s hasPeer f) = COMPLETE" "hasPeer \<Longrightarrow> s \<noteq> COMPLETE"
  shows "s = COMPLETE \<and> (\<forall>i \<in> set ks. \<forall>cd. fd_dls f ! i = Some cd \<longrightarrow> dl_finished cd) \<and>
     fd_dls (us_loop nested ks s hasPeer f) = fd_dls f"
  using assms
proof (induction ks arbitrary: s hasPeer f)
  case Nil
  then show ?case by (simp add: us_end_complete)
next
  case (Cons i ks)
  show ?case
  proof (cases "fd_dls f ! i")
    case None
    then have "fd_status (us_loop nested ks s hasPeer f) = COMPLETE" using Cons.prems(1) by simp
    note IH = Cons.IH [OF this Cons.prems(2)]
    then have s: "s = COMPLETE" ..
    show ?thesis using IH None unfolding s by simp
  next
    case (Some cd)
    show ?thesis
    proof (cases "cd_downloading cd \<or> status_code (cd_last cd) \<ge> 0x20 \<or> (\<not> hasPeer \<and> \<not> isComplete cd)")
      case False
      then have step: "us_loop nested (i # ks) s hasPeer f = us_loop nested ks s hasPeer f" using Some by auto
      note IH = Cons.IH [OF Cons.prems(1) [unfolded step] Cons.prems(2)]
      then have s: "s = COMPLETE" ..
      have "dl_finished cd" using False s Cons.prems(2) by (auto simp: dl_finished_def)
      then show ?thesis using IH Some unfolding step by auto
    next
      case True
      have ne: "cd_last cd \<noteq> COMPLETE" if "status_code (cd_last cd) \<ge> 0x20" using that by auto
      have False
      proof (cases "cd_downloading cd")
        case True
        then show False using Cons.prems(1) Some by simp
      next
        case nodl: False
        show False
        proof (cases "status_code (cd_last cd) \<ge> 0x20")
          case err: True
          define g where "g = f\<lparr>fd_dls := (fd_dls f)[i := Some (resetLastTransferStatus cd)]\<rparr>"
          show False
          proof (cases "cd_last cd = FILE_NON_EXISTENT")
            case True
            then show False using Cons.prems(1) Some nodl err by (simp add: Let_def)
          next
            case fne: False
            then have "fd_status (us_loop nested ks (cd_last cd) hasPeer g) = COMPLETE"
              using Cons.prems(1) Some nodl err by (simp add: Let_def g_def)
            from Cons.IH [OF this ne [OF err]] ne [OF err] show False by simp
          qed
        next
          case noerr: False
          then have part: "\<not> hasPeer \<and> \<not> isComplete cd" using True nodl by simp
          obtain b g where r: "dl_call nested i hasAtLeastAPeer f = (b, g)" by (metis surj_pair)
          show False
            using Cons.prems(1) Some nodl noerr part r Cons.IH [of QUEUED True g] Cons.IH [of NO_SOURCE hasPeer g]
            by (auto split: if_splits)
        qed
      qed
      then show ?thesis ..
    qed
  qed
qed

lemma us_loop_all_complete:
  assumes "\<forall>i \<in> set ks. \<forall>cd. fd_dls f ! i = Some cd \<longrightarrow> dl_finished cd"
  shows "us_loop nested ks s hasPeer f = us_end s f"
  using assms
proof (induction ks)
  case (Cons i ks)
  then show ?case by (cases "fd_dls f ! i") (auto simp: dl_finished_def)
qed simp


end
