(* ===== verification/File_Choice.thy ===== *)
theory File_Choice
  imports File_Download
begin

text \<open>
  Which chunk \<open>FileDownload::getAChunkToDownload\<close> chooses: rarest first, a partially downloaded one
  before all.  Counting the free peers of a chunk drops its dead ones, which updates the status of the
  file and drops dead peers of other chunks; none of this changes what the choice depends on.
\<close>

subsection \<open>What the choice depends on\<close>

definition alive :: "fdl \<Rightarrow> peer_ref \<Rightarrow> bool" where
  "alive f p \<longleftrightarrow> p_available (e_peers (fd_env f) p)"

definition dl_view :: "peer_heap \<Rightarrow> chunk_dl \<Rightarrow> chunk option \<times> bool \<times> peer_ref list" where
  "dl_view ph cd = (cd_chunk cd, cd_downloading cd, filter (\<lambda>p. p_available (ph p)) (cd_peers cd))"

definition fd_view :: "fdl \<Rightarrow> (chunk option \<times> bool \<times> peer_ref list) option list \<times> peer_heap \<times> occupied \<times> bool" where
  "fd_view f = (map (map_option (dl_view (e_peers (fd_env f)))) (fd_dls f), e_peers (fd_env f), e_occ (fd_env f), fd_exists f)"

definition no_lost_file :: "fdl \<Rightarrow> bool" where
  "no_lost_file f \<longleftrightarrow> (\<forall>cd. Some cd \<in> set (fd_dls f) \<longrightarrow> cd_last cd \<noteq> FILE_NON_EXISTENT)"

definition same_choice :: "fdl \<Rightarrow> fdl \<Rightarrow> bool" where
  "same_choice f g \<longleftrightarrow> fd_view g = fd_view f \<and> no_lost_file g"

text \<open>The number of peers that can be asked for chunk \<open>i\<close>, and whether it has been started.\<close>

definition nb_free :: "fdl \<Rightarrow> nat \<Rightarrow> nat" where
  "nb_free f i = (case fd_dls f ! i of
     None \<Rightarrow> 0
   | Some cd \<Rightarrow> if cd_downloading cd \<or> isComplete cd then 0
                else length (candidates (e_peers (fd_env f)) (e_occ (fd_env f)) (cd_peers cd)))"

definition started :: "fdl \<Rightarrow> nat \<Rightarrow> bool" where
  "started f i \<longleftrightarrow> (case fd_dls f ! i of None \<Rightarrow> False | Some cd \<Rightarrow> isPartiallyDownloaded cd)"

lemma candidates_filter:
  "candidates ph occ (filter (\<lambda>p. p_available (ph p)) ps) = candidates ph occ ps"
  by (simp add: candidates_def conj_commute)

lemma fd_viewD:
  assumes "fd_view g = fd_view f"
  shows "length (fd_dls g) = length (fd_dls f)" "fd_exists g = fd_exists f" "e_peers (fd_env g) = e_peers (fd_env f)"
    "i < length (fd_dls f) \<Longrightarrow> map_option (dl_view (e_peers (fd_env f))) (fd_dls g ! i) = map_option (dl_view (e_peers (fd_env f))) (fd_dls f ! i)"
    "i < length (fd_dls f) \<Longrightarrow> nb_free g i = nb_free f i" "i < length (fd_dls f) \<Longrightarrow> started g i = started f i"
proof -
  have ph: "e_peers (fd_env g) = e_peers (fd_env f)" and occ: "e_occ (fd_env g) = e_occ (fd_env f)"
    and m: "map (map_option (dl_view (e_peers (fd_env f)))) (fd_dls g) = map (map_option (dl_view (e_peers (fd_env f)))) (fd_dls f)"
    using assms by (auto simp: fd_view_def)
  show len: "length (fd_dls g) = length (fd_dls f)" using map_eq_imp_length_eq [OF m] .
  show "fd_exists g = fd_exists f" "e_peers (fd_env g) = e_peers (fd_env f)" using assms by (auto simp: fd_view_def)
  show nth: "map_option (dl_view (e_peers (fd_env f))) (fd_dls g ! i) = map_option (dl_view (e_peers (fd_env f))) (fd_dls f ! i)"
    if "i < length (fd_dls f)" for i
    using arg_cong [OF m, of "\<lambda>xs. xs ! i"] that len by simp
  show "nb_free g i = nb_free f i" if "i < length (fd_dls f)" for i
  proof (cases "fd_dls f ! i")
    case None
    with nth [OF that] show ?thesis by (simp add: nb_free_def)
  next
    case (Some cd)
    with nth [OF that] obtain cd' where cd': "fd_dls g ! i = Some cd'" "dl_view (e_peers (fd_env f)) cd' = dl_view (e_peers (fd_env f)) cd"
      by auto
    then have "candidates ph oc (cd_peers cd') = candidates ph oc (cd_peers cd)" if "ph = e_peers (fd_env f)" for ph oc
      using that candidates_filter [of ph oc "cd_peers cd"] candidates_filter [of ph oc "cd_peers cd'"] by (simp add: dl_view_def)
    then show ?thesis using Some cd' ph occ by (simp add: nb_free_def dl_view_def isComplete_def)
  qed
  show "started g i = started f i" if "i < length (fd_dls f)" for i
    using nth [OF that] by (cases "fd_dls f ! i"; cases "fd_dls g ! i") (auto simp: started_def dl_view_def isPartiallyDownloaded_def)
qed

text \<open>Operations on a downloader that only drop dead peers.\<close>

definition pruned :: "world \<Rightarrow> world \<Rightarrow> bool" where
  "pruned w w' \<longleftrightarrow>
     (\<exists>ps ls. w_cd w' = (w_cd w)\<lparr>cd_peers := ps\<rparr> \<and> w_env w' = (w_env w)\<lparr>e_links := ls\<rparr> \<and>
        filter (\<lambda>p. p_available (e_peers (w_env w) p)) ps = filter (\<lambda>p. p_available (e_peers (w_env w) p)) (cd_peers (w_cd w))) \<and>
     (w_log w' = w_log w \<or> w_log w' = w_log w @ [NumberOfPeersChanged])"

lemma pruned_refl: "pruned w w"
  unfolding pruned_def
  by (intro conjI exI [of _ "cd_peers (w_cd w)"] exI [of _ "e_links (w_env w)"]) simp_all

lemma dropped_frame_choice:
  "w_cd (dropped ps ls b w) = (w_cd w)\<lparr>cd_peers := ps\<rparr>" "w_env (dropped ps ls b w) = (w_env w)\<lparr>e_links := ls\<rparr>"
  "w_log (dropped ps ls b w) = (if b then w_log w @ [NumberOfPeersChanged] else w_log w)"
  by (simp_all add: dropped_def Let_def set_links_def set_peers_def emit_def)

lemma dropped_pruned:
  "pruned w (dropped (filter (\<lambda>p. p_available (e_peers (w_env w) p)) (cd_peers (w_cd w))) ls b w)"
  unfolding pruned_def dropped_frame_choice
  by (intro conjI exI [of _ "filter (\<lambda>p. p_available (e_peers (w_env w) p)) (cd_peers (w_cd w))"] exI [of _ ls]) simp_all

lemma hasAtLeastAPeer_pruned: "pruned w (snd (hasAtLeastAPeer w))"
  by (simp add: hasAtLeastAPeer_def getPeers_def peers_loop_eq dropped_pruned)

lemma isReadyToDownload_pruned: "pruned w (snd (isReadyToDownload w))"
  by (simp add: isReadyToDownload_def getNumberOfFreePeer_def count_loop_eq dropped_pruned pruned_refl)

lemma dl_call_same_choice:
  assumes op: "\<And>w. pruned w (snd (op w))"
    and update: "\<And>g. no_lost_file g \<Longrightarrow> same_choice g (update g)"
    and f: "no_lost_file f" "i < length (fd_dls f)" "fd_dls f ! i = Some cd"
  shows "same_choice f (snd (dl_call update i op f))"
proof -
  define w where "w = \<lparr>w_cd = cd, w_env = fd_env f, w_log = []\<rparr>"
  define w' where "w' = snd (op w)"
  obtain ps ls where w': "w_cd w' = cd\<lparr>cd_peers := ps\<rparr>" "w_env w' = (fd_env f)\<lparr>e_links := ls\<rparr>"
      "filter (\<lambda>p. p_available (e_peers (fd_env f) p)) ps = filter (\<lambda>p. p_available (e_peers (fd_env f) p)) (cd_peers cd)"
    and log: "w_log w' = [] \<or> w_log w' = [NumberOfPeersChanged]"
    using op [of w] unfolding w'_def [symmetric] pruned_def by (auto simp: w_def)
  define f1 where "f1 = f\<lparr>fd_dls := (fd_dls f)[i := Some (w_cd w')], fd_env := w_env w'\<rparr>"
  have call: "snd (dl_call update i op f) = fold (fd_slot update i) (w_log w') f1"
    using f(3) by (simp add: dl_call_def on_dl_def case_prod_beta w'_def w_def f1_def Let_def)
  have "dl_view (e_peers (fd_env f)) (w_cd w') = dl_view (e_peers (fd_env f)) cd" using w'(1,3) by (simp add: dl_view_def)
  then have "map (map_option (dl_view (e_peers (fd_env f)))) (fd_dls f1) = map (map_option (dl_view (e_peers (fd_env f)))) (fd_dls f)"
    using f(2,3) by (intro nth_equalityI) (auto simp: f1_def nth_list_update)
  moreover have env1: "e_peers (fd_env f1) = e_peers (fd_env f)" "e_occ (fd_env f1) = e_occ (fd_env f)" "fd_exists f1 = fd_exists f"
    using w'(2) by (simp_all add: f1_def)
  ultimately have v1: "fd_view f1 = fd_view f" unfolding fd_view_def env1 by simp
  have "\<forall>cd \<in> {cd. Some cd \<in> set (fd_dls f1)}. cd_last cd \<noteq> FILE_NON_EXISTENT"
  proof
    fix cd' assume "cd' \<in> {cd. Some cd \<in> set (fd_dls f1)}"
    then have "Some cd' \<in> insert (Some (w_cd w')) (set (fd_dls f))"
      using set_update_subset_insert [of "fd_dls f" i "Some (w_cd w')"] by (auto simp: f1_def)
    moreover have "cd_last (w_cd w') = cd_last cd" using w'(1) by simp
    moreover have "Some cd \<in> set (fd_dls f)" using f(2,3) nth_mem by metis
    ultimately show "cd_last cd' \<noteq> FILE_NON_EXISTENT" using f(1) by (auto simp: no_lost_file_def)
  qed
  then have l1: "no_lost_file f1" by (simp add: no_lost_file_def)
  show ?thesis
  proof (cases "w_log w' = []")
    case True
    with v1 l1 show ?thesis by (simp add: call same_choice_def)
  next
    case False
    then have "snd (dl_call update i op f) = update (log_fd (ChunkEvent i NumberOfPeersChanged) f1)"
      using log by (simp add: call fd_slot_def Let_def)
    moreover have "no_lost_file (log_fd (ChunkEvent i NumberOfPeersChanged) f1)" using l1 by (simp add: no_lost_file_def)
    moreover have "fd_view (log_fd (ChunkEvent i NumberOfPeersChanged) f1) = fd_view f1" by (simp add: fd_view_def)
    ultimately show ?thesis using update v1 by (simp add: same_choice_def)
  qed
qed

lemma same_choice_trans: "same_choice f g \<Longrightarrow> same_choice g h \<Longrightarrow> same_choice f h"
  by (simp add: same_choice_def)

lemma same_choice_status:
  "no_lost_file f \<Longrightarrow> same_choice f (fd_setStatus s f)" "no_lost_file f \<Longrightarrow> same_choice f (us_end s f)"
  by (simp_all add: same_choice_def fd_view_def no_lost_file_def us_end_def)

lemma us_loop_same_choice:
  assumes nested: "\<And>g. no_lost_file g \<Longrightarrow> same_choice g (nested g)"
    and "no_lost_file f" "\<forall>i \<in> set ks. i < length (fd_dls f)"
  shows "same_choice f (us_loop nested ks s b f)"
  using assms(2,3)
proof (induction ks arbitrary: s b f)
  case Nil
  then show ?case by (simp add: same_choice_status)
next
  case (Cons i ks)
  show ?case
  proof (cases "fd_dls f ! i")
    case None
    with Cons show ?thesis by simp
  next
    case (Some cd)
    have i: "i < length (fd_dls f)" using Cons.prems(2) by simp
    have "Some cd \<in> set (fd_dls f)" using i Some nth_mem by metis
    then have ok: "cd_last cd \<noteq> FILE_NON_EXISTENT" using Cons.prems(1) by (simp add: no_lost_file_def)
    define g where "g = f\<lparr>fd_dls := (fd_dls f)[i := Some (resetLastTransferStatus cd)]\<rparr>"
    have "map (map_option (dl_view ph)) (fd_dls g) = map (map_option (dl_view ph)) (fd_dls f)" for ph
      using i Some by (intro nth_equalityI) (auto simp: g_def nth_list_update dl_view_def resetLastTransferStatus_def)
    then have gv: "fd_view g = fd_view f" by (simp add: fd_view_def g_def)
    have "cd_last c \<noteq> FILE_NON_EXISTENT" if "Some c \<in> set (fd_dls g)" for c
    proof -
      have "Some c \<in> insert (Some (resetLastTransferStatus cd)) (set (fd_dls f))"
        using that set_update_subset_insert [of "fd_dls f" i "Some (resetLastTransferStatus cd)"] by (auto simp: g_def)
      then show ?thesis using Cons.prems(1) by (auto simp: no_lost_file_def resetLastTransferStatus_def)
    qed
    then have g: "same_choice f g" using gv by (simp add: same_choice_def no_lost_file_def)
    obtain r h where r: "dl_call nested i hasAtLeastAPeer f = (r, h)" by (metis surj_pair)
    have h: "same_choice f h"
      using dl_call_same_choice [OF hasAtLeastAPeer_pruned nested Cons.prems(1) i Some] r by simp
    have next': "same_choice f (us_loop nested ks s' b' k)" if "same_choice f k" for s' b' k
      using that Cons.prems(2) fd_viewD(1) [of k f]
      by (intro same_choice_trans [OF that Cons.IH]) (auto simp: same_choice_def)
    have ff: "same_choice f f" using Cons.prems(1) by (simp add: same_choice_def)
    show ?thesis
      using Some ok r next' [OF g] next' [OF h] next' [OF ff] same_choice_status(1) [OF Cons.prems(1)]
      by (simp add: g_def Let_def)
  qed
qed

lemma us_fuel_same_choice: "no_lost_file f \<Longrightarrow> same_choice f (us_fuel n f)"
proof (induction n arbitrary: f)
  case (Suc n)
  then show ?case by (auto simp: us_loop_same_choice intro: same_choice_def [THEN iffD2])
qed (simp add: same_choice_def)

lemma isReady_same_choice:
  assumes "no_lost_file f" "i < length (fd_dls f)" "fd_dls f ! i = Some cd"
  shows "same_choice f (snd (fd_call i isReadyToDownload f))" and "fst (fd_call i isReadyToDownload f) = nb_free f i"
proof -
  show "same_choice f (snd (fd_call i isReadyToDownload f))"
    by (rule dl_call_same_choice [OF isReadyToDownload_pruned _ assms])
      (simp add: fd_updateStatus_def us_fuel_same_choice del: us_fuel.simps)
  show "fst (fd_call i isReadyToDownload f) = nb_free f i"
    using assms(3)
    by (auto simp: dl_call_def on_dl_def case_prod_beta nb_free_def isReadyToDownload_def getNumberOfFreePeer_def count_loop_eq candidates_def)
qed

subsection \<open>The choice\<close>

text \<open>
  What the loop has chosen from the chunks \<open>js\<close> it has seen: those with the fewest free peers,
  unless one that is partially downloaded ended it.
\<close>

definition rarest :: "fdl \<Rightarrow> nat list \<Rightarrow> nat list \<Rightarrow> nat option \<Rightarrow> bool" where
  "rarest f js ready best \<longleftrightarrow>
     (case best of
        None \<Rightarrow> ready = [] \<and> (\<forall>j \<in> set js. nb_free f j = 0)
      | Some b \<Rightarrow> ready \<noteq> [] \<and> set ready \<subseteq> set js \<and> 0 < b \<and> (\<forall>i \<in> set ready. nb_free f i = b) \<and>
                  (\<forall>j \<in> set js. nb_free f j > 0 \<longrightarrow> \<not> started f j \<and> b \<le> nb_free f j))"

definition chosen :: "fdl \<Rightarrow> nat list \<Rightarrow> nat list \<Rightarrow> bool" where
  "chosen f js ready \<longleftrightarrow>
     set ready \<subseteq> set js \<and> (ready = [] \<longleftrightarrow> (\<forall>j \<in> set js. nb_free f j = 0)) \<and>
     (\<forall>i \<in> set ready. nb_free f i > 0 \<and>
        (started f i \<or> (\<forall>j \<in> set js. nb_free f j > 0 \<longrightarrow> \<not> started f j \<and> nb_free f i \<le> nb_free f j)))"

lemma rarest_chosen: "rarest f js ready best \<Longrightarrow> chosen f js ready"
proof (cases best)
  case (Some b)
  assume r: "rarest f js ready best"
  then have "hd ready \<in> set ready" using Some by (simp add: rarest_def)
  then have "hd ready \<in> set js" "nb_free f (hd ready) > 0" using r Some by (auto simp: rarest_def)
  with r Some show ?thesis by (auto simp: rarest_def chosen_def)
qed (auto simp: rarest_def chosen_def)

lemma ready_loop_chosen:
  assumes "no_lost_file g" "fd_view g = fd_view f" "\<forall>i \<in> set (js @ ks). i < length (fd_dls f)" "rarest f js ready best"
  shows "chosen f (js @ ks) (fst (ready_loop ks ready best g)) \<and> same_choice f (snd (ready_loop ks ready best g))"
  using assms
proof (induction ks arbitrary: js ready best g)
  case Nil
  then show ?case using rarest_chosen by (simp add: same_choice_def)
next
  case (Cons i ks)
  have i: "i < length (fd_dls f)" "i < length (fd_dls g)" using Cons.prems(3) fd_viewD(1) [OF Cons.prems(2)] by simp_all
  have free: "nb_free g i = nb_free f i" using fd_viewD(5) [OF Cons.prems(2)] i by simp
  have next': "chosen f (js @ i # ks) (fst (ready_loop ks r b h)) \<and> same_choice f (snd (ready_loop ks r b h))"
    if "no_lost_file h" "fd_view h = fd_view f" "rarest f (js @ [i]) r b" for r b h
    using Cons.IH [OF that(1,2) _ that(3)] Cons.prems(3) by simp
  show ?case
  proof (cases "fd_dls g ! i")
    case None
    then have "nb_free f i = 0" using free by (simp add: nb_free_def)
    then have "rarest f (js @ [i]) ready best" using Cons.prems(4) by (auto simp: rarest_def split: option.splits)
    with next' [OF Cons.prems(1,2)] None show ?thesis by simp
  next
    case (Some cd)
    obtain n h where r: "fd_call i isReadyToDownload g = (n, h)" by (metis surj_pair)
    have n: "n = nb_free f i" and sh: "same_choice g h"
      using isReady_same_choice [OF Cons.prems(1) i(2) Some] r free by simp_all
    have h: "no_lost_file h" "fd_view h = fd_view f" using sh Cons.prems(2) by (auto simp: same_choice_def)
    have "fd_dls h ! i \<noteq> None"
      using fd_viewD(4) [of h g i] sh Some i(2) by (auto simp: same_choice_def)
    then have st: "isPartiallyDownloaded (the (fd_dls h ! i)) \<longleftrightarrow> started f i"
      using fd_viewD(6) [OF h(2) i(1)] by (auto simp: started_def)
    consider (zero) "n = 0" | (part) "n > 0" "started f i" | (eq) "n > 0" "\<not> started f i" "best = Some n"
      | (less) "n > 0" "\<not> started f i" "best = None \<or> n < the best" "best \<noteq> Some n"
      | (more) "n > 0" "\<not> started f i" "best \<noteq> None" "n > the best"
      by (cases best) force+
    then show ?thesis
    proof cases
      case zero
      then have "rarest f (js @ [i]) ready best" using Cons.prems(4) n by (auto simp: rarest_def split: option.splits)
      with next' [OF h] zero Some r show ?thesis by simp
    next
      case part
      then have "chosen f (js @ i # ks) [i]" using n by (auto simp: chosen_def)
      with part Some r st h show ?thesis by (simp add: same_choice_def)
    next
      case eq
      then have "rarest f (js @ [i]) (ready @ [i]) best" using Cons.prems(4) n by (auto simp: rarest_def)
      with next' [OF h] eq Some r st show ?thesis by simp
    next
      case less
      then have "rarest f (js @ [i]) [i] (Some n)" using Cons.prems(4) n by (fastforce simp: rarest_def split: option.splits)
      with next' [OF h] less Some r st show ?thesis by simp
    next
      case more
      then have "rarest f (js @ [i]) ready best" using Cons.prems(4) n by (auto simp: rarest_def split: option.splits)
      with next' [OF h] more Some r st show ?thesis by (cases best) simp_all
    qed
  qed
qed

text \<open>
  C17: the chunk that \<open>getAChunkToDownload\<close> returns can be asked to a free peer, and it is rarest
  first: either it is partially downloaded, or no chunk that could be asked is and none has fewer free
  peers.  When the file exists, a chunk is returned exactly when one can be asked.
\<close>

theorem getAChunkToDownload_rarest:
  assumes "no_lost_file f" "\<not> us_final (fd_status f)" "\<forall>n > 0. random n < n"
  shows "(\<forall>i f'. getAChunkToDownload random newFile f = (Some i, f') \<longrightarrow>
        i < length (fd_dls f) \<and> nb_free f i > 0 \<and>
        (started f i \<or> (\<forall>j < length (fd_dls f). nb_free f j > 0 \<longrightarrow> \<not> started f j \<and> nb_free f i \<le> nb_free f j))) \<and>
     (fd_exists f \<longrightarrow> (fst (getAChunkToDownload random newFile f) \<noteq> None \<longleftrightarrow> (\<exists>j < length (fd_dls f). nb_free f j > 0)))"
proof -
  obtain ready g where r: "ready_loop [0..<length (fd_dls f)] [] None f = (ready, g)" by (metis surj_pair)
  have ch: "chosen f [0..<length (fd_dls f)] ready" and sc: "same_choice f g"
    using ready_loop_chosen [OF assms(1) refl, of "[]" "[0..<length (fd_dls f)]" "[]" None] r by (simp_all add: rarest_def)
  have ex: "fd_exists g = fd_exists f" using sc fd_viewD(2) [of g f] by (simp add: same_choice_def)
  define i where "i = (if length ready = 1 then hd ready else ready ! random (length ready))"
  have i: "i \<in> set ready" if "ready \<noteq> []"
    using that assms(3) by (simp add: i_def)
  have act: "\<not> (fd_status f = COMPLETE \<or> fd_status f = DELETED \<or> fd_status f = PAUSED)"
    using assms(2) by (auto simp: us_final_def)
  have res: "fst (getAChunkToDownload random newFile f) \<in> {None, Some i}"
    "ready = [] \<Longrightarrow> fst (getAChunkToDownload random newFile f) = None"
    "ready \<noteq> [] \<Longrightarrow> fd_exists f \<Longrightarrow> fst (getAChunkToDownload random newFile f) = Some i"
    unfolding getAChunkToDownload_def if_not_P [OF act] r
    by (simp_all add: i_def ex Let_def case_prod_beta)
  have "fst (getAChunkToDownload random newFile f) = Some k \<Longrightarrow> k = i \<and> ready \<noteq> []" for k
    using res(1,2) by force
  with i ch have A: "fst (getAChunkToDownload random newFile f) = Some k \<Longrightarrow> k < length (fd_dls f) \<and> nb_free f k > 0 \<and>
        (started f k \<or> (\<forall>j < length (fd_dls f). nb_free f j > 0 \<longrightarrow> \<not> started f j \<and> nb_free f k \<le> nb_free f j))" for k
    unfolding chosen_def by (metis atLeastLessThan_iff set_upt subsetD zero_le)
  have B: "ready = [] \<longleftrightarrow> \<not> (\<exists>j < length (fd_dls f). nb_free f j > 0)" using ch by (auto simp: chosen_def)
  show ?thesis
  proof (intro conjI allI impI)
    fix k f' assume "getAChunkToDownload random newFile f = (Some k, f')"
    then show "k < length (fd_dls f)" "nb_free f k > 0"
      "started f k \<or> (\<forall>j < length (fd_dls f). nb_free f j > 0 \<longrightarrow> \<not> started f j \<and> nb_free f k \<le> nb_free f j)"
      using A [of k] by simp_all
  next
    assume "fd_exists f"
    then show "fst (getAChunkToDownload random newFile f) \<noteq> None \<longleftrightarrow> (\<exists>j < length (fd_dls f). nb_free f j > 0)"
      using B res(2,3) by auto
  qed
qed

subsection \<open>A file of two chunks\<close>

definition sample_dl_env :: dl_env where
  "sample_dl_env = \<lparr>e_peers = two_peers, e_links = no_links, e_occ = {}\<rparr>"

definition sample_fdl :: "hash option list \<Rightarrow> fdl" where
  "sample_fdl hashes = new_fdl 2 QUEUED (2 * length hashes) hashes True False (Some 0) (p_id (two_peers 0)) {} sample_dl_env"

definition whole_chunk :: chunk where
  "whole_chunk = \<lparr>ch_known = 2, ch_complete = True, ch_hash = [1]\<rparr>"

definition no_file :: new_file_result where
  "no_file = (Inl CreateFileError, False)"

lemma sample_fdl_reachable: "fd_reachable (sample_fdl hashes)"
  unfolding sample_fdl_def by (rule fd_new)


text \<open>Two chunks without hash known from their source, which is asked for them.\<close>

theorem getAChunkToDownload_rarest_witness:
  "let f = snd (fd_call 1 (plain (addPeer 1)) (fd_peerSourceBecomesAvailable (Some 0) (sample_fdl [Some [1], Some [2]]))) in
   fst (getAChunkToDownload (\<lambda>n. n - 1) no_file f) \<noteq> None"
proof -
  define f where "f = snd (fd_call 1 (plain (addPeer 1)) (fd_peerSourceBecomesAvailable (Some 0) (sample_fdl [Some [1], Some [2]])))"
  have ev: "list_all (\<lambda>d. case d of None \<Rightarrow> True | Some cd \<Rightarrow> cd_last cd = QUEUED) (fd_dls f) \<and> \<not> us_final (fd_status f) \<and>
      fd_exists f \<and> 0 < length (fd_dls f) \<and> nb_free f 0 > 0"
    unfolding f_def by code_simp
  then have "no_lost_file f" by (auto simp: no_lost_file_def list_all_iff)
  then have "(\<exists>j < length (fd_dls f). nb_free f j > 0) \<longrightarrow> fst (getAChunkToDownload (\<lambda>n. n - 1) no_file f) \<noteq> None"
    using getAChunkToDownload_rarest [of f "\<lambda>n. n - 1" no_file] ev by simp
  with ev show ?thesis unfolding f_def [symmetric] Let_def by blast
qed

subsection \<open>Where the code does not do what it means to\<close>

text \<open>
  While the hashes of a file arrive, a chunk of it is being downloaded.  When another peer has answered
  a request for hashes the manager calls \<open>retrieveHashes\<close> on the downloads of the queue: here it
  replaces the running request and drops it, because the peer is occupied by this very request, and
  nothing frees the peer any more.
\<close>

definition receiving_hashes :: fdl where
  "receiving_hashes =
     (let f = fd_start (\<lambda>_. True) (\<lambda>_. []) no_file (sample_fdl [Some [1], None]) in
      snd (fd_call 0 (plain (\<lambda>w. snd (startDownloading (\<lambda>_. True) (w\<lparr>w_cd := setChunk (whole_chunk\<lparr>ch_complete := False\<rparr>) (w_cd w)\<rparr>)))) f))"

theorem retrieveHashes_drops_its_request:
  "fd_reachable receiving_hashes \<and> fd_request receiving_hashes \<and> fd_nbHashes receiving_hashes < fd_nbChunk receiving_hashes \<and>
   (let f = snd (retrieveHashes (\<lambda>_. True) receiving_hashes)
    in \<not> fd_request f \<and> p_id (two_peers 0) \<in> fd_occHashes f \<and> fd_nbHashes f < fd_nbChunk f)"
proof -
  let ?f = "fd_start (\<lambda>_. True) (\<lambda>_. []) no_file (sample_fdl [Some [1], None])"
  have dls: "0 < length (fd_dls ?f) \<and> fd_dls ?f ! 0 \<noteq> None" by code_simp
  have "fd_reachable ?f" by (rule fd_next [OF sample_fdl_reachable step_start])
  then have "fd_reachable receiving_hashes"
    unfolding receiving_hashes_def Let_def by (rule fd_next [OF _ step_chunk]) (use dls in auto)
  moreover have "fd_request receiving_hashes \<and> fd_nbHashes receiving_hashes < fd_nbChunk receiving_hashes \<and>
     (let f = snd (retrieveHashes (\<lambda>_. True) receiving_hashes)
      in \<not> fd_request f \<and> p_id (two_peers 0) \<in> fd_occHashes f \<and> fd_nbHashes f < fd_nbChunk f)"
    by code_simp
  ultimately show ?thesis by blast
qed

text \<open>The file disappears while the hash of its second chunk is not known: \<open>reset\<close> calls the null downloader.\<close>

theorem lost_file_dereferences_null:
  "\<exists>f. fd_reachable f \<and> \<not> fd_ub f \<and> fd_ub (fd_updateStatus f)"
proof -
  let ?f = "sample_fdl [Some [1], None]" and ?op = "\<lambda>w. w\<lparr>w_cd := (w_cd w)\<lparr>cd_last := FILE_NON_EXISTENT\<rparr>\<rparr>"
  have dls: "0 < length (fd_dls ?f) \<and> fd_dls ?f ! 0 \<noteq> None" by code_simp
  have "fd_reachable (snd (fd_call 0 (plain ?op) ?f))"
    by (rule fd_next [OF sample_fdl_reachable step_chunk]) (use dls in auto)
  moreover have "\<not> fd_ub (snd (fd_call 0 (plain ?op) ?f)) \<and> fd_ub (fd_updateStatus (snd (fd_call 0 (plain ?op) ?f)))"
    by code_simp
  ultimately show ?thesis by blast
qed

text \<open>
  \<open>getUnfinishedChunks\<close> starts at the number of chunks already asked, as if it were the index of the
  next one: with a null downloader in front, the second chunk is returned twice, the third never, and
  the file is marked as entirely asked.
\<close>

theorem unfinished_chunk_never_asked:
  "let f = sample_fdl [None, Some [1], Some [2]];
       (first, f1) = getUnfinishedChunks 10 1 True f;
       (second, f2) = getUnfinishedChunks 20 1 True f1
   in fd_reachable f \<and> first = [1] \<and> second = [1] \<and> fd_lastTime f2 = Some 20 \<and> fd_asked f2 = 0"
proof -
  have "let f = sample_fdl [None, Some [1], Some [2]];
       (first, f1) = getUnfinishedChunks 10 1 True f;
       (second, f2) = getUnfinishedChunks 20 1 True f1
   in first = [1] \<and> second = [1] \<and> fd_lastTime f2 = Some 20 \<and> fd_asked f2 = 0"
    by code_simp
  with sample_fdl_reachable show ?thesis by (simp add: Let_def case_prod_beta)
qed

end
