(* ===== verification/Dir_Download.thy ===== *)
theory Dir_Download
  imports Peers_In_Use Download_Queue
begin

text \<open>
  The download of a directory, \<open>Core/DownloadManager/priv/DirDownload.cpp\<close>: it asks its source
  for the entries of the directory, which then replace it in the queue.

  \<open>dd_occ\<close> is \<open>occupiedPeersAskingForEntries\<close>, shared with the other directories.  The signals
  and the retry timer are logged.
\<close>

subsection \<open>State\<close>

text \<open>What is used of a \<open>Protos::Common::Entry\<close>.\<close>

record pentry =
  pe_dir :: bool
  pe_name :: string
  pe_path :: string
  pe_size :: nat
  pe_hashes :: "hash option list"
  pe_shared :: "hash option"       \<comment> \<open>\<open>shared_entry().id().hash()\<close>\<close>
  pe_exists :: bool
  pe_isEmpty :: bool

datatype dd_event = DirErroneous | NewEntries "pentry list" | RetryEntries | EntriesFreePeer peer_ref

record ddl =
  dd_status :: status
  dd_remote :: pentry
  dd_local :: pentry
  dd_peerSource :: "peer_ref option"
  dd_peerSourceID :: hash
  dd_request :: bool               \<comment> \<open>whether \<open>getEntriesResult\<close> is set\<close>
  dd_peers :: peer_heap
  dd_occ :: occupied
  dd_log :: "dd_event list"

definition log_dd :: "dd_event \<Rightarrow> ddl \<Rightarrow> ddl" where
  "log_dd e d = d\<lparr>dd_log := dd_log d @ [e]\<rparr>"

definition dd_setStatus :: "status \<Rightarrow> ddl \<Rightarrow> ddl" where
  "dd_setStatus s d =
     (if dd_status d = s then d
      else (let d = (if \<not> isStatusErroneous (dd_status d) \<and> status_code s \<ge> 0x20 then log_dd DirErroneous d else d)
            in d\<lparr>dd_status := s\<rparr>))"

text \<open>The constructor of \<open>Download\<close> replaces the colons of the local path and name.\<close>

definition no_colon :: "string \<Rightarrow> string" where
  "no_colon s = map (\<lambda>c. if c = CHR 0x3A then CHR 0x5F else c) s"

definition local_of :: "pentry \<Rightarrow> pentry" where
  "local_of e = e\<lparr>pe_path := no_colon (pe_path e), pe_name := no_colon (pe_name e)\<rparr>"

definition new_ddl :: "pentry \<Rightarrow> pentry \<Rightarrow> peer_ref option \<Rightarrow> hash \<Rightarrow> peer_heap \<Rightarrow> occupied \<Rightarrow> ddl" where
  "new_ddl remoteEntry localEntry peerSource peerSourceID ph occ =
     \<lparr>dd_status = QUEUED, dd_remote = remoteEntry, dd_local = local_of localEntry, dd_peerSource = peerSource,
      dd_peerSourceID = peerSourceID, dd_request = False, dd_peers = ph, dd_occ = occ, dd_log = []\<rparr>"

subsection \<open>Operations\<close>

definition dd_free :: "ddl \<Rightarrow> ddl" where
  "dd_free d = (case dd_peerSource d of
     None \<Rightarrow> d
   | Some p \<Rightarrow> (let (occ, free) = setPeerAsFree (dd_peers d) (Some p) (dd_occ d)
                in fold (\<lambda>q. log_dd (EntriesFreePeer q)) free (d\<lparr>dd_occ := occ\<rparr>)))"

text \<open>\<open>canAsk p\<close> tells whether \<open>p->getEntries\<close> returns a request.\<close>

definition retrieveEntries :: "(peer_ref \<Rightarrow> bool) \<Rightarrow> ddl \<Rightarrow> bool \<times> ddl" where
  "retrieveEntries canAsk d =
     (if isStatusErroneous (dd_status d) \<or> dd_status d = ENTRY_NOT_FOUND \<or> dd_status d = DELETED then (False, d)
      else (case dd_peerSource d of
              None \<Rightarrow> (False, dd_setStatus UNKNOWN_PEER_SOURCE d)
            | Some p \<Rightarrow>
                (let d = d\<lparr>dd_request := canAsk p\<rparr> in
                 if \<not> canAsk p then (False, d\<lparr>dd_request := False\<rparr>)
                 else (let (granted, occ) = setPeerAsOccupied (dd_peers d) (Some p) (dd_occ d); d = d\<lparr>dd_occ := occ\<rparr>
                       in if \<not> granted then (False, d\<lparr>dd_request := False\<rparr>) else (True, d)))))"

definition dd_updateStatus :: "ddl \<Rightarrow> bool \<times> ddl" where
  "dd_updateStatus d =
     (if dd_status d = DELETED \<or> dd_status d = COMPLETE \<or> dd_status d = PAUSED then (True, d)
      else (False, if (case dd_peerSource d of None \<Rightarrow> True | Some p \<Rightarrow> \<not> p_available (dd_peers d p))
                   then dd_setStatus UNKNOWN_PEER_SOURCE d else dd_setStatus QUEUED d))"

definition retryToGetEntries :: "(peer_ref \<Rightarrow> bool) \<Rightarrow> ddl \<Rightarrow> ddl" where
  "retryToGetEntries canAsk d = snd (retrieveEntries canAsk (dd_setStatus QUEUED d))"

datatype entries_status = EntriesOK | EntriesDontHave | EntriesScanning | EntriesError

text \<open>\<open>entries.result(0)\<close>, if there is one: its status and its entries, if it has any.\<close>

definition dd_result :: "(entries_status \<times> pentry list option) option \<Rightarrow> ddl \<Rightarrow> ddl" where
  "dd_result r d =
     (case r of
        Some (EntriesOK, es) \<Rightarrow>
          (let copy = (case es of None \<Rightarrow> [] | Some es \<Rightarrow> map (\<lambda>e. e\<lparr>pe_shared := pe_shared (dd_remote d)\<rparr>) es)
           in log_dd (NewEntries copy) (d\<lparr>dd_request := False\<rparr>))
      | _ \<Rightarrow>
          (let d = dd_setStatus (case r of None \<Rightarrow> ENTRY_NOT_FOUND
                                  | Some (EntriesDontHave, _) \<Rightarrow> ENTRY_NOT_FOUND
                                  | Some (EntriesScanning, _) \<Rightarrow> REMOTE_SCANNING_IN_PROGRESS
                                  | _ \<Rightarrow> UNABLE_TO_GET_ENTRIES) d
           in log_dd RetryEntries (dd_free (d\<lparr>dd_request := False\<rparr>))))"

definition dd_resultTimeout :: "ddl \<Rightarrow> ddl" where
  "dd_resultTimeout d = log_dd RetryEntries (dd_free ((dd_setStatus UNABLE_TO_GET_ENTRIES d)\<lparr>dd_request := False\<rparr>))"

text \<open>\<open>Download::peerSourceBecomesAvailable\<close> and \<open>peerBecomesUnavailable\<close>.\<close>

definition dd_peerSourceBecomesAvailable :: "peer_ref option \<Rightarrow> ddl \<Rightarrow> ddl" where
  "dd_peerSourceBecomesAvailable peer d =
     (case peer of None \<Rightarrow> d
      | Some p \<Rightarrow> if p_id (dd_peers d p) \<noteq> dd_peerSourceID d then d else d\<lparr>dd_peerSource := Some p\<rparr>)"

definition dd_peerBecomesUnavailable :: "peer_ref option \<Rightarrow> ddl \<Rightarrow> ddl" where
  "dd_peerBecomesUnavailable peer d =
     (case peer of
        None \<Rightarrow> d
      | Some p \<Rightarrow>
          (let isSourcePeer = (p_id (dd_peers d p) = dd_peerSourceID d);
               d = (if isSourcePeer \<and> dd_request d
                    then (let d = d\<lparr>dd_request := False, dd_occ := removePeer (dd_peers d) (Some p) (dd_occ d)\<rparr>
                          in if \<not> isStatusErroneous (dd_status d) \<and> dd_status d \<noteq> DELETED
                             then dd_setStatus UNKNOWN_PEER_SOURCE d else d)
                    else d)
           in if dd_peerSource d \<noteq> None \<and> isSourcePeer then d\<lparr>dd_peerSource := None\<rparr> else d))"

text \<open>\<open>newDirectory\<close> is what \<open>fileManager->newDirectory\<close> throws, if it does.\<close>

definition createDirectory :: "status option \<Rightarrow> ddl \<Rightarrow> ddl" where
  "createDirectory newDirectory d =
     (if pe_isEmpty (dd_remote d) then (case newDirectory of None \<Rightarrow> d | Some s \<Rightarrow> dd_setStatus s d) else d)"

definition dd_start :: "(peer_ref \<Rightarrow> bool) \<Rightarrow> status option \<Rightarrow> ddl \<Rightarrow> ddl" where
  "dd_start canAsk newDirectory d = snd (retrieveEntries canAsk (createDirectory newDirectory (snd (dd_updateStatus d))))"

definition dd_destroy :: "ddl \<Rightarrow> ddl" where
  "dd_destroy d = (dd_free (dd_setStatus DELETED d))\<lparr>dd_request := False\<rparr>"

subsection \<open>Requests and occupied peers\<close>

lemma log_dd_frame [simp]:
  "dd_status (log_dd e d) = dd_status d" "dd_peerSource (log_dd e d) = dd_peerSource d" "dd_request (log_dd e d) = dd_request d"
  "dd_occ (log_dd e d) = dd_occ d" "dd_peers (log_dd e d) = dd_peers d" "dd_peerSourceID (log_dd e d) = dd_peerSourceID d"
  by (simp_all add: log_dd_def)

lemma dd_setStatus_frame [simp]:
  "dd_status (dd_setStatus s d) = s" "dd_peerSource (dd_setStatus s d) = dd_peerSource d" "dd_request (dd_setStatus s d) = dd_request d"
  "dd_occ (dd_setStatus s d) = dd_occ d" "dd_peers (dd_setStatus s d) = dd_peers d" "dd_peerSourceID (dd_setStatus s d) = dd_peerSourceID d"
  by (simp_all add: dd_setStatus_def Let_def)

lemma dd_free_frame:
  "dd_status (dd_free d) = dd_status d" "dd_peerSource (dd_free d) = dd_peerSource d" "dd_request (dd_free d) = dd_request d"
  "dd_peers (dd_free d) = dd_peers d"
  "dd_occ (dd_free d) = (case dd_peerSource d of None \<Rightarrow> dd_occ d | Some p \<Rightarrow> dd_occ d - {p_id (dd_peers d p)})"
proof -
  have "dd_status (fold (\<lambda>q. log_dd (EntriesFreePeer q)) qs g) = dd_status g \<and>
      dd_peerSource (fold (\<lambda>q. log_dd (EntriesFreePeer q)) qs g) = dd_peerSource g \<and>
      dd_request (fold (\<lambda>q. log_dd (EntriesFreePeer q)) qs g) = dd_request g \<and>
      dd_peers (fold (\<lambda>q. log_dd (EntriesFreePeer q)) qs g) = dd_peers g \<and>
      dd_occ (fold (\<lambda>q. log_dd (EntriesFreePeer q)) qs g) = dd_occ g" for qs g
    by (induction qs arbitrary: g) simp_all
  then show "dd_status (dd_free d) = dd_status d" "dd_peerSource (dd_free d) = dd_peerSource d" "dd_request (dd_free d) = dd_request d"
    "dd_peers (dd_free d) = dd_peers d"
    "dd_occ (dd_free d) = (case dd_peerSource d of None \<Rightarrow> dd_occ d | Some p \<Rightarrow> dd_occ d - {p_id (dd_peers d p)})"
    by (auto simp: dd_free_def setPeerAsFree_def split: option.split)
qed

text \<open>
  a directory asks its source only when no request runs with that peer, marks it occupied when
  it asks, and whatever ends the request (an error, a timeout, the departure of the peer) leaves the
  peer free and the directory without request.
\<close>

theorem entries_request_life:
  assumes "dd_peerSource d = Some p" "\<not> dd_request d"
  shows "let i = p_id (dd_peers d p); (asked, d') = retrieveEntries canAsk d in
     dd_request d' = asked \<and> (asked \<longrightarrow> i \<notin> dd_occ d \<and> dd_occ d' = insert i (dd_occ d)) \<and> (\<not> asked \<longrightarrow> dd_occ d' = dd_occ d) \<and>
     (asked \<longrightarrow> (\<forall>d'' \<in> {dd_result None d', dd_result (Some (EntriesError, es)) d', dd_resultTimeout d'}.
        \<not> dd_request d'' \<and> dd_occ d'' = dd_occ d) \<and>
        (dd_peerSourceID d = i \<longrightarrow> \<not> dd_request (dd_peerBecomesUnavailable (Some p) d') \<and> dd_occ (dd_peerBecomesUnavailable (Some p) d') = dd_occ d))"
proof -
  obtain asked d' where r: "retrieveEntries canAsk d = (asked, d')" by (metis surj_pair)
  have d': "dd_request d' = asked" "dd_peers d' = dd_peers d" "dd_peerSource d' = Some p" "dd_peerSourceID d' = dd_peerSourceID d"
    "asked \<Longrightarrow> p_id (dd_peers d p) \<notin> dd_occ d \<and> dd_occ d' = insert (p_id (dd_peers d p)) (dd_occ d)"
    "\<not> asked \<Longrightarrow> dd_occ d' = dd_occ d"
    using r assms by (auto simp: retrieveEntries_def setPeerAsOccupied_def Let_def split: if_splits)
  have ended: "\<not> dd_request d'' \<and> dd_occ d'' = dd_occ d"
    if "asked" "d'' \<in> {dd_result None d', dd_result (Some (EntriesError, es)) d', dd_resultTimeout d'}" for d''
    using that d' by (auto simp: dd_result_def dd_resultTimeout_def dd_free_frame Let_def)
  have gone: "\<not> dd_request (dd_peerBecomesUnavailable (Some p) d') \<and> dd_occ (dd_peerBecomesUnavailable (Some p) d') = dd_occ d"
    if "asked" "dd_peerSourceID d = p_id (dd_peers d p)"
    using that d' by (auto simp: dd_peerBecomesUnavailable_def removePeer_def Let_def)
  show ?thesis using d' ended gone by (auto simp: r Let_def)
qed

definition sample_dir :: "string \<Rightarrow> pentry" where
  "sample_dir name = \<lparr>pe_dir = True, pe_name = name, pe_path = ''/'', pe_size = 0, pe_hashes = [], pe_shared = None,
                      pe_exists = False, pe_isEmpty = False\<rparr>"

definition sample_ddl :: ddl where
  "sample_ddl = new_ddl (sample_dir ''music'') (sample_dir ''music'') (Some 0) [1] two_peers {}"

theorem entries_request_life_witness:
  "fst (retrieveEntries (\<lambda>_. True) sample_ddl) \<and>
   dd_occ (dd_resultTimeout (snd (retrieveEntries (\<lambda>_. True) sample_ddl))) = {}"
proof -
  have a: "fst (retrieveEntries (\<lambda>_. True) sample_ddl)" by code_simp
  have s: "dd_peerSource sample_ddl = Some 0" "\<not> dd_request sample_ddl" "dd_occ sample_ddl = {}"
    by (simp_all add: sample_ddl_def new_ddl_def)
  show ?thesis using entries_request_life [OF s(1,2), of "\<lambda>_. True" None] a s(3) by (simp add: Let_def case_prod_beta)
qed

text \<open>
  The manager calls \<open>retrieveEntries\<close> on every directory of the queue until one sends a request.  On
  a directory that waits for an answer it replaces the running request, cannot occupy the peer, which
  this request occupies, and drops the request: the answer is lost and the peer stays occupied.
\<close>

theorem retrieveEntries_drops_its_request:
  "let waiting = dd_start (\<lambda>_. True) None sample_ddl; (asked, d) = retrieveEntries (\<lambda>_. True) waiting
   in dd_request waiting \<and> \<not> asked \<and> \<not> dd_request d \<and> dd_status d = QUEUED \<and> dd_occ d = {[1]}"
  by code_simp

text \<open>
  The destructor frees the peer also when the directory does not wait for an answer: another directory
  of the same peer may be, which is then asked for a second one at the same time.
\<close>

theorem destroy_frees_a_peer_in_use:
  "let waiting = dd_start (\<lambda>_. True) None sample_ddl;
       other = new_ddl (sample_dir ''films'') (sample_dir ''films'') (Some 0) [1] two_peers (dd_occ waiting)
   in dd_request waiting \<and> dd_occ waiting = {[1]} \<and> \<not> dd_request other \<and> dd_occ (dd_destroy other) = {}"
  by code_simp

end
