(* ===== verification/Word_Node.thy ===== *)
theory Word_Node
  imports Dg_Prelude
begin

text \<open>
  The tree behind the search of files by name: \<open>Core/FileManager/priv/WordIndex/Node.h\<close>, a
  Patricia tree whose nodes hold a part of a word, the items of the word that ends there and the
  nodes that continue it; and \<open>StringUtils::commonPrefix\<close> (\<open>Common/StringUtils.h\<close>).

  A \<open>Node*\<close> is the tree below it.  The pair \<open>(parent, index)\<close> that \<open>getNode\<close> returns is the
  path of the parent, as the indexes of its ancestors from the root, and the index.
\<close>

subsection \<open>Nodes\<close>

datatype ('c, 'a) wnode = WNode (part: "'c list") (children: "('c, 'a) wnode list") (items: "'a list")

definition root_node :: "('c, 'a) wnode" where
  "root_node = WNode [] [] []"

fun commonPrefix :: "'c list \<Rightarrow> 'c list \<Rightarrow> nat" where
  "commonPrefix (a # s1) (b # s2) = (if a \<noteq> b then 0 else Suc (commonPrefix s1 s2))"
| "commonPrefix _ _ = 0"

text \<open>The loop of \<open>addItem\<close> over the children, with the recursion into one of them.\<close>

fun add_child :: "'c list \<Rightarrow> 'a \<Rightarrow> ('c, 'a) wnode list \<Rightarrow> ('c, 'a) wnode list" where
  "add_child word item [] = [WNode word [] [item]]"
| "add_child word item (WNode q cs its # rest) =
     (let p = commonPrefix word q in
      if p \<noteq> 0
      then (if p = length word
            then (if p = length q then WNode q cs (its @ [item])
                  else WNode word [WNode (drop p q) cs its] [item])
            else if p = length q then WNode q (add_child (drop p word) item cs) its
            else WNode (take p word) [WNode (drop p q) cs its, WNode (drop p word) [] [item]] []) # rest
      else WNode q cs its # add_child word item rest)"

definition addItem :: "'c list \<Rightarrow> 'a \<Rightarrow> ('c, 'a) wnode \<Rightarrow> ('c, 'a) wnode" where
  "addItem word item n = WNode (part n) (add_child word item (children n)) (items n)"

text \<open>The loop of \<open>getNode\<close> over the children from index \<open>i\<close> on; \<open>word\<close> is what is left of the word.\<close>

fun get_node :: "bool \<Rightarrow> 'c list \<Rightarrow> nat \<Rightarrow> ('c, 'a) wnode list \<Rightarrow> (nat list \<times> nat) option" where
  "get_node exact word i [] = None"
| "get_node exact word i (WNode q cs its # rest) =
     (let p = commonPrefix word q in
      if p \<noteq> 0
      then (if p = length q
            then (if p = length word then Some ([], i)
                  else (case get_node exact (drop p word) 0 cs of
                          None \<Rightarrow> None | Some (path, j) \<Rightarrow> Some (i # path, j)))
            else if p = length word then (if exact then None else Some ([], i))
            else None)
      else get_node exact word (Suc i) rest)"

definition getNode :: "'c list \<Rightarrow> bool \<Rightarrow> ('c, 'a) wnode \<Rightarrow> (nat list \<times> nat) option" where
  "getNode word exactMatch n = get_node exactMatch word 0 (children n)"

fun node_at :: "nat list \<Rightarrow> ('c, 'a) wnode \<Rightarrow> ('c, 'a) wnode" where
  "node_at [] n = n"
| "node_at (i # path) n = node_at path (children n ! i)"

fun change_at :: "nat list \<Rightarrow> (('c, 'a) wnode \<Rightarrow> ('c, 'a) wnode) \<Rightarrow> ('c, 'a) wnode \<Rightarrow> ('c, 'a) wnode" where
  "change_at [] f n = f n"
| "change_at (i # path) f n = WNode (part n) ((children n)[i := change_at path f (children n ! i)]) (items n)"

subsection \<open>Searching\<close>

text \<open>
  The loop of \<open>getItems\<close>, before its limit: the flag tells whether the node is the one the
  search started from.  It visits the nodes in the order of a queue, so the measure is the number
  of nodes below those in the queue.
\<close>

fun forest_size :: "('c, 'a) wnode list \<Rightarrow> nat" where
  "forest_size [] = 0"
| "forest_size (WNode q cs its # rest) = Suc (forest_size cs + forest_size rest)"

lemma forest_size_append [simp]: "forest_size (xs @ ys) = forest_size xs + forest_size ys"
  by (induction xs rule: forest_size.induct) simp_all

function bfs :: "bool \<Rightarrow> ('a \<Rightarrow> bool) \<Rightarrow> (bool \<times> ('c, 'a) wnode) list \<Rightarrow> ('a \<times> nat) list" where
  "bfs alsoFromSubNodes predicat [] = []"
| "bfs alsoFromSubNodes predicat ((first, n) # rest) =
     map (\<lambda>x. (x, if first then 0 else 1)) (filter predicat (items n)) @
     (if \<not> alsoFromSubNodes then [] else bfs alsoFromSubNodes predicat (rest @ map (Pair False) (children n)))"
  by pat_completeness auto
termination
proof (relation "measure (\<lambda>(_, _, q). forest_size (map snd q))")
  fix b :: bool and P :: "'a \<Rightarrow> bool" and f :: bool and n :: "('c, 'a) wnode" and rest
  show "((b, P, rest @ map (Pair False) (children n)), (b, P, (f, n) # rest)) \<in> measure (\<lambda>(_, _, q). forest_size (map snd q))"
    by (cases n) (simp add: comp_def)
qed simp

text \<open>The results are collected until there are \<open>maxNbResult\<close> of them; a maximum of 0 is never met.\<close>

definition getItems :: "bool \<Rightarrow> int \<Rightarrow> ('a \<Rightarrow> bool) \<Rightarrow> ('c, 'a) wnode \<Rightarrow> ('a \<times> nat) list" where
  "getItems alsoFromSubNodes maxNbResult predicat n =
     (let found = bfs alsoFromSubNodes predicat [(True, n)]
      in if maxNbResult \<le> 0 then found else take (nat maxNbResult) found)"

definition search :: "'c list \<Rightarrow> bool \<Rightarrow> int \<Rightarrow> ('a \<Rightarrow> bool) \<Rightarrow> ('c, 'a) wnode \<Rightarrow> ('a \<times> nat) list" where
  "search word alsoFromSubNodes maxNbResult predicat n =
     (case getNode word (\<not> alsoFromSubNodes) n of
        None \<Rightarrow> []
      | Some (path, i) \<Rightarrow> getItems alsoFromSubNodes maxNbResult predicat (children (node_at path n) ! i))"

subsection \<open>Removing\<close>

text \<open>\<open>remove i\<close> on a node: it merges a child that has nothing left with its own child.\<close>

fun node_count :: "('c, 'a) wnode \<Rightarrow> nat" where
  "node_count (WNode q cs its) = Suc (forest_size cs)"

lemma forest_size_Cons: "forest_size (n # ns) = node_count n + forest_size ns"
  by (cases n) simp

lemma forest_size_nth: "i < length ns \<Longrightarrow> forest_size ns = node_count (ns ! i) + forest_size (remove_at i ns)"
proof (induction ns arbitrary: i)
  case (Cons n ns)
  then show ?case by (cases i) (simp_all add: forest_size_Cons remove_at_def)
qed simp

lemma forest_size_update: "i < length ns \<Longrightarrow> forest_size (ns[i := n]) + node_count (ns ! i) = forest_size ns + node_count n"
  by (induction ns arbitrary: i) (auto simp: forest_size_Cons split: nat.split)

lemma node_remove_smaller:
  assumes "\<not> length (children n) \<le> i"
  shows "node_count (WNode q (remove_at i (children n)) its) < node_count n"
    and "node_count (WNode q (remove_at i (children n @ children (children n ! i))) its) < node_count n"
    and "node_count (children n ! i) < node_count n"
proof -
  obtain q' cs its' where n: "n = WNode q' cs its'" by (cases n)
  obtain p ds js where d: "cs ! i = WNode p ds js" by (cases "cs ! i")
  have sz: "forest_size cs = node_count (cs ! i) + forest_size (remove_at i cs)"
    using assms n by (intro forest_size_nth) simp
  then show "node_count (WNode q (remove_at i (children n)) its) < node_count n"
    "node_count (children n ! i) < node_count n"
    using n d by simp_all
  have "remove_at i (cs @ ds) = remove_at i cs @ ds" using assms n by (simp add: remove_at_append1)
  then show "node_count (WNode q (remove_at i (children n @ children (children n ! i))) its) < node_count n"
    using sz n d by simp
qed

function node_remove :: "nat \<Rightarrow> ('c, 'a) wnode \<Rightarrow> ('c, 'a) wnode" where
  "node_remove i n =
     (if i \<ge> length (children n) then n
      else (let d = children n ! i in
            if children d = [] \<and> items d = []
            then (let n = WNode (part n) (remove_at i (children n)) (items n)
                  in if length (children n) = 1 then node_remove 0 n else n)
            else if items n = [] \<and> length (children n) = 1
            then (let n = WNode (part n @ part d) (remove_at i (children n @ children d)) (items n @ items d)
                  in if length (children n) = 1 then node_remove 0 n else n)
            else if length (children d) = 1 \<and> items d = []
            then WNode (part n) ((children n)[i := node_remove 0 d]) (items n)
            else n))"
  by pat_completeness auto
termination
  by (relation "measure (\<lambda>(i, n). node_count n)") 
    (simp_all only: node_remove_smaller in_measure case_prod_conv wf_measure simp_thms)

declare node_remove.simps [simp del]

definition rmItem :: "'c list \<Rightarrow> 'a \<Rightarrow> ('c, 'a) wnode \<Rightarrow> bool \<times> ('c, 'a) wnode" where
  "rmItem word item n =
     (case getNode word True n of
        None \<Rightarrow> (False, n)
      | Some (path, i) \<Rightarrow>
          (let node = children (node_at path n) ! i in
           if items node = [item]
           then (True, change_at path (\<lambda>m. node_remove i
                   (WNode (part m) ((children m)[i := WNode (part node) (children node) []]) (items m))) n)
           else (item \<in> set (items node),
                 change_at path (\<lambda>m. WNode (part m) ((children m)[i := WNode (part node) (children node) (remove1 item (items node))])
                                       (items m)) n)))"

subsection \<open>What the tree indexes\<close>

text \<open>The items of a word: the abstract content of the children of a node.\<close>

fun lookup :: "('c, 'a) wnode list \<Rightarrow> 'c list \<Rightarrow> 'a list" where
  "lookup [] word = []"
| "lookup (WNode q cs its # rest) word =
     (if q \<noteq> [] \<and> take (length q) word = q
      then (if word = q then its else lookup cs (drop (length q) word))
      else lookup rest word)"

text \<open>No part is empty and siblings start with different characters.\<close>

fun wf_forest :: "('c, 'a) wnode list \<Rightarrow> bool" where
  "wf_forest [] = True"
| "wf_forest (WNode q cs its # rest) =
     (q \<noteq> [] \<and> wf_forest cs \<and> wf_forest rest \<and> (\<forall>n \<in> set rest. hd (part n) \<noteq> hd q))"

lemma commonPrefix_props:
  "commonPrefix u v \<le> length u" "commonPrefix u v \<le> length v"
  "take (commonPrefix u v) u = take (commonPrefix u v) v"
  "commonPrefix u v < length u \<Longrightarrow> commonPrefix u v < length v \<Longrightarrow> u ! commonPrefix u v \<noteq> v ! commonPrefix u v"
  by (induction u v rule: commonPrefix.induct) auto

lemma commonPrefix_zero: "u \<noteq> [] \<Longrightarrow> v \<noteq> [] \<Longrightarrow> commonPrefix u v = 0 \<longleftrightarrow> hd u \<noteq> hd v"
  by (cases u; cases v) auto

lemma commonPrefix_take: "commonPrefix u v = length v \<longleftrightarrow> take (length v) u = v"
  by (induction u v rule: commonPrefix.induct) auto

lemma commonPrefix_sym: "commonPrefix u v = commonPrefix v u"
  by (induction u v rule: commonPrefix.induct) auto

lemma lookup_other: "wf_forest ns \<Longrightarrow> w = [] \<or> (\<forall>n \<in> set ns. hd (part n) \<noteq> hd w) \<Longrightarrow> lookup ns w = []"
proof (induction ns w rule: lookup.induct)
  case (2 q cs its rest w)
  have "take (length q) w \<noteq> q"
  proof
    assume t: "take (length q) w = q"
    with 2(3) have "w \<noteq> []" by auto
    moreover have "hd w = hd q" using t 2(3) by (cases w; cases q) auto
    ultimately show False using 2(4) by auto
  qed
  with 2 show ?case by auto
qed simp

text \<open>Where the tree is followed by the first character.\<close>

lemma lookup_Cons:
  assumes "wf_forest (WNode q cs its # rest)" "w \<noteq> []" "hd w = hd q"
  shows "lookup (WNode q cs its # rest) w = (if take (length q) w = q then (if w = q then its else lookup cs (drop (length q) w)) else [])"
  using assms lookup_other [of rest w] by auto

lemma hd_take: "n \<noteq> 0 \<Longrightarrow> hd (take n xs) = hd xs"
  by (cases xs) (auto simp: take_Cons')

lemma add_child_heads:
  assumes "w \<noteq> []" "wf_forest ns"
  shows "(\<lambda>n. hd (part n)) ` set (add_child w x ns) = insert (hd w) ((\<lambda>n. hd (part n)) ` set ns) \<and>
     (hd w \<in> (\<lambda>n. hd (part n)) ` set ns \<longrightarrow> length (add_child w x ns) = length ns)"
  using assms
proof (induction ns)
  case (Cons n ns)
  obtain q cs its where n: "n = WNode q cs its" by (cases n)
  with Cons.prems have q: "q \<noteq> []" by simp
  show ?case
  proof (cases "hd w = hd q")
    case True
    then have p: "commonPrefix w q \<noteq> 0" using commonPrefix_zero [OF Cons.prems(1) q] by simp
    then show ?thesis using True by (auto simp: n Let_def hd_take)
  next
    case False
    then have "commonPrefix w q = 0" using commonPrefix_zero [OF Cons.prems(1) q] by simp
    then show ?thesis using Cons n False by (auto simp: Let_def)
  qed
qed simp

lemma add_child_wf: "w \<noteq> [] \<Longrightarrow> wf_forest ns \<Longrightarrow> wf_forest (add_child w x ns)"
proof (induction w x ns rule: add_child.induct)
  case (2 w x q cs its rest)
  define p where "p = commonPrefix w q"
  note pp = commonPrefix_props [of w q, folded p_def]
  have q: "q \<noteq> []" "wf_forest cs" "wf_forest rest" "\<forall>n \<in> set rest. hd (part n) \<noteq> hd q" using 2(4) by auto
  show ?case
  proof (cases "p = 0")
    case True
    then have hd: "hd w \<noteq> hd q" using commonPrefix_zero [OF 2(3) q(1)] by (simp add: p_def)
    have "wf_forest (add_child w x rest)" using 2(2) [OF p_def] True 2(3) q(3) by simp
    moreover have "hd (part n) \<noteq> hd q" if "n \<in> set (add_child w x rest)" for n
    proof -
      have "hd (part n) \<in> insert (hd w) ((\<lambda>n. hd (part n)) ` set rest)"
        using add_child_heads [OF 2(3) q(3), of x] that by blast
      with hd q(4) show ?thesis by auto
    qed
    ultimately show ?thesis using True q by (simp add: Let_def p_def)
  next
    case False
    then have hd: "hd w = hd q" using commonPrefix_zero [OF 2(3) q(1)] by (simp add: p_def)
    consider (eq) "p = length w" "p = length q" | (word) "p = length w" "p < length q"
      | (sub) "p < length w" "p = length q" | (split) "p < length w" "p < length q"
      using pp by linarith
    then show ?thesis
    proof cases
      case eq
      with False q show ?thesis by (simp add: Let_def p_def)
    next
      case word
      with False q 2(3) hd show ?thesis by (auto simp: Let_def p_def [symmetric])
    next
      case sub
      have "wf_forest (add_child (drop p w) x cs)" using 2(1) [OF p_def] sub False q(2) by simp
      with sub False q show ?thesis by (simp add: Let_def p_def [symmetric])
    next
      case split
      have "hd (drop p w) \<noteq> hd (drop p q)" using split pp(4) by (simp add: hd_drop_conv_nth)
      with split False q hd 2(3) show ?thesis by (auto simp: Let_def p_def [symmetric] hd_take)
    qed
  qed
qed simp

text \<open>A word either continues the part of the node or is looked up in its siblings.\<close>

lemma lookup_append: "q \<noteq> [] \<Longrightarrow> lookup (WNode q cs its # rest) (q @ u) = (if u = [] then its else lookup cs u)"
  by simp

lemma lookup_self: "q \<noteq> [] \<Longrightarrow> lookup (WNode q cs its # rest) q = its"
  by simp

lemma lookup_skip: "q = [] \<or> (\<nexists>u. v = q @ u) \<Longrightarrow> lookup (WNode q cs its # rest) v = lookup rest v"
  by (metis append_take_drop_id lookup.simps(2))

lemma lookup_miss:
  assumes "wf_forest (WNode q cs its # rest)" "\<nexists>u. v = q @ u" "v = [] \<or> hd v = hd q"
  shows "lookup (WNode q cs its # rest) v = []"
proof -
  have "lookup rest v = []" using assms(1,3) by (intro lookup_other) auto
  then show ?thesis using assms(2) by (simp add: lookup_skip del: lookup.simps)
qed

lemma common_split:
  obtains c u' v' where "u = c @ u'" "v = c @ v'" "length c = commonPrefix u v" "u' = [] \<or> v' = [] \<or> hd u' \<noteq> hd v'"
proof -
  let ?p = "commonPrefix u v"
  note p = commonPrefix_props [of u v]
  show ?thesis
  proof
    show "u = take ?p u @ drop ?p u" by simp
    show "v = take ?p u @ drop ?p v" using p(3) by simp
    show "length (take ?p u) = ?p" using p(1) by simp
    show "drop ?p u = [] \<or> drop ?p v = [] \<or> hd (drop ?p u) \<noteq> hd (drop ?p v)"
      using p(4) by (auto simp: hd_drop_conv_nth)
  qed
qed

lemma lookup_add_child:
  "w \<noteq> [] \<Longrightarrow> wf_forest ns \<Longrightarrow> lookup (add_child w x ns) v = (if v = w then lookup ns w @ [x] else lookup ns v)"
proof (induction w x ns arbitrary: v rule: add_child.induct)
  case (1 w x)
  then show ?case by auto
next
  case (2 w x q cs its rest)
  define p where "p = commonPrefix w q"
  have wf: "q \<noteq> []" "wf_forest cs" "wf_forest rest" using 2(4) by auto
  obtain c w' q' where c: "w = c @ w'" "q = c @ q'" "length c = p" and diff: "w' = [] \<or> q' = [] \<or> hd w' \<noteq> hd q'"
    unfolding p_def by (rule common_split [of w q])
  let ?old = "WNode q cs its # rest"
  have miss: "lookup ?old v = []" if "\<nexists>u. v = q @ u" "v = [] \<or> hd v = hd q" for v
    using lookup_miss [OF 2(4) that] .
  show ?case
  proof (cases "p = 0")
    case True
    then have hd: "hd w \<noteq> hd q" using commonPrefix_zero [OF 2(3) wf(1)] by (simp add: p_def)
    have new: "add_child w x ?old = WNode q cs its # add_child w x rest" using True by (simp add: Let_def p_def)
    have IH: "lookup (add_child w x rest) v = (if v = w then lookup rest w @ [x] else lookup rest v)" for v
      using 2(2) [OF p_def] True 2(3) wf(3) by simp
    have nw: "\<nexists>u. w = q @ u" using hd wf(1) 2(3) by (auto simp: Cons_eq_append_conv neq_Nil_conv)
    show ?thesis
    proof (cases "\<exists>u. v = q @ u")
      case True
      then obtain u where "v = q @ u" ..
      with nw wf(1) show ?thesis unfolding new by (auto simp: lookup_append lookup_self simp del: lookup.simps(2))
    next
      case False
      with nw IH show ?thesis unfolding new by (simp add: lookup_skip del: lookup.simps(2))
    qed
  next
    case False
    have hd: "hd w = hd q" using False commonPrefix_zero [OF 2(3) wf(1)] by (simp add: p_def)
    have cne: "c \<noteq> []" using c(3) False by auto
    have lw: "length w = p + length w'" "length q = p + length q'" using c by auto
    have dr: "drop p w = w'" "drop p q = q'" "take p w = c" using c by auto
    note lks = lookup_append lookup_self lookup_skip
    consider (eq) "w' = []" "q' = []" | (word) "w' = []" "q' \<noteq> []" | (sub) "w' \<noteq> []" "q' = []" | (split) "w' \<noteq> []" "q' \<noteq> []" by blast
    then show ?thesis
    proof cases
      case eq
      have new: "add_child w x ?old = WNode q cs (its @ [x]) # rest"
        using eq False lw by (simp add: Let_def p_def [symmetric])
      show ?thesis
        using eq c wf(1) unfolding new by auto
    next
      case word
      have new: "add_child w x ?old = WNode w [WNode q' cs its] [x] # rest"
        using word False lw dr(2) by (simp add: Let_def p_def [symmetric])
      have wc: "w = c" "q = w @ q'" using word c by simp_all
      have nq: "\<nexists>u. w = q @ u" using wc word by auto
      show ?thesis
      proof (cases "\<exists>u. v = w @ u")
        case True
        then obtain u where u: "v = w @ u" ..
        have "lookup (add_child w x ?old) v = (if u = [] then [x] else lookup [WNode q' cs its] u)"
          unfolding new u using 2(3) by (simp add: lookup_append del: lookup.simps(2))
        also have "\<dots> = (if v = w then lookup ?old w @ [x] else lookup ?old v)"
        proof (cases "\<exists>u'. u = q' @ u'")
          case True
          then obtain u' where u': "u = q' @ u'" ..
          then have v: "v = q @ u'" using u wc by simp
          then have "lookup ?old v = (if u' = [] then its else lookup cs u')" "v \<noteq> w"
            using wf(1) nq by (simp add: lookup_append del: lookup.simps(2), blast)
          then show ?thesis using u' word by (simp add: lookup_append del: lookup.simps(2))
        next
          case False
          have "\<nexists>u'. v = q @ u'" using False u wc by auto
          then have "lookup ?old v = []" using hd u 2(3) by (intro miss) auto
          moreover have "lookup ?old w = []" using hd nq by (intro miss) auto
          ultimately show ?thesis using u False by (auto simp: lookup_skip lookup_self simp del: lookup.simps(2))
        qed
        finally show ?thesis .
      next
        case False
        then have "\<nexists>u. v = q @ u" "v \<noteq> w" using wc by auto
        with False show ?thesis unfolding new by (simp add: lookup_skip del: lookup.simps(2))
      qed
    next
      case sub
      have new: "add_child w x ?old = WNode q (add_child w' x cs) its # rest"
        using sub False lw dr(1) by (simp add: Let_def p_def [symmetric])
      have IH: "lookup (add_child w' x cs) u = (if u = w' then lookup cs w' @ [x] else lookup cs u)" for u
      proof -
        have "p \<noteq> length w" "p = length q" "drop p w \<noteq> []" using sub lw by simp_all
        from 2(1) [OF p_def False this wf(2), of u] show ?thesis unfolding dr(1) .
      qed
      have wq: "w = q @ w'" using c sub by simp
      show ?thesis
      proof (cases "\<exists>u. v = q @ u")
        case True
        then obtain u where v: "v = q @ u" ..
        have l: "lookup (WNode q cs' its # rest) (q @ u) = (if u = [] then its else lookup cs' u)" for cs' u
          using wf(1) by (rule lookup_append)
        show ?thesis unfolding new unfolding v wq l using IH [of u] IH [of w'] sub by simp
      next
        case False
        with wq show ?thesis unfolding new by (auto simp: lookup_skip lookup_self simp del: lookup.simps(2))
      qed
    next
      case split
      have new: "add_child w x ?old = WNode c [WNode q' cs its, WNode w' [] [x]] [] # rest"
        using split False lw dr by (simp add: Let_def p_def [symmetric])
      have nq: "\<nexists>u. w = q @ u" using c split diff by (auto simp: append_eq_append_conv2 neq_Nil_conv)
      have ow: "lookup ?old w = []" using hd nq by (intro miss) auto
      show ?thesis
      proof (cases "\<exists>u. v = c @ u")
        case True
        then obtain u where u: "v = c @ u" ..
        have hdv: "v = [] \<or> hd v = hd q" using u cne c by simp
        have "lookup (add_child w x ?old) v = (if u = [] then [] else lookup [WNode q' cs its, WNode w' [] [x]] u)"
          unfolding new u using cne by (simp add: lookup_append del: lookup.simps(2))
        also have "\<dots> = (if v = w then lookup ?old w @ [x] else lookup ?old v)"
        proof (cases "\<exists>u'. u = q' @ u'")
          case True
          then obtain u' where u': "u = q' @ u'" ..
          then have v: "v = q @ u'" using u c by simp
          then have "v \<noteq> w" using nq by blast
          then show ?thesis using u' v split wf(1) by (simp add: lookup_append del: lookup.simps(2))
        next
          case False
          have "\<nexists>u'. v = q @ u'" using False u c by auto
          then have ov: "lookup ?old v = []" using hdv by (rule miss)
          show ?thesis
          proof (cases "\<exists>u'. u = w' @ u'")
            case True
            then obtain u' where "u = w' @ u'" ..
            with False ow ov u c split show ?thesis by (auto simp: lks simp del: lookup.simps(2))
          next
            case no: False
            then have "v \<noteq> w" using u c by auto
            with False no ov show ?thesis by (simp add: lookup_skip del: lookup.simps(2))
          qed
        qed
        finally show ?thesis .
      next
        case False
        then have "\<nexists>u. v = q @ u" "v \<noteq> w" using c by auto
        with False show ?thesis unfolding new by (simp add: lookup_skip del: lookup.simps(2))
      qed
    qed
  qed
qed


subsection \<open>What a search finds\<close>

text \<open>The node a path leads to, in a list of children whose indexes start at \<open>i\<close>.\<close>

fun reached :: "nat \<Rightarrow> ('c, 'a) wnode list \<Rightarrow> nat list \<Rightarrow> nat \<Rightarrow> ('c, 'a) wnode" where
  "reached i ns [] j = ns ! (j - i)"
| "reached i ns (k # path) j = children (node_at path (ns ! (k - i))) ! j"

lemma reached_Suc: "i < (case path of [] \<Rightarrow> j | k # _ \<Rightarrow> k) \<Longrightarrow> reached i (n # ns) path j = reached (Suc i) ns path j"
  by (cases path) auto

lemma reached_Cons: "reached i (n # ns) (i # path) j = reached 0 (children n) path j"
  by (cases path) auto

lemma get_node_from: "get_node e w i ns = Some (path, j) \<Longrightarrow> i \<le> (case path of [] \<Rightarrow> j | k # _ \<Rightarrow> k)"
proof (induction e w i ns arbitrary: path rule: get_node.induct)
  case (2 e w i q cs its rest)
  show ?case
  proof (cases "commonPrefix w q = 0")
    case True
    then have "Suc i \<le> (case path of [] \<Rightarrow> j | k # _ \<Rightarrow> k)" using 2(2) [OF refl _ ] 2(3) by simp
    then show ?thesis by linarith
  next
    case False
    then show ?thesis using 2(3) by (auto simp: Let_def split: if_splits option.splits)
  qed
qed simp

text \<open>
  The content of a node seen from above: what follows the part \<open>r\<close> of the word that ends in it.
\<close>

definition below :: "'c list \<Rightarrow> ('c, 'a) wnode \<Rightarrow> 'c list \<Rightarrow> 'a list" where
  "below r m u = (if take (length r) u = r then (if u = r then items m else lookup (children m) (drop (length r) u)) else [])"

lemma lookup_below:
  assumes "wf_forest (WNode q cs its # rest)" "q = c @ r" "c \<noteq> []"
  shows "lookup (WNode q cs its # rest) (c @ u) = below r (WNode q cs its) u"
proof (cases "\<exists>u'. u = r @ u'")
  case True
  then show ?thesis using assms by (auto simp: below_def)
next
  case False
  then have "take (length r) u \<noteq> r" by (metis append_take_drop_id)
  moreover have "\<nexists>u'. c @ u = q @ u'" using False assms(2) by auto
  then have "lookup (WNode q cs its # rest) (c @ u) = []"
    using assms by (intro lookup_miss) auto
  ultimately show ?thesis by (simp add: below_def del: lookup.simps)
qed

text \<open>A search that may stop inside a part finds the node below which all the continuations are.\<close>

definition found :: "bool \<Rightarrow> 'c list \<Rightarrow> ('c, 'a) wnode list \<Rightarrow> ('c, 'a) wnode option \<Rightarrow> bool" where
  "found exact w ns res =
     (case res of
        None \<Rightarrow> (\<forall>u. (exact \<longrightarrow> u = []) \<longrightarrow> lookup ns (w @ u) = [])
      | Some m \<Rightarrow> (\<exists>r. (exact \<longrightarrow> r = []) \<and> wf_forest (children m) \<and> (\<forall>u. lookup ns (w @ u) = below r m u)))"

lemma found_other:
  assumes "wf_forest (WNode q cs its # rest)" "w \<noteq> []" "hd w \<noteq> hd q"
  shows "found e w (WNode q cs its # rest) res = found e w rest res"
proof -
  have "\<nexists>u'. w @ u = q @ u'" for u
    using assms by (cases w; cases q) auto
  then have "lookup (WNode q cs its # rest) (w @ u) = lookup rest (w @ u)" for u
    by (intro lookup_skip) simp
  then show ?thesis unfolding found_def by presburger
qed

lemma get_node_found:
  "w \<noteq> [] \<Longrightarrow> wf_forest ns \<Longrightarrow>
   found e w ns (map_option (\<lambda>(path, j). reached i ns path j) (get_node e w i ns))"
proof (induction e w i ns rule: get_node.induct)
  case (1 e w i)
  then show ?case by (simp add: found_def)
next
  case (2 e w i q cs its rest)
  define p where "p = commonPrefix w q"
  have wf: "q \<noteq> []" "wf_forest cs" "wf_forest rest" using 2(4) by auto
  let ?ns = "WNode q cs its # rest"
  show ?case
  proof (cases "p = 0")
    case True
    then have hd: "hd w \<noteq> hd q" using commonPrefix_zero [OF 2(3) wf(1)] by (simp add: p_def)
    have IH: "found e w rest (map_option (\<lambda>(path, j). reached (Suc i) rest path j) (get_node e w (Suc i) rest))"
      using 2(2) [OF p_def] True 2(3) wf(3) by simp
    have "map_option (\<lambda>(path, j). reached i ?ns path j) (get_node e w i ?ns) =
      map_option (\<lambda>(path, j). reached (Suc i) rest path j) (get_node e w (Suc i) rest)"
    proof -
      have "reached i ?ns path j = reached (Suc i) rest path j" if "get_node e w (Suc i) rest = Some (path, j)" for path j
        using get_node_from [OF that] by (intro reached_Suc) linarith
      then show ?thesis using True by (auto simp: Let_def p_def intro!: option.map_cong)
    qed
    then show ?thesis using IH found_other [OF 2(4) 2(3) hd] by simp
  next
    case False
    obtain c w' q' where c: "w = c @ w'" "q = c @ q'" "length c = p" and diff: "w' = [] \<or> q' = [] \<or> hd w' \<noteq> hd q'"
      unfolding p_def by (rule common_split [of w q])
    have cne: "c \<noteq> []" using c(3) False by auto
    have lw: "length w = p + length w'" "length q = p + length q'" using c by auto
    have dr: "drop p w = w'" using c by auto
    have bl: "lookup ?ns (c @ u) = below q' (WNode q cs its) u" for u
      using lookup_below [OF 2(4) c(2) cne] .
    consider (here) "w' = []" "q' = [] \<or> \<not> e" | (sub) "w' \<noteq> []" "q' = []" | (no) "q' \<noteq> []" "w' \<noteq> [] \<or> e" by blast
    then show ?thesis
    proof cases
      case here
      then have g: "get_node e w i ?ns = Some ([], i)" using False lw by (auto simp: Let_def p_def [symmetric])
      show ?thesis unfolding g found_def using here c(1) bl wf(2) by (auto intro!: exI [of _ q'])
    next
      case sub
      have "found e w' cs (map_option (\<lambda>(path, j). reached 0 cs path j) (get_node e w' 0 cs))"
      proof -
        have "p = length q" "p \<noteq> length w" "drop p w \<noteq> []" using sub lw by simp_all
        from 2(1) [OF p_def False this wf(2)] show ?thesis unfolding dr .
      qed
      moreover have g: "get_node e w i ?ns = map_option (\<lambda>(path, j). (i # path, j)) (get_node e w' 0 cs)"
        using sub False lw dr by (auto simp: Let_def p_def [symmetric] split: option.splits)
      have "map_option (\<lambda>(path, j). reached i ?ns path j) (get_node e w i ?ns) =
        map_option (\<lambda>(path, j). reached 0 cs path j) (get_node e w' 0 cs)"
        unfolding g by (cases "get_node e w' 0 cs") (auto simp: reached_Cons simp del: reached.simps)
      moreover have "lookup ?ns (w @ u) = lookup cs (w' @ u)" for u
        using bl [of "w' @ u"] sub c(1) by (simp add: below_def)
      then have "found e w ?ns res = found e w' cs res" for res
        unfolding found_def by presburger
      ultimately show ?thesis by (simp only:)
    next
      case no
      then have g: "get_node e w i ?ns = None" using False lw by (auto simp: Let_def p_def [symmetric])
      have "lookup ?ns (w @ u) = []" if "e \<longrightarrow> u = []" for u
      proof -
        have "take (length q') (w' @ u) \<noteq> q'"
          using no diff that by (cases q'; cases w') auto
        then show ?thesis using bl [of "w' @ u"] c(1) by (simp add: below_def)
      qed
      then show ?thesis unfolding g found_def by simp
    qed
  qed
qed


fun all_items :: "('c, 'a) wnode list \<Rightarrow> 'a set" where
  "all_items [] = {}"
| "all_items (WNode q cs its # rest) = set its \<union> all_items cs \<union> all_items rest"

lemma all_items_append [simp]: "all_items (xs @ ys) = all_items xs \<union> all_items ys"
  by (induction xs rule: all_items.induct) auto

lemma all_items_node: "all_items [n] = set (items n) \<union> all_items (children n)"
  by (cases n) simp

lemma all_items_Cons: "all_items (n # ns) = all_items [n] \<union> all_items ns"
  by (cases n) simp

lemma bfs_items: "fst ` set (bfs True P qs) = {x \<in> all_items (map snd qs). P x}"
proof (induction "True" P qs rule: bfs.induct)
  case (2 P first n rest)
  have "all_items (map snd (rest @ map (Pair False) (children n))) = all_items (map snd rest) \<union> all_items (children n)"
    by (simp add: comp_def)
  then show ?case using 2 by (auto simp: all_items_Cons [of n] all_items_node image_Un image_iff)
qed simp

lemma all_items_lookup: "wf_forest ns \<Longrightarrow> all_items ns = (\<Union>v. set (lookup ns v))"
proof (induction ns rule: all_items.induct)
  case (2 q cs its rest)
  then have q: "q \<noteq> []" and IH: "all_items cs = (\<Union>v. set (lookup cs v))" "all_items rest = (\<Union>v. set (lookup rest v))"
    by auto
  let ?L = "\<lambda>v. set (lookup (WNode q cs its # rest) v)"
  have e: "lookup cs [] = []" using 2(3) by (intro lookup_other) auto
  have 1: "set its \<subseteq> (\<Union>v. ?L v)"
    using lookup_self [OF q] by (metis UNIV_I UN_upper)
  have 2: "(\<Union>v. set (lookup cs v)) \<subseteq> (\<Union>v. ?L v)"
  proof (rule UN_least)
    fix v
    show "set (lookup cs v) \<subseteq> (\<Union>v. ?L v)"
      by (rule subset_trans [OF _ UN_upper [of "q @ v"]]) (use e q in auto)
  qed
  have 3: "(\<Union>v. set (lookup rest v)) \<subseteq> (\<Union>v. ?L v)"
  proof (rule UN_least)
    fix v
    have "lookup rest v = []" if "v = q @ u" for u using 2 that q \<open>wf_forest (WNode q cs its # rest)\<close>
      by (intro lookup_other) auto
    then have "set (lookup rest v) \<subseteq> ?L v"
      by (cases "\<exists>u. v = q @ u") (auto simp: lookup_skip simp del: lookup.simps)
    then show "set (lookup rest v) \<subseteq> (\<Union>v. ?L v)" by (rule subset_trans) (rule UN_upper, rule UNIV_I)
  qed
  have 4: "(\<Union>v. ?L v) \<subseteq> set its \<union> (\<Union>v. set (lookup cs v)) \<union> (\<Union>v. set (lookup rest v))"
    by (auto split: if_splits)
  show ?case unfolding all_items.simps IH by (intro equalityI Un_least 1 2 3 4)
qed simp

lemma below_items:
  assumes "wf_forest (children m)"
  shows "all_items [m] = (\<Union>u. set (below r m u))"
proof -
  have e: "lookup (children m) [] = []" using assms by (intro lookup_other) auto
  let ?A = "\<Union>u. set (below r m u)"
  have "set (items m) \<subseteq> ?A"
    by (rule subset_trans [OF _ UN_upper [of r]]) (simp_all add: below_def)
  moreover have "(\<Union>v. set (lookup (children m) v)) \<subseteq> ?A"
  proof (rule UN_least)
    fix v
    show "set (lookup (children m) v) \<subseteq> ?A"
      by (rule subset_trans [OF _ UN_upper [of "r @ v"]]) (use e in \<open>auto simp: below_def\<close>)
  qed
  moreover have "?A \<subseteq> set (items m) \<union> (\<Union>v. set (lookup (children m) v))"
    by (rule UN_least) (auto simp: below_def)
  ultimately show ?thesis unfolding all_items_node all_items_lookup [OF assms] by (intro equalityI) simp_all
qed

lemma reached_node_at: "(case getNode w e n of None \<Rightarrow> None | Some (path, i) \<Rightarrow> Some (children (node_at path n) ! i)) =
   map_option (\<lambda>(path, j). reached 0 (children n) path j) (get_node e w 0 (children n))"
proof -
  have "reached 0 (children n) path j = children (node_at path n) ! j" for path j
    by (cases path) simp_all
  then show ?thesis by (auto simp: getNode_def split: option.splits)
qed

lemma search_by_node:
  "search w sub m P n =
     (case map_option (\<lambda>(path, j). reached 0 (children n) path j) (get_node (\<not> sub) w 0 (children n)) of
        None \<Rightarrow> [] | Some k \<Rightarrow> getItems sub m P k)"
  unfolding search_def reached_node_at [symmetric] by (auto split: option.splits)

lemma search_word_items:
  assumes "wf_forest (children n)" "word \<noteq> []" "maxNbResult \<le> 0"
  shows "search word False maxNbResult predicat n = map (\<lambda>x. (x, 0)) (filter predicat (lookup (children n) word))"
proof -
  let ?r = "map_option (\<lambda>(path, j). reached 0 (children n) path j) (get_node True word 0 (children n))"
  have f: "found True word (children n) ?r" using get_node_found [OF assms(2,1)] .
  show ?thesis
  proof (cases ?r)
    case None
    from f [unfolded None] have "lookup (children n) word = []" by (simp add: found_def)
    moreover have "search word False maxNbResult predicat n = []"
      using None by (simp only: search_by_node option.case not_False_eq_True)
    ultimately show ?thesis by simp
  next
    case (Some m)
    from f [unfolded Some] have "\<forall>u. lookup (children n) (word @ u) = below [] m u" by (simp add: found_def)
    from spec [OF this, of "[]"] have "lookup (children n) word = items m" by (simp add: below_def)
    moreover have "search word False maxNbResult predicat n = getItems False maxNbResult predicat m"
      using Some by (simp only: search_by_node option.case not_False_eq_True)
    ultimately show ?thesis using assms(3) by (simp add: getItems_def)
  qed
qed

lemma search_prefix_items:
  assumes "wf_forest (children n)" "word \<noteq> []" "maxNbResult \<le> 0"
  shows "fst ` set (search word True maxNbResult predicat n) =
     {x. predicat x \<and> (\<exists>u. x \<in> set (lookup (children n) (word @ u)))}"
proof -
  let ?r = "map_option (\<lambda>(path, j). reached 0 (children n) path j) (get_node False word 0 (children n))"
  have f: "found False word (children n) ?r" using get_node_found [OF assms(2,1)] .
  show ?thesis
  proof (cases ?r)
    case None
    from f [unfolded None] have "lookup (children n) (word @ u) = []" for u by (simp add: found_def)
    moreover have "search word True maxNbResult predicat n = []"
      using None by (simp only: search_by_node option.case not_True_eq_False)
    ultimately show ?thesis by simp
  next
    case (Some m)
    from f [unfolded Some] obtain r where r: "wf_forest (children m)" "lookup (children n) (word @ u) = below r m u" for u
      by (auto simp: found_def)
    have "search word True maxNbResult predicat n = getItems True maxNbResult predicat m"
      using Some by (simp only: search_by_node option.case not_True_eq_False)
    then have "fst ` set (search word True maxNbResult predicat n) = {x \<in> all_items [m]. predicat x}"
      using assms(3) by (simp add: getItems_def bfs_items del: bfs.simps)
    then show ?thesis using below_items [OF r(1), of r] r(2) by auto
  qed
qed


text \<open>
  Searching a whole word without a limit returns exactly the items indexed under this word,
  filtered by the predicate, in the order they were added and all with level 0.  The tree is any
  well formed one: no empty part, and no two siblings starting with the same character.
\<close>

theorem search_word:
  assumes "wf_forest (children n)" "word \<noteq> []" "maxNbResult \<le> 0"
  shows "search word False maxNbResult predicat n = map (\<lambda>x. (x, 0)) (filter predicat (lookup (children n) word))"
  using assms by (rule search_word_items)

text \<open>
  Searching from a prefix without a limit returns the items, accepted by the predicate, of all
  the indexed words that start with this prefix, and no other item.
\<close>

theorem search_prefix:
  assumes "wf_forest (children n)" "word \<noteq> []" "maxNbResult \<le> 0"
  shows "fst ` set (search word True maxNbResult predicat n) =
     {x. predicat x \<and> (\<exists>u. x \<in> set (lookup (children n) (word @ u)))}"
  using assms by (rule search_prefix_items)

subsection \<open>What adding and removing an item change\<close>


text \<open>The children of a node one by one.\<close>

definition head :: "('c, 'a) wnode \<Rightarrow> 'c" where
  "head n = hd (part n)"

lemma wf_forest_iff: "wf_forest ns \<longleftrightarrow> (\<forall>n \<in> set ns. wf_forest [n]) \<and> distinct (map head ns)"
proof (induction ns)
  case (Cons n ns)
  then show ?case by (cases n) (force simp: head_def image_iff)
qed simp

lemma lookup_one: "wf_forest [n] \<Longrightarrow> lookup [n] v \<noteq> [] \<Longrightarrow> v \<noteq> [] \<and> hd v = head n"
  using lookup_other [of "[n]" v] by (simp only: head_def list.set ball_simps) metis

lemma lookup_concat: "wf_forest ns \<Longrightarrow> lookup ns v = concat (map (\<lambda>n. lookup [n] v) ns)"
proof (induction ns)
  case (Cons n ns)
  obtain q cs its where n: "n = WNode q cs its" by (cases n)
  have IH: "lookup ns v = concat (map (\<lambda>n. lookup [n] v) ns)" using Cons by (cases n) simp
  show ?case
  proof (cases "\<exists>u. v = q @ u")
    case True
    have "q \<noteq> []" "\<forall>m \<in> set ns. head m \<noteq> hd q" "\<forall>m \<in> set ns. wf_forest [m]"
      using Cons.prems wf_forest_iff [of ns] by (auto simp: n head_def)
    then have "\<forall>m \<in> set ns. lookup [m] v = []" using True lookup_one by fastforce
    moreover have "lookup (n # ns) v = lookup [n] v" using True \<open>q \<noteq> []\<close> unfolding n by auto
    ultimately show ?thesis by (simp del: lookup.simps)
  next
    case False
    then have "lookup (n # ns) v = lookup ns v" "lookup [n] v = []"
      unfolding n by (simp_all add: lookup_skip del: lookup.simps(2))
    with IH show ?thesis by (simp del: lookup.simps)
  qed
qed simp

lemma wf_forest_update:
  assumes "wf_forest ns" "i < length ns" "wf_forest [m]" "head m = head (ns ! i)"
  shows "wf_forest (ns[i := m])"
proof -
  have "map head (ns[i := m]) = map head ns"
    using assms(2,4) by (metis list_update_id map_update nth_map length_map)
  then show ?thesis using assms wf_forest_iff [of ns] wf_forest_iff [of "ns[i := m]"]
    by (metis insertE set_update_subset_insert subsetD)
qed

lemma lookup_update:
  assumes "wf_forest ns" "i < length ns" "wf_forest [m]" "head m = head (ns ! i)"
  shows "lookup (ns[i := m]) v = (if v \<noteq> [] \<and> hd v = head m then lookup [m] v else lookup ns v)"
proof -
  have all: "\<forall>n \<in> set ns. wf_forest [n]" and dist: "distinct (map head ns)"
    using assms(1) wf_forest_iff [of ns] by auto
  have l: "lookup (ns[i := m]) v = concat ((map (\<lambda>n. lookup [n] v) ns)[i := lookup [m] v])"
    using lookup_concat [OF wf_forest_update [OF assms]] by (simp add: map_update)
  show ?thesis
  proof (cases "v \<noteq> [] \<and> hd v = head m")
    case True
    have "lookup [ns ! k] v = []" if "k < length ns" "k \<noteq> i" for k
    proof -
      have "head (ns ! k) \<noteq> head (ns ! i)" using dist that assms(2) by (simp add: distinct_conv_nth)
      moreover have "wf_forest [ns ! k]" using all that by simp
      ultimately show ?thesis using lookup_one [of "ns ! k" v] True assms(4) by metis
    qed
    then have "(map (\<lambda>n. lookup [n] v) ns)[i := lookup [m] v] =
      replicate i [] @ lookup [m] v # replicate (length ns - Suc i) []"
      using assms(2) by (intro nth_equalityI) (auto simp: nth_append nth_Cons nth_list_update split: nat.split)
    then show ?thesis using True by (simp add: l)
  next
    case False
    have "wf_forest [ns ! i]" using all assms(2) by simp
    with False have "lookup [m] v = []" "lookup [ns ! i] v = []"
      using lookup_one [OF assms(3), of v] lookup_one [of "ns ! i" v] assms(4) by metis+
    then have "lookup [m] v = map (\<lambda>n. lookup [n] v) ns ! i" using assms(2) by simp
    then have "(map (\<lambda>n. lookup [n] v) ns)[i := lookup [m] v] = map (\<lambda>n. lookup [n] v) ns"
      by (simp only: list_update_id)
    then show ?thesis using False lookup_concat [OF assms(1)] by (auto simp: l)
  qed
qed

lemma lookup_update_same:
  assumes "wf_forest ns" "i < length ns" "wf_forest [m]" "head m = head (ns ! i)" "lookup [m] v = lookup [ns ! i] v"
  shows "lookup (ns[i := m]) v = lookup ns v"
proof -
  have "lookup ns v = lookup (ns[i := ns ! i]) v" by simp
  also have "\<dots> = (if v \<noteq> [] \<and> hd v = head m then lookup [ns ! i] v else lookup ns v)"
    using lookup_update [OF assms(1,2), of "ns ! i" v] assms(1,2,4) wf_forest_iff [of ns] by simp
  finally show ?thesis using lookup_update [OF assms(1-4), of v] assms(5) by metis
qed


lemma distinct_remove_at: "distinct xs \<Longrightarrow> distinct (remove_at i xs)"
proof -
  assume "distinct xs"
  then have "distinct (take i xs @ drop i xs)" by simp
  then have "distinct (take i xs)" "distinct (drop (Suc i) xs)" "set (take i xs) \<inter> set (drop i xs) = {}"
    using distinct_drop [of xs "Suc i"] \<open>distinct xs\<close> distinct_take [of xs i] by (auto simp only: distinct_append)
  moreover have "set (drop (Suc i) xs) \<subseteq> set (drop i xs)" by (rule set_drop_subset_set_drop) simp
  ultimately show ?thesis by (auto simp: remove_at_def)
qed

lemma map_remove_at: "map f (remove_at i xs) = remove_at i (map f xs)"
  by (simp add: remove_at_def take_map drop_map)

lemma wf_forest_remove_at: "wf_forest ns \<Longrightarrow> wf_forest (remove_at i ns)"
  using set_remove_at_subset [of i ns] wf_forest_iff [of ns] wf_forest_iff [of "remove_at i ns"]
  by (auto simp: map_remove_at distinct_remove_at)

lemma lookup_remove_at:
  assumes "wf_forest ns" "i < length ns" "lookup [ns ! i] v = []"
  shows "lookup (remove_at i ns) v = lookup ns v"
proof -
  have "concat (map (\<lambda>n. lookup [n] v) (take i ns @ ns ! i # drop (Suc i) ns)) =
    concat (map (\<lambda>n. lookup [n] v) (remove_at i ns))"
    using assms(3) by (simp add: remove_at_def del: id_take_nth_drop)
  then show ?thesis
    using lookup_concat [OF assms(1)] lookup_concat [OF wf_forest_remove_at [OF assms(1)]] id_take_nth_drop [OF assms(2)]
    by metis
qed

lemma lookup_node: "part n \<noteq> [] \<Longrightarrow> lookup [n] v =
   (if take (length (part n)) v = part n then if v = part n then items n else lookup (children n) (drop (length (part n)) v) else [])"
  by (cases n) simp

lemma wf_node: "wf_forest [n] \<longleftrightarrow> part n \<noteq> [] \<and> wf_forest (children n)"
  by (cases n) simp

lemma lookup_nil: "wf_forest ns \<Longrightarrow> lookup ns [] = []"
  by (rule lookup_other) simp_all

lemma node_remove_unfold:
  assumes "i < length (children n)" "d = children n ! i"
  shows "node_remove i n =
     (if children d = [] \<and> items d = []
      then (let m = WNode (part n) (remove_at i (children n)) (items n)
            in if length (children m) = 1 then node_remove 0 m else m)
      else if items n = [] \<and> length (children n) = 1
      then (let m = WNode (part n @ part d) (remove_at i (children n @ children d)) (items n @ items d)
            in if length (children m) = 1 then node_remove 0 m else m)
      else if length (children d) = 1 \<and> items d = []
      then WNode (part n) ((children n)[i := node_remove 0 d]) (items n)
      else n)"
  using assms by (subst node_remove.simps) (simp add: Let_def)

lemma lookup_merge:
  assumes "q \<noteq> []" "p \<noteq> []"
  shows "lookup [WNode (q @ p) cs its] v = lookup [WNode q [WNode p cs its] []] v"
proof (cases "\<exists>u. v = q @ u")
  case True
  then obtain u where u: "v = q @ u" ..
  show ?thesis
  proof (cases "\<exists>u'. u = p @ u'")
    case True
    then show ?thesis using assms unfolding u by (auto simp: take_add)
  next
    case False
    then have "\<nexists>u'. v = (q @ p) @ u'" using u by auto
    then show ?thesis using False u assms by (simp add: lookup_append lookup_skip del: lookup.simps(2))
  qed
next
  case False
  then have "\<nexists>u'. v = (q @ p) @ u'" by auto
  then show ?thesis using False by (simp add: lookup_skip del: lookup.simps(2))
qed

text \<open>\<open>remove\<close> keeps what is indexed below a node that has a part (the root has none).\<close>

lemma node_remove_same:
  "wf_forest [n] \<Longrightarrow> wf_forest [node_remove i n] \<and> head (node_remove i n) = head n \<and> lookup [node_remove i n] = lookup [n]"
proof (induction i n rule: node_remove.induct)
  case (1 i n)
  show ?case
  proof (cases "i < length (children n)")
    case False
    then show ?thesis using 1(4) by (simp add: node_remove.simps del: wf_forest.simps)
  next
    case i: True
    define d where "d = children n ! i"
    have wf: "part n \<noteq> []" "wf_forest (children n)" "wf_forest [d]"
      using 1(4) i wf_forest_iff [of "children n"] by (auto simp: wf_node d_def simp del: wf_forest.simps)
    consider (empty) "children d = []" "items d = []"
      | (merge) "\<not> (children d = [] \<and> items d = [])" "items n = []" "length (children n) = 1"
      | (child) "\<not> (children d = [] \<and> items d = [])" "\<not> (items n = [] \<and> length (children n) = 1)"
          "length (children d) = 1" "items d = []"
      | (none) "\<not> (children d = [] \<and> items d = [])" "\<not> (items n = [] \<and> length (children n) = 1)"
          "\<not> (length (children d) = 1 \<and> items d = [])" by blast
    then show ?thesis
    proof cases
      case empty
      define m where "m = WNode (part n) (remove_at i (children n)) (items n)"
      have "lookup [d] v = []" for v using empty wf(3) lookup_node [of d v] by (simp add: wf_node)
      then have "lookup (remove_at i (children n)) v = lookup (children n) v" for v
        using lookup_remove_at [OF wf(2) i] by (simp add: d_def)
      then have m: "wf_forest [m]" "head m = head n" "lookup [m] = lookup [n]"
        using wf wf_forest_remove_at [OF wf(2)] by (auto simp: m_def head_def lookup_node fun_eq_iff)
      have r: "node_remove i n = (if length (children m) = 1 then node_remove 0 m else m)"
        unfolding node_remove_unfold [OF i d_def] using empty by (simp add: Let_def m_def)
      show ?thesis
        using 1(1) [OF _ d_def _ m_def] i empty m unfolding r by simp
    next
      case merge
      define m where "m = WNode (part n @ part d) (remove_at i (children n @ children d)) (items n @ items d)"
      have n: "children n = [d]" "i = 0"
        using merge(3) i by (auto simp: d_def length_Suc_conv)
      then have m': "m = WNode (part n @ part d) (children d) (items d)" using merge(2) by (simp add: m_def)
      have "lookup [m] v = lookup [n] v" for v
        unfolding m' using n(1) merge(2) wf by (cases n; cases d) (simp add: lookup_merge wf_node del: lookup.simps)
      then have m: "wf_forest [m]" "head m = head n" "lookup [m] = lookup [n]"
        using wf by (auto simp: m' head_def wf_node simp del: lookup.simps)
      have r: "node_remove i n = (if length (children m) = 1 then node_remove 0 m else m)"
        unfolding node_remove_unfold [OF i d_def] if_not_P [OF merge(1)] using merge by (simp add: Let_def m_def)
      show ?thesis
        using 1(2) [OF _ d_def _ _ m_def] i merge m unfolding r by simp
    next
      case child
      let ?m = "WNode (part n) ((children n)[i := node_remove 0 d]) (items n)"
      have d': "wf_forest [node_remove 0 d]" "head (node_remove 0 d) = head d" "lookup [node_remove 0 d] = lookup [d]"
        using 1(3) [OF _ d_def] i child wf(3) by simp_all
      have r: "node_remove i n = ?m"
        unfolding node_remove_unfold [OF i d_def] if_not_P [OF child(1)] if_not_P [OF child(2)] using child by simp
      have "lookup ((children n)[i := node_remove 0 d]) v = lookup (children n) v" for v
        using d' by (intro lookup_update_same wf i) (simp_all add: d_def)
      moreover have "wf_forest ((children n)[i := node_remove 0 d])"
        using d' by (intro wf_forest_update wf i) (simp_all add: d_def)
      ultimately show ?thesis unfolding r using wf by (auto simp: head_def wf_node lookup_node fun_eq_iff)
    next
      case none
      then have "node_remove i n = n" unfolding node_remove_unfold [OF i d_def] by argo
      then show ?thesis using 1(4) by simp
    qed
  qed
qed


text \<open>With three children or more, removing one of them does not reach the node itself.\<close>

lemma node_remove_three:
  assumes "wf_forest (children n)" "2 < length (children n)" "i < length (children n)" "items (children n ! i) = []"
  shows "wf_forest (children (node_remove i n)) \<and> lookup (children (node_remove i n)) = lookup (children n)"
proof -
  define d where "d = children n ! i"
  have d: "wf_forest [d]" "items d = []" using assms wf_forest_iff [of "children n"] by (auto simp: d_def simp del: wf_forest.simps)
  show ?thesis
  proof (cases "children d = []")
    case True
    then have "lookup [d] v = []" for v using d lookup_node [of d v] by (simp add: wf_node)
    then have "lookup (remove_at i (children n)) v = lookup (children n) v" for v
      using lookup_remove_at [OF assms(1,3)] by (simp add: d_def)
    moreover have "length (children n) - 1 \<noteq> 1" using assms(2) by linarith
    then have "children (node_remove i n) = remove_at i (children n)"
      unfolding node_remove_unfold [OF assms(3) d_def]
      using True d assms(2,3) by (simp add: Let_def length_remove_at)
    ultimately show ?thesis using wf_forest_remove_at [OF assms(1)] by auto
  next
    case False
    have "children (node_remove i n) = (if length (children d) = 1 then (children n)[i := node_remove 0 d] else children n)"
      unfolding node_remove_unfold [OF assms(3) d_def] using False d assms(2) by simp
    moreover note s = node_remove_same [OF d(1), of 0]
    have "lookup ((children n)[i := node_remove 0 d]) v = lookup (children n) v" for v
      using s by (intro lookup_update_same assms) (simp_all add: d_def)
    moreover have "wf_forest ((children n)[i := node_remove 0 d])"
      using s by (intro wf_forest_update assms) (simp_all add: d_def)
    ultimately show ?thesis using assms(1) by auto
  qed
qed

text \<open>A change of one child that changes the items of one word.\<close>

definition changed :: "'c list \<Rightarrow> 'a list \<Rightarrow> ('c, 'a) wnode \<Rightarrow> ('c, 'a) wnode \<Rightarrow> bool" where
  "changed w its n m \<longleftrightarrow> wf_forest [m] \<and> head m = head n \<and> lookup [m] = (lookup [n])(w := its)"

lemma lookup_child:
  assumes "wf_forest ns" "i < length ns" "v \<noteq> []" "hd v = head (ns ! i)"
  shows "lookup ns v = lookup [ns ! i] v"
  using lookup_update [OF assms(1,2), of "ns ! i" v] assms wf_forest_iff [of ns] by simp

lemma changed_forest:
  assumes "wf_forest ns" "i < length ns" "w \<noteq> []" "hd w = head (ns ! i)" "changed w its (ns ! i) m"
  shows "wf_forest (ns[i := m])" "lookup (ns[i := m]) = (lookup ns)(w := its)"
proof -
  have m: "wf_forest [m]" "head m = head (ns ! i)" "lookup [m] = (lookup [ns ! i])(w := its)"
    using assms(5) by (auto simp: changed_def)
  show "wf_forest (ns[i := m])" using assms(1,2) m by (intro wf_forest_update)
  show "lookup (ns[i := m]) = (lookup ns)(w := its)"
  proof
    fix v
    show "lookup (ns[i := m]) v = ((lookup ns)(w := its)) v"
      using lookup_update [OF assms(1,2) m(1,2), of v] lookup_child [OF assms(1,2), of v] assms(3,4) m(2,3)
      by (cases "v = w") auto
  qed
qed

lemma changed_node:
  assumes "wf_forest [WNode q cs its]" "w \<noteq> []" "wf_forest cs'" "lookup cs' = (lookup cs)(w := xs)"
  shows "changed (q @ w) xs (WNode q cs its) (WNode q cs' its)"
proof -
  have q: "q \<noteq> []" using assms(1) by simp
  have "lookup [WNode q cs' its] v = (if v = q @ w then xs else lookup [WNode q cs its] v)" for v
  proof (cases "\<exists>u. v = q @ u")
    case True
    then obtain u where u: "v = q @ u" ..
    show ?thesis unfolding u lookup_append [OF q] assms(4) using assms(2) by simp
  next
    case False
    then show ?thesis by (auto simp: lookup_skip simp del: lookup.simps(2))
  qed
  then show ?thesis using assms(1,3) by (simp add: changed_def head_def fun_eq_iff)
qed

lemma changed_items: "wf_forest [n] \<Longrightarrow> changed (part n) xs n (WNode (part n) (children n) xs)"
  by (cases n) (auto simp: changed_def head_def fun_eq_iff)


lemma get_node_change:
  assumes f: "\<And>m w'. wf_forest [m] \<Longrightarrow> w' \<noteq> [] \<Longrightarrow> get_node True w' 0 (children m) = Some ([], j) \<Longrightarrow>
     changed (part m @ w') (g (lookup (children m) w')) m (f m)"
  shows "get_node True w i ns = Some (path, j) \<Longrightarrow> wf_forest ns \<Longrightarrow> w \<noteq> [] \<Longrightarrow>
     (case path of
        [] \<Rightarrow> i \<le> j \<and> j - i < length ns \<and> part (ns ! (j - i)) = w
      | k # p \<Rightarrow> i \<le> k \<and> k - i < length ns \<and> hd w = head (ns ! (k - i)) \<and>
          changed w (g (lookup [ns ! (k - i)] w)) (ns ! (k - i)) (change_at p f (ns ! (k - i))))"
proof (induction True w i ns arbitrary: path rule: get_node.induct)
  case (2 w i q cs its rest)
  define p where "p = commonPrefix w q"
  have wf: "q \<noteq> []" "wf_forest cs" "wf_forest rest" using 2(4) by auto
  show ?case
  proof (cases "p = 0")
    case True
    then have g: "get_node True w (Suc i) rest = Some (path, j)" using 2(3) by (simp add: Let_def p_def)
    have *: "Suc i \<le> k \<and> k - Suc i < length rest \<longrightarrow> i \<le> k \<and> k - i < length (n # rest) \<and> (n # rest) ! (k - i) = rest ! (k - Suc i)"
      for k n by (auto dest!: le_Suc_ex)
    from 2(2) [OF p_def _ g wf(3) 2(5)] True show ?thesis
      using * by (auto split: list.splits simp del: nth_Cons_Suc)
  next
    case False
    obtain c w' q' where c: "w = c @ w'" "q = c @ q'" "length c = p" and diff: "w' = [] \<or> q' = [] \<or> hd w' \<noteq> hd q'"
      unfolding p_def by (rule common_split [of w q])
    have lw: "length w = p + length w'" "length q = p + length q'" using c by auto
    have dr: "drop p w = w'" using c by auto
    have hd: "hd w = head (WNode q cs its)"
      using False commonPrefix_zero [OF 2(5) wf(1)] by (simp add: p_def head_def)
    have q': "q' = []" using 2(3) False lw by (auto simp: Let_def p_def [symmetric] split: if_splits)
    let ?m = "WNode q cs its"
    show ?thesis
    proof (cases "w' = []")
      case True
      then have "path = []" "j = i" using 2(3) False lw q' by (auto simp: Let_def p_def [symmetric])
      then show ?thesis using True q' c by simp
    next
      case w': False
      have w: "w = q @ w'" using q' c by simp
      obtain path' where g: "get_node True w' 0 cs = Some (path', j)" "path = i # path'"
        using 2(3) False lw dr q' w' by (auto simp: Let_def p_def [symmetric] split: option.splits)
      have IH: "case path' of
          [] \<Rightarrow> 0 \<le> j \<and> j - 0 < length cs \<and> part (cs ! (j - 0)) = w'
        | k # p \<Rightarrow> 0 \<le> k \<and> k - 0 < length cs \<and> hd w' = head (cs ! (k - 0)) \<and>
          changed w' (g (lookup [cs ! (k - 0)] w')) (cs ! (k - 0)) (change_at p f (cs ! (k - 0)))"
      proof -
        have "p = length q" "p \<noteq> length w" "drop p w \<noteq> []" using lw q' w' dr by simp_all
        from 2(1) [OF p_def False this(1,2) _ wf(2) this(3), unfolded dr, OF g(1)] show ?thesis .
      qed
      have lk: "lookup [?m] w = lookup cs w'" using w wf(1) w' by simp
      have "changed w (g (lookup [?m] w)) ?m (change_at path' f ?m)"
      proof (cases path')
        case Nil
        then show ?thesis using f [of ?m w'] g(1) w' wf lk w by simp
      next
        case (Cons k p')
        let ?ch = "cs[k := change_at p' f (cs ! k)]"
        have k: "k < length cs" "hd w' = head (cs ! k)"
          "changed w' (g (lookup [cs ! k] w')) (cs ! k) (change_at p' f (cs ! k))"
          using IH Cons by simp_all
        have "lookup [cs ! k] w' = lookup cs w'" using lookup_child [OF wf(2) k(1) w' k(2)] by simp
        then have "changed (q @ w') (g (lookup cs w')) ?m (WNode q ?ch its)"
          using changed_forest [OF wf(2) k(1) w' k(2,3)] wf w' by (intro changed_node) simp_all
        then show ?thesis using Cons lk w by simp
      qed
      then show ?thesis using g(2) hd by simp
    qed
  qed
qed simp


text \<open>The two ways \<open>rmItem\<close> changes the parent of the node of the word.\<close>

definition set_items :: "nat \<Rightarrow> 'a list \<Rightarrow> ('c, 'a) wnode \<Rightarrow> ('c, 'a) wnode" where
  "set_items i its m = WNode (part m) ((children m)[i := WNode (part (children m ! i)) (children (children m ! i)) its]) (items m)"

lemma lookup_sub: "wf_forest [m] \<Longrightarrow> w \<noteq> [] \<Longrightarrow> lookup [m] (part m @ w) = lookup (children m) w"
  by (cases m) simp

lemma changed_same: "wf_forest [m] \<Longrightarrow> w \<noteq> [] \<Longrightarrow> changed (part m @ w) (lookup (children m) w) m m"
  by (simp add: changed_def lookup_sub fun_upd_idem del: lookup.simps wf_forest.simps)

lemma change_at_cong: "F (node_at path n) = G (node_at path n) \<Longrightarrow> change_at path F n = change_at path G n"
  by (induction path arbitrary: n) simp_all

lemma get_node_nil:
  assumes "get_node True w 0 ns = Some ([], j)" "wf_forest ns" "w \<noteq> []"
  shows "j < length ns" "part (ns ! j) = w" "items (ns ! j) = lookup ns w"
proof -
  show j: "j < length ns" "part (ns ! j) = w"
    using get_node_change [of j "\<lambda>its. its" "\<lambda>m. m", OF changed_same assms] by simp_all
  have "wf_forest [ns ! j]" using assms(2) j(1) wf_forest_iff [of ns] by simp
  then have "items (ns ! j) = lookup [ns ! j] w" using j(2) by (cases "ns ! j") simp
  then show "items (ns ! j) = lookup ns w"
    using lookup_child [OF assms(2) j(1) assms(3)] j(2) by (simp add: head_def)
qed

lemma set_items_forest:
  assumes "get_node True w 0 (children m) = Some ([], j)" "wf_forest (children m)" "w \<noteq> []"
  shows "wf_forest (children (set_items j its m))" "lookup (children (set_items j its m)) = (lookup (children m))(w := its)"
proof -
  note j = get_node_nil [OF assms]
  have "wf_forest [children m ! j]" using assms(2) j(1) wf_forest_iff [of "children m"] by simp
  from changed_items [OF this, of its]
  have "changed w its (children m ! j) (WNode (part (children m ! j)) (children (children m ! j)) its)" using j(2) by simp
  moreover have "hd w = head (children m ! j)" using j(2) by (simp add: head_def)
  ultimately show "wf_forest (children (set_items j its m))"
    "lookup (children (set_items j its m)) = (lookup (children m))(w := its)"
    using changed_forest [OF assms(2) j(1) assms(3)] by (simp_all add: set_items_def)
qed

lemma set_items_changed:
  assumes "wf_forest [m]" "w \<noteq> []" "get_node True w 0 (children m) = Some ([], j)"
  shows "changed (part m @ w) its m (set_items j its m)"
proof (cases m)
  case (WNode q cs xs)
  then show ?thesis
    using set_items_forest [of w m j its] assms
    by (auto simp: set_items_def intro!: changed_node)
qed

lemma node_remove_changed: "changed w its n m \<Longrightarrow> changed w its n (node_remove i m)"
  using node_remove_same [of m i] by (simp add: changed_def del: wf_forest.simps lookup.simps)

text \<open>
  C28: Removing an item under a word removes its first occurrence from the items of this word,
  leaves the items of the other words as they were, keeps the tree well formed, and tells whether
  the item was there.  This holds when the word does not end in a child of the root, or when the root
  has more than two children: with one or two of them the last one can be merged into the root.
\<close>

theorem rmItem_removes:
  fixes n :: "('c, 'a) wnode"
  assumes "wf_forest (children n)" "word \<noteq> []"
    and "2 < length (children n) \<or> (\<forall>c \<in> set (children n). part c \<noteq> word)"
  shows "let (removed, n') = rmItem word item n in
     removed = (item \<in> set (lookup (children n) word)) \<and> wf_forest (children n') \<and>
     lookup (children n') = (lookup (children n)) (word := remove1 item (lookup (children n) word))"
proof (cases "getNode word True n")
  case None
  have "found True word (children n) None"
    using get_node_found [OF assms(2,1), of True 0] None by (simp add: getNode_def)
  then have "lookup (children n) word = []" by (simp add: found_def)
  with None assms(1) show ?thesis by (simp add: rmItem_def fun_eq_iff)
next
  case (Some pj)
  obtain path j where pj: "pj = (path, j)" by (cases pj)
  with Some have g: "get_node True word 0 (children n) = Some (path, j)" by (simp add: getNode_def)
  let ?node = "children (node_at path n) ! j"
  have "found True word (children n) (Some (reached 0 (children n) path j))"
    using get_node_found [OF assms(2,1), of True 0] g by simp
  then have "\<forall>u. lookup (children n) (word @ u) = below [] (reached 0 (children n) path j) u" by (auto simp: found_def)
  from spec [OF this, of "[]"] have its: "lookup (children n) word = items ?node"
    by (cases path) (simp_all add: below_def)
  define f :: "('c, 'a) wnode \<Rightarrow> ('c, 'a) wnode" where "f = (if items ?node = [item] then node_remove j \<circ> set_items j [] else set_items j (remove1 item (items ?node)))"
  have rm: "rmItem word item n = (item \<in> set (items ?node), change_at path f n)"
    using Some pj by (auto simp: rmItem_def f_def set_items_def Let_def intro!: change_at_cong)
  have f: "changed (part m @ w) (remove1 item (items ?node)) m (f m)"
    if "wf_forest [m]" "w \<noteq> []" "get_node True w 0 (children m) = Some ([], j)" for m w
    using set_items_changed [OF that] by (simp add: f_def node_remove_changed)
  note ch = get_node_change [of j "\<lambda>_. remove1 item (items ?node)" f, OF f g assms(1,2)]
  have "wf_forest (children (change_at path f n)) \<and>
    lookup (children (change_at path f n)) = (lookup (children n))(word := remove1 item (items ?node))"
  proof (cases path)
    case Nil
    then have g': "get_node True word 0 (children n) = Some ([], j)" using g by simp
    note j = get_node_nil [OF g' assms(1,2)]
    then have "2 < length (children n)" using assms(3) by auto
    moreover have "length (children (set_items j [] n)) = length (children n)"
      "items (children (set_items j [] n) ! j) = []" using j(1) by (simp_all add: set_items_def)
    moreover note si = set_items_forest [OF g' assms(1,2)]
    ultimately have nr: "wf_forest (children (node_remove j (set_items j [] n)))"
      "lookup (children (node_remove j (set_items j [] n))) = (lookup (children n))(word := [])"
      using node_remove_three [of "set_items j [] n" j] si [of "[]"] j(1) by simp_all
    have ch: "change_at path f n = f n" using Nil by simp
    show ?thesis
    proof (cases "items ?node = [item]")
      case True
      then have "f n = node_remove j (set_items j [] n)" "remove1 item (items ?node) = []" by (simp_all add: f_def)
      with nr show ?thesis unfolding ch by (simp only:)
    next
      case False
      then have "f n = set_items j (remove1 item (items ?node)) n" by (simp add: f_def)
      then show ?thesis unfolding ch using si [of "remove1 item (items ?node)"] by (simp only:)
    qed
  next
    case (Cons k p)
    have k: "k < length (children n)" "hd word = head (children n ! k)"
      "changed word (remove1 item (items ?node)) (children n ! k) (change_at p f (children n ! k))"
      using ch unfolding Cons list.case diff_zero by blast+
    have "children (change_at path f n) = (children n)[k := change_at p f (children n ! k)]" using Cons by simp
    then show ?thesis using changed_forest [OF assms(1) k(1) assms(2) k(2,3)] by (simp only:)
  qed
  then show ?thesis unfolding rm its by simp
qed


subsection \<open>A small tree\<close>

definition small_tree :: "(char, nat) wnode" where
  "small_tree = addItem ''food'' 3 (addItem ''to'' 2 (addItem ''foot'' 1 root_node))"

lemma small_tree_eq: "small_tree = WNode [] [WNode ''foo'' [WNode ''t'' [] [1], WNode ''d'' [] [3]] [], WNode ''to'' [] [2]] []"
  by code_simp

lemma small_tree_wf: "wf_forest (children small_tree)"
  by (simp add: small_tree_eq)

lemma search_word_witness:
  "wf_forest (children small_tree) \<and> ''foot'' \<noteq> [] \<and> (- 1 :: int) \<le> 0 \<and>
   search ''foot'' False (- 1) (\<lambda>_. True) small_tree = [(1, 0)]"
  using search_word [of small_tree "''foot''" "- 1" "\<lambda>_. True"] small_tree_wf
  by (simp add: small_tree_eq)

lemma search_prefix_witness:
  "wf_forest (children small_tree) \<and> ''fo'' \<noteq> [] \<and> (- 1 :: int) \<le> 0 \<and>
   1 \<in> fst ` set (search ''fo'' True (- 1) (\<lambda>_. True) small_tree)"
proof -
  have "1 \<in> set (lookup (children small_tree) (''fo'' @ ''ot''))" by (simp add: small_tree_eq)
  then show ?thesis
    using search_prefix [of small_tree "''fo''" "- 1" "\<lambda>_. True"] small_tree_wf by auto
qed


lemma rmItem_removes_witness:
  "wf_forest (children small_tree) \<and> ''foot'' \<noteq> [] \<and> fst (rmItem ''foot'' 1 small_tree) \<and>
   lookup (children (snd (rmItem ''foot'' 1 small_tree))) ''food'' = [3]"
  using rmItem_removes [of small_tree "''foot''" 1] small_tree_wf
  by (auto simp: small_tree_eq Let_def split: prod.splits)

text \<open>
  When the root keeps a single child, \<open>remove\<close> merges it into the root, whose part \<open>getNode\<close> never
  compares: the words below this child are no longer found.
\<close>

theorem rmItem_loses_a_word:
  "let n = addItem ''to'' 2 (addItem ''foot'' 1 root_node) in
     search ''foot'' False (- 1) (\<lambda>_. True) n = [(1 :: nat, 0)] \<and>
     search ''foot'' True (- 1) (\<lambda>_. True) (snd (rmItem ''to'' 2 n)) = []"
  by code_simp

text \<open>An item that is already under the word is added once more.\<close>

theorem addItem_twice:
  "search ''foot'' False (- 1) (\<lambda>_. True) (addItem ''foot'' 1 (addItem ''foot'' 1 root_node)) = [(1 :: nat, 0), (1, 0)]"
  by code_simp

text \<open>A word that matches a part of a longer word only gets the level of a whole match.\<close>

theorem partial_match_of_level_0:
  "search ''fo'' True (- 1) (\<lambda>_. True) (addItem ''foot'' 1 root_node) = [(1 :: nat, 0)]"
  by code_simp

end
