(* ===== verification/String_Utils.thy ===== *)
theory String_Utils
  imports Dg_Prelude
begin

text \<open>
  \<open>Common/StringUtils.cpp\<close>.  A \<open>QString\<close> is the list of its UTF-16 units, a \<open>std::string\<close> the
  list of its bytes.  What depends on the Unicode tables or on the locale is an argument:
  \<open>toLower\<close> (\<open>QString::toLower\<close>), \<open>is_word\<close> (\<open>\w\<close> of \<open>QRegExp\<close>), \<open>is_space\<close> (\<open>QChar::isSpace\<close>),
  \<open>to_lower\<close> (\<open>tolower\<close> of C on the value of a signed \<open>char\<close>), \<open>to_local\<close>
  (\<open>QString::toLocal8Bit\<close>) and \<open>checksum\<close> (\<open>qChecksum\<close>).
\<close>

type_synonym qchar = "16 word"
type_synonym qstring = "qchar list"

subsection \<open>Accents and words\<close>

definition remove_accent :: "qchar \<Rightarrow> qchar" where
  "remove_accent c =
     (if c \<in> {0x00E0, 0x00E1, 0x00E2, 0x00E3, 0x00E4, 0x00E5, 0x0101, 0x0103, 0x0105} then 0x61
      else if c \<in> {0x00E7, 0x0107, 0x0109, 0x010B, 0x010D} then 0x63
      else if c \<in> {0x010F, 0x0111} then 0x64
      else if c \<in> {0x00E8, 0x00E9, 0x00EA, 0x00EB, 0x0113, 0x0115, 0x0117, 0x0119, 0x011B} then 0x65
      else if c \<in> {0x011D, 0x011F, 0x0121, 0x0123} then 0x67
      else if c \<in> {0x0125, 0x0127} then 0x68
      else if c \<in> {0x00EC, 0x00ED, 0x00EE, 0x00EF, 0x0129, 0x012B, 0x012D, 0x012F, 0x0131} then 0x69
      else if c \<in> {0x00F1} then 0x6E
      else if c \<in> {0x00F2, 0x00F3, 0x00F4, 0x00F5, 0x00F6} then 0x6F
      else if c \<in> {0x00F9, 0x00FA, 0x00FB, 0x00FC} then 0x75
      else if c \<in> {0x00FD, 0x00FE} then 0x79
      else c)"

definition toLowerAndRemoveAccents :: "(qstring \<Rightarrow> qstring) \<Rightarrow> qstring \<Rightarrow> qstring" where
  "toLowerAndRemoveAccents toLower str = map remove_accent (toLower str)"

text \<open>\<open>QString::split\<close> on runs of separators, with \<open>SkipEmptyParts\<close>.\<close>

function split_runs :: "('c \<Rightarrow> bool) \<Rightarrow> 'c list \<Rightarrow> 'c list list" where
  "split_runs sep s =
     (let s = dropWhile sep s in
      if s = [] then [] else takeWhile (\<lambda>c. \<not> sep c) s # split_runs sep (dropWhile (\<lambda>c. \<not> sep c) s))"
  by pat_completeness auto
termination
proof (relation "measure (length \<circ> snd)")
  fix sep :: "'c \<Rightarrow> bool" and s x
  assume x: "x = dropWhile sep s" "x \<noteq> []"
  then have "\<not> sep (hd x)" by (metis hd_dropWhile)
  then have "length (dropWhile (\<lambda>c. \<not> sep c) x) < length x"
    using x(2) by (cases x) (auto simp: less_Suc_eq_le length_dropWhile_le)
  also have "\<dots> \<le> length s" using x(1) length_dropWhile_le by blast
  finally show "((sep, dropWhile (\<lambda>c. \<not> sep c) x), (sep, s)) \<in> measure (length \<circ> snd)" by simp
qed simp

declare split_runs.simps [simp del]

definition splitInWords :: "(qstring \<Rightarrow> qstring) \<Rightarrow> (qchar \<Rightarrow> bool) \<Rightarrow> qstring \<Rightarrow> qstring list" where
  "splitInWords toLower is_word words =
     split_runs (\<lambda>c. \<not> is_word c \<or> c = 0x5F) (toLowerAndRemoveAccents toLower words)"

subsection \<open>Arguments\<close>

definition trimmed :: "(qchar \<Rightarrow> bool) \<Rightarrow> qstring \<Rightarrow> qstring" where
  "trimmed is_space s = rev (dropWhile is_space (rev (dropWhile is_space s)))"

definition mid :: "nat \<Rightarrow> nat \<Rightarrow> 'a list \<Rightarrow> 'a list" where
  "mid start n s = take n (drop start s)"

text \<open>The loop of \<open>splitArguments\<close> from index \<open>i\<close>; \<open>n\<close> iterations are left.\<close>

fun split_args :: "(qchar \<Rightarrow> bool) \<Rightarrow> qstring \<Rightarrow> nat \<Rightarrow> nat \<Rightarrow> nat \<Rightarrow> bool \<Rightarrow> qstring list \<Rightarrow> qstring list" where
  "split_args is_space str 0 i start inQuotes args = args"
| "split_args is_space str (Suc n) i start inQuotes args =
     (if str ! i = 0x20 \<and> \<not> inQuotes \<or> i = length str - 1
      then (let arg = trimmed is_space (mid start (i - start + 1) str)
            in split_args is_space str n (Suc i) (i + 1) inQuotes (if arg \<noteq> [] then args @ [arg] else args))
      else if str ! i = 0x22 then split_args is_space str n (Suc i) start (\<not> inQuotes) args
      else split_args is_space str n (Suc i) start inQuotes args)"

definition splitArguments :: "(qchar \<Rightarrow> bool) \<Rightarrow> qstring \<Rightarrow> qstring list" where
  "splitArguments is_space str = split_args is_space str (length str) 0 0 False []"

subsection \<open>Korean, comparison, hash\<close>

fun isKorean :: "qstring \<Rightarrow> bool" where
  "isKorean [] = False"
| "isKorean (code # str) =
     (if code \<ge> 0x1100 \<and> code \<le> 0x11FF \<or>
         code \<ge> 0x3130 \<and> code \<le> 0x318F \<or>
         code \<ge> 0x3200 \<and> code \<le> 0x32FF \<or>
         code \<ge> 0xA960 \<and> code \<le> 0xA97F \<or>
         code \<ge> 0xAC00 \<and> code \<le> 0xD7AF \<or>
         code \<ge> 0xD7B0 \<and> code \<le> 0xD7FF \<or>
         code \<ge> 0xFF00 \<and> code \<le> 0xFFEF
      then True else isKorean str)"

fun strcmpi :: "(int \<Rightarrow> int) \<Rightarrow> byte list \<Rightarrow> byte list \<Rightarrow> int" where
  "strcmpi to_lower (a # s1) (b # s2) =
     (let c1 = to_lower (sint a); c2 = to_lower (sint b)
      in if c1 > c2 then 1 else if c1 < c2 then - 1 else strcmpi to_lower s1 s2)"
| "strcmpi to_lower s1 s2 =
     (if length s1 > length s2 then 1 else if length s1 < length s2 then - 1 else 0)"

definition hashStringToInt :: "(qstring \<Rightarrow> byte list) \<Rightarrow> (byte list \<Rightarrow> 16 word) \<Rightarrow> qstring \<Rightarrow> 32 word" where
  "hashStringToInt to_local checksum str =
     (let data = to_local str in
      if length data \<le> 1 then ucast (checksum data)
      else (let s = length data;
                part1 = ucast (checksum (take (s div 2) data));
                part2 = ucast (checksum (mid (s div 2) (s div 2 + (if s mod 2 = 0 then 0 else 1)) data))
            in Bit_Operations.or part1 (push_bit 16 part2)))"

subsection \<open>What they compute\<close>

text \<open>
  \<open>strcmpi\<close> is the lexicographic order of the two strings in lower case: 0 exactly when they
  are equal, -1 exactly when the first comes before, 1 exactly when the second does.
\<close>

theorem strcmpi_lexicographic:
  "(strcmpi to_lower s1 s2 = 0) = (map (to_lower \<circ> sint) s1 = map (to_lower \<circ> sint) s2) \<and>
   (strcmpi to_lower s1 s2 = - 1) = ((map (to_lower \<circ> sint) s1, map (to_lower \<circ> sint) s2) \<in> lexord {(x, y). x < y}) \<and>
   (strcmpi to_lower s1 s2 = 1) = ((map (to_lower \<circ> sint) s2, map (to_lower \<circ> sint) s1) \<in> lexord {(x, y). x < y})"
proof (induction s1 arbitrary: s2)
  case Nil
  show ?case by (cases s2) auto
next
  case (Cons a s1)
  then show ?case by (cases s2) (auto simp: Let_def)
qed

lemma split_runs_Nil [simp]: "split_runs sep [] = []"
  by (simp add: split_runs.simps)

lemma split_runs_sep: "sep c \<Longrightarrow> split_runs sep (c # s) = split_runs sep s"
  by (subst (1 2) split_runs.simps) simp

lemma split_runs_run:
  assumes "xs \<noteq> []" "\<forall>c \<in> set xs. \<not> sep c" "ys = [] \<or> sep (hd ys)"
  shows "split_runs sep (xs @ ys) = xs # split_runs sep ys"
proof -
  have d: "dropWhile sep (xs @ ys) = xs @ ys" using assms by (cases xs) auto
  have t: "takeWhile (\<lambda>c. \<not> sep c) ys = []" "dropWhile (\<lambda>c. \<not> sep c) ys = ys" using assms(3) by (cases ys; simp)+
  have "takeWhile (\<lambda>c. \<not> sep c) (xs @ ys) = xs" "dropWhile (\<lambda>c. \<not> sep c) (xs @ ys) = ys"
    using assms(2) t by (simp_all add: takeWhile_append2 dropWhile_append2)
  then show ?thesis using d assms(1) by (subst split_runs.simps) (simp add: Let_def)
qed

lemma trimmed_run:
  assumes "\<forall>c \<in> set xs. \<not> is_space c"
  shows "trimmed is_space xs = xs" "is_space c \<Longrightarrow> trimmed is_space (xs @ [c]) = xs"
proof -
  have "dropWhile is_space xs = xs" "dropWhile is_space (rev xs) = rev xs"
    using assms by (cases xs; simp; fail)+ (metis dropWhile_eq_self_iff hd_in_set set_rev rev_is_Nil_conv assms)
  moreover have "Ball (set xs) is_space \<longrightarrow> xs = []" using assms by (cases xs) auto
  ultimately show "trimmed is_space xs = xs" "is_space c \<Longrightarrow> trimmed is_space (xs @ [c]) = xs"
    by (auto simp: trimmed_def dropWhile_append)
qed

lemma mid_Suc: "start \<le> i \<Longrightarrow> i < length s \<Longrightarrow> mid start (i - start + 1) s = mid start (i - start) s @ [s ! i]"
  by (simp add: mid_def take_Suc_conv_app_nth)

lemma drop_mid: "start \<le> i \<Longrightarrow> drop start s = mid start (i - start) s @ drop i s"
  by (simp add: mid_def) (metis append_take_drop_id drop_drop le_add_diff_inverse2)

lemma split_args_plain:
  assumes "0x22 \<notin> set str" "\<forall>c \<in> set str. is_space c = (c = 0x20)"
  shows "i + n = length str \<Longrightarrow> start \<le> i \<Longrightarrow> \<forall>c \<in> set (mid start (i - start) str). \<not> is_space c \<Longrightarrow>
     i = length str \<longrightarrow> start = i \<Longrightarrow>
     split_args is_space str n i start False args = args @ split_runs is_space (drop start str)"
proof (induction n arbitrary: i start args)
  case 0
  then show ?case by simp
next
  case (Suc n)
  let ?x = "mid start (i - start) str" and ?c = "str ! i"
  have i: "i < length str" using Suc.prems(1) by simp
  have c: "is_space ?c = (?c = 0x20)" "?c \<noteq> 0x22" using assms nth_mem [OF i] by metis+
  have split: "drop start str = ?x @ ?c # drop (Suc i) str"
    using drop_mid [OF Suc.prems(2), of str] i by (simp add: Cons_nth_drop_Suc)
  show ?case
  proof (cases "is_space ?c \<or> i = length str - 1")
    case True
    define arg where "arg = trimmed is_space (?x @ [?c])"
    have next_: "split_args is_space str n (Suc i) (Suc i) False args' = args' @ split_runs is_space (drop (Suc i) str)" for args'
      by (rule Suc.IH) (use Suc.prems(1) in \<open>simp_all add: mid_def\<close>)
    have step: "split_args is_space str (Suc n) i start False args =
      (if arg \<noteq> [] then args @ [arg] else args) @ split_runs is_space (drop (Suc i) str)"
      using True c next_ by (simp add: arg_def mid_Suc [OF Suc.prems(2) i, simplified] Let_def)
    show ?thesis
    proof (cases "is_space ?c")
      case True
      then have a: "arg = ?x" using trimmed_run(2) Suc.prems(3) by (simp add: arg_def)
      have "split_runs is_space (drop start str) = (if ?x = [] then [] else [?x]) @ split_runs is_space (drop (Suc i) str)"
        unfolding split using True Suc.prems(3) by (auto simp: split_runs_run split_runs_sep)
      then show ?thesis unfolding step a by simp
    next
      case False
      then have e: "drop (Suc i) str = []" using True by simp
      have r: "\<forall>c \<in> set (?x @ [?c]). \<not> is_space c" using False Suc.prems(3) by auto
      then have a: "arg = ?x @ [?c]" using trimmed_run(1) unfolding arg_def by blast
      have "split_runs is_space (drop start str) = [?x @ [?c]]"
        using split_runs_run [OF _ r, of "[]"] unfolding split e by simp
      then show ?thesis unfolding step a e by simp
    qed
  next
    case False
    have "split_args is_space str (Suc n) i start False args = split_args is_space str n (Suc i) start False args"
      using False c by simp
    also have "\<dots> = args @ split_runs is_space (drop start str)"
    proof (rule Suc.IH)
      show "\<forall>c \<in> set (mid start (Suc i - start) str). \<not> is_space c"
        using Suc.prems(2,3) False mid_Suc [OF Suc.prems(2) i] by (auto simp: Suc_diff_le)
    qed (use Suc.prems(1,2) False i in auto)
    finally show ?thesis .
  qed
qed

text \<open>
  On a line without quotes whose only white spaces are blanks, \<open>splitArguments\<close> gives the
  maximal runs of other characters, in their order.
\<close>

theorem splitArguments_plain:
  assumes "0x22 \<notin> set str" "\<forall>c \<in> set str. is_space c = (c = 0x20)"
  shows "splitArguments is_space str = split_runs is_space str"
  using split_args_plain [OF assms, of 0 "length str" 0 "[]"] by (simp add: splitArguments_def mid_def)

lemma splitArguments_plain_witness:
  "splitArguments (\<lambda>c. c = 0x20) [0x20, 0x61, 0x62, 0x20, 0x20, 0x63] = [[0x61, 0x62], [0x63]]"
  using splitArguments_plain [of "[0x20, 0x61, 0x62, 0x20, 0x20, 0x63]" "\<lambda>c. c = 0x20"]
  by (simp add: split_runs.simps)

text \<open>The quotes stay in the arguments: \<open>a "b c"\<close> gives \<open>a\<close> and \<open>"b c"\<close>.\<close>

theorem splitArguments_keeps_the_quotes:
  "splitArguments (\<lambda>c. c = 0x20) [0x61, 0x20, 0x22, 0x62, 0x20, 0x63, 0x22] = [[0x61], [0x22, 0x62, 0x20, 0x63, 0x22]]"
  by code_simp

lemma remove_accent_idem: "remove_accent (remove_accent c) = remove_accent c"
  by (simp add: remove_accent_def)

text \<open>The hash keeps both checksums: the first half is in its low bits, the second in its high bits.\<close>

lemma hashStringToInt_halves:
  assumes "1 < length (to_local str)"
  shows "ucast (hashStringToInt to_local checksum str) = checksum (take (length (to_local str) div 2) (to_local str))"
    and "ucast (drop_bit 16 (hashStringToInt to_local checksum str)) = checksum (drop (length (to_local str) div 2) (to_local str))"
proof -
  define d where "d = to_local str"
  have m: "mid (length d div 2) (length d div 2 + (if length d mod 2 = 0 then 0 else 1)) d = drop (length d div 2) d"
    unfolding mid_def by (rule take_all) (simp, presburger)
  have *: "(ucast (Bit_Operations.or (ucast a) (push_bit 16 (ucast b)) :: 32 word) :: 16 word) = a"
    "(ucast (drop_bit 16 (Bit_Operations.or (ucast a) (push_bit 16 (ucast b)) :: 32 word)) :: 16 word) = b"
    for a b :: "16 word"
    by (rule bit_word_eqI; auto simp: bit_simps dest: bit_imp_le_length)+
  have h: "hashStringToInt to_local checksum str =
    Bit_Operations.or (ucast (checksum (take (length d div 2) d))) (push_bit 16 (ucast (checksum (drop (length d div 2) d))))"
    using assms m by (simp add: hashStringToInt_def Let_def flip: d_def)
  show "ucast (hashStringToInt to_local checksum str) = checksum (take (length (to_local str) div 2) (to_local str))"
    "ucast (drop_bit 16 (hashStringToInt to_local checksum str)) = checksum (drop (length (to_local str) div 2) (to_local str))"
    unfolding h d_def [symmetric] by (rule *)+
qed

end
