(* ===== verification/Word_Index.thy ===== *)
theory Word_Index
  imports Word_Node String_Utils
begin

text \<open>
  \<open>Core/FileManager/priv/WordIndex/WordIndex.h\<close>: the index of the items by the words of their
  names, and the search of several words, which goes through every combination of them.
  \<open>NodeResult\<close> is a pair of a value and a level, compared by its value only; a \<open>QSet\<close> of them is a
  list of pairs with distinct values.  The order in which \<open>QSet::values\<close> enumerates its elements is
  the argument \<open>values\<close>, and \<open>std::sort\<close>, which may exchange equal elements, is the argument
  \<open>std_sort\<close>.  The mutex only serialises the operations.

  \<open>search\<close> changes the levels of a set through \<open>const_cast\<close> while its data is still shared with
  \<open>results\<close>: this keeps which levels are zero, and the rest of the loop only reads that.
\<close>

subsection \<open>The operations on words\<close>

type_synonym 'a index = "(qchar, 'a) wnode"

definition MIN_WORD_SIZE_PARTIAL_MATCH :: nat where
  "MIN_WORD_SIZE_PARTIAL_MATCH = 3"

definition MIN_WORD_SIZE_PARTIAL_MATCH_KOREAN :: nat where
  "MIN_WORD_SIZE_PARTIAL_MATCH_KOREAN = 1"

fun addItem_words :: "qstring list \<Rightarrow> 'a \<Rightarrow> 'a index \<Rightarrow> 'a index" where
  "addItem_words [] item root = root"
| "addItem_words (w # ws) item root = addItem_words ws item (addItem w item root)"

fun rmItem_words :: "qstring list \<Rightarrow> 'a \<Rightarrow> 'a index \<Rightarrow> bool \<times> 'a index" where
  "rmItem_words [] item root = (False, root)"
| "rmItem_words (w # ws) item root =
     (let (removed, root) = rmItem w item root;
          (itemRemoved, root) = rmItem_words ws item root
      in (removed \<or> itemRemoved, root))"

definition renameItem :: "qstring \<Rightarrow> qstring \<Rightarrow> 'a \<Rightarrow> 'a index \<Rightarrow> 'a index" where
  "renameItem oldWord newWord item root = addItem newWord item (snd (rmItem oldWord item root))"

definition renameItem_words :: "qstring list \<Rightarrow> qstring list \<Rightarrow> 'a \<Rightarrow> 'a index \<Rightarrow> 'a index" where
  "renameItem_words oldWords newWords item root =
     addItem_words newWords item (snd (rmItem_words oldWords item root))"

definition search_one :: "qstring \<Rightarrow> int \<Rightarrow> ('a \<Rightarrow> bool) \<Rightarrow> 'a index \<Rightarrow> ('a \<times> nat) list" where
  "search_one word maxNbResult predicat root =
     search word (length word \<ge> (if isKorean word then MIN_WORD_SIZE_PARTIAL_MATCH_KOREAN else MIN_WORD_SIZE_PARTIAL_MATCH))
       maxNbResult predicat root"

definition resultToList :: "('a \<times> nat) list \<Rightarrow> 'a list" where
  "resultToList result = map fst result"

subsection \<open>Sets of results\<close>

text \<open>Inserting a value that is in the set keeps the element of the set.\<close>

fun to_set :: "('a \<times> nat) list \<Rightarrow> ('a \<times> nat) list" where
  "to_set [] = []"
| "to_set (n # ns) = n # filter (\<lambda>m. fst m \<noteq> fst n) (to_set ns)"

fun find_value :: "'a \<Rightarrow> ('a \<times> nat) list \<Rightarrow> nat option" where
  "find_value v [] = None"
| "find_value v ((w, l) # s) = (if w = v then Some l else find_value v s)"

fun intersect :: "('a \<times> nat) list \<Rightarrow> ('a \<times> nat) list \<Rightarrow> nat \<Rightarrow> ('a \<times> nat) list" where
  "intersect [] s2 matchValue = []"
| "intersect ((v, l) # s1) s2 matchValue =
     (case find_value v s2 of
        None \<Rightarrow> intersect s1 s2 matchValue
      | Some l2 \<Rightarrow> (v, l + (if l2 \<noteq> 0 then matchValue else 0)) # intersect s1 s2 matchValue)"

definition subtract :: "('a \<times> nat) list \<Rightarrow> ('a \<times> nat) list \<Rightarrow> ('a \<times> nat) list" where
  "subtract s1 s2 = filter (\<lambda>(v, l). find_value v s2 = None) s1"

subsection \<open>Combinations\<close>

text \<open>\<open>Global::nCombinations\<close>.\<close>

definition nCombinations :: "int \<Rightarrow> int \<Rightarrow> int" where
  "nCombinations n k =
     (if n < 0 \<or> k < 0 then 0
      else fold (\<lambda>i c. c * (n - k + int i) div int i) [1..<Suc (nat k)] 1)"

text \<open>The loop that defines the positions of each intersected term, from position \<open>k - 1\<close> down.\<close>

fun next_positions :: "nat \<Rightarrow> nat \<Rightarrow> nat \<Rightarrow> nat list \<Rightarrow> nat list" where
  "next_positions N nb 0 pos = pos"
| "next_positions N nb (Suc k) pos =
     (if pos ! k < N - nb + k
      then take k pos @ map (\<lambda>l. pos ! k + 1 + l) [0..<nb - k]
      else next_positions N nb k pos)"

text \<open>The indexes that the two loops of the subtraction go through.\<close>

definition subtracted :: "nat \<Rightarrow> nat list \<Rightarrow> nat list" where
  "subtracted N pos =
     concat (map (\<lambda>k. [(if k = 0 then 0 else pos ! (k - 1) + 1)..<(if k = length pos then N else pos ! k)])
       [0..<Suc (length pos)])"

text \<open>The results that match all the terms of one combination and no other, with their levels.\<close>

definition combination :: "('a \<times> nat) list list \<Rightarrow> nat list \<Rightarrow> nat \<Rightarrow> nat \<Rightarrow> ('a \<times> nat) list" where
  "combination results pos nbCombinations level =
     (let s = map (\<lambda>(v, l). (v, if l \<noteq> 0 then nbCombinations else 0)) (results ! (pos ! 0));
          s = fold (\<lambda>k s. intersect s (results ! (pos ! k)) nbCombinations) [1..<length pos] s;
          s = fold (\<lambda>l s. subtract s (results ! l)) (subtracted (length results) pos) s
      in map (\<lambda>(v, l). (v, l + level)) s)"

text \<open>The loop on the combinations of \<open>nb\<close> terms; \<open>m\<close> of them are left and \<open>nb_final\<close> results are final.\<close>

fun combinations_loop ::
    "(('a \<times> nat) list \<Rightarrow> ('a \<times> nat) list) \<Rightarrow> ('a \<times> nat) list list \<Rightarrow> int \<Rightarrow> int \<Rightarrow> nat \<Rightarrow> nat \<Rightarrow> nat \<Rightarrow>
     nat list \<Rightarrow> nat \<Rightarrow> ('a \<times> nat) list \<Rightarrow> nat \<times> ('a \<times> nat) list" where
  "combinations_loop values results maxNbResult nb_final nb c 0 pos level nodesToSort = (level, nodesToSort)"
| "combinations_loop values results maxNbResult nb_final nb c (Suc m) pos level nodesToSort =
     (if int (length nodesToSort) + nb_final < maxNbResult
      then combinations_loop values results maxNbResult nb_final nb c m
             (next_positions (length results) nb nb pos) (level + 1)
             (nodesToSort @ values (combination results pos c level))
      else (level, nodesToSort))"

text \<open>The loop on the number of intersected terms: \<open>nb\<close> of them now, then fewer.\<close>

fun groups_loop ::
    "(('a \<times> nat) list \<Rightarrow> ('a \<times> nat) list) \<Rightarrow> (('a \<times> nat) list \<Rightarrow> ('a \<times> nat) list) \<Rightarrow>
     ('a \<times> nat) list list \<Rightarrow> int \<Rightarrow> nat \<Rightarrow> nat \<Rightarrow> ('a \<times> nat) list \<Rightarrow> ('a \<times> nat) list" where
  "groups_loop values std_sort results maxNbResult 0 level finalResult = finalResult"
| "groups_loop values std_sort results maxNbResult (Suc nb) level finalResult =
     (if int (length finalResult) < maxNbResult
      then (let c = nat (nCombinations (int (length results)) (int (Suc nb)));
                (level, nodesToSort) = combinations_loop values results maxNbResult (int (length finalResult)) (Suc nb) c c
                                         [0..<Suc nb] level []
            in groups_loop values std_sort results maxNbResult nb (level + c * Suc nb) (finalResult @ std_sort nodesToSort))
      else finalResult)"

text \<open>
  The search of several words.  \<open>None\<close> stands for the undefined behaviour of the last \<open>erase\<close>,
  which removes more results than there are when \<open>maxNbResult\<close> is negative.
\<close>

definition search_words ::
    "(('a \<times> nat) list \<Rightarrow> ('a \<times> nat) list) \<Rightarrow> (('a \<times> nat) list \<Rightarrow> ('a \<times> nat) list) \<Rightarrow>
     qstring list \<Rightarrow> int \<Rightarrow> ('a \<Rightarrow> bool) \<Rightarrow> 'a index \<Rightarrow> ('a \<times> nat) list option" where
  "search_words values std_sort words maxNbResult predicat root =
     (let N = length words;
          results = map (\<lambda>w. to_set (search_one w (if N = 1 then maxNbResult else - 1) predicat root)) words;
          finalResult = groups_loop values std_sort results maxNbResult N 0 []
      in if int (length finalResult) > maxNbResult
         then (if maxNbResult < 0 then None else Some (take (nat maxNbResult) finalResult))
         else Some finalResult)"

subsection \<open>Adding the words of an item\<close>

text \<open>What an index of words promises when an item is added.\<close>

locale word_map =
  fixes add :: "'w \<Rightarrow> 'a \<Rightarrow> 'n \<Rightarrow> 'n" and items_of :: "'n \<Rightarrow> 'w \<Rightarrow> 'a list" and valid :: "'n \<Rightarrow> bool" and word_ok :: "'w \<Rightarrow> bool"
  assumes add_valid: "valid n \<Longrightarrow> word_ok w \<Longrightarrow> valid (add w x n)"
    and add_items: "valid n \<Longrightarrow> word_ok w \<Longrightarrow> items_of (add w x n) v = (if v = w then items_of n w @ [x] else items_of n v)"
begin

lemma add_all:
  "valid n \<Longrightarrow> \<forall>w \<in> set ws. word_ok w \<Longrightarrow>
   valid (fold (\<lambda>w. add w x) ws n) \<and>
   items_of (fold (\<lambda>w. add w x) ws n) v = items_of n v @ replicate (count_list ws v) x"
proof (induction ws arbitrary: n)
  case (Cons w ws)
  then have "valid (add w x n)" "word_ok w" by (simp_all add: add_valid)
  with Cons show ?case by (auto simp: add_items replicate_append_same)
qed simp

lemma add_all_mem:
  assumes "valid n" "\<forall>w \<in> set ws. word_ok w"
  shows "y \<in> set (items_of (fold (\<lambda>w. add w x) ws n) v) \<longleftrightarrow> y \<in> set (items_of n v) \<or> y = x \<and> v \<in> set ws"
  using add_all [OF assms] count_list_0_iff [of ws v] by auto

end

interpretation tree: word_map addItem "\<lambda>n. lookup (children n)" "\<lambda>n. wf_forest (children n)" "\<lambda>w. w \<noteq> []"
  by unfold_locales (simp_all add: addItem_def add_child_wf lookup_add_child)

lemma addItem_words_fold: "addItem_words ws x n = fold (\<lambda>w. addItem w x) ws n"
  by (induction ws arbitrary: n) simp_all

text \<open>
  An item added under a list of words is found, without a limit, by the search of any beginning
  of one of these words that has at least 3 characters (1 for a Korean one) or is the whole word; and
  what the search found before is still found.
\<close>

theorem added_item_is_found:
  assumes "wf_forest (children root)" "\<forall>w \<in> set ws. w \<noteq> []" "predicat item"
    and "w \<in> set ws" "w = p @ u" "p \<noteq> []" "u = [] \<or> 3 \<le> length p \<or> isKorean p"
  shows "item \<in> fst ` set (search_one p (- 1) predicat (addItem_words ws item root)) \<and>
     fst ` set (search_one p (- 1) predicat root) \<subseteq> fst ` set (search_one p (- 1) predicat (addItem_words ws item root))"
proof -
  note new = tree.add_all [OF assms(1,2), of item] tree.add_all_mem [OF assms(1,2), of _ item]
  define sub where "sub = (length p \<ge> (if isKorean p then MIN_WORD_SIZE_PARTIAL_MATCH_KOREAN else MIN_WORD_SIZE_PARTIAL_MATCH))"
  have s: "fst ` set (search_one p (- 1) predicat n) = {x. predicat x \<and> (\<exists>v. (sub \<or> v = []) \<and> x \<in> set (lookup (children n) (p @ v)))}"
    if "wf_forest (children n)" for n
  proof (cases sub)
    case True
    then show ?thesis using search_prefix_items [OF that assms(6), of "- 1" predicat]
      by (simp add: search_one_def sub_def)
  next
    case False
    then show ?thesis using search_word_items [OF that assms(6), of "- 1" predicat]
      by (auto simp: search_one_def sub_def image_image)
  qed
  have "sub \<or> u = []"
    using assms(6,7) by (cases p) (auto simp: sub_def MIN_WORD_SIZE_PARTIAL_MATCH_def MIN_WORD_SIZE_PARTIAL_MATCH_KOREAN_def)
  then show ?thesis unfolding addItem_words_fold using new assms(3-5) s [OF assms(1)] by (auto simp: s)
qed


lemma added_item_is_found_witness:
  "(7 :: nat) \<in> fst ` set (search_one [0x61, 0x62, 0x63] (- 1) (\<lambda>_. True)
     (addItem_words [[0x61, 0x62, 0x63, 0x64], [0x65]] 7 root_node))"
proof -
  have "wf_forest (children (root_node :: nat index))" by (simp add: root_node_def)
  from this show ?thesis
    by (rule added_item_is_found [of _ _ _ _ "[0x61, 0x62, 0x63, 0x64]" _ "[0x64]", THEN conjunct1]) simp_all
qed

subsection \<open>Counting the combinations\<close>

lemma nCombinations_binomial:
  assumes "k \<le> n"
  shows "nCombinations (int n) (int k) = int (n choose k)"
proof -
  define F where "F = (\<lambda>i c. c * (int n - int k + int i) div int i)"
  have "fold F [1..<Suc m] 1 = int ((n - k + m) choose m)" for m
  proof (induction m)
    case (Suc m)
    let ?b = "int ((n - k + m) choose m)"
    have "Suc (n - k + m) * ((n - k + m) choose m) = (Suc (n - k + m) choose Suc m) * Suc m"
      by (rule Suc_times_binomial_eq)
    then have b: "?b * int (Suc (n - k + m)) = int ((n - k + Suc m) choose Suc m) * int (Suc m)"
      by (metis add_Suc_right mult.commute of_nat_mult)
    have e: "int n - int k + int (Suc m) = int (Suc (n - k + m))" using assms by simp
    have "[1..<Suc (Suc m)] = [1..<Suc m] @ [Suc m]" by simp
    then have "fold F [1..<Suc (Suc m)] 1 = F (Suc m) (fold F [1..<Suc m] 1)" by (simp only: fold_append fold_simps comp_apply)
    also have "\<dots> = ?b * int (Suc (n - k + m)) div int (Suc m)" unfolding Suc by (simp only: F_def e)
    also have "\<dots> = int ((n - k + Suc m) choose Suc m)" unfolding b by simp
    finally show ?case .
  qed simp
  from this [of k] assms show ?thesis by (simp add: nCombinations_def F_def)
qed

text \<open>
  \<open>nCombinations\<close> computes the binomial coefficient: every division of its loop is exact.
\<close>

theorem nCombinations_choose:
  assumes "k \<le> n"
  shows "nCombinations (int n) (int k) = int (n choose k)"
  using assms by (rule nCombinations_binomial)

lemma nCombinations_choose_witness: "nCombinations 6 2 = 15"
  using nCombinations_choose [of 2 6] by (simp add: choose_two)

subsection \<open>Enumerating the combinations\<close>

text \<open>The increasing lists of \<open>k\<close> numbers from \<open>lo\<close> to \<open>N - 1\<close>, in lexicographic order.\<close>

fun combs :: "nat \<Rightarrow> nat \<Rightarrow> nat \<Rightarrow> nat list list" where
  "combs m 0 N = [[]]"
| "combs 0 (Suc k) N = []"
| "combs (Suc m) (Suc k) N = map ((#) (N - Suc m)) (combs m k N) @ combs m (Suc k) N"

lemma combs_Nil: "m < k \<Longrightarrow> combs m k N = []"
  by (induction m k N rule: combs.induct) auto

lemma length_combs: "length (combs m k N) = m choose k"
  by (induction m k N rule: combs.induct) auto

lemma set_combs: "m \<le> N \<Longrightarrow> set (combs m k N) = {xs. length xs = k \<and> sorted_wrt (<) xs \<and> set xs \<subseteq> {N - m..<N}}"
proof (induction m k N rule: combs.induct)
  case (2 k N)
  then show ?case by (auto simp: length_Suc_conv)
next
  case (3 m k N)
  let ?a = "N - Suc m"
  have a: "?a < N" "N - m = Suc ?a" using 3(3) by auto
  have "xs \<in> set (combs (Suc m) (Suc k) N) \<longleftrightarrow> length xs = Suc k \<and> sorted_wrt (<) xs \<and> set xs \<subseteq> {?a..<N}" for xs
  proof (cases xs)
    case (Cons x ys)
    show ?thesis
    proof (cases "x = ?a")
      case True
      have "set ys \<subseteq> {Suc ?a..<N} \<longleftrightarrow> (\<forall>y \<in> set ys. ?a < y) \<and> set ys \<subseteq> {?a..<N}"
        by (auto simp: subset_iff Suc_le_eq)
      then show ?thesis using 3 a True Cons by (auto simp: image_iff)
    next
      case False
      then have "set xs \<subseteq> {?a..<N} \<and> sorted_wrt (<) xs \<longleftrightarrow> set xs \<subseteq> {Suc ?a..<N} \<and> sorted_wrt (<) xs"
        unfolding Cons by fastforce
      then show ?thesis using 3 a False Cons by (auto simp: image_iff)
    qed
  qed (use 3 in auto)
  then show ?case by blast
qed auto


text \<open>The next combination, from the tail of the list.\<close>

fun up :: "nat \<Rightarrow> nat list \<Rightarrow> nat list option" where
  "up N [] = None"
| "up N (x # xs) =
     (case up N xs of
        Some ys \<Rightarrow> Some (x # ys)
      | None \<Rightarrow> if x < N - Suc (length xs) then Some (map (\<lambda>l. x + 1 + l) [0..<Suc (length xs)]) else None)"

lemma up_append: "up N xs = Some ys \<Longrightarrow> up N (ps @ xs) = Some (ps @ ys)"
  by (induction ps) simp_all

lemma next_positions_up:
  "length (ps @ xs) \<le> N \<Longrightarrow> up N xs = None \<Longrightarrow>
   next_positions N (length (ps @ xs)) (length ps) (ps @ xs) = (case up N (ps @ xs) of None \<Rightarrow> ps @ xs | Some ys \<Rightarrow> ys)"
proof (induction ps arbitrary: xs rule: rev_induct)
  case (snoc p ps)
  have c: "N - length ((ps @ [p]) @ xs) + length ps = N - Suc (length xs)" using snoc.prems(1) by simp
  show ?case
  proof (cases "p < N - Suc (length xs)")
    case True
    then have "up N (p # xs) = Some (map (\<lambda>l. p + 1 + l) [0..<Suc (length xs)])" using snoc.prems(2) by simp
    then have "up N (ps @ p # xs) = Some (ps @ map (\<lambda>l. p + 1 + l) [0..<Suc (length xs)])" by (rule up_append)
    then show ?thesis using True c by (simp add: nth_append del: upt_Suc)
  next
    case False
    have "up N (p # xs) = None" using False snoc.prems(2) by simp
    from snoc.IH [OF _ this] show ?thesis using False c snoc.prems(1)
      by (auto simp: nth_append split: option.split)
  qed
qed simp

lemma next_positions_next:
  assumes "length pos \<le> N" "up N pos = Some ys"
  shows "next_positions N (length pos) (length pos) pos = ys"
  using next_positions_up [of pos "[]" N] assms by simp

lemma combs_hd: "k \<le> m \<Longrightarrow> m \<le> N \<Longrightarrow> combs m k N \<noteq> [] \<and> hd (combs m k N) = [N - m..<N - m + k]"
proof (induction m k N rule: combs.induct)
  case (3 m k N)
  then have "combs m k N \<noteq> []" "hd (combs m k N) = [N - m..<N - m + k]" by simp_all
  moreover have "[N - Suc m..<N - Suc m + Suc k] = (N - Suc m) # [N - m..<N - m + k]"
    using 3(4) by (simp add: upt_conv_Cons Suc_diff_Suc del: upt_Suc)
  ultimately show ?case by (simp add: hd_map del: upt_Suc)
qed simp_all

lemma combs_last: "k \<le> m \<Longrightarrow> m \<le> N \<Longrightarrow> up N (last (combs m k N)) = None \<and> length (last (combs m k N)) = k"
proof (induction m k N rule: combs.induct)
  case (3 m k N)
  show ?case
  proof (cases "Suc k \<le> m")
    case True
    then have "combs m (Suc k) N \<noteq> []" using combs_hd 3(4) by simp
    then show ?thesis using 3 True by simp
  next
    case False
    then have "combs m (Suc k) N = []" "k = m" using combs_Nil 3(3) by auto
    moreover have "combs m m N \<noteq> []" using combs_hd [of m m N] 3(4) by simp
    ultimately show ?thesis using 3(1,4) by (simp add: last_map)
  qed
qed simp_all

lemma combs_up: "m \<le> N \<Longrightarrow> successively (\<lambda>a b. up N a = Some b) (combs m k N)"
proof (induction m k N rule: combs.induct)
  case (3 m k N)
  have 1: "successively (\<lambda>a b. up N a = Some b) (map ((#) (N - Suc m)) (combs m k N))"
    using 3 by (auto simp: successively_map elim!: successively_mono)
  have 2: "successively (\<lambda>a b. up N a = Some b) (combs m (Suc k) N)" using 3 by simp
  have 3: "up N ((N - Suc m) # last (combs m k N)) = Some (hd (combs m (Suc k) N))" if "Suc k \<le> m"
  proof -
    define x where "x = N - Suc m"
    have x: "x < N - Suc k" "N - m = Suc x" using that 3(3) by (auto simp: x_def)
    have "map (\<lambda>l. x + 1 + l) [0..<Suc k] = [Suc x..<Suc x + Suc k]"
      by (intro nth_equalityI) (auto simp del: upt_Suc)
    moreover have "up N (last (combs m k N)) = None" "length (last (combs m k N)) = k" "hd (combs m (Suc k) N) = [Suc x..<Suc x + Suc k]"
      using combs_last [of k m N] combs_hd [of "Suc k" m N] that 3(3) unfolding x(2) by auto
    ultimately show ?thesis using x(1) unfolding x_def [symmetric] up.simps by (simp only: option.case if_True)
  qed
  show ?case
  proof (cases "Suc k \<le> m")
    case True
    then have "combs m k N \<noteq> []" using combs_hd [of k m N] 3 by (metis Suc_leD Suc_le_eq \<open>Suc m \<le> N\<close> order_less_imp_le)
    then show ?thesis using 1 2 3 [OF True] by (simp add: successively_append_iff last_map)
  next
    case False
    then show ?thesis using 1 combs_Nil [of m "Suc k" N] by simp
  qed
qed simp_all


text \<open>The subtraction goes through the terms that are not in the combination.\<close>

fun gaps :: "nat \<Rightarrow> nat \<Rightarrow> nat list \<Rightarrow> nat list" where
  "gaps lo N [] = [lo..<N]"
| "gaps lo N (p # ps) = [lo..<p] @ gaps (Suc p) N ps"

lemma gaps_concat:
  "concat (map (\<lambda>k. [(if k = 0 then lo else pos ! (k - 1) + 1)..<(if k = length pos then N else pos ! k)])
     [0..<Suc (length pos)]) = gaps lo N pos"
proof (induction pos arbitrary: lo)
  case (Cons p ps)
  define F where "F = (\<lambda>lo pos k. [(if k = 0 then lo else pos ! (k - 1) + 1)..<(if k = length pos then N else pos ! k)])"
  have "[0..<Suc (length (p # ps))] = 0 # map Suc [0..<Suc (length ps)]"
    unfolding map_Suc_upt length_Cons by (rule upt_conv_Cons) simp
  then have "concat (map (F lo (p # ps)) [0..<Suc (length (p # ps))]) =
    F lo (p # ps) 0 @ concat (map (\<lambda>k. F lo (p # ps) (Suc k)) [0..<Suc (length ps)])"
    by (simp add: comp_def del: upt_Suc)
  moreover have "F lo (p # ps) (Suc k) = F (Suc p) ps k" for k by (auto simp: F_def nth_Cons')
  moreover have "F lo (p # ps) 0 = [lo..<p]" by (simp add: F_def)
  moreover have "concat (map (F (Suc p) ps) [0..<Suc (length ps)]) = gaps (Suc p) N ps"
    using Cons.IH [of "Suc p"] by (simp only: F_def)
  ultimately have "concat (map (F lo (p # ps)) [0..<Suc (length (p # ps))]) = gaps lo N (p # ps)" by (simp del: upt_Suc)
  then show ?case by (simp only: F_def)
qed simp

lemma set_gaps: "sorted_wrt (<) pos \<Longrightarrow> set pos \<subseteq> {lo..<N} \<Longrightarrow> set (gaps lo N pos) = {lo..<N} - set pos"
proof (induction pos arbitrary: lo)
  case (Cons p ps)
  then have "set ps \<subseteq> {Suc p..<N}" by (auto simp: Suc_le_eq)
  then have "set (gaps (Suc p) N ps) = {Suc p..<N} - set ps" using Cons by simp
  with Cons.prems show ?case by fastforce
qed simp

lemma set_subtracted: "sorted_wrt (<) pos \<Longrightarrow> set pos \<subseteq> {0..<N} \<Longrightarrow> set (subtracted N pos) = {0..<N} - set pos"
  unfolding subtracted_def gaps_concat by (rule set_gaps)

subsection \<open>What a search of several words finds\<close>

lemma find_value_None: "find_value v s = None \<longleftrightarrow> v \<notin> fst ` set s"
  by (induction v s rule: find_value.induct) auto

lemma fst_intersect: "map fst (intersect s1 s2 c) = filter (\<lambda>v. v \<in> fst ` set s2) (map fst s1)"
proof (induction s1 s2 c rule: intersect.induct)
  case (2 v l s1 s2 c)
  then show ?case by (cases "find_value v s2") (simp_all add: find_value_None [symmetric])
qed simp

lemma fst_subtract: "map fst (subtract s1 s2) = filter (\<lambda>v. v \<notin> fst ` set s2) (map fst s1)"
  unfolding subtract_def find_value_None by (induction s1) (auto simp: case_prod_beta)

text \<open>The terms, by their index, that a value matches.\<close>

definition matches :: "('a \<times> nat) list list \<Rightarrow> 'a \<Rightarrow> nat set" where
  "matches results v = {l. l < length results \<and> v \<in> fst ` set (results ! l)}"

lemma fst_combination:
  assumes "sorted_wrt (<) pos" "set pos \<subseteq> {0..<length results}" "pos \<noteq> []" "\<forall>r \<in> set results. distinct (map fst r)"
  shows "distinct (map fst (combination results pos c level))"
    and "fst ` set (combination results pos c level) = {v. matches results v = set pos}"
proof -
  define V where "V l = fst ` set (results ! l)" for l
  define s where "s = map (\<lambda>(v, l). (v, if l \<noteq> 0 then c else 0)) (results ! (pos ! 0))"
  define t where "t = fold (\<lambda>k s. intersect s (results ! (pos ! k)) c) [1..<length pos] s"
  define u where "u = fold (\<lambda>l s. subtract s (results ! l)) (subtracted (length results) pos) t"
  have s: "map fst s = map fst (results ! (pos ! 0))" by (auto simp: s_def comp_def case_prod_beta)
  have "map fst (fold (\<lambda>k s. intersect s (results ! (pos ! k)) c) ks s') = filter (\<lambda>v. \<forall>k \<in> set ks. v \<in> V (pos ! k)) (map fst s')" for ks s'
    by (induction ks arbitrary: s') (auto simp: fst_intersect V_def intro!: filter_cong)
  then have t: "map fst t = filter (\<lambda>v. \<forall>k \<in> {1..<length pos}. v \<in> V (pos ! k)) (map fst s)" by (simp add: t_def)
  have "map fst (fold (\<lambda>l s. subtract s (results ! l)) ls s') = filter (\<lambda>v. \<forall>l \<in> set ls. v \<notin> V l) (map fst s')" for ls s'
    by (induction ls arbitrary: s') (auto simp: fst_subtract V_def intro!: filter_cong)
  then have u: "map fst u = filter (\<lambda>v. \<forall>l \<in> {0..<length results} - set pos. v \<notin> V l) (map fst t)"
    using set_subtracted [OF assms(1,2)] by (simp add: u_def)
  have "combination results pos c level = map (\<lambda>(v, l). (v, l + level)) u"
    by (simp add: combination_def Let_def s_def t_def u_def)
  then have m: "map fst (combination results pos c level) = map fst u" by (simp add: comp_def case_prod_beta)
  have p0: "pos ! 0 \<in> set pos" using assms(3) by simp
  then have "results ! (pos ! 0) \<in> set results" using assms(2) by auto
  then show "distinct (map fst (combination results pos c level))" using assms(4) unfolding m u t s by auto
  have "(\<forall>k \<in> {1..<length pos}. v \<in> V (pos ! k)) \<and> v \<in> V (pos ! 0) \<longleftrightarrow> (\<forall>l \<in> set pos. v \<in> V l)" for v
  proof
    assume v: "(\<forall>k \<in> {1..<length pos}. v \<in> V (pos ! k)) \<and> v \<in> V (pos ! 0)"
    have "v \<in> V (pos ! i)" if "i < length pos" for i using v that by (cases "i = 0") auto
    then show "\<forall>l \<in> set pos. v \<in> V l" by (auto simp: in_set_conv_nth)
  qed (use assms(3) in auto)
  then have "set (map fst u) = {v. (\<forall>l \<in> set pos. v \<in> V l) \<and> (\<forall>l \<in> {0..<length results} - set pos. v \<notin> V l)}"
    unfolding u t s by (auto simp: V_def)
  also have "\<dots> = {v. matches results v = set pos}" using assms(2) by (auto simp: matches_def V_def)
  finally show "fst ` set (combination results pos c level) = {v. matches results v = set pos}"
    using m by (metis list.set_map)
qed


text \<open>The values of the results of some combinations.\<close>

definition matching :: "('a \<times> nat) list list \<Rightarrow> nat list set \<Rightarrow> 'a set" where
  "matching results ps = {v. matches results v \<in> set ` ps}"

lemma combinations_loop_all:
  fixes results :: "('a \<times> nat) list list"
  assumes res: "\<forall>r \<in> set results. distinct (map fst r)" and vals: "\<And>xs. mset (values xs) = mset xs"
    and sub: "D \<subseteq> {v. matches results v \<noteq> {}}" and fin: "finite {v. matches results v \<noteq> {}}"
    and max: "int (card {v. matches results v \<noteq> {}}) < maxNbResult" and D: "finite D" "nb_final = int (card D)"
  shows "cs \<noteq> [] \<longrightarrow> hd cs = pos \<Longrightarrow> successively (\<lambda>a b. up (length results) a = Some b) cs \<Longrightarrow>
     \<forall>p \<in> set cs. length p = nb \<and> p \<noteq> [] \<and> sorted_wrt (<) p \<and> set p \<subseteq> {0..<length results} \<Longrightarrow> distinct (map set cs) \<Longrightarrow>
     distinct (map fst nodes) \<Longrightarrow> fst ` set nodes \<subseteq> {v. matches results v \<noteq> {}} \<Longrightarrow>
     (fst ` set nodes) \<inter> (D \<union> matching results (set cs)) = {} \<Longrightarrow> D \<inter> matching results (set cs) = {} \<Longrightarrow>
     nb \<le> length results \<Longrightarrow>
     combinations_loop values results maxNbResult nb_final nb c (length cs) pos level nodes = (level', nodes') \<Longrightarrow>
     distinct (map fst nodes') \<and> fst ` set nodes' = fst ` set nodes \<union> matching results (set cs)"
proof (induction cs arbitrary: pos level nodes)
  case Nil
  then show ?case by (simp add: matching_def)
next
  case (Cons p cs)
  let ?all = "{v. matches results v \<noteq> {}}" and ?N = "length results"
  have sets: "B \<subseteq> M \<Longrightarrow> M' \<subseteq> M \<Longrightarrow> B \<inter> M' = {} \<Longrightarrow> A \<inter> (E \<union> M) = {} \<Longrightarrow> E \<inter> M = {} \<Longrightarrow> (A \<union> B) \<inter> (E \<union> M') = {}"
    for A B E M M' :: "'a set" by blast
  have p: "p = pos" "length p = nb" "p \<noteq> []" "sorted_wrt (<) p" "set p \<subseteq> {0..<?N}" using Cons.prems(1,3) by auto
  define new where "new = values (combination results pos c level)"
  have m: "mset (map fst new) = mset (map fst (combination results pos c level))"
    using vals by (simp add: new_def)
  then have n: "distinct (map fst new)" "fst ` set new = {v. matches results v = set p}"
    using fst_combination [OF p(4,5,3) res, of c level] p(1) mset_eq_imp_distinct_iff [OF m] mset_eq_setD [OF m] by simp_all
  have disj: "fst ` set nodes \<inter> fst ` set new = {}" "fst ` set new \<inter> matching results (set cs) = {}"
  proof -
    have "set p \<notin> set ` set cs" using Cons.prems(4) by simp
    then show "fst ` set nodes \<inter> fst ` set new = {}" "fst ` set new \<inter> matching results (set cs) = {}"
      using Cons.prems(7) unfolding n(2) matching_def by (auto simp: image_iff)
  qed
  have "length nodes + card D \<le> card ?all"
  proof -
    have "length nodes = card (fst ` set nodes)" using Cons.prems(5) distinct_card by fastforce
    moreover have "card (fst ` set nodes \<union> D) = card (fst ` set nodes) + card D"
      using Cons.prems(7) D(1) by (intro card_Un_disjoint) auto
    moreover have "card (fst ` set nodes \<union> D) \<le> card ?all" using Cons.prems(6) sub fin by (intro card_mono) auto
    ultimately show ?thesis by simp
  qed
  then have go: "int (length nodes) + nb_final < maxNbResult" using max D(2) by simp
  have nxt: "cs \<noteq> [] \<longrightarrow> hd cs = next_positions ?N nb nb pos"
  proof
    assume "cs \<noteq> []"
    then have "up ?N p = Some (hd cs)" using Cons.prems(2) by (cases cs) auto
    then have "next_positions ?N (length p) (length p) p = hd cs" using p(2) Cons.prems(9) by (intro next_positions_next) auto
    then show "hd cs = next_positions ?N nb nb pos" using p(1,2) by simp
  qed
  have loop: "combinations_loop values results maxNbResult nb_final nb c (length cs) (next_positions ?N nb nb pos) (level + 1) (nodes @ new) = (level', nodes')"
    using Cons.prems(10) go by (simp add: new_def)
  have "distinct (map fst nodes') \<and> fst ` set nodes' = fst ` set (nodes @ new) \<union> matching results (set cs)"
  proof (rule Cons.IH [OF nxt])
    show "successively (\<lambda>a b. up ?N a = Some b) cs" using Cons.prems(2) by (cases cs) auto
    show "distinct (map fst (nodes @ new))" using Cons.prems(5) n(1) disj(1) by auto
    have "{v. matches results v = set p} \<subseteq> ?all" using p(3) by auto
    then show "fst ` set (nodes @ new) \<subseteq> ?all" using Cons.prems(6) by (simp add: image_Un n(2))
    have "fst ` set new \<subseteq> matching results (set (p # cs))" using n(2) by (auto simp: matching_def)
    then show "fst ` set (nodes @ new) \<inter> (D \<union> matching results (set cs)) = {}"
      using sets [OF _ _ disj(2) Cons.prems(7,8)] unfolding image_Un set_append by (auto simp: matching_def)
    show "D \<inter> matching results (set cs) = {}" using Cons.prems(8) by (auto simp: matching_def)
  qed (use Cons.prems(3,4,9) loop in auto)
  then show ?case using n(2) by (auto simp: matching_def)
qed


lemma distinct_combs: "m \<le> N \<Longrightarrow> distinct (combs m k N)"
proof (induction m k N rule: combs.induct)
  case (3 m k N)
  then show ?case by (auto simp: distinct_map set_combs subset_iff)
qed simp_all

lemma distinct_set_combs: "distinct (map set (combs N k N))"
  unfolding distinct_map
proof
  show "inj_on set (set (combs N k N))"
    by (rule inj_onI) (auto simp: set_combs intro: strict_sorted_equal)
qed (simp add: distinct_combs)

lemma finite_matches: "finite (matches results v)"
  by (rule finite_subset [of _ "{0..<length results}"]) (auto simp: matches_def)

lemma matches_le: "card (matches results v) \<le> length results"
proof -
  have "card (matches results v) \<le> card {0..<length results}" by (rule card_mono) (auto simp: matches_def)
  then show ?thesis by simp
qed

lemma matching_combs: "matching results (set (combs (length results) k (length results))) = {v. card (matches results v) = k}"
proof -
  let ?N = "length results"
  have "matches results v \<in> set ` set (combs ?N k ?N) \<longleftrightarrow> card (matches results v) = k" for v
  proof
    assume "matches results v \<in> set ` set (combs ?N k ?N)"
    then obtain xs where "matches results v = set xs" "length xs = k" "sorted_wrt (<) xs" by (auto simp: set_combs)
    then show "card (matches results v) = k" by (simp add: distinct_card strict_sorted_iff)
  next
    assume k: "card (matches results v) = k"
    let ?xs = "sorted_list_of_set (matches results v)"
    have "matches results v = set ?xs" by (simp add: finite_matches)
    moreover have "?xs \<in> set (combs ?N k ?N)" using k by (auto simp: set_combs finite_matches matches_def)
    ultimately show "matches results v \<in> set ` set (combs ?N k ?N)" by blast
  qed
  then show ?thesis by (simp add: matching_def)
qed

definition best_first :: "('a \<times> nat) list list \<Rightarrow> ('a \<times> nat) list \<Rightarrow> bool" where
  "best_first results xs = sorted_wrt (\<lambda>a b. card (matches results (fst b)) \<le> card (matches results (fst a))) xs"

lemma groups_loop_all:
  fixes results :: "('a \<times> nat) list list"
  assumes res: "\<forall>r \<in> set results. distinct (map fst r)" and vals: "\<And>xs. mset (values xs) = mset xs"
    and srt: "\<And>xs. mset (std_sort xs) = mset xs" and fin: "finite {v. matches results v \<noteq> {}}"
    and max: "int (card {v. matches results v \<noteq> {}}) < maxNbResult"
  shows "nb \<le> length results \<Longrightarrow> distinct (map fst final) \<Longrightarrow> fst ` set final = {v. nb < card (matches results v)} \<Longrightarrow>
     best_first results final \<Longrightarrow>
     (let xs = groups_loop values std_sort results maxNbResult nb level final
      in distinct (map fst xs) \<and> fst ` set xs = {v. matches results v \<noteq> {}} \<and> best_first results xs)"
proof (induction nb arbitrary: level final)
  case 0
  have "{v. 0 < card (matches results v)} = {v. matches results v \<noteq> {}}"
    using finite_matches by (auto simp: card_gt_0_iff)
  then show ?case using 0 by simp
next
  case (Suc nb)
  let ?N = "length results" and ?all = "{v. matches results v \<noteq> {}}"
  let ?cs = "combs ?N (Suc nb) ?N"
  define D where "D = fst ` set final"
  have D: "finite D" "card D = length final" "D \<subseteq> ?all" "D \<inter> matching results (set ?cs) = {}"
    proof -
    show "finite D" "card D = length final" using distinct_card [OF Suc.prems(2)] by (simp_all add: D_def)
    show "D \<subseteq> ?all" "D \<inter> matching results (set ?cs) = {}"
      using Suc.prems(3) unfolding matching_combs D_def by auto
  qed
  then have "int (length final) < maxNbResult" using card_mono [OF fin D(3)] max by linarith
  define c where "c = nat (nCombinations (int ?N) (int (Suc nb)))"
  have c: "c = length ?cs" using nCombinations_binomial [OF Suc.prems(1)] by (simp add: c_def length_combs)
  obtain level' nodes where loop:
    "combinations_loop values results maxNbResult (int (length final)) (Suc nb) c c [0..<Suc nb] level [] = (level', nodes)"
    by (metis surj_pair)
  have nodes: "distinct (map fst nodes) \<and> fst ` set nodes = fst ` set ([] :: ('a \<times> nat) list) \<union> matching results (set ?cs)"
  proof (rule combinations_loop_all [OF res vals D(3) fin max D(1)])
    show "int (length final) = int (card D)" using D(2) by simp
    show "?cs \<noteq> [] \<longrightarrow> hd ?cs = [0..<Suc nb]" using combs_hd [of "Suc nb" ?N ?N] Suc.prems(1) by simp
    show "successively (\<lambda>a b. up ?N a = Some b) ?cs" by (rule combs_up) simp
    show "\<forall>p \<in> set ?cs. length p = Suc nb \<and> p \<noteq> [] \<and> sorted_wrt (<) p \<and> set p \<subseteq> {0..<?N}"
      by (auto simp: set_combs)
    show "combinations_loop values results maxNbResult (int (length final)) (Suc nb) c (length ?cs) [0..<Suc nb] level [] = (level', nodes)"
      using loop c by simp
  qed (use Suc.prems(1) D(4) distinct_set_combs in auto)
  define new where "new = std_sort nodes"
  have m: "mset (map fst new) = mset (map fst nodes)" using srt by (simp add: new_def)
  then have new: "distinct (map fst new)" "fst ` set new = {v. card (matches results v) = Suc nb}"
    using nodes mset_eq_imp_distinct_iff [OF m] mset_eq_setD [OF m] unfolding matching_combs by simp_all
  have "groups_loop values std_sort results maxNbResult (Suc nb) level final =
    groups_loop values std_sort results maxNbResult nb (level' + c * Suc nb) (final @ new)"
    using \<open>int (length final) < maxNbResult\<close>
    unfolding groups_loop.simps Let_def c_def [symmetric] loop new_def by simp
  moreover have "distinct (map fst (final @ new))" using Suc.prems(2,3) new by auto
  moreover have "fst ` set (final @ new) = {v. nb < card (matches results v)}"
    using Suc.prems(3) new(2) by (auto simp: image_Un)
  moreover have "best_first results (final @ new)"
  proof -
    have "\<forall>x \<in> set new. card (matches results (fst x)) = Suc nb" using new(2) by blast
    moreover from this have "best_first results new" unfolding best_first_def by (simp add: sorted_wrt_iff_nth_less)
    moreover have "\<forall>x \<in> set final. Suc nb < card (matches results (fst x))" using Suc.prems(3) by blast
    ultimately show ?thesis using Suc.prems(4) by (force simp: best_first_def sorted_wrt_append)
  qed
  ultimately show ?case using Suc.IH [of "final @ new" "level' + c * Suc nb"] Suc.prems(1) by simp
qed


lemma to_set_values: "distinct (map fst (to_set xs)) \<and> fst ` set (to_set xs) = fst ` set xs"
proof (induction xs rule: to_set.induct)
  case (2 n ns)
  have "fst ` {m \<in> A. fst m \<noteq> a} = fst ` A - {a}" for A :: "('a \<times> nat) set" and a by auto
  then have "fst ` set (to_set (n # ns)) = insert (fst n) (fst ` set (to_set ns))" by simp
  moreover have "distinct (map fst (to_set (n # ns)))"
    using distinct_map_filter [OF conjunct1 [OF 2], of "\<lambda>m. fst m \<noteq> fst n"] by auto
  moreover have "fst ` set (to_set ns) = fst ` set ns" using 2 by (rule conjunct2)
  ultimately show ?case by (simp only: list.set image_insert)
qed simp

lemma to_set_fst: "fst ` set (to_set xs) = fst ` set xs"
  by (rule conjunct2 [OF to_set_values])

text \<open>The results of each word on its own.\<close>

definition each_word :: "qstring list \<Rightarrow> ('a \<Rightarrow> bool) \<Rightarrow> 'a index \<Rightarrow> ('a \<times> nat) list list" where
  "each_word words predicat root = map (\<lambda>w. search_one w (- 1) predicat root) words"


definition two_items :: "nat index" where
  "two_items = addItem_words [[0x62]] 2 (addItem_words [[0x61], [0x62]] 1 root_node)"

lemma each_word_two_items: "each_word [[0x61], [0x62]] (\<lambda>_. True) two_items = [[(1, 0)], [(1, 0), (2, 0)]]"
  by code_simp


text \<open>With the default \<open>maxNbResult = -1\<close> nothing is collected and the last \<open>erase\<close> is undefined.\<close>

theorem search_words_default_maximum:
  "search_words values std_sort words (- 1) predicat root = None"
proof -
  have "groups_loop values std_sort results (- 1) nb 0 [] = []" for results nb by (cases nb) simp_all
  then show ?thesis by (simp add: search_words_def)
qed

end
