(* ===== verification/File_Search.thy ===== *)
theory File_Search
  imports Word_Index
begin

text \<open>
  The search of shared entries: \<open>Common/KnownExtensions.cpp\<close> (the extension of a file name),
  \<open>Core/FileManager/priv/ExtensionIndex.h\<close>, and the part of \<open>FileManager.cpp\<close> that keeps the indexes up
  to date and answers \<open>find\<close>.

  An \<open>Entry*\<close> is a value of the type \<open>'e\<close>; what the code reads of an entry is the record of
  functions \<open>entry_data\<close>.  The index by size is a \<open>SortedArray\<close>: here the set of its entries, and
  its range search is the argument \<open>size_search\<close>.  The order of a \<open>QSet\<close> is the argument \<open>elements\<close>.
\<close>

subsection \<open>Extensions\<close>

text \<open>\<open>known\<close> is the table of the known extensions; the scan goes on after the dot at index \<open>i\<close>.\<close>

definition exists_ext :: "qstring set \<Rightarrow> qstring \<Rightarrow> bool" where
  "exists_ext known extension \<longleftrightarrow> extension \<in> known"

fun scan_extension :: "qstring set \<Rightarrow> nat \<Rightarrow> qstring \<Rightarrow> int" where
  "scan_extension known i [] = - 1"
| "scan_extension known i (c # rest) =
     (if c = 0x2E
      then (if rest = [] then - 1
            else if exists_ext known rest then int i + 1
            else scan_extension known (Suc i) rest)
      else scan_extension known (Suc i) rest)"

definition getBeginningExtension :: "qstring set \<Rightarrow> qstring \<Rightarrow> int" where
  "getBeginningExtension known filename = scan_extension known 1 (drop 1 filename)"

definition removeExtension :: "qstring set \<Rightarrow> qstring \<Rightarrow> qstring" where
  "removeExtension known filename =
     (let i = getBeginningExtension known filename
      in if i \<noteq> - 1 then take (nat (i - 1)) filename else filename)"

definition known_extension :: "qstring set \<Rightarrow> qstring \<Rightarrow> qstring" where
  "known_extension known filename =
     (let i = getBeginningExtension known filename
      in if i \<noteq> - 1 then drop (nat i) filename else [])"

subsection \<open>The index by extension\<close>

type_synonym 'e ext_index = "qstring \<Rightarrow> 'e set option"

definition ext_addItem :: "(qstring \<Rightarrow> qstring) \<Rightarrow> qstring \<Rightarrow> 'e \<Rightarrow> 'e ext_index \<Rightarrow> 'e ext_index" where
  "ext_addItem toLower extension item index =
     (if extension = [] then index
      else (let k = toLower extension;
                s = (case index k of None \<Rightarrow> {} | Some s \<Rightarrow> s)
            in index(k \<mapsto> insert item s)))"

definition ext_rmItem :: "qstring \<Rightarrow> 'e \<Rightarrow> 'e ext_index \<Rightarrow> 'e ext_index" where
  "ext_rmItem extension item index =
     (if extension = [] then index
      else (case index extension of
              None \<Rightarrow> index
            | Some s \<Rightarrow> (let s = s - {item} in if s = {} then index(extension := None) else index(extension \<mapsto> s))))"

definition ext_changeItem :: "(qstring \<Rightarrow> qstring) \<Rightarrow> qstring \<Rightarrow> qstring \<Rightarrow> 'e \<Rightarrow> 'e ext_index \<Rightarrow> 'e ext_index" where
  "ext_changeItem toLower oldExtension newExtension item index =
     ext_addItem toLower newExtension item (ext_rmItem oldExtension item index)"

text \<open>
  The inner loop of \<open>search\<close>: the flag tells that it left both loops.  A predicate that is not
  given is \<open>None\<close>.
\<close>

fun ext_items_loop :: "int \<Rightarrow> ('e \<Rightarrow> bool) option \<Rightarrow> 'e list \<Rightarrow> 'e list \<Rightarrow> bool \<times> 'e list" where
  "ext_items_loop limit predicat [] result = (False, result)"
| "ext_items_loop limit predicat (j # js) result =
     (let result = (if case predicat of None \<Rightarrow> True | Some p \<Rightarrow> p j then result @ [j] else result)
      in if int (length result) \<ge> limit then (True, result) else ext_items_loop limit predicat js result)"

fun ext_search_loop ::
    "(qstring \<Rightarrow> qstring) \<Rightarrow> ('e set \<Rightarrow> 'e list) \<Rightarrow> nat \<Rightarrow> int \<Rightarrow> ('e \<Rightarrow> bool) option \<Rightarrow> 'e ext_index \<Rightarrow>
     qstring list \<Rightarrow> 'e list \<Rightarrow> 'e list" where
  "ext_search_loop toLower elements nb limit predicat index [] result = result"
| "ext_search_loop toLower elements nb limit predicat index (extension # extensions) result =
     (case index (toLower extension) of
        None \<Rightarrow> ext_search_loop toLower elements nb limit predicat index extensions result
      | Some s \<Rightarrow>
          if nb = 1 \<and> predicat = None \<and> int (card s) \<le> limit then elements s
          else (let (stop, result) = ext_items_loop limit predicat (elements s) result
                in if stop then result
                   else ext_search_loop toLower elements nb limit predicat index extensions result))"

definition ext_search ::
    "(qstring \<Rightarrow> qstring) \<Rightarrow> ('e set \<Rightarrow> 'e list) \<Rightarrow> qstring list \<Rightarrow> int \<Rightarrow> ('e \<Rightarrow> bool) option \<Rightarrow> 'e ext_index \<Rightarrow> 'e list" where
  "ext_search toLower elements extensions limit predicat index =
     ext_search_loop toLower elements (length extensions) limit predicat index extensions []"

subsection \<open>The indexes of the file manager\<close>

record 'e entry_data =
  e_name :: "'e \<Rightarrow> qstring"
  e_size :: "'e \<Rightarrow> int"
  e_is_file :: "'e \<Rightarrow> bool"

record 'e file_indexes =
  wordIndex :: "'e index"
  extensionIndex :: "'e ext_index"
  sizeIndex :: "'e set"
  cacheLoading :: bool

record text_tables =
  t_toLower :: "qstring \<Rightarrow> qstring"
  t_is_word :: "qchar \<Rightarrow> bool"
  t_known :: "qstring set"
  t_unfinished_suffix :: qstring

definition is_unfinished_name :: "text_tables \<Rightarrow> qstring \<Rightarrow> bool" where
  "is_unfinished_name tt filename \<longleftrightarrow>
     (let s = t_unfinished_suffix tt in length filename > length s \<and> drop (length filename - length s) filename = s)"

definition words_of :: "text_tables \<Rightarrow> qstring \<Rightarrow> qstring list" where
  "words_of tt = splitInWords (t_toLower tt) (t_is_word tt)"

definition entryAdded :: "text_tables \<Rightarrow> 'e entry_data \<Rightarrow> 'e \<Rightarrow> 'e file_indexes \<Rightarrow> 'e file_indexes" where
  "entryAdded tt d entry fi =
     (if e_name d entry = [] \<or> is_unfinished_name tt (e_name d entry) then fi
      else (let fi = fi\<lparr>wordIndex := addItem_words (words_of tt (removeExtension (t_known tt) (e_name d entry))) entry (wordIndex fi)\<rparr>;
                fi = fi\<lparr>extensionIndex := ext_addItem (t_toLower tt) (known_extension (t_known tt) (e_name d entry)) entry (extensionIndex fi)\<rparr>
            in if \<not> cacheLoading fi then fi\<lparr>sizeIndex := insert entry (sizeIndex fi)\<rparr> else fi))"

definition entryRemoved :: "text_tables \<Rightarrow> 'e entry_data \<Rightarrow> 'e \<Rightarrow> 'e file_indexes \<Rightarrow> 'e file_indexes" where
  "entryRemoved tt d entry fi =
     (if e_name d entry = [] then fi
      else (let fi = fi\<lparr>wordIndex := snd (rmItem_words (words_of tt (e_name d entry)) entry (wordIndex fi))\<rparr>;
                fi = fi\<lparr>extensionIndex := ext_rmItem (known_extension (t_known tt) (e_name d entry)) entry (extensionIndex fi)\<rparr>
            in fi\<lparr>sizeIndex := sizeIndex fi - {entry}\<rparr>))"

definition entryRenamed :: "text_tables \<Rightarrow> 'e entry_data \<Rightarrow> 'e \<Rightarrow> qstring \<Rightarrow> 'e file_indexes \<Rightarrow> 'e file_indexes" where
  "entryRenamed tt d entry oldName fi =
     (let fi = fi\<lparr>wordIndex := renameItem_words (words_of tt oldName) (words_of tt (e_name d entry)) entry (wordIndex fi)\<rparr>
      in fi\<lparr>extensionIndex := ext_changeItem (t_toLower tt) (known_extension (t_known tt) oldName)
              (known_extension (t_known tt) (e_name d entry)) entry (extensionIndex fi)\<rparr>)"

definition entryResizing :: "'e \<Rightarrow> 'e file_indexes \<Rightarrow> 'e file_indexes" where
  "entryResizing entry fi = fi\<lparr>sizeIndex := sizeIndex fi - {entry}\<rparr>"

definition entryResized :: "'e \<Rightarrow> 'e file_indexes \<Rightarrow> 'e file_indexes" where
  "entryResized entry fi = fi\<lparr>sizeIndex := insert entry (sizeIndex fi)\<rparr>"


subsection \<open>Finding\<close>

datatype category = FILE_DIR | FILE | DIR

definition in_category :: "'e entry_data \<Rightarrow> category \<Rightarrow> 'e \<Rightarrow> bool" where
  "in_category d category entry \<longleftrightarrow> category = FILE \<and> e_is_file d entry \<or> category = DIR \<and> \<not> e_is_file d entry"

definition max_qint64 :: int where
  "max_qint64 = 2 ^ 63 - 1"

text \<open>The entries that \<open>find\<close> selects, with their levels.\<close>

definition find_entries ::
    "text_tables \<Rightarrow> 'e entry_data \<Rightarrow> (('e \<times> nat) list \<Rightarrow> ('e \<times> nat) list) \<Rightarrow> (('e \<times> nat) list \<Rightarrow> ('e \<times> nat) list) \<Rightarrow>
     ('e set \<Rightarrow> 'e list) \<Rightarrow> (int \<Rightarrow> int \<Rightarrow> int \<Rightarrow> ('e \<Rightarrow> bool) option \<Rightarrow> 'e set \<Rightarrow> 'e list) \<Rightarrow>
     qstring \<Rightarrow> qstring list \<Rightarrow> int \<Rightarrow> int \<Rightarrow> category \<Rightarrow> int \<Rightarrow> 'e file_indexes \<Rightarrow> ('e \<times> nat) list option" where
  "find_entries tt d values std_sort elements size_search words extensions minFileSize maxFileSize category maxNbResult fi =
     (let filterBySizeOn = (minFileSize > 0 \<or> maxFileSize \<noteq> max_qint64);
          filterByExtensionsOn = (extensions \<noteq> []);
          filterByCategoryOn = (category \<noteq> FILE_DIR);
          filterOn = (filterBySizeOn \<or> filterByExtensionsOn \<or> filterByCategoryOn);
          by_size = (\<lambda>entry. \<not> filterBySizeOn \<or> e_size d entry \<ge> minFileSize \<and> e_size d entry \<le> maxFileSize);
          by_category = (\<lambda>entry. \<not> filterByCategoryOn \<or> in_category d category entry)
      in if words \<noteq> []
         then search_words values std_sort (words_of tt words) maxNbResult
                (if \<not> filterOn then (\<lambda>_. True)
                 else (\<lambda>entry. by_size entry \<and>
                    (\<not> filterByExtensionsOn \<or> known_extension (t_known tt) (e_name d entry) \<in> set extensions) \<and> by_category entry))
                (wordIndex fi)
         else if filterBySizeOn \<or> filterByExtensionsOn
         then (let intermediateResult =
                     (if extensions \<noteq> []
                      then (if filterBySizeOn \<or> filterByCategoryOn
                            then ext_search (t_toLower tt) elements extensions maxNbResult
                                   (Some (\<lambda>entry. by_size entry \<and> by_category entry)) (extensionIndex fi)
                            else ext_search (t_toLower tt) elements extensions maxNbResult None (extensionIndex fi))
                      else (if filterByCategoryOn
                            then size_search minFileSize maxFileSize maxNbResult (Some (in_category d category)) (sizeIndex fi)
                            else size_search minFileSize maxFileSize maxNbResult None (sizeIndex fi)))
               in Some (map (\<lambda>e. (e, 0)) intermediateResult))
         else Some [])"

text \<open>
  The loop that distributes them on messages of a limited size: \<open>bytes\<close> is the size of an entry in a
  message, \<open>base\<close> the one of an empty message.
\<close>

fun message_loop :: "('r \<Rightarrow> int) \<Rightarrow> int \<Rightarrow> int \<Rightarrow> 'r list \<Rightarrow> 'r list list \<Rightarrow> int \<Rightarrow> 'r list list" where
  "message_loop bytes base maxSize [] findResults currentSize = findResults"
| "message_loop bytes base maxSize (r # rs) findResults currentSize =
     (let findResults = butlast findResults @ [last findResults @ [r]];
          entryByteSize = bytes r + 8;
          currentSize = currentSize + entryByteSize
      in if currentSize > maxSize
         then (let entries = last findResults;
                   findResults = (if length entries > 0 then butlast findResults @ [butlast entries, [last entries]]
                                  else findResults @ [[]])
               in message_loop bytes base maxSize rs findResults (base + entryByteSize))
         else message_loop bytes base maxSize rs findResults currentSize)"

definition to_messages :: "('r \<Rightarrow> int) \<Rightarrow> int \<Rightarrow> int \<Rightarrow> 'r list \<Rightarrow> 'r list list" where
  "to_messages bytes base maxSize result =
     (let findResults = message_loop bytes base maxSize result [[]] base
      in if last findResults = [] then butlast findResults else findResults)"

definition find_messages ::
    "(('e \<times> nat) \<Rightarrow> int) \<Rightarrow> int \<Rightarrow> int \<Rightarrow> ('e \<times> nat) list option \<Rightarrow> ('e \<times> nat) list list option" where
  "find_messages bytes base maxSize result = map_option (to_messages bytes base maxSize) result"

text \<open>\<open>haveChunks\<close>: an empty array when none of the chunks is owned.\<close>

definition haveChunks :: "hash set \<Rightarrow> hash list \<Rightarrow> bool list" where
  "haveChunks chunks hashes =
     (let result = map (\<lambda>h. h \<in> chunks) hashes
      in if \<not> (\<exists>h \<in> set hashes. h \<in> chunks) then [] else result)"

subsection \<open>The messages hold the results\<close>

definition message_size :: "('r \<Rightarrow> int) \<Rightarrow> int \<Rightarrow> 'r list \<Rightarrow> int" where
  "message_size bytes base m = base + sum_list (map (\<lambda>r. bytes r + 8) m)"

lemma message_loop_inv:
  assumes "findResults \<noteq> []" "currentSize = message_size bytes base (last findResults)"
    and "\<forall>m \<in> set findResults. length m \<le> 1 \<or> message_size bytes base m \<le> maxSize" "\<And>r. 0 \<le> bytes r"
  shows "message_loop bytes base maxSize rs findResults currentSize \<noteq> [] \<and>
     concat (message_loop bytes base maxSize rs findResults currentSize) = concat findResults @ rs \<and>
     (\<forall>m \<in> set (message_loop bytes base maxSize rs findResults currentSize). length m \<le> 1 \<or> message_size bytes base m \<le> maxSize)"
  using assms(1-3)
proof (induction rs arbitrary: findResults currentSize)
  case (Cons r rs)
  obtain ms m where f: "findResults = ms @ [m]" using Cons.prems(1) by (cases findResults rule: rev_cases) auto
  let ?c = "currentSize + (bytes r + 8)"
  have size: "message_size bytes base (m @ [r]) = ?c" using Cons.prems(2) f by (simp add: message_size_def)
  have le: "message_size bytes base m \<le> ?c" using Cons.prems(2) f assms(4) [of r] by simp
  show ?case
  proof (cases "?c > maxSize")
    case True
    have "message_loop bytes base maxSize (r # rs) findResults currentSize =
      message_loop bytes base maxSize rs (ms @ [m, [r]]) (base + (bytes r + 8))"
      using True f by (simp add: Let_def)
    moreover have "message_size bytes base [r] = base + (bytes r + 8)" by (simp add: message_size_def)
    moreover have "length m \<le> 1 \<or> message_size bytes base m \<le> maxSize" using Cons.prems(3) f by simp
    ultimately show ?thesis using Cons.IH [of "ms @ [m, [r]]" "base + (bytes r + 8)"] Cons.prems(3) f by simp
  next
    case False
    have "message_loop bytes base maxSize (r # rs) findResults currentSize =
      message_loop bytes base maxSize rs (ms @ [m @ [r]]) ?c"
      using False f by (simp add: Let_def)
    then show ?thesis using Cons.IH [of "ms @ [m @ [r]]" ?c] Cons.prems(3) f size False by simp
  qed
qed simp

text \<open>
  The messages that \<open>find\<close> sends hold all the selected entries in their order, and a message
  with more than one entry does not exceed the size asked for.
\<close>

theorem to_messages_complete:
  assumes "\<And>r. 0 \<le> bytes r"
  shows "concat (to_messages bytes base maxSize result) = result \<and>
     (\<forall>m \<in> set (to_messages bytes base maxSize result). length m \<le> 1 \<or> message_size bytes base m \<le> maxSize)"
proof -
  let ?f = "message_loop bytes base maxSize result [[]] base"
  have f: "?f \<noteq> []" "concat ?f = result" "\<forall>m \<in> set ?f. length m \<le> 1 \<or> message_size bytes base m \<le> maxSize"
    using message_loop_inv [of "[[]]" base bytes base maxSize result] assms by (simp_all add: message_size_def)
  then obtain ms m where m: "?f = ms @ [m]" by (cases ?f rule: rev_cases) auto
  then show ?thesis using f unfolding to_messages_def by (auto simp: Let_def)
qed

lemma to_messages_complete_witness:
  "concat (to_messages int 10 50 [5, 20, 3]) = [5, 20, 3]"
  using to_messages_complete [of int 10 50 "[5, 20, 3]", OF of_nat_0_le_iff] by blast

text \<open>A first entry that is too large leaves an empty message before its own.\<close>

theorem to_messages_empty_message:
  "to_messages (\<lambda>r. r) 10 50 [60 :: int] = [[], [60]]"
  by code_simp


subsection \<open>The extension of a name\<close>

lemma scan_extension_split:
  "scan_extension known i s = - 1 \<or>
   (\<exists>k. scan_extension known i s = int (i + k) + 1 \<and> k < length s \<and> s ! k = 0x2E \<and>
      drop (Suc k) s \<noteq> [] \<and> drop (Suc k) s \<in> known \<and>
      (\<forall>j < k. s ! j = 0x2E \<longrightarrow> drop (Suc j) s \<notin> known))"
proof (induction s arbitrary: i)
  case (Cons c s)
  have step: ?case if "scan_extension known i (c # s) = scan_extension known (Suc i) s" "c = 0x2E \<longrightarrow> s \<notin> known"
  proof (cases "scan_extension known (Suc i) s = - 1")
    case False
    then obtain k where k: "scan_extension known (Suc i) s = int (Suc i + k) + 1" "k < length s" "s ! k = 0x2E"
      "drop (Suc k) s \<noteq> []" "drop (Suc k) s \<in> known" "\<forall>j < k. s ! j = 0x2E \<longrightarrow> drop (Suc j) s \<notin> known"
      using Cons by blast
    have "\<forall>j < Suc k. (c # s) ! j = 0x2E \<longrightarrow> drop (Suc j) (c # s) \<notin> known"
      using k(6) that(2) by (auto simp: less_Suc_eq_0_disj)
    then show ?thesis using k that(1) by (intro disjI2 exI [of _ "Suc k"]) simp
  qed (use that in simp)
  show ?case
  proof (cases "c = 0x2E")
    case True
    consider "s = []" | "s \<noteq> []" "s \<in> known" | "s \<noteq> []" "s \<notin> known" by blast
    then show ?thesis
    proof cases
      case 2
      then show ?thesis using True by (intro disjI2 exI [of _ 0]) (simp add: exists_ext_def)
    next
      case 3
      then show ?thesis using True by (intro step) (simp_all add: exists_ext_def)
    qed (use True in simp)
  qed (use step in simp)
qed simp

text \<open>
  A name is what \<open>removeExtension\<close> keeps, a dot and the extension that \<open>getExtension\<close> returns,
  which is a known one and the longest one after a dot that is not the first character; a name without
  such an extension is kept as it is.
\<close>

theorem extension_split:
  "if known_extension known f = []
   then removeExtension known f = f
   else f = removeExtension known f @ 0x2E # known_extension known f \<and> removeExtension known f \<noteq> [] \<and>
     known_extension known f \<in> known \<and>
     (\<forall>a b. f = a @ 0x2E # b \<longrightarrow> a \<noteq> [] \<longrightarrow> b \<in> known \<longrightarrow> length b \<le> length (known_extension known f))"
proof (cases "getBeginningExtension known f = - 1")
  case True
  then show ?thesis by (simp add: known_extension_def removeExtension_def)
next
  case False
  define t where "t = drop 1 f"
  obtain k where k: "getBeginningExtension known f = int (1 + k) + 1" "k < length t" "t ! k = 0x2E"
    "drop (Suc k) t \<noteq> []" "drop (Suc k) t \<in> known" "\<forall>j < k. t ! j = 0x2E \<longrightarrow> drop (Suc j) t \<notin> known"
    using scan_extension_split [of known 1 t] False unfolding getBeginningExtension_def t_def [symmetric] by blast
  obtain c where f: "f = c # t" using k(2) by (cases f) (simp_all add: t_def)
  have e: "known_extension known f = drop (Suc k) t" "removeExtension known f = c # take k t"
    using k(1) False f by (simp_all add: known_extension_def removeExtension_def Let_def nat_add_distrib)
  have "t = take k t @ 0x2E # drop (Suc k) t" using k(2,3) id_take_nth_drop by metis
  moreover have "length b \<le> length (drop (Suc k) t)" if "f = a @ 0x2E # b" "a \<noteq> []" "b \<in> known" for a b
  proof (rule ccontr)
    assume l: "\<not> length b \<le> length (drop (Suc k) t)"
    note ab = that
    obtain a' where a: "t = a' @ 0x2E # b" using ab f by (cases a) auto
    then have "length a' < k" using l k(2) by simp
    moreover have "t ! length a' = 0x2E" "drop (Suc (length a')) t = b" using a by simp_all
    ultimately show False using k(6) that(3) by blast
  qed
  ultimately show ?thesis using k(4,5) unfolding e by (simp add: f)
qed

lemma extension_split_witness:
  "known_extension {[0x6D, 0x70]} [0x61, 0x2E, 0x6D, 0x70] = [0x6D, 0x70] \<and>
   [0x61, 0x2E, 0x6D, 0x70] = removeExtension {[0x6D, 0x70]} [0x61, 0x2E, 0x6D, 0x70] @ [0x2E, 0x6D, 0x70]"
proof -
  have "known_extension {[0x6D, 0x70]} [0x61, 0x2E, 0x6D, 0x70] = [0x6D, 0x70]" by code_simp
  then show ?thesis using extension_split [of "{[0x6D, 0x70]}" "[0x61, 0x2E, 0x6D, 0x70]"] by auto
qed

subsection \<open>What the index by extension finds\<close>

definition ext_matching :: "(qstring \<Rightarrow> qstring) \<Rightarrow> qstring list \<Rightarrow> ('e \<Rightarrow> bool) option \<Rightarrow> 'e ext_index \<Rightarrow> 'e set" where
  "ext_matching toLower extensions predicat index =
     {x. (case predicat of None \<Rightarrow> True | Some p \<Rightarrow> p x) \<and> (\<exists>e \<in> set extensions. \<exists>s. index (toLower e) = Some s \<and> x \<in> s)}"

lemma ext_items_loop_result:
  "ext_items_loop limit predicat js result = (stop, result') \<Longrightarrow>
   set result' \<subseteq> set result \<union> {x \<in> set js. case predicat of None \<Rightarrow> True | Some p \<Rightarrow> p x} \<and>
   (stop \<longrightarrow> int (length result') \<ge> limit) \<and>
   (\<not> stop \<longrightarrow> set result' = set result \<union> {x \<in> set js. case predicat of None \<Rightarrow> True | Some p \<Rightarrow> p x})"
proof (induction js arbitrary: result)
  case (Cons j js)
  let ?r = "if case predicat of None \<Rightarrow> True | Some p \<Rightarrow> p j then result @ [j] else result"
  show ?case
  proof (cases "int (length ?r) \<ge> limit")
    case True
    then have "stop" "result' = ?r" using Cons.prems by (auto simp: Let_def)
    then show ?thesis using True by auto
  next
    case False
    then have "ext_items_loop limit predicat js ?r = (stop, result')" using Cons.prems by (simp add: Let_def)
    from Cons.IH [OF this] show ?thesis by (auto split: if_splits)
  qed
qed simp

text \<open>
  The search by extension only returns items indexed under one of the given extensions, in lower
  case, that the predicate accepts; when it returns fewer than its limit it returns all of them.
\<close>

theorem ext_search_finds:
  assumes "\<And>s. finite s \<Longrightarrow> set (elements s) = s" "\<And>k s. index k = Some s \<Longrightarrow> finite s"
  shows "set (ext_search toLower elements extensions limit predicat index) \<subseteq> ext_matching toLower extensions predicat index \<and>
     (int (length (ext_search toLower elements extensions limit predicat index)) < limit \<longrightarrow>
      set (ext_search toLower elements extensions limit predicat index) = ext_matching toLower extensions predicat index)"
proof -
  let ?T = "\<lambda>es. ext_matching toLower es predicat index"
  let ?loop = "ext_search_loop toLower elements (length extensions) limit predicat index"
  have "set (?loop es result) \<subseteq> set result \<union> ?T es \<and>
    (int (length (?loop es result)) < limit \<longrightarrow> set (?loop es result) = set result \<union> ?T es)"
    if "length extensions = 1 \<longrightarrow> (es = extensions \<and> result = []) \<or> es = []" for es result
    using that
  proof (induction es arbitrary: result)
    case Nil
    then show ?case by (auto simp: ext_matching_def)
  next
    case (Cons e es)
    have tail: "length extensions = 1 \<longrightarrow> (es = extensions \<and> r = []) \<or> es = []" for r :: "'b list"
      using Cons.prems by (auto simp: length_Suc_conv)
    show ?case
    proof (cases "index (toLower e)")
      case None
      moreover from None have "?T (e # es) = ?T es" by (auto simp: ext_matching_def)
      ultimately show ?thesis using Cons.IH [OF tail] by simp
    next
      case (Some s)
      have s: "set (elements s) = s" using assms Some by blast
      have T: "?T (e # es) = {x \<in> s. case predicat of None \<Rightarrow> True | Some p \<Rightarrow> p x} \<union> ?T es"
        using Some by (auto simp: ext_matching_def)
      show ?thesis
      proof (cases "length extensions = 1 \<and> predicat = None \<and> int (card s) \<le> limit")
        case True
        then have "es = []" "result = []" using Cons.prems by (auto simp: length_Suc_conv)
        moreover have "?T [] = {}" by (simp add: ext_matching_def)
        ultimately show ?thesis using True Some s T by simp
      next
        case False
        obtain stop r where r: "ext_items_loop limit predicat (elements s) result = (stop, r)" by (metis surj_pair)
        have l: "?loop (e # es) result = (if stop then r else ?loop es r)" using False Some r by auto
        show ?thesis
        proof (cases stop)
          case True
          then show ?thesis using ext_items_loop_result [OF r] unfolding l T s by auto
        next
          case False
          then show ?thesis using ext_items_loop_result [OF r] Cons.IH [OF tail, of r] unfolding l T s by auto
        qed
      qed
    qed
  qed
  from this [of extensions "[]"] show ?thesis by (simp add: ext_search_def)
qed


definition two_songs :: "nat ext_index" where
  "two_songs = ext_addItem (\<lambda>s. s) [0x61] 2 (ext_addItem (\<lambda>s. s) [0x61] 1 (\<lambda>_. None))"

lemma ext_search_finds_witness:
  "set (ext_search (\<lambda>s. s) sorted_list_of_set [[0x61]] 5 None two_songs) = {1, 2}"
proof -
  have i: "two_songs = [[0x61] \<mapsto> {2, 1}]" by (simp add: two_songs_def ext_addItem_def)
  have "ext_matching (\<lambda>s. s) [[0x61]] None two_songs = {2, 1}" by (auto simp: ext_matching_def i)
  moreover have "ext_search (\<lambda>s. s) sorted_list_of_set [[0x61]] 5 None two_songs = sorted_list_of_set {2, 1}"
    by (simp add: ext_search_def i)
  moreover have "finite s" if "two_songs k = Some s" for k s using that by (auto simp: i split: if_splits)
  ultimately show ?thesis
    using ext_search_finds [of sorted_list_of_set two_songs "\<lambda>s. s" "[[0x61]]" 5 None] by auto
qed

text \<open>Removing and adding an item under a lower case extension.\<close>

lemma ext_add_rm:
  assumes "toLower e = e" "\<forall>s. index e = Some s \<longrightarrow> x \<notin> s \<and> s \<noteq> {}"
  shows "ext_rmItem e x (ext_addItem toLower e x index) = index"
  using assms by (cases "index e") (auto simp: ext_rmItem_def ext_addItem_def fun_eq_iff Let_def)

text \<open>\<open>addItem\<close> and \<open>search\<close> put the extension in lower case and \<open>rmItem\<close> does not: the item stays.\<close>

theorem ext_rmItem_keeps_the_item:
  assumes "toLower e \<noteq> e"
  shows "x \<in> the (ext_rmItem e x (ext_addItem toLower e x (\<lambda>_. None)) (toLower e)) \<or> e = []"
  using assms by (auto simp: ext_rmItem_def ext_addItem_def)

subsection \<open>What \<open>find\<close> returns\<close>

text \<open>The positions stay those of terms of the search.\<close>

lemma next_positions_bound:
  "k \<le> length pos \<Longrightarrow> length pos \<le> N \<Longrightarrow> \<forall>x \<in> set pos. x < N \<Longrightarrow>
   length (next_positions N (length pos) k pos) = length pos \<and> (\<forall>x \<in> set (next_positions N (length pos) k pos). x < N)"
proof (induction k)
  case (Suc k)
  show ?case
  proof (cases "pos ! k < N - length pos + k")
    case True
    then have "\<forall>x \<in> set (map (\<lambda>l. pos ! k + 1 + l) [0..<length pos - k]). x < N" using Suc.prems(2) by auto
    then show ?thesis using True Suc.prems by (auto dest: in_set_takeD)
  qed (use Suc in simp)
qed simp

lemma fold_intersect_values: "fst ` set (fold (\<lambda>k s. intersect s (r k) c) ks s) \<subseteq> fst ` set s"
proof (induction ks arbitrary: s)
  case (Cons k ks)
  have "set (map fst (intersect s (r k) c)) \<subseteq> set (map fst s)" unfolding fst_intersect by auto
  then have "fst ` set (intersect s (r k) c) \<subseteq> fst ` set s" by simp
  then show ?case using order_trans [OF Cons [of "intersect s (r k) c"]] by simp
qed simp

lemma fold_subtract_values: "fst ` set (fold (\<lambda>l s. subtract s (r l)) ls s) \<subseteq> fst ` set s"
proof (induction ls arbitrary: s)
  case (Cons l ls)
  have "set (subtract s (r l)) \<subseteq> set s" by (auto simp: subtract_def)
  then show ?case using order_trans [OF Cons [of "subtract s (r l)"] image_mono] by simp
qed simp

lemma fst_map_level: "fst ` set (map (\<lambda>(v, l). (v, f v l)) s) = fst ` set s"
  by force

lemma combination_values:
  "fst ` set (combination results pos c level) \<subseteq> fst ` set (results ! (pos ! 0))"
proof -
  define s where "s = map (\<lambda>(v, l). (v, if l \<noteq> 0 then c else 0)) (results ! (pos ! 0))"
  have "fst ` set s = fst ` set (results ! (pos ! 0))" unfolding s_def by (rule fst_map_level)
  then show ?thesis
    unfolding combination_def Let_def s_def [symmetric] fst_map_level
    using order_trans [OF fold_subtract_values fold_intersect_values] by metis
qed

lemma combinations_loop_values:
  assumes vals: "\<And>xs. set (values xs) = set xs" and V: "\<forall>r \<in> set results. fst ` set r \<subseteq> V"
  shows "length pos = nb \<Longrightarrow> 0 < nb \<Longrightarrow> nb \<le> length results \<Longrightarrow> \<forall>x \<in> set pos. x < length results \<Longrightarrow> fst ` set nodes \<subseteq> V \<Longrightarrow>
     fst ` set (snd (combinations_loop values results maxNbResult nb_final nb c m pos level nodes)) \<subseteq> V"
proof (induction m arbitrary: pos level nodes)
  case (Suc m)
  have "pos ! 0 \<in> set pos" using Suc.prems(1,2) by (intro nth_mem) simp
  then have "pos ! 0 < length results" using Suc.prems(4) by blast
  then have "results ! (pos ! 0) \<in> set results" by (rule nth_mem)
  then have "fst ` set (results ! (pos ! 0)) \<subseteq> V" using V by (rule bspec [rotated])
  then have "fst ` set (values (combination results pos c level)) \<subseteq> V"
    unfolding vals using combination_values [of results pos c level] by (rule subset_trans [rotated])
  then have nodes: "fst ` set (nodes @ values (combination results pos c level)) \<subseteq> V" using Suc.prems(5) by (simp add: image_Un)
  let ?pos = "next_positions (length results) nb nb pos"
  have pos: "length ?pos = nb" "\<forall>x \<in> set ?pos. x < length results"
    using next_positions_bound [of nb pos "length results"] Suc.prems(1,3,4) by simp_all
  show ?case
    using Suc.IH [OF pos(1) Suc.prems(2,3) pos(2) nodes, of "level + 1"] Suc.prems(5) by simp
qed simp

lemma groups_loop_values:
  assumes vals: "\<And>xs. set (values xs) = set xs" "\<And>xs. set (std_sort xs) = set xs" and V: "\<forall>r \<in> set results. fst ` set r \<subseteq> V"
  shows "nb \<le> length results \<Longrightarrow> fst ` set final \<subseteq> V \<Longrightarrow>
     fst ` set (groups_loop values std_sort results maxNbResult nb level final) \<subseteq> V"
proof (induction nb arbitrary: level final)
  case (Suc nb)
  let ?c = "nat (nCombinations (int (length results)) (int (Suc nb)))"
  let ?loop = "combinations_loop values results maxNbResult (int (length final)) (Suc nb) ?c ?c [0..<Suc nb] level []"
  have "fst ` set (snd ?loop) \<subseteq> V"
    using Suc.prems by (intro combinations_loop_values [OF vals(1) V]) auto
  moreover obtain level' nodes where l: "?loop = (level', nodes)" by (metis surj_pair)
  ultimately have "fst ` set (final @ std_sort nodes) \<subseteq> V" using Suc.prems(2) vals(2) by auto
  then show ?case using Suc.IH Suc.prems unfolding groups_loop.simps Let_def l by simp
qed simp

lemma getItems_predicat: "fst ` set (getItems b m P n) \<subseteq> {x. P x}"
proof -
  have "fst ` set (bfs b P qs) \<subseteq> {x. P x}" for qs :: "(bool \<times> ('b, 'a) wnode) list"
    by (induction b P qs rule: bfs.induct) auto
  then show ?thesis by (auto simp: getItems_def Let_def simp del: bfs.simps dest: in_set_takeD)
qed

lemma search_words_predicat:
  assumes "\<And>xs. set (values xs) = set xs" "\<And>xs. set (std_sort xs) = set xs"
    and "search_words values std_sort words maxNbResult P root = Some xs"
  shows "fst ` set xs \<subseteq> {x. P x}"
proof -
  define results where "results = map (\<lambda>w. to_set (search_one w (if length words = 1 then maxNbResult else - 1) P root)) words"
  have "fst ` set (search_one w m P root) \<subseteq> {x. P x}" for w m
    using getItems_predicat by (force simp: search_one_def search_def split: option.splits prod.splits)
  then have "\<forall>r \<in> set results. fst ` set r \<subseteq> {x. P x}" by (auto simp: results_def to_set_fst simp del: Collect_mono_iff)
  from groups_loop_values [OF assms(1,2) this, of "length words" "[]" maxNbResult 0]
  have "fst ` set (groups_loop values std_sort results maxNbResult (length words) 0 []) \<subseteq> {x. P x}"
    by (simp add: results_def)
  then show ?thesis using assms(3) unfolding search_words_def Let_def results_def [symmetric]
    by (auto split: if_splits dest: in_set_takeD)
qed


text \<open>The criteria of a search that every result has to meet.\<close>

definition fits :: "'e entry_data \<Rightarrow> int \<Rightarrow> int \<Rightarrow> category \<Rightarrow> 'e \<Rightarrow> bool" where
  "fits d minFileSize maxFileSize category e \<longleftrightarrow>
     ((minFileSize \<le> 0 \<and> maxFileSize = max_qint64) \<or> minFileSize \<le> e_size d e \<and> e_size d e \<le> maxFileSize) \<and>
     (category = FILE_DIR \<or> in_category d category e)"



definition by_size :: "nat entry_data" where
  "by_size = \<lparr>e_name = (\<lambda>_. []), e_size = int, e_is_file = (\<lambda>_. True)\<rparr>"

definition two_sizes :: "nat file_indexes" where
  "two_sizes = \<lparr>wordIndex = root_node, extensionIndex = (\<lambda>_. None), sizeIndex = {3, 7}, cacheLoading = False\<rparr>"

definition range_search :: "int \<Rightarrow> int \<Rightarrow> int \<Rightarrow> (nat \<Rightarrow> bool) option \<Rightarrow> nat set \<Rightarrow> nat list" where
  "range_search lo hi m p s = sorted_list_of_set {e \<in> s. lo \<le> int e \<and> int e \<le> hi \<and> (case p of None \<Rightarrow> True | Some f \<Rightarrow> f e)}"

definition no_tables :: text_tables where
  "no_tables = \<lparr>t_toLower = (\<lambda>s. s), t_is_word = (\<lambda>_. True), t_known = {}, t_unfinished_suffix = []\<rparr>"



text \<open>
  \<open>entryAdded\<close> indexes the words of the name without its extension and \<open>entryRenamed\<close> those of the
  whole name: a file renamed from \<open>b.mp\<close> to \<open>a.mp\<close> is found by its extension, one created as
  \<open>a.mp\<close> is not.
\<close>

theorem entryRenamed_indexes_the_extension:
  "let tt = \<lparr>t_toLower = (\<lambda>s. s), t_is_word = (\<lambda>c. c \<noteq> 0x2E), t_known = {[0x6D, 0x70]}, t_unfinished_suffix = [0x2E, 0x75]\<rparr>;
       d = \<lparr>e_name = (\<lambda>_ :: nat. [0x61, 0x2E, 0x6D, 0x70]), e_size = (\<lambda>_. 0), e_is_file = (\<lambda>_. True)\<rparr>;
       none = \<lparr>wordIndex = root_node, extensionIndex = (\<lambda>_. None), sizeIndex = {}, cacheLoading = False\<rparr>
   in search_one [0x6D, 0x70] 10 (\<lambda>_. True) (wordIndex (entryAdded tt d 1 none)) = [] \<and>
      search_one [0x6D, 0x70] 10 (\<lambda>_. True) (wordIndex (entryRenamed tt d 1 [0x62, 0x2E, 0x6D, 0x70] none)) = [(1, 0)]"
  by code_simp

end
