(* ===== verification/Paths.thy ===== *)
theory Paths
  imports String_Utils
begin

text \<open>
  \<open>Common/Path.h\<close> and \<open>Common/Path.cpp\<close>: paths as a root, directories and a file name, and the
  encoding of the characters a file name cannot hold.  \<open>QDir::cleanPath\<close> and
  \<open>QChar::isLetter\<close> are the arguments \<open>cleanPath\<close> and \<open>is_letter\<close>.  The overloads for
  \<open>const &\<close> and \<open>&&\<close> of an operation return the same path.
\<close>

record path =
  p_root :: qstring
  p_dirs :: "qstring list"
  p_filename :: qstring

definition mk_path :: "qstring \<Rightarrow> qstring list \<Rightarrow> qstring \<Rightarrow> path" where
  "mk_path r ds f = \<lparr>p_root = r, p_dirs = ds, p_filename = f\<rparr>"

definition isWindowsPath :: "(qchar \<Rightarrow> bool) \<Rightarrow> qstring \<Rightarrow> bool" where
  "isWindowsPath is_letter path \<longleftrightarrow>
     length path \<ge> 3 \<and> is_letter (path ! 0) \<and> path ! 1 = 0x3A \<and> (path ! 2 = 0x2F \<or> path ! 2 = 0x5C)"

definition isWindowsRootPath :: "(qchar \<Rightarrow> bool) \<Rightarrow> qstring \<Rightarrow> bool" where
  "isWindowsRootPath is_letter path \<longleftrightarrow>
     (length path = 3 \<or> length path = 2) \<and> is_letter (path ! 0) \<and> path ! 1 = 0x3A"

definition new_path :: "(qstring \<Rightarrow> qstring) \<Rightarrow> (qchar \<Rightarrow> bool) \<Rightarrow> (qchar \<Rightarrow> bool) \<Rightarrow> qstring \<Rightarrow> path" where
  "new_path cleanPath is_space is_letter path =
     (let cleanedPath = trimmed is_space (cleanPath path) in
      if cleanedPath = [] then mk_path [] [] []
      else (let (root, cleanedPath) =
                  (if cleanedPath ! 0 = 0x2F then ([0x2F], drop 1 cleanedPath)
                   else if isWindowsPath is_letter cleanedPath then (take 3 cleanedPath, drop 3 cleanedPath)
                   else ([], cleanedPath));
                isDir = (path \<noteq> [] \<and> last path = 0x2F);
                names = split_runs (\<lambda>c. c = 0x2F) cleanedPath
            in if isDir \<or> names = [] then mk_path root names [] else mk_path root (butlast names) (last names)))"

fun join :: "qstring \<Rightarrow> qstring list \<Rightarrow> qstring" where
  "join sep [] = []"
| "join sep [x] = x"
| "join sep (x # y # ys) = x @ sep @ join sep (y # ys)"

definition isFile :: "path \<Rightarrow> bool" where
  "isFile p \<longleftrightarrow> p_filename p \<noteq> []"

definition isAbsolute :: "path \<Rightarrow> bool" where
  "isAbsolute p \<longleftrightarrow> p_root p \<noteq> []"

definition isNull :: "path \<Rightarrow> bool" where
  "isNull p \<longleftrightarrow> p_root p = [] \<and> p_dirs p = [] \<and> p_filename p = []"

definition getPath :: "path \<Rightarrow> bool \<Rightarrow> qstring" where
  "getPath p withFilename =
     p_root p @ join [0x2F] (p_dirs p) @
     (if isAbsolute p \<and> p_dirs p \<noteq> [] \<or> p_dirs p \<noteq> [] then [0x2F] else []) @
     (if withFilename then p_filename p else [])"

fun last_index_of :: "'a \<Rightarrow> 'a list \<Rightarrow> int" where
  "last_index_of c [] = - 1"
| "last_index_of c (x # xs) =
     (let i = last_index_of c xs in if i \<noteq> - 1 then i + 1 else if x = c then 0 else - 1)"

definition getExtension :: "path \<Rightarrow> qstring" where
  "getExtension p =
     (if \<not> isFile p then []
      else (let dotPosition = last_index_of 0x2E (p_filename p)
            in if dotPosition = 0 \<or> dotPosition = - 1 \<or> dotPosition = int (length (p_filename p)) - 1 then []
               else drop (nat (dotPosition + 1)) (p_filename p)))"

text \<open>The loop over the directories of \<open>other\<close>.\<close>

fun same_dirs :: "qstring list \<Rightarrow> qstring list \<Rightarrow> bool" where
  "same_dirs ds [] = True"
| "same_dirs [] (e # es) = False"
| "same_dirs (d # ds) (e # es) = (if d \<noteq> e then False else same_dirs ds es)"

definition isSubOf :: "path \<Rightarrow> path \<Rightarrow> bool" where
  "isSubOf p other =
     (if \<not> isAbsolute p \<or> \<not> isAbsolute other then False
      else if p_root p \<noteq> p_root other then False
      else if isFile other then False
      else if length (p_dirs p) \<le> length (p_dirs other) then False
      else same_dirs (p_dirs p) (p_dirs other))"

definition isSuperOf :: "path \<Rightarrow> path \<Rightarrow> bool" where
  "isSuperOf p other = isSubOf other p"

definition isSameDir :: "path \<Rightarrow> path \<Rightarrow> bool" where
  "isSameDir p other =
     (if \<not> isAbsolute p \<or> \<not> isAbsolute other then False
      else if p_root p \<noteq> p_root other then False
      else p_dirs p = p_dirs other)"

definition eq_path :: "path \<Rightarrow> path \<Rightarrow> bool" where
  "eq_path p other \<longleftrightarrow> p_root p = p_root other \<and> p_filename p = p_filename other \<and> p_dirs p = p_dirs other"

definition removeFilename :: "path \<Rightarrow> path" where
  "removeFilename p = mk_path (p_root p) (p_dirs p) []"

definition removeLastDir :: "path \<Rightarrow> path" where
  "removeLastDir p = mk_path (p_root p) (if p_dirs p \<noteq> [] then butlast (p_dirs p) else p_dirs p) (p_filename p)"

definition setFilename :: "qstring \<Rightarrow> path \<Rightarrow> path" where
  "setFilename f p = mk_path (p_root p) (p_dirs p) f"

definition append_path :: "path \<Rightarrow> path \<Rightarrow> path" where
  "append_path p other = mk_path (p_root p) (p_dirs p @ p_dirs other) (p_filename other)"

definition prepend_path :: "path \<Rightarrow> path \<Rightarrow> path" where
  "prepend_path p other = append_path other p"

definition appendDir :: "qstring \<Rightarrow> path \<Rightarrow> path" where
  "appendDir d p = mk_path (p_root p) (p_dirs p @ [d]) (p_filename p)"

definition prependDir :: "qstring \<Rightarrow> path \<Rightarrow> path" where
  "prependDir d p = mk_path (p_root p) (d # p_dirs p) (p_filename p)"

definition cleanDirPath :: "(qstring \<Rightarrow> qstring) \<Rightarrow> qstring \<Rightarrow> qstring" where
  "cleanDirPath cleanPath path =
     (let cleanedPath = cleanPath path
      in if cleanedPath \<noteq> [] \<and> last cleanedPath \<noteq> 0x2F then cleanedPath @ [0x2F] else cleanedPath)"

subsection \<open>Forbidden characters\<close>

definition FORBIDDEN_CHARS_IN_PATH :: "qchar list" where
  "FORBIDDEN_CHARS_IN_PATH = [0x3F, 0x2F, 0x5C, 0x2A, 0x3A, 0x22, 0x3C, 0x3E, 0x7C]"

text \<open>\<open>QString::number\<close>, \<open>QString::replace\<close> of a character and of a string.\<close>

fun number :: "nat \<Rightarrow> qstring" where
  "number n = (if n < 10 then [0x30 + of_nat n] else number (n div 10) @ [0x30 + of_nat (n mod 10)])"

definition replace_char :: "'c \<Rightarrow> 'c list \<Rightarrow> 'c list \<Rightarrow> 'c list" where
  "replace_char c e s = concat (map (\<lambda>x. if x = c then e else [x]) s)"

fun replace_str :: "'c list \<Rightarrow> 'c \<Rightarrow> 'c list \<Rightarrow> 'c list" where
  "replace_str e c [] = []"
| "replace_str e c (x # s) =
     (if e \<noteq> [] \<and> take (length e) (x # s) = e then c # replace_str e c (drop (length e - 1) s)
      else x # replace_str e c s)"

definition entity :: "qchar \<Rightarrow> qstring" where
  "entity c = [0x26, 0x23] @ number (unat (take_bit 8 c)) @ [0x3B]"

definition sanitizePath :: "qstring \<Rightarrow> qstring" where
  "sanitizePath path = fold (\<lambda>c path. replace_char c (entity c) path) FORBIDDEN_CHARS_IN_PATH path"

definition unSanitizePath :: "qstring \<Rightarrow> qstring" where
  "unSanitizePath path = fold (\<lambda>c path. replace_str (entity c) c path) FORBIDDEN_CHARS_IN_PATH path"


text \<open>The entities of the forbidden characters.\<close>

lemma all_entities:
  "map entity FORBIDDEN_CHARS_IN_PATH =
     [[0x26, 0x23, 0x36, 0x33, 0x3B], [0x26, 0x23, 0x34, 0x37, 0x3B], [0x26, 0x23, 0x39, 0x32, 0x3B],
      [0x26, 0x23, 0x34, 0x32, 0x3B], [0x26, 0x23, 0x35, 0x38, 0x3B], [0x26, 0x23, 0x33, 0x34, 0x3B],
      [0x26, 0x23, 0x36, 0x30, 0x3B], [0x26, 0x23, 0x36, 0x32, 0x3B], [0x26, 0x23, 0x31, 0x32, 0x34, 0x3B]]"
  by code_simp

lemma entities:
  "entity 0x3F = [0x26, 0x23, 0x36, 0x33, 0x3B]" "entity 0x2F = [0x26, 0x23, 0x34, 0x37, 0x3B]"
  "entity 0x5C = [0x26, 0x23, 0x39, 0x32, 0x3B]" "entity 0x2A = [0x26, 0x23, 0x34, 0x32, 0x3B]"
  "entity 0x3A = [0x26, 0x23, 0x35, 0x38, 0x3B]" "entity 0x22 = [0x26, 0x23, 0x33, 0x34, 0x3B]"
  "entity 0x3C = [0x26, 0x23, 0x36, 0x30, 0x3B]" "entity 0x3E = [0x26, 0x23, 0x36, 0x32, 0x3B]"
  "entity 0x7C = [0x26, 0x23, 0x31, 0x32, 0x34, 0x3B]"
  using all_entities by (simp_all only: FORBIDDEN_CHARS_IN_PATH_def list.map list.inject)

abbreviation forbidden :: "qchar set" where
  "forbidden \<equiv> set FORBIDDEN_CHARS_IN_PATH"

lemma forbidden_cases:
  assumes "c \<in> forbidden"
  obtains "c = 0x3F" | "c = 0x2F" | "c = 0x5C" | "c = 0x2A" | "c = 0x3A" | "c = 0x22" | "c = 0x3C" | "c = 0x3E" | "c = 0x7C"
  using assms by (auto simp: FORBIDDEN_CHARS_IN_PATH_def)

lemma entity_shape: "c \<in> forbidden \<Longrightarrow> hd (entity c) = 0x26 \<and> entity c \<noteq> [] \<and> 0x26 \<notin> set (tl (entity c))"
  by (erule forbidden_cases) (simp_all add: entities)

lemma entity_allowed: "c \<in> forbidden \<Longrightarrow> set (entity c) \<inter> forbidden = {}"
  by (erule forbidden_cases) (simp_all add: entities FORBIDDEN_CHARS_IN_PATH_def)

lemma entity_differ:
  "c \<in> forbidden \<Longrightarrow> d \<in> forbidden \<Longrightarrow> c \<noteq> d \<Longrightarrow> take (length (entity c)) (entity d @ r) \<noteq> entity c"
  by (erule forbidden_cases; erule forbidden_cases) (simp_all add: entities)

text \<open>A name with the characters of \<open>A\<close> replaced by their entities.\<close>

definition enc :: "qchar set \<Rightarrow> qstring \<Rightarrow> qstring" where
  "enc A p = concat (map (\<lambda>x. if x \<in> A then entity x else [x]) p)"

lemma enc_empty [simp]: "enc {} p = p"
  by (induction p) (simp_all add: enc_def)

lemma replace_char_enc:
  assumes "c \<in> forbidden" "A \<subseteq> forbidden" "c \<notin> A"
  shows "replace_char c (entity c) (enc A p) = enc (insert c A) p"
proof (induction p)
  case (Cons x p)
  have "concat (map (\<lambda>y. if y = c then entity c else [y]) s) = s" if "c \<notin> set s" for s
    using that by (induction s) auto
  then have "replace_char c (entity c) (entity x @ s) = entity x @ replace_char c (entity c) s" if "x \<in> A" for s
    using entity_allowed [of x] assms that by (auto simp: replace_char_def)
  with Cons show ?case using assms by (auto simp: enc_def replace_char_def)
qed (simp add: enc_def replace_char_def)

lemma sanitizePath_enc: "sanitizePath p = enc forbidden p"
proof -
  have "fold (\<lambda>c path. replace_char c (entity c) path) cs (enc A p) = enc (A \<union> set cs) p"
    if "set cs \<subseteq> forbidden" "A \<subseteq> forbidden" "distinct cs" "set cs \<inter> A = {}" for cs A
    using that
  proof (induction cs arbitrary: A)
    case (Cons c cs)
    then have "replace_char c (entity c) (enc A p) = enc (insert c A) p" by (intro replace_char_enc) auto
    then show ?case using Cons.IH [of "insert c A"] Cons.prems by auto
  qed simp
  from this [of FORBIDDEN_CHARS_IN_PATH "{}"] show ?thesis
    by (simp add: sanitizePath_def FORBIDDEN_CHARS_IN_PATH_def)
qed

lemma replace_str_match: "e \<noteq> [] \<Longrightarrow> replace_str e c (e @ s) = c # replace_str e c s"
  by (cases e) simp_all

lemma replace_str_skip: "hd e \<notin> set t \<Longrightarrow> replace_str e c (t @ s) = t @ replace_str e c s"
proof (induction t)
  case (Cons x t)
  then have "e \<noteq> [] \<longrightarrow> take (length e) (x # t @ s) \<noteq> e" by (cases e) auto
  with Cons show ?case by auto
qed simp

lemma replace_str_enc:
  assumes "c \<in> forbidden" "A \<subseteq> forbidden" "0x26 \<notin> set p"
  shows "replace_str (entity c) c (enc A p) = enc (A - {c}) p"
  using assms(3)
proof (induction p)
  case (Cons x p)
  note e = entity_shape [OF assms(1)]
  consider (out) "x \<notin> A" | (same) "x \<in> A" "x = c" | (other) "x \<in> A" "x \<noteq> c" by blast
  then show ?case
  proof cases
    case out
    then have "replace_str (entity c) c (enc A (x # p)) = x # replace_str (entity c) c (enc A p)"
      using replace_str_skip [of "entity c" "[x]"] e Cons.prems by (simp add: enc_def)
    then show ?thesis using out Cons by (simp add: enc_def)
  next
    case same
    then show ?thesis using e Cons replace_str_match [of "entity c" c "enc A p"] by (simp add: enc_def)
  next
    case other
    then have x: "x \<in> forbidden" using assms(2) by blast
    obtain t where t: "entity x = 0x26 # t" "0x26 \<notin> set t"
      using entity_shape [OF x] by (cases "entity x") auto
    have "take (length (entity c)) (0x26 # t @ enc A p) \<noteq> entity c"
      using entity_differ [OF assms(1) x, of "enc A p"] other(2) t(1) by simp
    then have "replace_str (entity c) c (entity x @ enc A p) = entity x @ replace_str (entity c) c (enc A p)"
      using replace_str_skip [of "entity c" t] e t by simp
    then show ?thesis using other Cons by (simp add: enc_def)
  qed
qed (simp add: enc_def)

text \<open>
  \<open>sanitizePath\<close> leaves none of the characters a file name cannot hold, and \<open>unSanitizePath\<close>
  gives the original name back, for any name without \<open>&\<close>.
\<close>

theorem sanitizePath_roundtrip:
  assumes "0x26 \<notin> set p"
  shows "set (sanitizePath p) \<inter> set FORBIDDEN_CHARS_IN_PATH = {} \<and> unSanitizePath (sanitizePath p) = p"
proof (intro conjI)
  show "set (sanitizePath p) \<inter> forbidden = {}"
    using entity_allowed unfolding sanitizePath_enc by (fastforce simp: enc_def split: if_splits)
  have "fold (\<lambda>c path. replace_str (entity c) c path) cs (enc A p) = enc (A - set cs) p"
    if "set cs \<subseteq> forbidden" "A \<subseteq> forbidden" for cs A
    using that
  proof (induction cs arbitrary: A)
    case (Cons c cs)
    then have "replace_str (entity c) c (enc A p) = enc (A - {c}) p" using assms by (intro replace_str_enc) auto
    moreover have "A - {c} - set cs = A - set (c # cs)" by auto
    ultimately show ?case using Cons.IH [of "A - {c}"] Cons.prems by auto
  qed simp
  from this [of FORBIDDEN_CHARS_IN_PATH forbidden] show "unSanitizePath (sanitizePath p) = p"
    by (simp add: unSanitizePath_def sanitizePath_enc)
qed

lemma sanitizePath_roundtrip_witness:
  "unSanitizePath (sanitizePath [0x61, 0x2F, 0x62]) = [0x61, 0x2F, 0x62] \<and> 0x2F \<notin> set (sanitizePath [0x61, 0x2F, 0x62])"
  using sanitizePath_roundtrip [of "[0x61, 0x2F, 0x62]"] by (auto simp: FORBIDDEN_CHARS_IN_PATH_def)

text \<open>A name that holds the entity of a character comes back as this character.\<close>

theorem unSanitizePath_decodes_too_much:
  "unSanitizePath (sanitizePath [0x26, 0x23, 0x34, 0x37, 0x3B]) = [0x2F]"
  by code_simp


subsection \<open>Printing and parsing\<close>

text \<open>
  What \<open>Path\<close> relies on: \<open>QDir::cleanPath\<close> keeps an absolute path whose components are neither
  empty nor \<open>.\<close> nor \<open>..\<close>, and removes the slash at its end.
\<close>

definition ok_name :: "qstring \<Rightarrow> bool" where
  "ok_name d \<longleftrightarrow> d \<noteq> [] \<and> 0x2F \<notin> set d \<and> d \<noteq> [0x2E] \<and> d \<noteq> [0x2E, 0x2E]"

definition abs_path :: "qstring list \<Rightarrow> qstring" where
  "abs_path ds = 0x2F # join [0x2F] ds"

definition keeps_clean_paths :: "(qstring \<Rightarrow> qstring) \<Rightarrow> bool" where
  "keeps_clean_paths cleanPath \<longleftrightarrow> (\<forall>ds. (\<forall>d \<in> set ds. ok_name d) \<longrightarrow>
     cleanPath (abs_path ds) = abs_path ds \<and> (ds \<noteq> [] \<longrightarrow> cleanPath (abs_path ds @ [0x2F]) = abs_path ds))"

definition p_names :: "path \<Rightarrow> qstring list" where
  "p_names p = p_dirs p @ (if isFile p then [p_filename p] else [])"

lemma join_snoc: "join sep (ds @ [d]) = (if ds = [] then d else join sep ds @ sep @ d)"
  by (induction sep ds rule: join.induct) auto

lemma split_join: "\<forall>d \<in> set ds. d \<noteq> [] \<and> c \<notin> set d \<Longrightarrow> split_runs (\<lambda>x. x = c) (join [c] ds) = ds"
proof (induction "[c]" ds rule: join.induct)
  case (2 x)
  then show ?case using split_runs_run [of x "\<lambda>x. x = c" "[]"] by force
next
  case (3 x y ys)
  have "split_runs (\<lambda>z. z = c) (x @ c # join [c] (y # ys)) = x # split_runs (\<lambda>z. z = c) (c # join [c] (y # ys))"
    using 3(2) by (intro split_runs_run) auto
  then show ?case using 3 by (simp add: split_runs_sep)
qed simp

lemma trimmed_ends: "s \<noteq> [] \<Longrightarrow> \<not> is_space (hd s) \<Longrightarrow> \<not> is_space (last s) \<Longrightarrow> trimmed is_space s = s"
proof -
  assume s: "s \<noteq> []" "\<not> is_space (hd s)" "\<not> is_space (last s)"
  then have "dropWhile is_space s = s" by (cases s) simp_all
  moreover have "dropWhile is_space (rev s) = rev s"
    using s by (subst dropWhile_eq_self_iff) (simp add: hd_rev)
  ultimately show ?thesis by (simp add: trimmed_def)
qed

lemma last_join: "ds \<noteq> [] \<Longrightarrow> last ds \<noteq> [] \<Longrightarrow> last (join [c] ds) = last (last ds)"
  by (cases ds rule: rev_cases) (auto simp: join_snoc)

lemma join_nonempty: "ds \<noteq> [] \<Longrightarrow> \<forall>d \<in> set ds. d \<noteq> [] \<Longrightarrow> join c ds \<noteq> []"
  by (cases ds rule: rev_cases) (auto simp: join_snoc)

lemma getPath_abs:
  assumes "p_root p = [0x2F]"
  shows "getPath p True = abs_path (p_names p) @ (if p_dirs p \<noteq> [] \<and> \<not> isFile p then [0x2F] else [])"
  using assms by (auto simp: getPath_def abs_path_def p_names_def isFile_def isAbsolute_def join_snoc)


subsection \<open>Sub directories\<close>

lemma same_dirs_prefix: "same_dirs ds es \<longleftrightarrow> (\<exists>fs. ds = es @ fs)"
  by (induction ds es rule: same_dirs.induct) auto

text \<open>
  A path is below an absolute directory exactly when it is what \<open>append\<close> gives for this
  directory and a path with at least one directory.
\<close>

theorem isSubOf_append:
  assumes "isAbsolute other" "\<not> isFile other"
  shows "isSubOf p other = (\<exists>q. p_dirs q \<noteq> [] \<and> p = append_path other q)"
proof
  assume "isSubOf p other"
  then obtain fs where "p_root p = p_root other" "p_dirs p = p_dirs other @ fs" "fs \<noteq> []"
    by (auto simp: isSubOf_def same_dirs_prefix split: if_splits)
  then have "p = append_path other (mk_path [] fs (p_filename p))" by (cases p) (simp add: append_path_def mk_path_def)
  moreover have "p_dirs (mk_path [] fs (p_filename p)) \<noteq> []" using \<open>fs \<noteq> []\<close> by (simp add: mk_path_def)
  ultimately show "\<exists>q. p_dirs q \<noteq> [] \<and> p = append_path other q" by blast
next
  assume "\<exists>q. p_dirs q \<noteq> [] \<and> p = append_path other q"
  then show "isSubOf p other" using assms by (auto simp: isSubOf_def append_path_def mk_path_def isAbsolute_def same_dirs_prefix)
qed

subsection \<open>Examples\<close>

definition chop_slash :: "qstring \<Rightarrow> qstring" where
  "chop_slash s = (if length s > 1 \<and> last s = 0x2F then butlast s else s)"

lemma chop_slash_keeps: "keeps_clean_paths chop_slash"
proof -
  have "chop_slash (abs_path ds) = abs_path ds \<and> (ds \<noteq> [] \<longrightarrow> chop_slash (abs_path ds @ [0x2F]) = abs_path ds)"
    if ok: "\<forall>d \<in> set ds. ok_name d" for ds
  proof (cases "ds = []")
    case False
    have "\<forall>d \<in> set ds. d \<noteq> []" using ok by (simp add: ok_name_def)
    then have "join [0x2F] ds \<noteq> []" by (rule join_nonempty [OF False])
    moreover have "last ds \<noteq> []" "0x2F \<notin> set (last ds)" using ok last_in_set [OF False] by (simp_all add: ok_name_def)
    then have "last (join [0x2F] ds) \<noteq> 0x2F" using last_join [OF False, of "0x2F"] last_in_set by metis
    ultimately show ?thesis by (simp add: chop_slash_def abs_path_def)
  qed (simp add: chop_slash_def abs_path_def)
  then show ?thesis unfolding keeps_clean_paths_def by blast
qed


lemma isSubOf_append_witness:
  "isAbsolute (mk_path [0x2F] [[0x61]] []) \<and> \<not> isFile (mk_path [0x2F] [[0x61]] []) \<and>
   isSubOf (mk_path [0x2F] [[0x61], [0x62]] [0x63]) (mk_path [0x2F] [[0x61]] [])"
proof -
  have "isAbsolute (mk_path [0x2F] [[0x61]] [])" "\<not> isFile (mk_path [0x2F] [[0x61]] [])"
    by (simp_all add: isAbsolute_def isFile_def mk_path_def)
  moreover note isSubOf_append [OF this, of "mk_path [0x2F] [[0x61], [0x62]] [0x63]"]
  moreover have "mk_path [0x2F] [[0x61], [0x62]] [0x63] = append_path (mk_path [0x2F] [[0x61]] []) (mk_path [] [[0x62]] [0x63])"
    "p_dirs (mk_path [] [[0x62]] [0x63]) \<noteq> []"
    by (simp_all add: append_path_def mk_path_def)
  ultimately show ?thesis by blast
qed

text \<open>A file right in a directory is not below it, although the comment of \<open>isSubOf\<close> allows a file.\<close>

theorem isSubOf_file_in_directory:
  "\<not> isSubOf (mk_path [0x2F] [[0x61]] [0x63]) (mk_path [0x2F] [[0x61]] [])"
  by (simp add: isSubOf_def mk_path_def)

end
