(* ===== verification/Hash_Value.thy ===== *)
theory Hash_Value
  imports String_Utils
begin

unbundle bit_operations_syntax

text \<open>
  \<open>Common/Hash_noShare.h\<close> and \<open>.cpp\<close>, the implementation of \<open>Common::Hash\<close> that
  \<open>Common/Hash.h\<close> selects (\<open>SHARED_DATA\<close> is false): the constructors, the text form, the
  comparison, and the class \<open>Hasher\<close> over a digest \<open>sha3\<close> (\<open>QCryptographicHash\<close> with
  \<open>Sha3_224\<close>) and \<open>to_utf8\<close> (\<open>QString::toUtf8\<close>) that are arguments.
\<close>

subsection \<open>Construction\<close>

definition HASH_SIZE :: nat where
  "HASH_SIZE = 28"

definition NULL_HASH :: hash where
  "NULL_HASH = replicate HASH_SIZE 0"

definition hash_wf :: "hash \<Rightarrow> bool" where
  "hash_wf h \<longleftrightarrow> length h = HASH_SIZE"

text \<open>From a pointer (\<open>None\<close> is the null pointer), a \<open>std::string\<close> and a \<open>QByteArray\<close>; the last
  is \<open>None\<close> when it is a null array.\<close>

definition hash_of_chars :: "byte list option \<Rightarrow> hash" where
  "hash_of_chars h = take HASH_SIZE (case h of None \<Rightarrow> NULL_HASH | Some h \<Rightarrow> h)"

definition hash_of_string :: "byte list \<Rightarrow> hash" where
  "hash_of_string str = take HASH_SIZE (if length str = 0 \<or> length str \<noteq> HASH_SIZE then NULL_HASH else str)"

definition hash_of_bytearray :: "byte list option \<Rightarrow> hash" where
  "hash_of_bytearray a = take HASH_SIZE
     (case a of None \<Rightarrow> NULL_HASH | Some b \<Rightarrow> if length b \<noteq> HASH_SIZE then NULL_HASH else b)"

definition hash_isNull :: "hash \<Rightarrow> bool" where
  "hash_isNull h \<longleftrightarrow> h = NULL_HASH"

lemma HASH_SIZE_pos [simp]: "0 < HASH_SIZE"
  by (simp add: HASH_SIZE_def)

lemma length_NULL_HASH [simp]: "length NULL_HASH = HASH_SIZE"
  by (simp add: NULL_HASH_def)

lemma NULL_HASH_wf [simp]: "hash_wf NULL_HASH"
  by (simp add: hash_wf_def)

lemma hash_of_string_wf [simp]: "hash_wf (hash_of_string str)"
  by (simp add: hash_of_string_def hash_wf_def)

lemma hash_of_bytearray_wf [simp]: "hash_wf (hash_of_bytearray a)"
  by (simp add: hash_of_bytearray_def hash_wf_def split: option.split)

lemma hash_of_string_id: "hash_wf h \<Longrightarrow> hash_of_string h = h"
  by (auto simp: hash_of_string_def hash_wf_def HASH_SIZE_def)

subsection \<open>Text\<close>

text \<open>
  \<open>toStr\<close> writes the two halves of each byte as hexadecimal digits.  \<open>fromStr\<close> reads the text
  in lower case, as a signed \<open>char\<close> each (a character beyond Latin-1 becomes 0), stops at the
  end of the text or of the hash, and leaves the bytes it does not reach null.
\<close>

definition hex_char :: "8 word \<Rightarrow> qchar" where
  "hex_char p = ucast (if p \<le> 9 then 0x30 + p else 0x61 + (p - 10))"

definition byte_chars :: "byte \<Rightarrow> qstring" where
  "byte_chars b = [hex_char (drop_bit 4 (b AND 0xF0)), hex_char (b AND 0x0F)]"

definition hash_toStr :: "hash \<Rightarrow> qstring" where
  "hash_toStr h = concat (map byte_chars h)"

definition to_latin1 :: "qchar \<Rightarrow> byte" where
  "to_latin1 c = (if c > 0xFF then 0 else ucast c)"

definition hex_digit :: "byte \<Rightarrow> byte" where
  "hex_digit c = (if c <=s 0x39 then c - 0x30 else c - 0x61 + 10)"

definition two_digits :: "qchar \<Rightarrow> qchar \<Rightarrow> byte" where
  "two_digits c1 c2 =
     (push_bit 4 (hex_digit (to_latin1 c1)) AND 0xF0) OR (hex_digit (to_latin1 c2) AND 0x0F)"

fun fromStr_loop :: "nat \<Rightarrow> qstring \<Rightarrow> hash" where
  "fromStr_loop 0 str = []"
| "fromStr_loop (Suc n) (c1 # c2 # str) = two_digits c1 c2 # fromStr_loop n str"
| "fromStr_loop (Suc n) str = replicate (Suc n) 0"

definition hash_fromStr :: "(qstring \<Rightarrow> qstring) \<Rightarrow> qstring \<Rightarrow> hash" where
  "hash_fromStr toLower str = fromStr_loop HASH_SIZE (toLower str)"

lemma length_fromStr_loop [simp]: "length (fromStr_loop n str) = n"
  by (induction n str rule: fromStr_loop.induct) auto

text \<open>A half byte is one of sixteen values.\<close>

definition is_lower_hex :: "qchar \<Rightarrow> bool" where
  "is_lower_hex c \<longleftrightarrow> (0x30 \<le> c \<and> c \<le> 0x39) \<or> (0x61 \<le> c \<and> c \<le> 0x66)"

lemma nibble_cases:
  assumes "\<forall>n \<in> set [0..<16]. P (word_of_nat n)"
  shows "P (b AND 0x0F :: byte)"
proof -
  have "b AND 0x0F = take_bit 4 b" by (simp add: take_bit_eq_mask mask_eq_exp_minus_1)
  then have "unat (b AND 0x0F) = take_bit 4 (unat b)" by (simp add: unsigned_take_bit_eq)
  then have "unat (b AND 0x0F) \<in> set [0..<16]" using take_bit_nat_less_exp [of 4 "unat b"] by simp
  with assms have "P (word_of_nat (unat (b AND 0x0F)))" by blast
  then show ?thesis by simp
qed

lemma high_nibble: "drop_bit 4 (b AND 0xF0) = drop_bit 4 b AND (0x0F :: byte)"
proof -
  have "drop_bit 4 (b AND 0xF0) = drop_bit 4 b AND drop_bit 4 (0xF0 :: byte)" by simp
  also have "drop_bit 4 (0xF0 :: byte) = 0x0F" by code_simp
  finally show ?thesis .
qed

lemma hex_digit_char: "hex_digit (to_latin1 (hex_char (b AND 0x0F))) = b AND 0x0F"
  by (rule nibble_cases [where P = "\<lambda>p. hex_digit (to_latin1 (hex_char p)) = p"]) code_simp

lemma hex_char_is_hex: "is_lower_hex (hex_char (b AND 0x0F))"
  by (rule nibble_cases [where P = "\<lambda>p. is_lower_hex (hex_char p)"]) code_simp

lemma join_nibbles: "(push_bit 4 (drop_bit 4 b AND 0x0F) AND 0xF0) OR (b AND 0x0F) = (b :: byte)"
proof (rule bit_word_eqI)
  fix n assume "n < LENGTH(8)"
  then have "n \<in> {0, 1, 2, 3, 4, 5, 6, 7}" by auto
  then show "bit ((push_bit 4 (drop_bit 4 b AND 0x0F) AND 0xF0) OR (b AND 0x0F)) n = bit b n"
    by (auto simp: bit_simps)
qed

lemma two_digits_byte_chars:
  "two_digits (hex_char (drop_bit 4 (b AND 0xF0))) (hex_char (b AND 0x0F)) = b"
  unfolding two_digits_def high_nibble hex_digit_char by (simp only: and.right_idem join_nibbles)

lemma byte_chars_hex: "\<forall>c \<in> set (byte_chars b). is_lower_hex c"
  unfolding byte_chars_def high_nibble by (simp add: hex_char_is_hex)

lemma fromStr_loop_toStr: "fromStr_loop (length h) (hash_toStr h @ rest) = h"
proof (induction h)
  case (Cons b h)
  have "byte_chars b = [hex_char (drop_bit 4 (b AND 0xF0)), hex_char (b AND 0x0F)]" by (rule byte_chars_def)
  with Cons show ?case by (simp only: hash_toStr_def list.map concat.simps append.simps list.size
      add_Suc_right add_0_right fromStr_loop.simps two_digits_byte_chars)
qed (simp add: hash_toStr_def)

lemma hash_toStr_digits: "length (hash_toStr h) = 2 * length h \<and> (\<forall>c \<in> set (hash_toStr h). is_lower_hex c)"
  using byte_chars_hex by (induction h) (auto simp: hash_toStr_def byte_chars_def)

text \<open>The other way round, on lower case digits.\<close>

definition lower_hexes :: "qchar list" where
  "lower_hexes = map word_of_nat ([0x30..<0x3A] @ [0x61..<0x67])"

lemma is_lower_hex_enum: "is_lower_hex c \<Longrightarrow> c \<in> set lower_hexes"
proof -
  assume c: "is_lower_hex c"
  have w: "c = word_of_nat (unat c)" by simp
  from c have "(unat c \<in> {0x30..<0x3A}) \<or> (unat c \<in> {0x61..<0x67})"
    by (auto simp: is_lower_hex_def word_le_nat_alt)
  then have "unat c \<in> set ([0x30..<0x3A] @ [0x61..<0x67])" by (simp only: set_append set_upt Un_iff)
  then have "word_of_nat (unat c) \<in> set lower_hexes"
    unfolding lower_hexes_def set_map by (rule imageI)
  with w show ?thesis by simp
qed

lemma hex_char_digit: "is_lower_hex c \<Longrightarrow> hex_char (hex_digit (to_latin1 c)) = c \<and> hex_digit (to_latin1 c) AND 0x0F = hex_digit (to_latin1 c)"
proof -
  assume c: "is_lower_hex c"
  have "\<forall>c \<in> set lower_hexes. hex_char (hex_digit (to_latin1 c)) = c \<and> hex_digit (to_latin1 c) AND 0x0F = hex_digit (to_latin1 c)"
    by code_simp
  with is_lower_hex_enum [OF c] show ?thesis by blast
qed

lemma split_nibbles:
  assumes "p AND 0x0F = p" "q AND 0x0F = q"
  shows "drop_bit 4 (((push_bit 4 p AND 0xF0) OR (q AND 0x0F)) AND 0xF0) = (p :: byte)"
    "((push_bit 4 p AND 0xF0) OR (q AND 0x0F)) AND 0x0F = (q :: byte)"
proof -
  have m: "bit w n \<longleftrightarrow> n < 4 \<and> bit w n" if "w AND 0x0F = w" for w :: byte and n
  proof -
    have "w AND mask 4 = w" using that by (simp add: mask_eq_exp_minus_1)
    then have "bit (w AND mask 4) n = bit w n" by simp
    then show ?thesis by (auto simp: bit_simps)
  qed
  note p = m [OF assms(1)] and q = m [OF assms(2)]
  show "drop_bit 4 (((push_bit 4 p AND 0xF0) OR (q AND 0x0F)) AND 0xF0) = p"
  proof (rule bit_word_eqI)
    fix n assume "n < LENGTH(8)"
    then have "n \<in> {0, 1, 2, 3, 4, 5, 6, 7}" by auto
    then show "bit (drop_bit 4 (((push_bit 4 p AND 0xF0) OR (q AND 0x0F)) AND 0xF0)) n = bit p n"
      using p [of n] by (auto simp: bit_simps)
  qed
  show "((push_bit 4 p AND 0xF0) OR (q AND 0x0F)) AND 0x0F = q"
  proof (rule bit_word_eqI)
    fix n assume "n < LENGTH(8)"
    then have "n \<in> {0, 1, 2, 3, 4, 5, 6, 7}" by auto
    then show "bit (((push_bit 4 p AND 0xF0) OR (q AND 0x0F)) AND 0x0F) n = bit q n"
      using q [of n] by (auto simp: bit_simps)
  qed
qed

lemma byte_chars_two_digits:
  assumes "is_lower_hex c1" "is_lower_hex c2"
  shows "byte_chars (two_digits c1 c2) = [c1, c2]"
proof -
  note d1 = hex_char_digit [OF assms(1)] and d2 = hex_char_digit [OF assms(2)]
  show ?thesis
    unfolding byte_chars_def two_digits_def split_nibbles [OF conjunct2 [OF d1] conjunct2 [OF d2]]
    using d1 d2 by simp
qed

lemma toStr_fromStr_loop:
  "length str = 2 * n \<Longrightarrow> \<forall>c \<in> set str. is_lower_hex c \<Longrightarrow> hash_toStr (fromStr_loop n str) = str"
  by (induction n str rule: fromStr_loop.induct)
    (auto simp: hash_toStr_def byte_chars_two_digits)

text \<open>
  The text form of a hash is a round trip both ways: a hash of 28 bytes is what \<open>fromStr\<close>
  reads from \<open>toStr\<close> (its 56 lower case digits, which \<open>toLower\<close> leaves as they are), and a
  text whose lower case is 56 hexadecimal digits is written back in lower case.
\<close>

theorem hash_text_roundtrip:
  assumes "hash_wf h" "toLower (hash_toStr h) = hash_toStr h"
    and "length (toLower str) = 2 * HASH_SIZE" "\<forall>c \<in> set (toLower str). is_lower_hex c"
  shows "hash_fromStr toLower (hash_toStr h) = h \<and> hash_toStr (hash_fromStr toLower str) = toLower str"
proof
  show "hash_fromStr toLower (hash_toStr h) = h"
    using fromStr_loop_toStr [of h "[]"] assms(1,2) by (simp add: hash_fromStr_def hash_wf_def)
  show "hash_toStr (hash_fromStr toLower str) = toLower str"
    using toStr_fromStr_loop [OF assms(3,4)] by (simp add: hash_fromStr_def)
qed

theorem hash_text_roundtrip_witness:
  "hash_fromStr (\<lambda>s. s) (hash_toStr (replicate 28 0xA7)) = replicate 28 0xA7 \<and>
   hash_toStr (hash_fromStr (\<lambda>s. s) (replicate 56 0x62)) = replicate 56 0x62"
  by (rule hash_text_roundtrip) (simp_all add: hash_wf_def HASH_SIZE_def is_lower_hex_def)

lemma hash_fromStr_wf [simp]: "hash_wf (hash_fromStr toLower str)"
  by (simp add: hash_fromStr_def hash_wf_def)

subsection \<open>Comparison\<close>

text \<open>\<open>memcmp\<close> compares the bytes as unsigned ones, the first difference deciding.\<close>

fun memcmp_less :: "byte list \<Rightarrow> byte list \<Rightarrow> bool" where
  "memcmp_less (a # as) (b # bs) = (if a = b then memcmp_less as bs else a < b)"
| "memcmp_less _ _ = False"

definition hash_less :: "hash \<Rightarrow> hash \<Rightarrow> bool" where
  "hash_less h1 h2 = memcmp_less h1 h2"

lemma memcmp_less_irrefl: "\<not> memcmp_less a a"
  by (induction a) auto

lemma memcmp_less_trans:
  "memcmp_less a b \<Longrightarrow> memcmp_less b c \<Longrightarrow> memcmp_less a c"
proof (induction a b arbitrary: c rule: memcmp_less.induct)
  case (1 x xs y ys)
  then obtain z zs where c: "c = z # zs" by (cases c) auto
  show ?case using 1 unfolding c by (auto split: if_splits)
qed auto

lemma memcmp_less_linear:
  "length a = length b \<Longrightarrow> memcmp_less a b \<or> a = b \<or> memcmp_less b a"
  by (induction a b rule: list_induct2) (auto simp: not_less)

subsection \<open>Hasher\<close>

text \<open>A \<open>QCryptographicHash\<close> keeps the bytes added so far; \<open>salt >> (8*i) & 0xFF\<close> writes the
  salt with its low byte first.\<close>

type_synonym hasher = "byte list"

definition hasher_reset :: "hasher \<Rightarrow> hasher" where
  "hasher_reset st = []"

definition hasher_addSalt :: "64 word \<Rightarrow> hasher \<Rightarrow> hasher" where
  "hasher_addSalt salt st = st @ map (\<lambda>i. ucast (drop_bit (8 * i) salt AND 0xFF)) [0..<8]"

definition hasher_addData :: "byte list \<Rightarrow> hasher \<Rightarrow> hasher" where
  "hasher_addData d st = st @ d"

definition hasher_getResult :: "(byte list \<Rightarrow> byte list) \<Rightarrow> hasher \<Rightarrow> hash" where
  "hasher_getResult sha3 st = take HASH_SIZE (sha3 st)"

definition hash_qstring :: "(byte list \<Rightarrow> byte list) \<Rightarrow> (qstring \<Rightarrow> byte list) \<Rightarrow> qstring \<Rightarrow> hash" where
  "hash_qstring sha3 to_utf8 str = hasher_getResult sha3 (hasher_addData (to_utf8 str) [])"

definition hash_hash :: "(byte list \<Rightarrow> byte list) \<Rightarrow> hash \<Rightarrow> hash" where
  "hash_hash sha3 h = hasher_getResult sha3 (hasher_addData h [])"

definition hashWithSalt_string :: "(byte list \<Rightarrow> byte list) \<Rightarrow> (qstring \<Rightarrow> byte list) \<Rightarrow> qstring \<Rightarrow> 64 word \<Rightarrow> hash" where
  "hashWithSalt_string sha3 to_utf8 str salt =
     hasher_getResult sha3 (hasher_addSalt salt (hasher_addData (to_utf8 str) []))"

definition hashWithSalt_hash :: "(byte list \<Rightarrow> byte list) \<Rightarrow> hash \<Rightarrow> 64 word \<Rightarrow> hash" where
  "hashWithSalt_hash sha3 h salt = hasher_getResult sha3 (hasher_addSalt salt (hasher_addData h []))"

text \<open>The salt is written without loss, so that two salts never give the digest the same bytes.\<close>

lemma addSalt_inj:
  assumes "hasher_addSalt s1 st = hasher_addSalt s2 st"
  shows "s1 = s2"
proof (rule bit_word_eqI)
  fix n assume n: "n < LENGTH(64)"
  have i: "n div 8 < 8" using n by simp
  have "map (\<lambda>i. ucast (drop_bit (8 * i) s1 AND 0xFF) :: byte) [0..<8] ! (n div 8) =
        map (\<lambda>i. ucast (drop_bit (8 * i) s2 AND 0xFF)) [0..<8] ! (n div 8)"
    using assms unfolding hasher_addSalt_def by (simp only: same_append_eq)
  then have e: "ucast (drop_bit (8 * (n div 8)) s1 AND 0xFF) = (ucast (drop_bit (8 * (n div 8)) s2 AND 0xFF) :: byte)"
    using i by (simp del: upt_Suc)
  have m: "(0xFF :: 64 word) = mask 8" by (simp add: mask_eq_exp_minus_1)
  have "bit (ucast (drop_bit (8 * (n div 8)) s AND 0xFF) :: byte) (n mod 8) = bit s n" for s :: "64 word"
    using n mod_less_divisor [of 8 n] unfolding m by (auto simp: bit_simps)
  with e show "bit s1 n = bit s2 n" by metis
qed

end
