(* ===== verification/Zero_Copy.thy ===== *)
theory Zero_Copy
  imports Dg_Prelude
begin

text \<open>
  \<open>Common/ZeroCopyStreamQIODevice.cpp\<close>: the two bridges through which protobuf reads from and
  writes to a \<open>QIODevice\<close>.  A device that is read is the list of its available bytes (\<open>peek(n)\<close>
  looks at the first \<open>n\<close>, \<open>read(n)\<close> removes them).  A device that is written is an argument
  \<open>dev_write\<close> which returns what \<open>QIODevice::write\<close> returns and the device after it.  Positions
  are offsets from the start of the buffer.
\<close>

definition PROTOBUF_STREAMING_BUFFER_SIZE :: nat where
  "PROTOBUF_STREAMING_BUFFER_SIZE = 4 * 1024"

lemma buffer_size_pos [simp]: "0 < PROTOBUF_STREAMING_BUFFER_SIZE" "PROTOBUF_STREAMING_BUFFER_SIZE \<noteq> 0"
  by (simp_all add: PROTOBUF_STREAMING_BUFFER_SIZE_def)

subsection \<open>Input\<close>

record zin =
  zi_device :: "byte list"
  zi_nbLastRead :: nat
  zi_buffer :: "byte list"
  zi_pos :: nat
  zi_bytesRead :: nat

definition zi_open :: "byte list \<Rightarrow> zin" where
  "zi_open device = \<lparr>zi_device = device, zi_nbLastRead = 0, zi_buffer = [], zi_pos = 0, zi_bytesRead = 0\<rparr>"

definition zi_Next :: "zin \<Rightarrow> byte list option \<times> zin" where
  "zi_Next s =
     (if zi_pos s \<noteq> zi_nbLastRead s
      then (Some (take (zi_nbLastRead s - zi_pos s) (drop (zi_pos s) (zi_buffer s))), s\<lparr>zi_pos := zi_nbLastRead s\<rparr>)
      else
        (let s = (if zi_nbLastRead s \<noteq> 0 then s\<lparr>zi_device := drop (zi_nbLastRead s) (zi_device s)\<rparr> else s);
             b = take PROTOBUF_STREAMING_BUFFER_SIZE (zi_device s);
             s = s\<lparr>zi_nbLastRead := length b, zi_buffer := b\<rparr>
         in if length b = 0 then (None, s\<lparr>zi_pos := 0\<rparr>)
            else (Some b, s\<lparr>zi_bytesRead := zi_bytesRead s + length b, zi_pos := length b\<rparr>)))"

definition zi_BackUp :: "nat \<Rightarrow> zin \<Rightarrow> zin" where
  "zi_BackUp cnt s = s\<lparr>zi_pos := zi_pos s - cnt\<rparr>"

text \<open>\<open>Skip\<close>: first in the buffer, then from the device.\<close>

definition zi_Skip_buffer :: "nat \<Rightarrow> zin \<Rightarrow> nat \<times> zin" where
  "zi_Skip_buffer cnt s =
     (if zi_pos s \<noteq> zi_nbLastRead s
      then if zi_pos s + cnt > zi_nbLastRead s
           then (cnt - (zi_nbLastRead s - zi_pos s), s\<lparr>zi_pos := zi_nbLastRead s\<rparr>)
           else (0, s\<lparr>zi_pos := zi_pos s + cnt\<rparr>)
      else (cnt, s))"

definition zi_Skip :: "nat \<Rightarrow> zin \<Rightarrow> bool \<times> zin" where
  "zi_Skip cnt s =
     (case zi_Skip_buffer cnt s of (cnt, s) \<Rightarrow>
        if zi_device s = [] then (False, s)
        else if cnt = 0 then (True, s)
        else (let d = take cnt (zi_device s);
                  s = s\<lparr>zi_device := drop cnt (zi_device s), zi_bytesRead := zi_bytesRead s + length d\<rparr>
              in (zi_device s \<noteq> [], s)))"

text \<open>The destructor: what was handed out leaves the device.\<close>

definition zi_close :: "zin \<Rightarrow> byte list" where
  "zi_close s = drop (zi_pos s) (zi_device s)"

text \<open>
  The abstract stream is what the client has not had.  The buffer is the beginning of the device
  as long as part of it is left, and after a \<open>Next\<close> as long as nothing is skipped.
\<close>

definition zi_rest :: "zin \<Rightarrow> byte list" where
  "zi_rest s = drop (zi_pos s) (zi_device s)"

definition zi_buffered :: "zin \<Rightarrow> bool" where
  "zi_buffered s \<longleftrightarrow> zi_nbLastRead s \<le> length (zi_device s) \<and> zi_buffer s = take (zi_nbLastRead s) (zi_device s)"

definition zi_inv :: "zin \<Rightarrow> bool" where
  "zi_inv s \<longleftrightarrow> zi_pos s \<le> zi_nbLastRead s \<and> (zi_pos s < zi_nbLastRead s \<longrightarrow> zi_buffered s)"

lemma zi_open_inv [simp]: "zi_inv (zi_open d)" "zi_rest (zi_open d) = d"
  by (simp_all add: zi_open_def zi_inv_def zi_rest_def)

lemma zi_Next_block:
  assumes "zi_Next s = (Some b, s')" "zi_pos s = zi_nbLastRead s"
  shows "b \<noteq> []" "zi_rest s = zi_device s'" "zi_device s' = b @ zi_rest s'"
    "zi_pos s' = length b" "zi_nbLastRead s' = length b" "zi_buffer s' = b"
proof -
  define d where "d = drop (zi_nbLastRead s) (zi_device s)"
  have b: "b = take PROTOBUF_STREAMING_BUFFER_SIZE d" "b \<noteq> []" and s': "zi_device s' = d"
      "zi_pos s' = length b" "zi_nbLastRead s' = length b" "zi_buffer s' = b"
    using assms by (auto simp: zi_Next_def Let_def d_def split: if_splits)
  have "take (length b) d = b" using b(1) by (metis length_take take_take min.idem min.commute take_all nat_le_linear)
  then have "d = b @ drop (length b) d" by (metis append_take_drop_id)
  with b s' assms(2) show "b \<noteq> []" "zi_rest s = zi_device s'" "zi_device s' = b @ zi_rest s'"
    "zi_pos s' = length b" "zi_nbLastRead s' = length b" "zi_buffer s' = b"
    by (simp_all add: zi_rest_def d_def)
qed

lemma zi_Next_Some:
  assumes "zi_inv s" "zi_Next s = (Some b, s')"
  shows "b \<noteq> [] \<and> zi_rest s = b @ zi_rest s' \<and> zi_inv s' \<and> zi_buffered s' \<and>
         zi_pos s' = zi_nbLastRead s' \<and> length b \<le> zi_nbLastRead s'"
proof (cases "zi_pos s = zi_nbLastRead s")
  case True
  note nb = zi_Next_block [OF assms(2) True]
  have "take (length b) (zi_device s') = b" "length b \<le> length (zi_device s')" by (simp_all add: nb(3))
  then show ?thesis using nb by (simp add: zi_inv_def zi_buffered_def)
next
  case False
  then have lt: "zi_pos s < zi_nbLastRead s" and buf: "zi_buffered s"
    using assms(1) by (auto simp: zi_inv_def)
  let ?d = "zi_device s" and ?p = "zi_pos s" and ?n = "zi_nbLastRead s"
  have b: "b = drop ?p (take ?n ?d)" and s': "s' = s\<lparr>zi_pos := ?n\<rparr>"
    using assms(2) False buf by (auto simp: zi_Next_def zi_buffered_def take_drop)
  have "drop ?p ?d = drop ?p (take ?n ?d) @ drop ?n ?d"
    using lt buf by (metis append_take_drop_id drop_append zi_buffered_def length_take min.absorb2
        diff_is_0_eq drop_0 less_imp_le)
  then show ?thesis using b s' lt buf by (auto simp: zi_rest_def zi_inv_def zi_buffered_def)
qed

lemma zi_Next_None:
  assumes "zi_inv s" "zi_Next s = (None, s')"
  shows "zi_rest s = [] \<and> zi_rest s' = [] \<and> zi_inv s'"
  using assms by (auto simp: zi_Next_def zi_rest_def zi_inv_def zi_buffered_def Let_def split: if_splits)

lemma zi_BackUp_rest:
  assumes "zi_inv s" "zi_Next s = (Some b, s')" "cnt \<le> length b"
  shows "zi_rest s = take (length b - cnt) b @ zi_rest (zi_BackUp cnt s') \<and> zi_inv (zi_BackUp cnt s')"
proof -
  note n = zi_Next_Some [OF assms(1,2)]
  let ?d = "zi_device s'" and ?p = "zi_pos s'"
  have pl: "?p \<le> length ?d" "length b \<le> ?p" using n by (auto simp: zi_buffered_def)
  have inv: "zi_inv (zi_BackUp cnt s')"
    using n by (auto simp: zi_inv_def zi_BackUp_def zi_buffered_def)
  have bk: "zi_rest (zi_BackUp cnt s') = drop (length b - cnt) (drop (?p - length b) ?d)"
    using pl assms(3) by (simp add: zi_rest_def zi_BackUp_def)
  have "drop (?p - length b) ?d = b @ zi_rest s'"
  proof (cases "zi_pos s = zi_nbLastRead s")
    case True
    show ?thesis using zi_Next_block(3,4) [OF assms(2) True] by simp
  next
    case False
    then have lt: "zi_pos s < zi_nbLastRead s" and buf: "zi_buffered s" using assms(1) by (auto simp: zi_inv_def)
    have "b = drop (zi_pos s) (zi_buffer s)" "?p = zi_nbLastRead s" "?d = zi_device s"
      using assms(2) False buf by (auto simp: zi_Next_def zi_buffered_def)
    then have "?p - length b = zi_pos s" using lt buf by (auto simp: zi_buffered_def)
    then show ?thesis using n \<open>?d = zi_device s\<close> by (simp add: zi_rest_def)
  qed
  then show ?thesis using n inv bk assms(3) by simp
qed

lemma zi_Skip_rest:
  assumes "zi_inv s" "zi_Skip cnt s = (ok, s')"
  shows "zi_rest s' = drop cnt (zi_rest s) \<and> zi_inv s'"
  using assms
  by (auto simp: zi_Skip_def zi_Skip_buffer_def zi_rest_def zi_inv_def zi_buffered_def Let_def add.commute
      split: if_splits prod.splits)

subsection \<open>A session of a client\<close>

text \<open>
  The ways the contract of \<open>ZeroCopyInputStream\<close> lets a client use it: take at most \<open>k\<close> bytes of
  the next block and back up the others, or skip.  What it gets is compared with the device.
\<close>

datatype zop = Take nat | Skip nat

datatype zgot = Got "byte list" | Skipped nat

definition zi_step :: "zop \<Rightarrow> zin \<Rightarrow> zgot \<times> zin" where
  "zi_step op s =
     (case op of
        Take k \<Rightarrow> (case zi_Next s of
            (None, s) \<Rightarrow> (Got [], s)
          | (Some b, s) \<Rightarrow> (Got (take k b), zi_BackUp (length b - k) s))
      | Skip n \<Rightarrow> (Skipped n, snd (zi_Skip n s)))"

fun zi_session :: "zop list \<Rightarrow> zin \<Rightarrow> zgot list \<times> zin" where
  "zi_session [] s = ([], s)"
| "zi_session (op # ops) s = (case zi_step op s of (g, s) \<Rightarrow> case zi_session ops s of (gs, s) \<Rightarrow> (g # gs, s))"

fun consume :: "zgot list \<Rightarrow> byte list \<Rightarrow> byte list option" where
  "consume [] d = Some d"
| "consume (Got b # gs) d = (if take (length b) d = b then consume gs (drop (length b) d) else None)"
| "consume (Skipped n # gs) d = consume gs (drop n d)"

lemma zi_step_consume:
  assumes "zi_inv s" "zi_step op s = (g, s')"
  shows "consume (g # gs) (zi_rest s) = consume gs (zi_rest s') \<and> zi_inv s'"
proof (cases op)
  case (Take k)
  obtain r t where nx: "zi_Next s = (r, t)" by fastforce
  show ?thesis
  proof (cases r)
    case None
    then show ?thesis using Take assms nx zi_Next_None [of s t] by (auto simp: zi_step_def)
  next
    case (Some b)
    have g: "g = Got (take k b)" "s' = zi_BackUp (length b - k) t"
      using Take assms(2) nx Some by (auto simp: zi_step_def)
    have "zi_rest s = take (length b - (length b - k)) b @ zi_rest s' \<and> zi_inv s'"
      unfolding g(2) by (rule zi_BackUp_rest [OF assms(1)]) (use nx Some in auto)
    moreover have "take (length b - (length b - k)) b = take k b" "take (min (length b) k) b = take k b"
      by (cases "k \<le> length b"; simp)+
    ultimately show ?thesis using g(1) by simp
  qed
next
  case (Skip n)
  then show ?thesis using assms zi_Skip_rest [OF assms(1), of n]
    by (auto simp: zi_step_def split: prod.splits) (metis surjective_pairing)+
qed

lemma zi_session_consume:
  "zi_inv s \<Longrightarrow> zi_session ops s = (gs, s') \<Longrightarrow> consume gs (zi_rest s) = Some (zi_rest s')"
proof (induction ops arbitrary: s gs)
  case (Cons op ops)
  obtain g t where t: "zi_step op s = (g, t)" by fastforce
  obtain gs' where gs': "zi_session ops t = (gs', s')" "gs = g # gs'"
    using Cons.prems(2) t by (auto split: prod.splits)
  show ?case using zi_step_consume [OF Cons.prems(1) t, of gs'] Cons.IH [OF _ gs'(1)] gs'(2) by simp
qed simp

lemma zero_copy_consume:
  "consume (fst (zi_session ops (zi_open device))) device = Some (zi_close (snd (zi_session ops (zi_open device))))"
  using zi_session_consume [OF zi_open_inv(1) surjective_pairing, of ops device]
  unfolding zi_open_inv(2) by (simp add: zi_close_def zi_rest_def)

text \<open>
  However a client uses the stream, taking parts of blocks, backing up and skipping, it is
  given consecutive bytes of the device, and when the stream is destroyed the device holds
  exactly the bytes that were neither taken nor skipped.
\<close>

theorem zero_copy_input_exact:
  "consume (fst (zi_session ops (zi_open device))) device = Some (zi_close (snd (zi_session ops (zi_open device))))"
  by (rule zero_copy_consume)

text \<open>A client that takes \<open>n\<close> bytes in all gets the first \<open>n\<close> and leaves the others.\<close>

fun got_bytes :: "zgot list \<Rightarrow> byte list" where
  "got_bytes [] = []"
| "got_bytes (Got b # gs) = b @ got_bytes gs"
| "got_bytes (Skipped n # gs) = got_bytes gs"

lemma consume_got:
  "consume gs d = Some r \<Longrightarrow> \<forall>g \<in> set gs. \<exists>b. g = Got b \<Longrightarrow> d = got_bytes gs @ r"
proof (induction gs d rule: consume.induct)
  case (2 b gs d)
  then have t: "take (length b) d = b" and r: "consume gs (drop (length b) d) = Some r" by (auto split: if_splits)
  have "drop (length b) d = got_bytes gs @ r" using 2(1) [OF t r] 2(3) by simp
  then show ?case using t by (metis append_take_drop_id append_assoc got_bytes.simps(2))
qed auto

lemma zi_session_takes:
  "zi_session (map Take ks) s = (gs, s') \<Longrightarrow> \<forall>g \<in> set gs. \<exists>b. g = Got b"
  by (induction ks arbitrary: s gs) (auto simp: zi_step_def split: prod.splits option.splits)

lemma zero_copy_takes:
  assumes "zi_session (map Take ks) (zi_open device) = (gs, s)"
  shows "got_bytes gs = take (length (got_bytes gs)) device \<and> zi_close s = drop (length (got_bytes gs)) device"
proof -
  have "consume gs device = Some (zi_close s)" using zero_copy_consume [of "map Take ks" device] assms by simp
  then have "device = got_bytes gs @ zi_close s" using consume_got zi_session_takes [OF assms] by blast
  then show ?thesis by (metis append_eq_conv_conj)
qed

subsection \<open>Output\<close>

record 'd zout =
  zo_device :: 'd
  zo_buffer :: "byte list"
  zo_pos :: nat
  zo_bytesWritten :: nat

datatype zo_result = Buffer_ready | Write_failed | Write_partial

definition zo_open :: "byte list \<Rightarrow> 'd \<Rightarrow> 'd zout" where
  "zo_open memory device = \<lparr>zo_device = device, zo_buffer = memory, zo_pos = 0, zo_bytesWritten = 0\<rparr>"

text \<open>\<open>Write_failed\<close> is the return of false, \<open>Write_partial\<close> the exception.\<close>

definition zo_Next :: "(byte list \<Rightarrow> 'd \<Rightarrow> int \<times> 'd) \<Rightarrow> 'd zout \<Rightarrow> zo_result \<times> 'd zout" where
  "zo_Next dev_write s =
     (if zo_pos s \<noteq> 0
      then (case dev_write (take (zo_pos s) (zo_buffer s)) (zo_device s) of (nBytes, d) \<Rightarrow>
              let s = s\<lparr>zo_device := d\<rparr> in
              if nBytes = -1 then (Write_failed, s)
              else if nBytes \<noteq> int (zo_pos s) then (Write_partial, s)
              else (Buffer_ready, s\<lparr>zo_bytesWritten := zo_bytesWritten s + zo_pos s,
                                    zo_pos := PROTOBUF_STREAMING_BUFFER_SIZE\<rparr>))
      else (Buffer_ready, s\<lparr>zo_pos := PROTOBUF_STREAMING_BUFFER_SIZE\<rparr>))"

definition zo_BackUp :: "nat \<Rightarrow> 'd zout \<Rightarrow> 'd zout" where
  "zo_BackUp cnt s = s\<lparr>zo_pos := zo_pos s - cnt\<rparr>"

definition zo_close :: "(byte list \<Rightarrow> 'd \<Rightarrow> int \<times> 'd) \<Rightarrow> 'd zout \<Rightarrow> 'd" where
  "zo_close dev_write s =
     (if zo_pos s \<noteq> 0 then snd (dev_write (take (zo_pos s) (zo_buffer s)) (zo_device s)) else zo_device s)"

text \<open>The client writes a block at the beginning of the memory it was given and backs up the rest;
  a result that is not \<open>Buffer_ready\<close> ends its work.\<close>

fun zo_put :: "(byte list \<Rightarrow> 'd \<Rightarrow> int \<times> 'd) \<Rightarrow> byte list list \<Rightarrow> 'd zout \<Rightarrow> zo_result \<times> 'd zout" where
  "zo_put dev_write [] s = (Buffer_ready, s)"
| "zo_put dev_write (b # bs) s =
     (case zo_Next dev_write s of
        (Buffer_ready, s) \<Rightarrow> zo_put dev_write bs
            (zo_BackUp (PROTOBUF_STREAMING_BUFFER_SIZE - length b) (s\<lparr>zo_buffer := b @ drop (length b) (zo_buffer s)\<rparr>))
      | (r, s) \<Rightarrow> (r, s))"

definition zo_pending :: "'d zout \<Rightarrow> byte list" where
  "zo_pending s = take (zo_pos s) (zo_buffer s)"

definition appends :: "(byte list \<Rightarrow> 'd \<Rightarrow> int \<times> 'd) \<Rightarrow> ('d \<Rightarrow> byte list) \<Rightarrow> bool" where
  "appends dev_write content \<longleftrightarrow>
     (\<forall>b d. fst (dev_write b d) = int (length b) \<and> content (snd (dev_write b d)) = content d @ b)"

lemma zo_Next_content:
  assumes "appends dev_write content" "zo_pos s \<le> length (zo_buffer s)"
  shows "\<exists>t. zo_Next dev_write s = (Buffer_ready, t) \<and> zo_pos t = PROTOBUF_STREAMING_BUFFER_SIZE \<and>
           zo_buffer t = zo_buffer s \<and> content (zo_device t) = content (zo_device s) @ zo_pending s"
proof (cases "zo_pos s = 0")
  case True
  then show ?thesis by (simp add: zo_Next_def zo_pending_def)
next
  case False
  obtain n d where w: "dev_write (zo_pending s) (zo_device s) = (n, d)" by fastforce
  have "n = int (zo_pos s)" "content d = content (zo_device s) @ zo_pending s"
    using assms w unfolding appends_def zo_pending_def by (metis fst_conv length_take min.absorb2, metis snd_conv)
  then show ?thesis using False w by (simp add: zo_Next_def zo_pending_def)
qed

lemma zo_put_content:
  assumes "appends dev_write content"
  shows "\<forall>b \<in> set bs. length b \<le> PROTOBUF_STREAMING_BUFFER_SIZE \<Longrightarrow> zo_pos s \<le> length (zo_buffer s) \<Longrightarrow>
         length (zo_buffer s) = PROTOBUF_STREAMING_BUFFER_SIZE \<Longrightarrow>
         (case zo_put dev_write bs s of (r, s') \<Rightarrow>
            r = Buffer_ready \<and> content (zo_close dev_write s') = content (zo_device s) @ zo_pending s @ concat bs)"
proof (induction bs arbitrary: s)
  case Nil
  then show ?case using assms by (auto simp: zo_close_def zo_pending_def appends_def)
next
  case (Cons b bs)
  obtain t where t: "zo_Next dev_write s = (Buffer_ready, t)" "zo_pos t = PROTOBUF_STREAMING_BUFFER_SIZE"
      "zo_buffer t = zo_buffer s" "content (zo_device t) = content (zo_device s) @ zo_pending s"
    using zo_Next_content [OF assms Cons.prems(2)] by blast
  let ?u = "zo_BackUp (PROTOBUF_STREAMING_BUFFER_SIZE - length b) (t\<lparr>zo_buffer := b @ drop (length b) (zo_buffer t)\<rparr>)"
  have len: "length b \<le> PROTOBUF_STREAMING_BUFFER_SIZE" using Cons.prems by simp
  have u: "zo_pos ?u = length b" "zo_pending ?u = b" "zo_device ?u = zo_device t"
      "length (zo_buffer ?u) = PROTOBUF_STREAMING_BUFFER_SIZE"
    using len t Cons.prems by (simp_all add: zo_BackUp_def zo_pending_def)
  have "case zo_put dev_write bs ?u of (r, s') \<Rightarrow>
          r = Buffer_ready \<and> content (zo_close dev_write s') = content (zo_device ?u) @ zo_pending ?u @ concat bs"
    by (rule Cons.IH) (use Cons.prems u len in auto)
  then show ?case unfolding u using t by simp
qed

lemma zero_copy_output:
  assumes "appends dev_write content" "\<forall>b \<in> set bs. length b \<le> PROTOBUF_STREAMING_BUFFER_SIZE"
    and "length memory = PROTOBUF_STREAMING_BUFFER_SIZE"
    and "zo_put dev_write bs (zo_open memory device) = (r, s)"
  shows "r = Buffer_ready \<and> content (zo_close dev_write s) = content device @ concat bs"
  using zo_put_content [OF assms(1,2), of "zo_open memory device"] assms(3,4)
  by (simp add: zo_open_def zo_pending_def)

end
