(* ===== verification/Messages.thy ===== *)
theory Messages
  imports Hash_Value Zero_Copy
begin

unbundle bit_operations_syntax

text \<open>
  \<open>Common/Network/MessageHeader\<close> and \<open>Message\<close>.  A message on the wire is a header of 36
  bytes (type, size of the body and identifier of the sender) and a body that protobuf writes
  and reads.  Protobuf is not in the repository: a message is here its serialised bytes, and
  \<open>parse\<close>, an argument, tells which bytes are a message of a class.
\<close>

subsection \<open>Types of message\<close>

datatype message_type =
    NULL_MESS | CORE_IM_ALIVE | CORE_GOODBYE | CORE_CHUNKS_OWNED | CORE_CHAT_MESSAGES |
    CORE_GET_LAST_CHAT_MESSAGES | CORE_FIND | CORE_FIND_RESULT | CORE_GET_ENTRIES |
    CORE_GET_ENTRIES_RESULT | CORE_GET_HASHES | CORE_GET_HASHES_RESULT | CORE_HASH_RESULT |
    CORE_GET_CHUNKS | CORE_GET_CHUNKS_RESULT | CORE_GET_PEER_LIST | CORE_GET_PEER_LIST_RESULT |
    GUI_STATE | GUI_STATE_RESULT | GUI_EVENT_CHAT_MESSAGES | GUI_EVENT_LOG_MESSAGES |
    GUI_ASK_FOR_AUTHENTICATION | GUI_AUTHENTICATION | GUI_AUTHENTICATION_RESULT | GUI_LANGUAGE |
    GUI_CHANGE_PASSWORD | GUI_SETTINGS | GUI_SEARCH | GUI_SEARCH_TAG | GUI_SEARCH_RESULT | GUI_BROWSE |
    GUI_BROWSE_TAG | GUI_BROWSE_RESULT | GUI_CANCEL_DOWNLOADS | GUI_PAUSE_DOWNLOADS | GUI_MOVE_DOWNLOADS
    | GUI_DOWNLOAD | GUI_CHAT_MESSAGE | GUI_CHAT_MESSAGE_RESULT | GUI_JOIN_ROOM | GUI_LEAVE_ROOM |
    GUI_REFRESH | GUI_REFRESH_NETWORK_INTERFACES

definition all_types :: "message_type list" where
  "all_types =
    [NULL_MESS, CORE_IM_ALIVE, CORE_GOODBYE, CORE_CHUNKS_OWNED, CORE_CHAT_MESSAGES,
     CORE_GET_LAST_CHAT_MESSAGES, CORE_FIND, CORE_FIND_RESULT, CORE_GET_ENTRIES, CORE_GET_ENTRIES_RESULT,
     CORE_GET_HASHES, CORE_GET_HASHES_RESULT, CORE_HASH_RESULT, CORE_GET_CHUNKS, CORE_GET_CHUNKS_RESULT,
     CORE_GET_PEER_LIST, CORE_GET_PEER_LIST_RESULT, GUI_STATE, GUI_STATE_RESULT, GUI_EVENT_CHAT_MESSAGES,
     GUI_EVENT_LOG_MESSAGES, GUI_ASK_FOR_AUTHENTICATION, GUI_AUTHENTICATION, GUI_AUTHENTICATION_RESULT,
     GUI_LANGUAGE, GUI_CHANGE_PASSWORD, GUI_SETTINGS, GUI_SEARCH, GUI_SEARCH_TAG, GUI_SEARCH_RESULT,
     GUI_BROWSE, GUI_BROWSE_TAG, GUI_BROWSE_RESULT, GUI_CANCEL_DOWNLOADS, GUI_PAUSE_DOWNLOADS,
     GUI_MOVE_DOWNLOADS, GUI_DOWNLOAD, GUI_CHAT_MESSAGE, GUI_CHAT_MESSAGE_RESULT, GUI_JOIN_ROOM,
     GUI_LEAVE_ROOM, GUI_REFRESH, GUI_REFRESH_NETWORK_INTERFACES]"

fun type_code :: "message_type \<Rightarrow> 32 word" where
  "type_code NULL_MESS = 0x0000"
| "type_code CORE_IM_ALIVE = 0x0001"
| "type_code CORE_GOODBYE = 0x00FE"
| "type_code CORE_CHUNKS_OWNED = 0x0002"
| "type_code CORE_CHAT_MESSAGES = 0x0011"
| "type_code CORE_GET_LAST_CHAT_MESSAGES = 0x0018"
| "type_code CORE_FIND = 0x0021"
| "type_code CORE_FIND_RESULT = 0x0022"
| "type_code CORE_GET_ENTRIES = 0x0031"
| "type_code CORE_GET_ENTRIES_RESULT = 0x0032"
| "type_code CORE_GET_HASHES = 0x0041"
| "type_code CORE_GET_HASHES_RESULT = 0x0042"
| "type_code CORE_HASH_RESULT = 0x0043"
| "type_code CORE_GET_CHUNKS = 0x0051"
| "type_code CORE_GET_CHUNKS_RESULT = 0x0052"
| "type_code CORE_GET_PEER_LIST = 0x0061"
| "type_code CORE_GET_PEER_LIST_RESULT = 0x0062"
| "type_code GUI_STATE = 0x1001"
| "type_code GUI_STATE_RESULT = 0x1002"
| "type_code GUI_EVENT_CHAT_MESSAGES = 0x1011"
| "type_code GUI_EVENT_LOG_MESSAGES = 0x1012"
| "type_code GUI_ASK_FOR_AUTHENTICATION = 0x1021"
| "type_code GUI_AUTHENTICATION = 0x1022"
| "type_code GUI_AUTHENTICATION_RESULT = 0x1023"
| "type_code GUI_LANGUAGE = 0x10B1"
| "type_code GUI_CHANGE_PASSWORD = 0x10D1"
| "type_code GUI_SETTINGS = 0x1031"
| "type_code GUI_SEARCH = 0x1041"
| "type_code GUI_SEARCH_TAG = 0x1042"
| "type_code GUI_SEARCH_RESULT = 0x1043"
| "type_code GUI_BROWSE = 0x1051"
| "type_code GUI_BROWSE_TAG = 0x1052"
| "type_code GUI_BROWSE_RESULT = 0x1053"
| "type_code GUI_CANCEL_DOWNLOADS = 0x1061"
| "type_code GUI_PAUSE_DOWNLOADS = 0x10C1"
| "type_code GUI_MOVE_DOWNLOADS = 0x1071"
| "type_code GUI_DOWNLOAD = 0x1081"
| "type_code GUI_CHAT_MESSAGE = 0x1091"
| "type_code GUI_CHAT_MESSAGE_RESULT = 0x1092"
| "type_code GUI_JOIN_ROOM = 0x1094"
| "type_code GUI_LEAVE_ROOM = 0x1098"
| "type_code GUI_REFRESH = 0x10A1"
| "type_code GUI_REFRESH_NETWORK_INTERFACES = 0x10E1"

fun type_name :: "message_type \<Rightarrow> string" where
  "type_name NULL_MESS = ''NULL''"
| "type_name CORE_IM_ALIVE = ''IM_ALIVE''"
| "type_name CORE_GOODBYE = ''GOODBYE''"
| "type_name CORE_CHUNKS_OWNED = ''CHUNKS_OWNED''"
| "type_name CORE_CHAT_MESSAGES = ''CHAT_MESSAGES''"
| "type_name CORE_GET_LAST_CHAT_MESSAGES = ''CHAT_GET_LAST_MESSAGES''"
| "type_name CORE_FIND = ''FIND''"
| "type_name CORE_FIND_RESULT = ''FIND_RESULT''"
| "type_name CORE_GET_ENTRIES = ''GET_ENTRIES''"
| "type_name CORE_GET_ENTRIES_RESULT = ''GET_ENTRIES_RESULT''"
| "type_name CORE_GET_HASHES = ''GET_HASHES''"
| "type_name CORE_GET_HASHES_RESULT = ''GET_HASHES_RESULT''"
| "type_name CORE_HASH_RESULT = ''HASH_RESULT''"
| "type_name CORE_GET_CHUNKS = ''GET_CHUNKS''"
| "type_name CORE_GET_CHUNKS_RESULT = ''GET_CHUNKS_RESULT''"
| "type_name GUI_STATE = ''STATE''"
| "type_name GUI_STATE_RESULT = ''STATE_RESULT''"
| "type_name GUI_EVENT_CHAT_MESSAGES = ''EVENT_CHAT_MESSAGES''"
| "type_name GUI_EVENT_LOG_MESSAGES = ''EVENT_LOG_MESSAGES''"
| "type_name GUI_ASK_FOR_AUTHENTICATION = ''ASK_FOR_AUTHENTICATION''"
| "type_name GUI_AUTHENTICATION = ''AUTHENTICATION''"
| "type_name GUI_AUTHENTICATION_RESULT = ''AUTHENTICATION_RESULT''"
| "type_name GUI_LANGUAGE = ''LANGUAGE''"
| "type_name GUI_CHANGE_PASSWORD = ''CHANGE_PASSWORD''"
| "type_name GUI_SETTINGS = ''SETTINGS''"
| "type_name GUI_SEARCH = ''SEARCH''"
| "type_name GUI_SEARCH_TAG = ''SEARCH_TAG''"
| "type_name GUI_SEARCH_RESULT = ''SEARCH_RESULT''"
| "type_name GUI_BROWSE = ''BROWSE''"
| "type_name GUI_BROWSE_TAG = ''BROWSE_TAG''"
| "type_name GUI_BROWSE_RESULT = ''BROWSE_RESULT''"
| "type_name GUI_CANCEL_DOWNLOADS = ''CANCEL_DOWNLOADS''"
| "type_name GUI_PAUSE_DOWNLOADS = ''PAUSE_DOWNLOADS''"
| "type_name GUI_MOVE_DOWNLOADS = ''MOVE_DOWNLOADS''"
| "type_name GUI_DOWNLOAD = ''DOWNLOAD''"
| "type_name GUI_CHAT_MESSAGE = ''CHAT_MESSAGE''"
| "type_name GUI_CHAT_MESSAGE_RESULT = ''CHAT_MESSAGE_RESULT''"
| "type_name GUI_JOIN_ROOM = ''JOIN_ROOM''"
| "type_name GUI_LEAVE_ROOM = ''LEAVE_ROOM''"
| "type_name GUI_REFRESH = ''REFRESH''"
| "type_name GUI_REFRESH_NETWORK_INTERFACES = ''REFRESH_NETWORK_INTERFACES''"
| "type_name _ = ''<UNKNOWN_MESSAGE_TYPE>''"

text \<open>The enumeration of a code that came from the network; a code outside of it is \<open>None\<close>.\<close>

definition type_of_code :: "32 word \<Rightarrow> message_type option" where
  "type_of_code c = map_of (map (\<lambda>t. (type_code t, t)) all_types) c"

definition messToStr :: "32 word \<Rightarrow> string" where
  "messToStr c = (case type_of_code c of None \<Rightarrow> ''<UNKNOWN_MESSAGE_TYPE>'' | Some t \<Rightarrow> type_name t)"

datatype proto_class =
    P_ChatMessages | P_FindResult | P_Null | P_ChunksOwned | P_Find | P_GetChunks | P_GetChunksResult |
    P_GetEntries | P_GetEntriesResult | P_GetHashes | P_GetHashesResult | P_GetLastChatMessages |
    P_HashResult | P_IMAlive | P_AskForAuthentication | P_Authentication | P_AuthenticationResult |
    P_Browse | P_BrowseResult | P_CancelDownloads | P_ChangePassword | P_ChatMessage |
    P_ChatMessageResult | P_CoreSettings | P_Download | P_EventLogMessages | P_JoinRoom | P_Language |
    P_LeaveRoom | P_MoveDownloads | P_PauseDownloads | P_Search | P_State | P_Tag

fun body_class :: "message_type \<Rightarrow> proto_class" where
  "body_class NULL_MESS = P_Null"
| "body_class CORE_IM_ALIVE = P_IMAlive"
| "body_class CORE_CHUNKS_OWNED = P_ChunksOwned"
| "body_class CORE_CHAT_MESSAGES = P_ChatMessages"
| "body_class CORE_GET_LAST_CHAT_MESSAGES = P_GetLastChatMessages"
| "body_class CORE_FIND = P_Find"
| "body_class CORE_FIND_RESULT = P_FindResult"
| "body_class CORE_GET_ENTRIES = P_GetEntries"
| "body_class CORE_GET_ENTRIES_RESULT = P_GetEntriesResult"
| "body_class CORE_GET_HASHES = P_GetHashes"
| "body_class CORE_GET_HASHES_RESULT = P_GetHashesResult"
| "body_class CORE_HASH_RESULT = P_HashResult"
| "body_class CORE_GET_CHUNKS = P_GetChunks"
| "body_class CORE_GET_CHUNKS_RESULT = P_GetChunksResult"
| "body_class GUI_STATE = P_State"
| "body_class GUI_STATE_RESULT = P_Null"
| "body_class GUI_EVENT_CHAT_MESSAGES = P_ChatMessages"
| "body_class GUI_EVENT_LOG_MESSAGES = P_EventLogMessages"
| "body_class GUI_ASK_FOR_AUTHENTICATION = P_AskForAuthentication"
| "body_class GUI_AUTHENTICATION = P_Authentication"
| "body_class GUI_AUTHENTICATION_RESULT = P_AuthenticationResult"
| "body_class GUI_LANGUAGE = P_Language"
| "body_class GUI_CHANGE_PASSWORD = P_ChangePassword"
| "body_class GUI_SETTINGS = P_CoreSettings"
| "body_class GUI_SEARCH = P_Search"
| "body_class GUI_SEARCH_TAG = P_Tag"
| "body_class GUI_SEARCH_RESULT = P_FindResult"
| "body_class GUI_BROWSE = P_Browse"
| "body_class GUI_BROWSE_TAG = P_Tag"
| "body_class GUI_BROWSE_RESULT = P_BrowseResult"
| "body_class GUI_CANCEL_DOWNLOADS = P_CancelDownloads"
| "body_class GUI_PAUSE_DOWNLOADS = P_PauseDownloads"
| "body_class GUI_MOVE_DOWNLOADS = P_MoveDownloads"
| "body_class GUI_DOWNLOAD = P_Download"
| "body_class GUI_CHAT_MESSAGE = P_ChatMessage"
| "body_class GUI_CHAT_MESSAGE_RESULT = P_ChatMessageResult"
| "body_class GUI_JOIN_ROOM = P_JoinRoom"
| "body_class GUI_LEAVE_ROOM = P_LeaveRoom"
| "body_class GUI_REFRESH = P_Null"
| "body_class GUI_REFRESH_NETWORK_INTERFACES = P_Null"
| "body_class _ = P_Null"

text \<open>The switch of \<open>readMessageBody\<close>.\<close>

definition body_class_of_code :: "32 word \<Rightarrow> proto_class" where
  "body_class_of_code c = (case type_of_code c of None \<Rightarrow> P_Null | Some t \<Rightarrow> body_class t)"

lemma type_of_code_code [simp]: "type_of_code (type_code t) = Some t"
  by (cases t) (simp_all add: type_of_code_def all_types_def)

lemma type_code_inj: "type_code s = type_code t \<Longrightarrow> s = t"
  by (metis option.inject type_of_code_code)

subsection \<open>Header\<close>

record msg_header =
  h_type :: "32 word"
  h_size :: "32 word"
  h_senderID :: hash

definition null_header :: msg_header where
  "null_header = \<lparr>h_type = type_code NULL_MESS, h_size = 0, h_senderID = NULL_HASH\<rparr>"

definition header_isNull :: "msg_header \<Rightarrow> bool" where
  "header_isNull h \<longleftrightarrow> h_type h = type_code NULL_MESS"

definition header_setNull :: "msg_header \<Rightarrow> msg_header" where
  "header_setNull h = h\<lparr>h_type := type_code NULL_MESS\<rparr>"

definition HEADER_SIZE :: nat where
  "HEADER_SIZE = 4 + 4 + HASH_SIZE"

text \<open>\<open>QDataStream\<close> writes a 32-bit integer with its high byte first.\<close>

definition be32 :: "32 word \<Rightarrow> byte list" where
  "be32 w = [ucast (drop_bit 24 w), ucast (drop_bit 16 w), ucast (drop_bit 8 w), ucast w]"

definition of_be32 :: "byte list \<Rightarrow> 32 word" where
  "of_be32 bs = (case bs of [a, b, c, d] \<Rightarrow>
     push_bit 24 (ucast a) OR push_bit 16 (ucast b) OR push_bit 8 (ucast c) OR ucast d | _ \<Rightarrow> 0)"

definition writeHeader :: "msg_header \<Rightarrow> byte list" where
  "writeHeader h = be32 (h_type h) @ be32 (h_size h) @ h_senderID h"

definition readHeader :: "byte list \<Rightarrow> msg_header" where
  "readHeader d = \<lparr>h_type = of_be32 (take 4 d), h_size = of_be32 (take 4 (drop 4 d)),
                   h_senderID = take HASH_SIZE (drop 8 d)\<rparr>"

text \<open>From a device: its available bytes are read, or looked at with \<open>skipReadData = false\<close>.\<close>

datatype header_error = NotEnoughData

definition readHeader_device :: "byte list \<Rightarrow> bool \<Rightarrow> header_error + msg_header \<times> byte list" where
  "readHeader_device dev skipReadData =
     (if length dev < HEADER_SIZE then Inl NotEnoughData
      else Inr (readHeader (take HEADER_SIZE dev), if skipReadData then drop HEADER_SIZE dev else dev))"

definition header_wf :: "msg_header \<Rightarrow> bool" where
  "header_wf h \<longleftrightarrow> hash_wf (h_senderID h)"

lemma HEADER_SIZE_36: "HEADER_SIZE = 36"
  by (simp add: HEADER_SIZE_def HASH_SIZE_def)

lemma length_be32 [simp]: "length (be32 w) = 4"
  by (simp add: be32_def)

lemma of_be32_be32 [simp]: "of_be32 (be32 w) = w"
proof (rule bit_word_eqI)
  fix n assume n: "n < LENGTH(32)"
  then consider "n < 8" | "8 \<le> n" "n < 16" | "16 \<le> n" "n < 24" | "24 \<le> n" by linarith
  then show "bit (of_be32 (be32 w)) n = bit w n"
    using n by cases (auto simp: of_be32_def be32_def bit_simps)
qed

lemma be32_of_be32: "length bs = 4 \<Longrightarrow> be32 (of_be32 bs) = bs"
proof -
  assume "length bs = 4"
  then obtain a b c d where bs: "bs = [a, b, c, d]"
    by (auto simp: numeral_eq_Suc length_Suc_conv)
  let ?w = "push_bit 24 (ucast a) OR push_bit 16 (ucast b) OR push_bit 8 (ucast c) OR ucast d :: 32 word"
  have b: "\<not> bit x n" if "8 \<le> n" for x :: byte and n
    using that bit_imp_le_length [of x n] by auto
  have "ucast (drop_bit 24 ?w) = a"
    by (rule bit_word_eqI) (simp add: bit_simps b)
  moreover have "ucast (drop_bit 16 ?w) = b"
    by (rule bit_word_eqI) (simp add: bit_simps b)
  moreover have "ucast (drop_bit 8 ?w) = c"
    by (rule bit_word_eqI) (simp add: bit_simps b)
  moreover have "ucast ?w = d"
    by (rule bit_word_eqI) (simp add: bit_simps b)
  ultimately show ?thesis by (simp add: bs of_be32_def be32_def)
qed

lemma length_writeHeader [simp]: "header_wf h \<Longrightarrow> length (writeHeader h) = HEADER_SIZE"
  by (simp add: writeHeader_def header_wf_def hash_wf_def HEADER_SIZE_def)

lemma readHeader_writeHeader: "header_wf h \<Longrightarrow> readHeader (writeHeader h) = h"
  by (simp add: readHeader_def writeHeader_def header_wf_def hash_wf_def)

lemma writeHeader_readHeader:
  assumes "length d = HEADER_SIZE"
  shows "writeHeader (readHeader d) = d"
proof -
  define a b c where "a = take 4 d" and "b = take 4 (drop 4 d)" and "c = drop 8 d"
  have "drop 4 d = b @ c" unfolding b_def c_def using append_take_drop_id [of 4 "drop 4 d"] by simp
  then have d: "d = a @ b @ c" unfolding a_def by (metis append_take_drop_id)
  have len: "length a = 4" "length b = 4" "length c = HASH_SIZE"
    using assms by (simp_all add: a_def b_def c_def HEADER_SIZE_def)
  show ?thesis unfolding d using len by (simp add: writeHeader_def readHeader_def be32_of_be32)
qed

lemma readHeader_wf [simp]: "length d = HEADER_SIZE \<Longrightarrow> header_wf (readHeader d)"
  by (simp add: header_wf_def hash_wf_def readHeader_def HEADER_SIZE_def)

lemma readHeader_device_writeHeader:
  "header_wf h \<Longrightarrow> readHeader_device (writeHeader h @ rest) True = Inr (h, rest)"
  by (simp add: readHeader_device_def readHeader_writeHeader)

subsection \<open>Messages in a buffer\<close>

text \<open>
  The sizes are 32-bit: \<open>HEADER_SIZE + header.getSize()\<close> and \<open>bufferSize - HEADER_SIZE\<close> are
  computed modulo \<open>2 ^ 32\<close>.  Memory is a list of bytes and an access out of it is an error of
  its own.  \<open>SerializeToArray\<close> writes nothing when the message is longer than the size it is given.
\<close>

datatype buffer_error = ReadErrorException | Out_of_bounds

definition header_size32 :: "32 word" where
  "header_size32 = word_of_nat HEADER_SIZE"

definition put_at :: "nat \<Rightarrow> byte list \<Rightarrow> byte list \<Rightarrow> buffer_error + byte list" where
  "put_at i bs mem =
     (if i + length bs \<le> length mem then Inr (take i mem @ bs @ drop (i + length bs) mem) else Inl Out_of_bounds)"

definition serializeToArray :: "nat \<Rightarrow> byte list \<Rightarrow> 32 word \<Rightarrow> byte list \<Rightarrow> buffer_error + byte list" where
  "serializeToArray i message sz mem =
     (if length message > unat sz then Inr mem else put_at i message mem)"

definition writeMessageToBuffer ::
  "byte list \<Rightarrow> 32 word \<Rightarrow> msg_header \<Rightarrow> byte list option \<Rightarrow> buffer_error + 32 word \<times> byte list" where
  "writeMessageToBuffer buffer bufferSize header message =
     (if header_size32 + h_size header > bufferSize then Inr (0, buffer)
      else (case put_at 0 (writeHeader header) buffer of
              Inl e \<Rightarrow> Inl e
            | Inr buffer \<Rightarrow>
                (case (case message of None \<Rightarrow> Inr buffer
                       | Some m \<Rightarrow> serializeToArray HEADER_SIZE m (bufferSize - header_size32) buffer) of
                   Inl e \<Rightarrow> Inl e
                 | Inr buffer \<Rightarrow> Inr (header_size32 + h_size header, buffer))))"

definition readMessageBody ::
  "(proto_class \<Rightarrow> byte list \<Rightarrow> 'm option) \<Rightarrow> msg_header \<Rightarrow> byte list \<Rightarrow> buffer_error + msg_header \<times> 'm" where
  "readMessageBody parse header body =
     (if length body < unat (h_size header) then Inl Out_of_bounds
      else (case parse (body_class_of_code (h_type header)) (take (unat (h_size header)) body) of
              None \<Rightarrow> Inl ReadErrorException
            | Some m \<Rightarrow> Inr (header, m)))"

definition readMessage ::
  "(proto_class \<Rightarrow> byte list \<Rightarrow> 'm option) \<Rightarrow> byte list \<Rightarrow> 32 word \<Rightarrow> buffer_error + msg_header \<times> 'm" where
  "readMessage parse buffer bufferSize =
     (if length buffer < HEADER_SIZE then Inl Out_of_bounds
      else (let header = readHeader (take HEADER_SIZE buffer) in
            if h_size header > bufferSize - header_size32 then Inl ReadErrorException
            else readMessageBody parse header (drop HEADER_SIZE buffer)))"

lemma unat_header_size32 [simp]: "unat header_size32 = HEADER_SIZE"
  by (simp add: header_size32_def HEADER_SIZE_36)

lemma header_size_add:
  assumes "HEADER_SIZE + unat w < 2 ^ 32"
  shows "unat (header_size32 + w) = HEADER_SIZE + unat w"
  using assms by (simp add: unat_word_ariths)

lemma header_size_sub:
  assumes "HEADER_SIZE \<le> unat w"
  shows "unat (w - header_size32) = unat w - HEADER_SIZE"
  using assms by (simp add: unat_sub word_le_nat_alt)

lemma write_fits:
  assumes "header_wf h" "unat (h_size h) = length body"
    and "HEADER_SIZE + length body \<le> length buffer" "unat bufferSize = length buffer"
  shows "writeMessageToBuffer buffer bufferSize h (Some body) =
           Inr (header_size32 + h_size h, writeHeader h @ body @ drop (HEADER_SIZE + length body) buffer)"
proof -
  have lt: "unat bufferSize < 2 ^ 32" using unsigned_less [of bufferSize] by simp
  then have add: "unat (header_size32 + h_size h) = HEADER_SIZE + length body"
    using assms by (subst header_size_add) simp_all
  have sub: "unat (bufferSize - header_size32) = length buffer - HEADER_SIZE"
    using assms by (subst header_size_sub) simp_all
  have put: "put_at 0 (writeHeader h) buffer = Inr (writeHeader h @ drop HEADER_SIZE buffer)"
    using assms by (simp add: put_at_def)
  have "serializeToArray HEADER_SIZE body (bufferSize - header_size32) (writeHeader h @ drop HEADER_SIZE buffer) =
        Inr (writeHeader h @ body @ drop (HEADER_SIZE + length body) buffer)"
  proof -
    have "\<not> length body > unat (bufferSize - header_size32)" using assms(3) unfolding sub by linarith
    then show ?thesis using assms by (simp add: serializeToArray_def put_at_def add.commute)
  qed
  then show ?thesis using add put assms by (simp add: writeMessageToBuffer_def word_less_nat_alt)
qed

lemma read_written:
  assumes "header_wf h" "unat (h_size h) = length body" "parse (body_class_of_code (h_type h)) body = Some m"
    and "unat bufferSize = length (writeHeader h @ body @ rest)"
  shows "readMessage parse (writeHeader h @ body @ rest) bufferSize = Inr (h, m)"
proof -
  have "unat (bufferSize - header_size32) = length body + length rest"
    using assms by (subst header_size_sub) simp_all
  then show ?thesis
    using assms by (simp add: readMessage_def readMessageBody_def readHeader_writeHeader word_less_nat_alt)
qed

text \<open>Reading is within the buffer as soon as a header fits.\<close>

lemma readMessage_in_bounds:
  assumes "HEADER_SIZE \<le> length buffer" "unat bufferSize = length buffer"
  shows "readMessage parse buffer bufferSize \<noteq> Inl Out_of_bounds"
proof -
  have "unat (bufferSize - header_size32) = length buffer - HEADER_SIZE"
    using assms by (subst header_size_sub) simp_all
  then show ?thesis
    using assms by (auto simp: readMessage_def readMessageBody_def word_less_nat_alt Let_def split: option.splits)
qed

text \<open>
  A datagram is a round trip: a message whose body protobuf can parse, written to a buffer
  it fits in, takes the size of the header and of the body there and is read back with the same
  header; and no buffer of at least 36 bytes makes \<open>readMessage\<close> read outside of it.
\<close>

theorem message_buffer_roundtrip:
  assumes "header_wf h" "unat (h_size h) = length body" "parse (body_class_of_code (h_type h)) body = Some m"
    and "HEADER_SIZE + length body \<le> length buffer" "unat bufferSize = length buffer"
    and "HEADER_SIZE \<le> length other" "unat otherSize = length other"
  shows "(\<exists>written buffer'. writeMessageToBuffer buffer bufferSize h (Some body) = Inr (written, buffer') \<and>
            unat written = HEADER_SIZE + length body \<and> length buffer' = length buffer \<and>
            readMessage parse buffer' bufferSize = Inr (h, m) \<and> readMessage parse (take (unat written) buffer') written = Inr (h, m)) \<and>
         readMessage parse other otherSize \<noteq> Inl Out_of_bounds"
proof
  let ?b = "writeHeader h @ body @ drop (HEADER_SIZE + length body) buffer"
  have lt: "unat bufferSize < 2 ^ 32" using unsigned_less [of bufferSize] by simp
  then have add: "unat (header_size32 + h_size h) = HEADER_SIZE + length body"
    using assms by (subst header_size_add) simp_all
  have len: "length ?b = length buffer" using assms by simp
  have r1: "readMessage parse ?b bufferSize = Inr (h, m)"
    using assms len by (intro read_written) simp_all
  have r2: "readMessage parse (take (HEADER_SIZE + length body) ?b) (header_size32 + h_size h) = Inr (h, m)"
    using read_written [where parse = parse and rest = "[]", OF assms(1-3)] add assms(1) by simp
  show "\<exists>written buffer'. writeMessageToBuffer buffer bufferSize h (Some body) = Inr (written, buffer') \<and>
      unat written = HEADER_SIZE + length body \<and> length buffer' = length buffer \<and>
      readMessage parse buffer' bufferSize = Inr (h, m) \<and> readMessage parse (take (unat written) buffer') written = Inr (h, m)"
    using write_fits [OF assms(1,2,4,5)] add len r1 r2 by (intro exI [of _ "header_size32 + h_size h"] exI [of _ ?b]) simp
  show "readMessage parse other otherSize \<noteq> Inl Out_of_bounds"
    by (rule readMessage_in_bounds) (rule assms(6,7))+
qed

theorem message_buffer_roundtrip_witness:
  "readMessage (\<lambda>c b. if c = P_Find then Some b else None) (replicate 40 0) 40 \<noteq> Inl Out_of_bounds"
  using message_buffer_roundtrip [of "\<lparr>h_type = 0x21, h_size = 2, h_senderID = replicate 28 7\<rparr>" "[1, 2]"
      "\<lambda>c b. if c = P_Find then Some b else None" "[1, 2]" "replicate 64 0" 64 "replicate 40 0" 40]
  by (simp add: header_wf_def hash_wf_def HASH_SIZE_def HEADER_SIZE_36 body_class_of_code_def type_of_code_def all_types_def)

text \<open>A datagram shorter than a header is not refused by its size: \<open>bufferSize - HEADER_SIZE\<close> wraps
  around, so the test on the size passes and the header is taken from beyond the datagram.\<close>

lemma short_datagram_passes_test:
  assumes "unat bufferSize < HEADER_SIZE" "h_size h \<le> 0x7FFFFFFF"
  shows "\<not> h_size h > bufferSize - header_size32"
proof -
  have "unat (bufferSize - header_size32) = 2 ^ 32 + unat bufferSize - HEADER_SIZE"
    using assms(1) by (simp add: unat_sub_if_size word_size not_le HEADER_SIZE_36)
  then have "2 ^ 32 - HEADER_SIZE \<le> unat (bufferSize - header_size32)" by simp
  moreover have "unat (h_size h) \<le> 0x7FFFFFFF" using assms(2) by (simp add: word_le_nat_alt)
  ultimately show ?thesis by (simp add: word_less_nat_alt HEADER_SIZE_36)
qed

subsection \<open>Messages on a device\<close>

text \<open>The body goes through the zero copy stream in the blocks protobuf chooses; \<open>None\<close> is a
  message without body, \<open>ok\<close> what \<open>SerializeToZeroCopyStream\<close> returns.\<close>

definition writeMessageToDevice ::
  "(byte list \<Rightarrow> 'd \<Rightarrow> int \<times> 'd) \<Rightarrow> byte list \<Rightarrow> 'd \<Rightarrow> msg_header \<Rightarrow> byte list list option \<Rightarrow> int \<times> 'd" where
  "writeMessageToDevice dev_write memory ioDevice header message =
     (let ioDevice = snd (dev_write (writeHeader header) ioDevice);
          total = sint (header_size32 + h_size header)
      in case message of
           None \<Rightarrow> (total, ioDevice)
         | Some blocks \<Rightarrow>
             (case zo_put dev_write blocks (zo_open memory ioDevice) of
                (r, s) \<Rightarrow> (if r = Buffer_ready then total else 0, zo_close dev_write s)))"

lemma writeMessageToDevice_appends:
  assumes "appends dev_write content" "length memory = PROTOBUF_STREAMING_BUFFER_SIZE"
    and "\<forall>blocks. message = Some blocks \<longrightarrow> (\<forall>b \<in> set blocks. length b \<le> PROTOBUF_STREAMING_BUFFER_SIZE)"
  shows "content (snd (writeMessageToDevice dev_write memory ioDevice header message)) =
           content ioDevice @ writeHeader header @ (case message of None \<Rightarrow> [] | Some blocks \<Rightarrow> concat blocks)"
proof -
  have w: "content (snd (dev_write b d)) = content d @ b" for b d using assms(1) by (simp add: appends_def)
  show ?thesis
  proof (cases message)
    case (Some blocks)
    obtain r s where rs: "zo_put dev_write blocks (zo_open memory (snd (dev_write (writeHeader header) ioDevice))) = (r, s)"
      by fastforce
    show ?thesis
      using zero_copy_output [OF assms(1) _ assms(2) rs] assms(3) Some rs w by (simp add: writeMessageToDevice_def Let_def)
  qed (simp add: writeMessageToDevice_def w Let_def)
qed

text \<open>\<open>readMessageBodyFromDevice\<close>: protobuf takes the \<open>getSize()\<close> bytes of the body through the zero
  copy stream; \<open>zero_copy_takes\<close> shows that this leaves the other bytes on the device.\<close>

definition readMessageBodyFromDevice ::
  "(proto_class \<Rightarrow> byte list \<Rightarrow> 'm option) \<Rightarrow> msg_header \<Rightarrow> byte list \<Rightarrow> (buffer_error + msg_header \<times> 'm) \<times> byte list" where
  "readMessageBodyFromDevice parse header device =
     (if length device < unat (h_size header) then (Inl ReadErrorException, [])
      else (case parse (body_class_of_code (h_type header)) (take (unat (h_size header)) device) of
              None \<Rightarrow> Inl ReadErrorException
            | Some m \<Rightarrow> Inr (header, m), drop (unat (h_size header)) device))"

text \<open>The two messages of the exchange of peers are not in the switch, so that their bodies are
  read as the class \<open>Null\<close>.\<close>

lemma peer_list_read_as_null:
  "body_class_of_code (type_code CORE_GET_PEER_LIST) = P_Null \<and>
   body_class_of_code (type_code CORE_GET_PEER_LIST_RESULT) = P_Null \<and>
   messToStr (type_code CORE_GET_PEER_LIST) = ''<UNKNOWN_MESSAGE_TYPE>''"
  by (simp add: body_class_of_code_def messToStr_def del: type_code.simps)

end
