(* ===== verification/Message_Socket.thy ===== *)
theory Message_Socket
  imports Messages
begin

text \<open>
  \<open>Common/Network/MessageSocket.cpp\<close>: the exchange of messages over a TCP connection.  The
  socket is its received bytes not read yet and the bytes written to it; a subclass takes part by
  \<open>on_msg\<close>, an argument: what it does when it is given a message (\<open>onNewMessage\<close> and the slots
  of \<open>newMessage\<close>), as the operations of the socket it calls, which are to send, to stop to
  listen and to close.  The hook \<open>onNewDataReceived\<close> and the log are left out.
\<close>

subsection \<open>State and operations\<close>

record 'm msg_socket =
  ms_open :: bool
  ms_in :: "byte list"
  ms_out :: "byte list"
  ms_localID :: hash
  ms_remoteID :: hash
  ms_localIDDefined :: bool
  ms_remoteIDDefined :: bool
  ms_listening :: bool
  ms_header :: msg_header
  ms_delivered :: "(msg_header \<times> 'm) list"

definition new_socket :: "hash \<Rightarrow> hash \<Rightarrow> 'm msg_socket" where
  "new_socket localID remoteID =
     \<lparr>ms_open = True, ms_in = [], ms_out = [], ms_localID = localID, ms_remoteID = remoteID,
      ms_localIDDefined = (\<not> hash_isNull localID), ms_remoteIDDefined = (\<not> hash_isNull remoteID),
      ms_listening = False, ms_header = null_header, ms_delivered = []\<rparr>"

text \<open>Writing to a closed socket fails; an open one takes all the bytes in its buffer.\<close>

definition sock_write :: "bool \<Rightarrow> byte list \<Rightarrow> byte list \<Rightarrow> int \<times> byte list" where
  "sock_write is_open b d = (if is_open then (int (length b), d @ b) else (-1, d))"

definition send :: "32 word \<Rightarrow> byte list list option \<Rightarrow> 'm msg_socket \<Rightarrow> 'm msg_socket" where
  "send type message s =
     (if \<not> ms_listening s then s
      else (let header = \<lparr>h_type = type,
                          h_size = (case message of None \<Rightarrow> 0 | Some m \<Rightarrow> word_of_nat (length (concat m))),
                          h_senderID = ms_localID s\<rparr>
            in s\<lparr>ms_out := snd (writeMessageToDevice (sock_write (ms_open s))
                                 (replicate PROTOBUF_STREAMING_BUFFER_SIZE 0) (ms_out s) header message)\<rparr>))"

definition stopListening :: "'m msg_socket \<Rightarrow> 'm msg_socket" where
  "stopListening s = s\<lparr>ms_listening := False\<rparr>"

definition sock_close :: "'m msg_socket \<Rightarrow> 'm msg_socket" where
  "sock_close s = s\<lparr>ms_open := False, ms_in := []\<rparr>"

datatype reply = Reply "32 word" "byte list list option" | Stop_listening | Close_socket

definition do_reply :: "reply \<Rightarrow> 'm msg_socket \<Rightarrow> 'm msg_socket" where
  "do_reply r s = (case r of Reply t m \<Rightarrow> send t m s | Stop_listening \<Rightarrow> stopListening s | Close_socket \<Rightarrow> sock_close s)"

type_synonym 'm handler = "'m msg_socket \<Rightarrow> msg_header \<times> 'm \<Rightarrow> reply list"

definition readMessage_socket ::
  "(proto_class \<Rightarrow> byte list \<Rightarrow> 'm option) \<Rightarrow> 'm handler \<Rightarrow> 'm msg_socket \<Rightarrow> bool \<times> 'm msg_socket" where
  "readMessage_socket parse on_msg s =
     (case readMessageBodyFromDevice parse (ms_header s) (ms_in s) of
        (Inl e, d) \<Rightarrow> (False, s\<lparr>ms_in := d\<rparr>)
      | (Inr m, d) \<Rightarrow>
          (let s = s\<lparr>ms_in := d, ms_delivered := ms_delivered s @ [m]\<rparr> in (True, fold do_reply (on_msg s m) s)))"

text \<open>The first test of the loop of \<open>dataReceivedSlot\<close>; \<open>Inl\<close> is its return.\<close>

definition known_ids :: "hash \<Rightarrow> 'm msg_socket \<Rightarrow> 'm msg_socket" where
  "known_ids sender s =
     (let s = (if hash_isNull (ms_remoteID s) then s\<lparr>ms_remoteID := sender\<rparr> else s)
      in if hash_isNull (ms_localID s) then s\<lparr>ms_localID := ms_remoteID s\<rparr> else s)"

definition take_header :: "'m msg_socket \<Rightarrow> 'm msg_socket + 'm msg_socket" where
  "take_header s =
     (if header_isNull (ms_header s) then
        (case readHeader_device (ms_in s) True of
           Inl NotEnoughData \<Rightarrow> Inr s
         | Inr (h, d) \<Rightarrow>
             (let s = known_ids (h_senderID h) (s\<lparr>ms_header := h, ms_in := d\<rparr>)
              in if h_senderID h \<noteq> ms_remoteID s
                 then Inl (sock_close (s\<lparr>ms_header := header_setNull (ms_header s)\<rparr>))
                 else Inr s))
      else Inr s)"

lemma send_fields [simp]:
  "ms_open (send t m s) = ms_open s" "ms_in (send t m s) = ms_in s" "ms_localID (send t m s) = ms_localID s"
  "ms_remoteID (send t m s) = ms_remoteID s" "ms_listening (send t m s) = ms_listening s"
  "ms_header (send t m s) = ms_header s" "ms_delivered (send t m s) = ms_delivered s"
  "ms_remoteIDDefined (send t m s) = ms_remoteIDDefined s" "ms_localIDDefined (send t m s) = ms_localIDDefined s"
  by (simp_all add: send_def Let_def)

lemma do_reply_fields [simp]:
  "ms_header (do_reply r s) = ms_header s" "ms_delivered (do_reply r s) = ms_delivered s"
  "ms_remoteID (do_reply r s) = ms_remoteID s" "ms_localID (do_reply r s) = ms_localID s"
  by (simp_all add: do_reply_def stopListening_def sock_close_def split: reply.split)

lemma fold_do_reply_fields [simp]:
  "ms_header (fold do_reply rs s) = ms_header s" "ms_delivered (fold do_reply rs s) = ms_delivered s"
  "ms_remoteID (fold do_reply rs s) = ms_remoteID s" "ms_localID (fold do_reply rs s) = ms_localID s"
  by (induction rs arbitrary: s) simp_all

lemma do_reply_in: "length (ms_in (do_reply r s)) \<le> length (ms_in s)"
  by (simp add: do_reply_def stopListening_def sock_close_def split: reply.split)

lemma fold_do_reply_in: "length (ms_in (fold do_reply rs s)) \<le> length (ms_in s)"
  by (induction rs arbitrary: s) (auto intro: order_trans [OF _ do_reply_in])

lemma readMessage_socket_in:
  "readMessage_socket parse on_msg s = (b, s') \<Longrightarrow> length (ms_in s') \<le> length (ms_in s)"
  using fold_do_reply_in
  by (fastforce simp: readMessage_socket_def readMessageBodyFromDevice_def Let_def
      split: prod.splits sum.splits if_splits option.splits intro: order_trans)

lemma known_ids_fields [simp]:
  "ms_in (known_ids i s) = ms_in s" "ms_header (known_ids i s) = ms_header s" "ms_open (known_ids i s) = ms_open s"
  "ms_listening (known_ids i s) = ms_listening s" "ms_delivered (known_ids i s) = ms_delivered s"
  "ms_remoteID (known_ids i s) = (if hash_isNull (ms_remoteID s) then i else ms_remoteID s)"
  by (simp_all add: known_ids_def Let_def)

lemma take_header_cases:
  assumes "take_header s = Inr s'"
  obtains (same) "s' = s" "\<not> header_isNull (ms_header s) \<or> length (ms_in s) < HEADER_SIZE"
  | (header) "header_isNull (ms_header s)" "HEADER_SIZE \<le> length (ms_in s)"
    "ms_header s' = readHeader (take HEADER_SIZE (ms_in s))" "ms_in s' = drop HEADER_SIZE (ms_in s)"
    "h_senderID (ms_header s') = ms_remoteID s'"
    "ms_remoteID s' = (if hash_isNull (ms_remoteID s) then h_senderID (ms_header s') else ms_remoteID s)"
    "ms_open s' = ms_open s" "ms_listening s' = ms_listening s" "ms_delivered s' = ms_delivered s"
proof -
  let ?h = "readHeader (take HEADER_SIZE (ms_in s))"
  let ?t = "known_ids (h_senderID ?h) (s\<lparr>ms_header := ?h, ms_in := drop HEADER_SIZE (ms_in s)\<rparr>)"
  show thesis
  proof (cases "header_isNull (ms_header s) \<and> HEADER_SIZE \<le> length (ms_in s)")
    case True
    then have t: "s' = ?t" "h_senderID ?h = ms_remoteID ?t"
      using assms by (auto simp: take_header_def readHeader_device_def Let_def split: if_splits)
    then show thesis 
      by (intro header) (use True in \<open>auto simp: t(1) split: if_splits\<close>)
  next
    case False
    then show thesis using assms same
      by (auto simp: take_header_def readHeader_device_def Let_def split: if_splits header_error.splits)
  qed
qed

text \<open>\<open>dataReceivedSlot\<close>.  Each turn that goes on reads at least a header or ends a pending message.\<close>

function dataReceivedSlot ::
  "(proto_class \<Rightarrow> byte list \<Rightarrow> 'm option) \<Rightarrow> 'm handler \<Rightarrow> 'm msg_socket \<Rightarrow> 'm msg_socket" where
  "dataReceivedSlot parse on_msg s =
     (if ms_in s = [] \<or> \<not> ms_listening s then s
      else (case take_header s of
              Inl s \<Rightarrow> s
            | Inr s \<Rightarrow>
                if \<not> header_isNull (ms_header s) \<and> length (ms_in s) \<ge> unat (h_size (ms_header s))
                then (case readMessage_socket parse on_msg s of
                        (False, s) \<Rightarrow> sock_close s
                      | (True, s) \<Rightarrow> dataReceivedSlot parse on_msg (s\<lparr>ms_header := header_setNull (ms_header s)\<rparr>))
                else s))"
  by pat_completeness auto
termination
proof (relation "measure (\<lambda>(parse, on_msg, s). 2 * length (ms_in s) + (if header_isNull (ms_header s) then 0 else 1))")
  fix parse :: "proto_class \<Rightarrow> byte list \<Rightarrow> 'm option" and on_msg :: "'m handler" and s s1 b s2
  assume h: "take_header s = Inr s1"
    and n: "\<not> header_isNull (ms_header s1) \<and> unat (h_size (ms_header s1)) \<le> length (ms_in s1)"
    and r: "(b, s2) = readMessage_socket parse on_msg s1"
  have le: "length (ms_in s2) \<le> length (ms_in s1)" using readMessage_socket_in r by metis
  have null: "header_isNull (header_setNull (ms_header s2))" by (simp add: header_isNull_def header_setNull_def)
  show "((parse, on_msg, s2\<lparr>ms_header := header_setNull (ms_header s2)\<rparr>), (parse, on_msg, s)) \<in>
      measure (\<lambda>(parse, on_msg, s). 2 * length (ms_in s) + (if header_isNull (ms_header s) then 0 else 1))"
    using h
  proof (cases rule: take_header_cases)
    case same
    then show ?thesis using le null n by auto
  next
    case header
    then show ?thesis using le null by (auto simp: HEADER_SIZE_36)
  qed
qed simp

declare dataReceivedSlot.simps [simp del]

definition startListening ::
  "(proto_class \<Rightarrow> byte list \<Rightarrow> 'm option) \<Rightarrow> 'm handler \<Rightarrow> 'm msg_socket \<Rightarrow> 'm msg_socket" where
  "startListening parse on_msg s =
     (if ms_listening s then s else dataReceivedSlot parse on_msg (s\<lparr>ms_listening := True\<rparr>))"

definition disconnectedSlot :: "'m msg_socket \<Rightarrow> 'm msg_socket" where
  "disconnectedSlot s =
     (let s = (if \<not> ms_localIDDefined s then s\<lparr>ms_localID := NULL_HASH\<rparr> else s);
          s = (if \<not> ms_remoteIDDefined s then s\<lparr>ms_remoteID := NULL_HASH\<rparr> else s)
      in s\<lparr>ms_header := header_setNull (ms_header s)\<rparr>)"

text \<open>New bytes come to an open socket; \<open>readyRead\<close> is connected to the slot while listening.\<close>

definition receive ::
  "(proto_class \<Rightarrow> byte list \<Rightarrow> 'm option) \<Rightarrow> 'm handler \<Rightarrow> byte list \<Rightarrow> 'm msg_socket \<Rightarrow> 'm msg_socket" where
  "receive parse on_msg bytes s =
     (if ms_open s
      then (let s = s\<lparr>ms_in := ms_in s @ bytes\<rparr> in if ms_listening s then dataReceivedSlot parse on_msg s else s)
      else s)"

subsection \<open>Sending\<close>

text \<open>What is sent: a type and the blocks of the body.  A frame is a type and the whole body.\<close>

definition frame_header :: "hash \<Rightarrow> 32 word \<times> byte list \<Rightarrow> msg_header" where
  "frame_header i f = \<lparr>h_type = fst f, h_size = word_of_nat (length (snd f)), h_senderID = i\<rparr>"

definition frame_bytes :: "hash \<Rightarrow> 32 word \<times> byte list \<Rightarrow> byte list" where
  "frame_bytes i f = writeHeader (frame_header i f) @ snd f"

definition frame_of :: "32 word \<times> byte list list option \<Rightarrow> 32 word \<times> byte list" where
  "frame_of tm = (fst tm, case snd tm of None \<Rightarrow> [] | Some bs \<Rightarrow> concat bs)"

definition blocks_fit :: "byte list list option \<Rightarrow> bool" where
  "blocks_fit m \<longleftrightarrow> (case m of None \<Rightarrow> True | Some bs \<Rightarrow> \<forall>b \<in> set bs. length b \<le> PROTOBUF_STREAMING_BUFFER_SIZE)"

lemma send_out:
  assumes "ms_open s" "ms_listening s" "blocks_fit m"
  shows "ms_out (send t m s) = ms_out s @ frame_bytes (ms_localID s) (frame_of (t, m))"
proof -
  have a: "appends (sock_write True) (\<lambda>d. d)" by (simp add: appends_def sock_write_def)
  have w: "snd (writeMessageToDevice (sock_write True) (replicate PROTOBUF_STREAMING_BUFFER_SIZE 0) d h m) =
           d @ writeHeader h @ (case m of None \<Rightarrow> [] | Some blocks \<Rightarrow> concat blocks)" for d h
    by (rule writeMessageToDevice_appends [OF a]) (use assms(3) in \<open>auto simp: blocks_fit_def\<close>)
  define h where "h = \<lparr>h_type = t, h_size = (case m of None \<Rightarrow> 0 | Some b \<Rightarrow> word_of_nat (length (concat b))),
    h_senderID = ms_localID s\<rparr>"
  have "ms_out (send t m s) = ms_out s @ writeHeader h @ (case m of None \<Rightarrow> [] | Some blocks \<Rightarrow> concat blocks)"
    using assms(1,2) by (simp add: send_def Let_def w h_def)
  then show ?thesis by (cases m) (simp_all add: h_def frame_bytes_def frame_header_def frame_of_def)
qed

lemma sends_out:
  assumes "\<forall>tm \<in> set tms. blocks_fit (snd tm)" "ms_open s" "ms_listening s"
  shows "ms_out (fold (\<lambda>(t, m). send t m) tms s) =
           ms_out s @ concat (map (frame_bytes (ms_localID s) \<circ> frame_of) tms)"
  using assms
proof (induction tms arbitrary: s)
  case (Cons tm tms)
  then show ?case using send_out [of s "snd tm" "fst tm"] by (simp add: case_prod_beta)
qed simp

subsection \<open>Receiving\<close>

definition frame_ok :: "(proto_class \<Rightarrow> byte list \<Rightarrow> 'm option) \<Rightarrow> 32 word \<times> byte list \<Rightarrow> bool" where
  "frame_ok parse f \<longleftrightarrow> fst f \<noteq> type_code NULL_MESS \<and> length (snd f) < 2 ^ 32 \<and>
     parse (body_class_of_code (fst f)) (snd f) \<noteq> None"

definition frame_msg :: "(proto_class \<Rightarrow> byte list \<Rightarrow> 'm option) \<Rightarrow> hash \<Rightarrow> 32 word \<times> byte list \<Rightarrow> msg_header \<times> 'm" where
  "frame_msg parse i f = (frame_header i f, the (parse (body_class_of_code (fst f)) (snd f)))"

text \<open>A handler that only sends leaves the connection as it is.\<close>

definition only_sends :: "'m handler \<Rightarrow> bool" where
  "only_sends on_msg \<longleftrightarrow> (\<forall>s m. \<forall>r \<in> set (on_msg s m). \<exists>t b. r = Reply t b)"

lemma fold_sends_fields:
  "\<forall>r \<in> set rs. \<exists>t b. r = Reply t b \<Longrightarrow>
     ms_in (fold do_reply rs s) = ms_in s \<and> ms_open (fold do_reply rs s) = ms_open s \<and>
     ms_listening (fold do_reply rs s) = ms_listening s"
  by (induction rs arbitrary: s) (auto simp: do_reply_def)

lemma readMessage_socket_ok:
  assumes "only_sends on_msg" "length (snd f) < 2 ^ 32" "parse (body_class_of_code (fst f)) (snd f) \<noteq> None"
    and "ms_header s = frame_header i f" "ms_in s = snd f @ rest"
  shows "\<exists>s'. readMessage_socket parse on_msg s = (True, s') \<and> ms_in s' = rest \<and> ms_open s' = ms_open s \<and>
     ms_listening s' = ms_listening s \<and> ms_header s' = ms_header s \<and> ms_remoteID s' = ms_remoteID s \<and>
     ms_delivered s' = ms_delivered s @ [frame_msg parse i f]"
proof -
  obtain m where m: "parse (body_class_of_code (fst f)) (snd f) = Some m" using assms(3) by blast
  have n: "unat (word_of_nat (length (snd f)) :: 32 word) = length (snd f)"
    using assms(2) by (simp add: unsigned_of_nat take_bit_nat_eq_self)
  have b: "readMessageBodyFromDevice parse (ms_header s) (ms_in s) = (Inr (frame_msg parse i f), rest)"
    unfolding assms(4,5) using m n by (simp add: readMessageBodyFromDevice_def frame_header_def frame_msg_def)
  let ?s = "s\<lparr>ms_in := rest, ms_delivered := ms_delivered s @ [frame_msg parse i f]\<rparr>"
  have "\<forall>r \<in> set (on_msg ?s (frame_msg parse i f)). \<exists>t b. r = Reply t b" using assms(1) unfolding only_sends_def by blast
  from fold_sends_fields [OF this, of ?s] show ?thesis
    using b by (simp add: readMessage_socket_def Let_def)
qed

text \<open>
  Between two slots: the messages of \<open>finished\<close> are delivered, and what is received and not read, with
  the bytes \<open>fut\<close> to come, is what is left of the frames \<open>todo\<close>.
\<close>

definition rx_inv ::
  "(proto_class \<Rightarrow> byte list \<Rightarrow> 'm option) \<Rightarrow> hash \<Rightarrow> (32 word \<times> byte list) list \<Rightarrow> (32 word \<times> byte list) list \<Rightarrow>
   byte list \<Rightarrow> 'm msg_socket \<Rightarrow> bool" where
  "rx_inv parse i finished todo fut s \<longleftrightarrow>
     ms_open s \<and> ms_listening s \<and> ms_delivered s = map (frame_msg parse i) finished \<and>
     (if header_isNull (ms_header s)
      then (hash_isNull (ms_remoteID s) \<or> ms_remoteID s = i) \<and> ms_in s @ fut = concat (map (frame_bytes i) todo)
      else ms_remoteID s = i \<and> (\<exists>f fs. todo = f # fs \<and> ms_header s = frame_header i f \<and> snd f \<noteq> [] \<and>
             ms_in s @ fut = snd f @ concat (map (frame_bytes i) fs)))"

definition rx_stuck :: "'m msg_socket \<Rightarrow> bool" where
  "rx_stuck s \<longleftrightarrow> (if header_isNull (ms_header s) then length (ms_in s) < HEADER_SIZE
     else length (ms_in s) < unat (h_size (ms_header s)))"

lemma frame_header_wf [simp]: "hash_wf i \<Longrightarrow> header_wf (frame_header i f)"
  by (simp add: header_wf_def frame_header_def)

lemma frame_header_isNull: "header_isNull (frame_header i f) \<longleftrightarrow> fst f = type_code NULL_MESS"
  by (simp add: header_isNull_def frame_header_def)

lemma length_frame_bytes: "hash_wf i \<Longrightarrow> length (frame_bytes i f) = HEADER_SIZE + length (snd f)"
  by (simp add: frame_bytes_def)

lemma first_header:
  assumes "hash_wf i" "xs @ fut = concat (map (frame_bytes i) todo)" "HEADER_SIZE \<le> length xs"
  shows "\<exists>f fs. todo = f # fs \<and> readHeader (take HEADER_SIZE xs) = frame_header i f \<and>
           drop HEADER_SIZE xs @ fut = snd f @ concat (map (frame_bytes i) fs)"
proof -
  obtain f fs where t: "todo = f # fs" using assms(2,3) by (cases todo) (auto simp: HEADER_SIZE_36)
  have e: "xs @ fut = writeHeader (frame_header i f) @ snd f @ concat (map (frame_bytes i) fs)"
    using assms(2) by (simp add: t frame_bytes_def)
  have "take HEADER_SIZE (xs @ fut) = writeHeader (frame_header i f)" unfolding e using assms(1) by simp
  then have "take HEADER_SIZE xs = writeHeader (frame_header i f)" using assms(3) by simp
  moreover have "drop HEADER_SIZE (xs @ fut) = snd f @ concat (map (frame_bytes i) fs)" unfolding e using assms(1) by simp
  then have "drop HEADER_SIZE xs @ fut = snd f @ concat (map (frame_bytes i) fs)" using assms(3) by simp
  ultimately show ?thesis using t assms(1) by (simp add: readHeader_writeHeader)
qed

lemma take_header_inv:
  assumes wf: "hash_wf i" and inv: "rx_inv parse i finished todo fut s"
    and more: "\<not> (header_isNull (ms_header s) \<and> length (ms_in s) < HEADER_SIZE)"
  shows "\<exists>s1 f fs. take_header s = Inr s1 \<and> ms_open s1 \<and> ms_listening s1 \<and> ms_delivered s1 = ms_delivered s \<and>
           ms_remoteID s1 = i \<and> todo = f # fs \<and> ms_header s1 = frame_header i f \<and>
           ms_in s1 @ fut = snd f @ concat (map (frame_bytes i) fs)"
proof (cases "header_isNull (ms_header s)")
  case True
  then have len: "HEADER_SIZE \<le> length (ms_in s)" using more by simp
  have "ms_in s @ fut = concat (map (frame_bytes i) todo)" using inv True by (simp add: rx_inv_def)
  from first_header [OF wf this len] obtain f fs where
    f: "todo = f # fs" "readHeader (take HEADER_SIZE (ms_in s)) = frame_header i f"
       "drop HEADER_SIZE (ms_in s) @ fut = snd f @ concat (map (frame_bytes i) fs)" by blast
  let ?t = "known_ids i (s\<lparr>ms_header := frame_header i f, ms_in := drop HEADER_SIZE (ms_in s)\<rparr>)"
  have i: "h_senderID (frame_header i f) = i" by (simp add: frame_header_def)
  have r: "ms_remoteID ?t = i" using inv True by (auto simp: rx_inv_def)
  have "take_header s = Inr ?t" using True len f(2) i r
    by (auto simp: take_header_def readHeader_device_def Let_def split: if_splits)
  then show ?thesis using f inv r by (intro exI [of _ ?t] exI [of _ f] exI [of _ fs]) (simp add: rx_inv_def)
next
  case False
  then have "take_header s = Inr s" by (simp add: take_header_def)
  then show ?thesis using inv False by (auto simp: rx_inv_def)
qed

lemma dataReceivedSlot_inv:
  assumes "hash_wf i" "\<forall>f \<in> set todo. frame_ok parse f" "only_sends on_msg" "rx_inv parse i finished todo fut s"
  shows "\<exists>fs todo'. todo = fs @ todo' \<and> rx_inv parse i (finished @ fs) todo' fut (dataReceivedSlot parse on_msg s) \<and>
           rx_stuck (dataReceivedSlot parse on_msg s)"
  using assms(2-)
proof (induction parse on_msg s arbitrary: finished todo rule: dataReceivedSlot.induct)
  case (1 parse on_msg s)
  have listen: "ms_listening s" using 1(4) by (simp add: rx_inv_def)
  show ?case
  proof (cases "ms_in s = []")
    case True
    then have "dataReceivedSlot parse on_msg s = s" by (subst dataReceivedSlot.simps) simp
    moreover have "rx_stuck s" using 1(2,4) True
      by (auto simp: rx_stuck_def rx_inv_def HEADER_SIZE_36 frame_header_def frame_ok_def unsigned_of_nat take_bit_nat_eq_self
          split: if_splits)
    ultimately show ?thesis using 1(4) by (intro exI [of _ "[]"] exI [of _ todo]) simp
  next
    case False
    show ?thesis
    proof (cases "header_isNull (ms_header s) \<and> length (ms_in s) < HEADER_SIZE")
      case True
      then have "take_header s = Inr s" by (simp add: take_header_def readHeader_device_def)
      then have "dataReceivedSlot parse on_msg s = s" using True by (subst dataReceivedSlot.simps) simp
      then show ?thesis using 1(4) True by (intro exI [of _ "[]"] exI [of _ todo]) (simp add: rx_stuck_def)
    next
      case more: False
      from take_header_inv [OF assms(1) 1(4) more] obtain s1 f fs where
        s1: "take_header s = Inr s1" "ms_open s1" "ms_listening s1" "ms_delivered s1 = ms_delivered s"
          "ms_remoteID s1 = i" "todo = f # fs" "ms_header s1 = frame_header i f"
          "ms_in s1 @ fut = snd f @ concat (map (frame_bytes i) fs)" by blast
      have ok: "frame_ok parse f" "\<forall>f \<in> set fs. frame_ok parse f" using 1(2) s1(6) by auto
      have nn: "\<not> header_isNull (ms_header s1)" using ok(1) by (simp add: s1(7) frame_header_isNull frame_ok_def)
      have n: "unat (h_size (ms_header s1)) = length (snd f)"
        using ok(1) by (simp add: s1(7) frame_header_def frame_ok_def unsigned_of_nat take_bit_nat_eq_self)
      show ?thesis
      proof (cases "length (snd f) \<le> length (ms_in s1)")
        case short: False
        then have "dataReceivedSlot parse on_msg s = s1"
          using False listen s1(1) n by (subst dataReceivedSlot.simps) simp
        moreover have "snd f \<noteq> []" using short by auto
        then have "rx_inv parse i finished todo fut s1"
          using 1(4) s1 nn by (auto simp: rx_inv_def)
        ultimately show ?thesis using short nn n
          by (intro exI [of _ "[]"] exI [of _ todo]) (simp add: rx_stuck_def)
      next
        case enough: True
        define rest where "rest = drop (length (snd f)) (ms_in s1)"
        have rest: "ms_in s1 = snd f @ rest" "rest @ fut = concat (map (frame_bytes i) fs)"
        proof -
          have "take (length (snd f)) (ms_in s1 @ fut) = snd f" unfolding s1(8) by simp
          then have "take (length (snd f)) (ms_in s1) = snd f" using enough by simp
          then show "ms_in s1 = snd f @ rest" unfolding rest_def by (metis append_take_drop_id)
          then show "rest @ fut = concat (map (frame_bytes i) fs)" using s1(8) by simp
        qed
        have p: "length (snd f) < 2 ^ 32" "parse (body_class_of_code (fst f)) (snd f) \<noteq> None"
          using ok(1) by (simp_all add: frame_ok_def)
        from readMessage_socket_ok [where parse = parse, OF 1(3) p s1(7) rest(1)] obtain s2 where
          s2: "readMessage_socket parse on_msg s1 = (True, s2)" "ms_in s2 = rest" "ms_open s2 = ms_open s1"
            "ms_listening s2 = ms_listening s1" "ms_remoteID s2 = ms_remoteID s1"
            "ms_delivered s2 = ms_delivered s1 @ [frame_msg parse i f]" by blast
        let ?s3 = "s2\<lparr>ms_header := header_setNull (ms_header s2)\<rparr>"
        have step: "dataReceivedSlot parse on_msg s = dataReceivedSlot parse on_msg ?s3"
          using False listen s1(1) nn n enough s2(1) by (subst dataReceivedSlot.simps) simp
        have null: "header_isNull (header_setNull (ms_header s2))" by (simp add: header_isNull_def header_setNull_def)
        have inv3: "rx_inv parse i (finished @ [f]) fs fut ?s3"
          using 1(4) s1 s2 rest null by (simp add: rx_inv_def)
        have "\<exists>gs todo'. fs = gs @ todo' \<and> rx_inv parse i ((finished @ [f]) @ gs) todo' fut (dataReceivedSlot parse on_msg ?s3) \<and>
                rx_stuck (dataReceivedSlot parse on_msg ?s3)"
          by (rule 1(1) [OF _ s1(1) _ s2(1) [symmetric] refl ok(2) 1(3) inv3]) (use False listen nn n enough in auto)
        then obtain gs todo' where gs: "fs = gs @ todo'"
            "rx_inv parse i ((finished @ [f]) @ gs) todo' fut (dataReceivedSlot parse on_msg ?s3)"
            "rx_stuck (dataReceivedSlot parse on_msg ?s3)" by blast
        show ?thesis unfolding step using gs s1(6) by (intro exI [of _ "f # gs"] exI [of _ todo']) simp
      qed
    qed
  qed
qed

lemma receive_inv:
  assumes "hash_wf i" "\<forall>f \<in> set todo. frame_ok parse f" "only_sends on_msg" "rx_inv parse i finished todo (seg @ fut) s"
  shows "\<exists>fs todo'. todo = fs @ todo' \<and> rx_inv parse i (finished @ fs) todo' fut (receive parse on_msg seg s) \<and>
           rx_stuck (receive parse on_msg seg s)"
proof -
  have inv: "rx_inv parse i finished todo fut (s\<lparr>ms_in := ms_in s @ seg\<rparr>)"
    using assms(4) by (auto simp: rx_inv_def)
  moreover have "receive parse on_msg seg s = dataReceivedSlot parse on_msg (s\<lparr>ms_in := ms_in s @ seg\<rparr>)"
    using assms(4) by (simp add: receive_def rx_inv_def Let_def)
  ultimately show ?thesis using dataReceivedSlot_inv [OF assms(1-3)] by simp
qed

lemma receives_inv:
  assumes "hash_wf i" "only_sends on_msg"
  shows "\<forall>f \<in> set todo. frame_ok parse f \<Longrightarrow> rx_inv parse i finished todo (concat segs @ fut) s \<Longrightarrow> rx_stuck s \<Longrightarrow>
    \<exists>fs todo'. todo = fs @ todo' \<and> rx_inv parse i (finished @ fs) todo' fut (fold (receive parse on_msg) segs s) \<and>
      rx_stuck (fold (receive parse on_msg) segs s)"
proof (induction segs arbitrary: s finished todo)
  case Nil
  then show ?case by (intro exI [of _ "[]"] exI [of _ todo]) simp
next
  case (Cons seg segs)
  have "rx_inv parse i finished todo (seg @ (concat segs @ fut)) s" using Cons.prems(2) by simp
  from receive_inv [OF assms(1) Cons.prems(1) assms(2) this] obtain fs todo' where
    r: "todo = fs @ todo'" "rx_inv parse i (finished @ fs) todo' (concat segs @ fut) (receive parse on_msg seg s)"
      "rx_stuck (receive parse on_msg seg s)" by blast
  have "\<forall>f \<in> set todo'. frame_ok parse f" using Cons.prems(1) r(1) by simp
  from Cons.IH [OF this r(2,3)] obtain gs todo'' where
    "todo' = gs @ todo''" "rx_inv parse i ((finished @ fs) @ gs) todo'' fut (fold (receive parse on_msg) segs (receive parse on_msg seg s))"
    "rx_stuck (fold (receive parse on_msg) segs (receive parse on_msg seg s))" by blast
  then show ?case using r(1) by (intro exI [of _ "fs @ gs"] exI [of _ todo'']) simp
qed

text \<open>The specification: the frames that lie entirely within the first \<open>n\<close> bytes.\<close>

fun complete_frames :: "hash \<Rightarrow> nat \<Rightarrow> (32 word \<times> byte list) list \<Rightarrow> (32 word \<times> byte list) list" where
  "complete_frames i n [] = []"
| "complete_frames i n (f # fs) =
     (if length (frame_bytes i f) \<le> n then f # complete_frames i (n - length (frame_bytes i f)) fs else [])"

lemma complete_frames_append:
  assumes "length (concat (map (frame_bytes i) finished)) \<le> n"
    and "todo = [] \<or> n < length (concat (map (frame_bytes i) finished)) + length (frame_bytes i (hd todo))"
  shows "complete_frames i n (finished @ todo) = finished"
  using assms
proof (induction finished arbitrary: n)
  case Nil
  then show ?case by (cases todo) auto
next
  case (Cons f fs)
  have "complete_frames i (n - length (frame_bytes i f)) (fs @ todo) = fs"
    by (rule Cons.IH) (use Cons.prems in auto)
  then show ?case using Cons.prems by simp
qed

lemma rx_stuck_complete:
  assumes "hash_wf i" "\<forall>f \<in> set todo. frame_ok parse f" "rx_inv parse i finished todo fut s" "rx_stuck s"
    and "n + length fut = length (concat (map (frame_bytes i) (finished @ todo)))"
  shows "complete_frames i n (finished @ todo) = finished"
proof (rule complete_frames_append)
  let ?L = "\<lambda>fs. length (concat (map (frame_bytes i) fs))"
  have total: "n + length fut = ?L finished + ?L todo" using assms(5) by simp
  consider (idle) "header_isNull (ms_header s)" "length (ms_in s) + length fut = ?L todo" "length (ms_in s) < HEADER_SIZE"
    | (pending) f fs where "todo = f # fs" "length (ms_in s) + length fut = length (snd f) + ?L fs" "length (ms_in s) < length (snd f)"
  proof (cases "header_isNull (ms_header s)")
    case True
    have "ms_in s @ fut = concat (map (frame_bytes i) todo)" using assms(3) True by (simp add: rx_inv_def)
    then have "length (ms_in s) + length fut = ?L todo" by (metis length_append)
    then show thesis using idle True assms(4) by (simp add: rx_stuck_def)
  next
    case False
    then obtain f fs where f: "todo = f # fs" "ms_header s = frame_header i f"
        "ms_in s @ fut = snd f @ concat (map (frame_bytes i) fs)" using assms(3) by (auto simp: rx_inv_def)
    have "length (ms_in s) + length fut = length (snd f) + ?L fs" using arg_cong [OF f(3), of length] by simp
    moreover have "unat (h_size (ms_header s)) = length (snd f)"
      using assms(2) f(1,2) by (simp add: frame_header_def frame_ok_def unsigned_of_nat take_bit_nat_eq_self)
    then have "length (ms_in s) < length (snd f)" using assms(4) False by (simp add: rx_stuck_def)
    ultimately show thesis using pending f(1) by blast
  qed
  then have "?L finished \<le> n \<and> (todo = [] \<or> n < ?L finished + length (frame_bytes i (hd todo)))"
  proof cases
    case idle
    then show ?thesis using total assms(1) by (cases todo) (auto simp: length_frame_bytes)
  next
    case (pending f fs)
    then show ?thesis using total assms(1) by (simp add: length_frame_bytes)
  qed
  then show "?L finished \<le> n" "todo = [] \<or> n < ?L finished + length (frame_bytes i (hd todo))" by blast+
qed

lemma new_socket_rx:
  assumes "hash_isNull remote \<or> remote = i"
  shows "rx_inv parse i [] ms (concat (map (frame_bytes i) ms)) (startListening parse on_msg (new_socket local remote)) \<and>
         rx_stuck (startListening parse on_msg (new_socket local remote))"
proof -
  have "startListening parse on_msg (new_socket local remote) = new_socket local remote\<lparr>ms_listening := True\<rparr>"
    by (simp add: startListening_def new_socket_def) (subst dataReceivedSlot.simps, simp)
  then show ?thesis using assms
    by (simp add: rx_inv_def rx_stuck_def new_socket_def header_isNull_def null_header_def HEADER_SIZE_36)
qed

lemma framing:
  assumes "hash_wf i" "hash_isNull remote \<or> remote = i" "\<forall>f \<in> set ms. frame_ok parse f" "only_sends on_msg"
    and "concat segs @ fut = concat (map (frame_bytes i) ms)"
    and "s = fold (receive parse on_msg) segs (startListening parse on_msg (new_socket local remote))"
  shows "ms_delivered s = map (frame_msg parse i) (complete_frames i (length (concat segs)) ms) \<and> ms_open s \<and> ms_listening s"
proof -
  note n = new_socket_rx [OF assms(2), of parse ms on_msg local]
  from receives_inv [OF assms(1,4,3), of "[]" segs fut "startListening parse on_msg (new_socket local remote)"]
  obtain fs todo where r: "ms = fs @ todo" "rx_inv parse i fs todo fut s" "rx_stuck s"
    using n unfolding assms(5,6) by auto
  have "length (concat segs) + length fut = length (concat (map (frame_bytes i) (fs @ todo)))"
    using arg_cong [OF assms(5), of length] r(1) by simp
  then have "complete_frames i (length (concat segs)) ms = fs"
    using rx_stuck_complete [OF assms(1) _ r(2,3)] assms(3) r(1) by simp
  then show ?thesis using r(2) by (simp add: rx_inv_def)
qed

text \<open>
  C4: The delivery of messages does not depend on how TCP cuts the stream.  Whatever segments have
  come of a stream of messages of one peer, exactly the messages whose last byte has come are
  delivered, in order, and the connection stays open and listening.
\<close>

theorem stream_framing:
  assumes "hash_wf i" "hash_isNull remote \<or> remote = i" "\<forall>f \<in> set ms. frame_ok parse f" "only_sends on_msg"
    and "concat segs @ fut = concat (map (frame_bytes i) ms)"
    and "s = fold (receive parse on_msg) segs (startListening parse on_msg (new_socket local remote))"
  shows "ms_delivered s = map (frame_msg parse i) (complete_frames i (length (concat segs)) ms) \<and> ms_open s \<and> ms_listening s"
  by (rule framing [OF assms])

text \<open>Two messages of one byte each, cut in the header and before the last byte of the second.\<close>

definition example_id :: hash where
  "example_id = replicate 28 7"

definition example_parse :: "proto_class \<Rightarrow> byte list \<Rightarrow> byte list option" where
  "example_parse c b = (if c = P_Find \<and> length b = 1 then Some b else None)"

definition example_stream :: "byte list" where
  "example_stream = concat (map (frame_bytes example_id) [(0x21, [1]), (0x21, [2])])"

lemma example_frames:
  "hash_wf example_id" "f \<in> {(0x21, [1]), (0x21, [2])} \<Longrightarrow> frame_ok example_parse f" "only_sends (\<lambda>s m. [])"
  "length (frame_bytes example_id (t, [b])) = 37"
  by (auto simp: hash_wf_def example_id_def HASH_SIZE_def frame_ok_def example_parse_def body_class_of_code_def
      type_of_code_def all_types_def only_sends_def length_frame_bytes HEADER_SIZE_36)

theorem stream_framing_witness:
  "map fst (ms_delivered (fold (receive example_parse (\<lambda>s m. []))
      [take 10 example_stream, take 63 (drop 10 example_stream)]
      (startListening example_parse (\<lambda>s m. []) (new_socket NULL_HASH NULL_HASH)))) = [frame_header example_id (0x21, [1])]"
proof -
  have len: "length example_stream = 74"
    by (simp add: example_stream_def example_frames(4))
  have e: "concat [take 10 example_stream, take 63 (drop 10 example_stream)] @ drop 73 example_stream =
      concat (map (frame_bytes example_id) [(0x21, [1]), (0x21, [2])])"
    unfolding example_stream_def [symmetric]
    by (simp add: append_assoc [symmetric] take_add [symmetric] del: append_assoc)
  have w: "hash_wf example_id" "hash_isNull NULL_HASH \<or> NULL_HASH = example_id"
      "\<forall>f \<in> set [(0x21, [1]), (0x21, [2])]. frame_ok example_parse f" "only_sends (\<lambda>(s :: byte list msg_socket) m. [])"
    using example_frames(1-3) by (auto simp: hash_isNull_def)
  have "length (concat [take 10 example_stream, take 63 (drop 10 example_stream)]) = 73" by (simp add: len)
  then show ?thesis
    using stream_framing [OF w e refl, of NULL_HASH] by (simp add: example_frames(4) frame_msg_def)
qed

text \<open>
  C10: From one socket to the other: whatever messages of a class the receiver can parse one end
  sends, in whatever blocks protobuf writes their bodies and in whatever segments they travel, the
  other end delivers all of them, in order, with the type and the identifier of the sender.
\<close>

theorem sent_messages_arrive:
  assumes "hash_wf i" "hash_isNull remote \<or> remote = i"
    and "ms_open a" "ms_listening a" "ms_localID a = i" "ms_out a = []"
    and "\<forall>tm \<in> set tms. blocks_fit (snd tm) \<and> frame_ok parse (frame_of tm)" "only_sends on_msg"
    and "concat segs = ms_out (fold (\<lambda>(t, m). send t m) tms a)"
  shows "ms_delivered (fold (receive parse on_msg) segs (startListening parse on_msg (new_socket local remote))) =
           map (frame_msg parse i \<circ> frame_of) tms"
proof -
  have blocks: "\<forall>tm \<in> set tms. blocks_fit (snd tm)" and ok: "\<forall>f \<in> set (map frame_of tms). frame_ok parse f"
    using assms(7) by auto
  have out: "concat segs = concat (map (frame_bytes i) (map frame_of tms))"
    using assms(9) sends_out [OF blocks assms(3,4)] assms(5,6) by (simp add: comp_def)
  then have "concat segs @ [] = concat (map (frame_bytes i) (map frame_of tms))" by simp
  note d = framing [OF assms(1,2) ok assms(8) this refl, of local]
  have "complete_frames i (length (concat segs)) (map frame_of tms) = map frame_of tms"
    using complete_frames_append [of i "map frame_of tms" "length (concat segs)" "[]"] out by simp
  then show ?thesis using d by simp
qed

theorem sent_messages_arrive_witness:
  "\<exists>segs. map fst (ms_delivered (fold (receive example_parse (\<lambda>s m. [])) segs
      (startListening example_parse (\<lambda>s m. []) (new_socket NULL_HASH NULL_HASH)))) = [frame_header example_id (0x21, [1])]"
proof -
  define a where "a = (new_socket example_id NULL_HASH :: byte list msg_socket)\<lparr>ms_listening := True\<rparr>"
  have a: "ms_open a" "ms_listening a" "ms_localID a = example_id" "ms_out a = []" by (simp_all add: a_def new_socket_def)
  have t: "\<forall>tm \<in> set [(0x21, Some [[1]])]. blocks_fit (snd tm) \<and> frame_ok example_parse (frame_of tm)"
    using example_frames(2) by (simp add: blocks_fit_def frame_of_def PROTOBUF_STREAMING_BUFFER_SIZE_def)
  have c: "concat [ms_out (fold (\<lambda>(t, m). send t m) [(0x21, Some [[1]])] a)] = ms_out (fold (\<lambda>(t, m). send t m) [(0x21, Some [[1]])] a)"
    by simp
  have r: "hash_isNull NULL_HASH \<or> NULL_HASH = example_id" by (simp add: hash_isNull_def)
  have "map fst (ms_delivered (fold (receive example_parse (\<lambda>s m. []))
      [ms_out (fold (\<lambda>(t, m). send t m) [(0x21, Some [[1]])] a)]
      (startListening example_parse (\<lambda>s m. []) (new_socket NULL_HASH NULL_HASH)))) = [frame_header example_id (0x21, [1])]"
    using sent_messages_arrive [OF example_frames(1) r a t example_frames(3) c, of NULL_HASH]
    by (simp add: frame_msg_def frame_of_def)
  then show ?thesis by (rule exI)
qed

subsection \<open>Any sequence of events\<close>

text \<open>The events of a connection, from its opening to \<open>disconnected\<close>.\<close>

datatype conn_event = Received "byte list" | Start_listening | Other reply

definition sock_event :: "(proto_class \<Rightarrow> byte list \<Rightarrow> 'm option) \<Rightarrow> 'm handler \<Rightarrow> conn_event \<Rightarrow> 'm msg_socket \<Rightarrow> 'm msg_socket" where
  "sock_event parse on_msg ev s =
     (case ev of Received b \<Rightarrow> receive parse on_msg b s
      | Start_listening \<Rightarrow> startListening parse on_msg s
      | Other r \<Rightarrow> do_reply r s)"

definition one_peer :: "'m msg_socket \<Rightarrow> bool" where
  "one_peer s \<longleftrightarrow> (\<forall>h m. (h, m) \<in> set (ms_delivered s) \<longrightarrow> hash_isNull (h_senderID h) \<or> h_senderID h = ms_remoteID s) \<and>
     (\<not> header_isNull (ms_header s) \<longrightarrow> h_senderID (ms_header s) = ms_remoteID s)"

lemma one_peer_reply [simp]: "one_peer (do_reply r s) = one_peer s"
  by (simp add: one_peer_def)

lemma one_peer_close [simp]: "one_peer (sock_close s) = one_peer s"
  by (simp add: one_peer_def sock_close_def)

lemma one_peer_setNull:
  "one_peer s \<Longrightarrow> one_peer (s\<lparr>ms_header := header_setNull (ms_header s)\<rparr>)"
  by (simp add: one_peer_def header_isNull_def header_setNull_def)

lemma take_header_one_peer:
  assumes "one_peer s" "take_header s = x"
  shows "case x of Inl t \<Rightarrow> one_peer t \<and> (\<not> hash_isNull (ms_remoteID s) \<longrightarrow> ms_remoteID t = ms_remoteID s)
         | Inr t \<Rightarrow> one_peer t \<and> (\<not> hash_isNull (ms_remoteID s) \<longrightarrow> ms_remoteID t = ms_remoteID s)"
  using assms
  by (auto simp: take_header_def one_peer_def sock_close_def header_isNull_def header_setNull_def Let_def
      split: if_splits sum.splits header_error.splits) metis+

lemma readMessage_one_peer:
  assumes "one_peer s" "\<not> header_isNull (ms_header s)" "readMessage_socket parse on_msg s = (b, t)"
  shows "one_peer t \<and> ms_remoteID t = ms_remoteID s"
proof (cases "readMessageBodyFromDevice parse (ms_header s) (ms_in s)")
  case (Pair r d)
  show ?thesis
  proof (cases r)
    case (Inl e)
    then show ?thesis using assms Pair by (auto simp: readMessage_socket_def one_peer_def) metis
  next
    case (Inr m)
    obtain h b' where m: "m = (h, b')" by (cases m)
    have "h = ms_header s"
      using Pair Inr m by (auto simp: readMessageBodyFromDevice_def split: if_splits option.splits)
    then show ?thesis using assms Pair Inr m by (auto simp: readMessage_socket_def one_peer_def Let_def) metis
  qed
qed

lemma dataReceivedSlot_one_peer:
  "one_peer s \<Longrightarrow> one_peer (dataReceivedSlot parse on_msg s) \<and>
     (\<not> hash_isNull (ms_remoteID s) \<longrightarrow> ms_remoteID (dataReceivedSlot parse on_msg s) = ms_remoteID s)"
proof (induction parse on_msg s rule: dataReceivedSlot.induct)
  case (1 parse on_msg s)
  show ?case
  proof (cases "ms_in s = [] \<or> \<not> ms_listening s")
    case True
    then show ?thesis using 1(2) by (subst (1 2) dataReceivedSlot.simps) simp
  next
    case False
    show ?thesis
    proof (cases "take_header s")
      case (Inl t)
      then show ?thesis using False take_header_one_peer [OF 1(2) Inl] by (subst (1 2) dataReceivedSlot.simps) simp
    next
      case (Inr t)
      note t = take_header_one_peer [OF 1(2) Inr, simplified]
      show ?thesis
      proof (cases "\<not> header_isNull (ms_header t) \<and> unat (h_size (ms_header t)) \<le> length (ms_in t)")
        case False': False
        then show ?thesis using False Inr t by (subst (1 2) dataReceivedSlot.simps) auto
      next
        case read: True
        obtain b u where bu: "readMessage_socket parse on_msg t = (b, u)" by fastforce
        note u = readMessage_one_peer [OF conjunct1 [OF t] conjunct1 [OF read] bu]
        show ?thesis
        proof (cases b)
          case False': False
          then show ?thesis using False Inr read bu t u by (subst (1 2) dataReceivedSlot.simps) (auto simp: sock_close_def one_peer_def)
        next
          case b: True
          have "dataReceivedSlot parse on_msg s = dataReceivedSlot parse on_msg (u\<lparr>ms_header := header_setNull (ms_header u)\<rparr>)"
            using False Inr read bu b by (subst dataReceivedSlot.simps) simp
          moreover have "one_peer (dataReceivedSlot parse on_msg (u\<lparr>ms_header := header_setNull (ms_header u)\<rparr>)) \<and>
              (\<not> hash_isNull (ms_remoteID (u\<lparr>ms_header := header_setNull (ms_header u)\<rparr>)) \<longrightarrow>
                 ms_remoteID (dataReceivedSlot parse on_msg (u\<lparr>ms_header := header_setNull (ms_header u)\<rparr>)) =
                 ms_remoteID (u\<lparr>ms_header := header_setNull (ms_header u)\<rparr>))"
            by (rule 1(1) [OF False Inr read bu [symmetric] _ one_peer_setNull [OF conjunct1 [OF u]]]) (simp add: b)
          ultimately show ?thesis using t u by auto
        qed
      qed
    qed
  qed
qed

lemma sock_event_one_peer:
  assumes "one_peer s"
  shows "one_peer (sock_event parse on_msg ev s) \<and>
     (\<not> hash_isNull (ms_remoteID s) \<longrightarrow> ms_remoteID (sock_event parse on_msg ev s) = ms_remoteID s)"
proof -
  have i: "one_peer (s\<lparr>ms_in := b\<rparr>) = one_peer s" "one_peer (s\<lparr>ms_listening := l\<rparr>) = one_peer s" for b l
    by (simp_all add: one_peer_def)
  show ?thesis
    using assms dataReceivedSlot_one_peer [of "s\<lparr>ms_in := x\<rparr>" parse on_msg for x]
      dataReceivedSlot_one_peer [of "s\<lparr>ms_listening := True\<rparr>" parse on_msg]
    by (cases ev) (auto simp: sock_event_def receive_def startListening_def Let_def i)
qed

lemma sock_events_one_peer:
  "one_peer s \<Longrightarrow> one_peer (fold (sock_event parse on_msg) evs s) \<and>
     (\<not> hash_isNull (ms_remoteID s) \<longrightarrow> ms_remoteID (fold (sock_event parse on_msg) evs s) = ms_remoteID s)"
proof (induction evs arbitrary: s)
  case (Cons ev evs)
  then show ?case using sock_event_one_peer [of s parse on_msg ev] by auto
qed simp

text \<open>
  C36: A connection belongs to one peer.  Whatever bytes come and whatever the socket and its
  handler do between the opening of the connection and its end, an identifier of the remote peer
  that is known is kept, and every delivered message that has an identifier has this one.
\<close>

theorem connection_of_one_peer:
  "(h_senderID \<circ> fst) ` set (ms_delivered (fold (sock_event parse on_msg) evs (new_socket localID remoteID))) \<subseteq>
     {NULL_HASH, ms_remoteID (fold (sock_event parse on_msg) evs (new_socket localID remoteID))} \<and>
   (hash_isNull remoteID \<or> ms_remoteID (fold (sock_event parse on_msg) evs (new_socket localID remoteID)) = remoteID)"
proof -
  define s0 :: "'a msg_socket" where "s0 = new_socket localID remoteID"
  have "one_peer s0" and r: "ms_remoteID s0 = remoteID"
    by (simp_all add: s0_def one_peer_def new_socket_def header_isNull_def null_header_def)
  from sock_events_one_peer [OF this(1), of parse on_msg evs] show ?thesis
    unfolding s0_def [symmetric] by (fastforce simp: one_peer_def r hash_isNull_def)
qed

text \<open>A received header of the type \<open>NULL_MESS\<close> ends the slot: what follows it in the buffer waits
  for the next bytes, and its body will be read as a header.\<close>

lemma null_header_stalls:
  assumes "ms_listening s" "header_isNull (ms_header s)" "ms_in s = writeHeader h @ rest" "header_wf h"
    and "h_type h = type_code NULL_MESS" "h_senderID h = ms_remoteID s"
  shows "ms_in (dataReceivedSlot parse on_msg s) = rest \<and> ms_delivered (dataReceivedSlot parse on_msg s) = ms_delivered s"
proof -
  have r: "readHeader_device (ms_in s) True = Inr (h, rest)"
    unfolding assms(3) by (rule readHeader_device_writeHeader [OF assms(4)])
  have "length (ms_in s) \<noteq> 0" using assms(3) length_writeHeader [OF assms(4)] by (simp add: HEADER_SIZE_36)
  then have ne: "ms_in s \<noteq> []" by simp
  show ?thesis
    using assms r ne by (subst (1 2) dataReceivedSlot.simps) (simp add: take_header_def Let_def header_isNull_def)
qed

end
