(* ===== verification/Chat_Messages.thy ===== *)
theory Chat_Messages
  imports Hash_Value
begin

text \<open>
  \<open>Core/ChatSystem/priv/ChatMessage.cpp\<close> and \<open>ChatMessages.cpp\<close>: the messages of a chat room,
  kept from oldest to youngest and at most \<open>maximum\<close> of them
  (\<open>max_number_of_stored_chat_messages\<close>), their merge with the messages of other peers and their
  distribution over datagrams.  The identifier and the time of a new message are arguments, as is
  \<open>bytes\<close>, the size protobuf gives to a list of messages.  Times are milliseconds since the epoch.
\<close>

subsection \<open>Messages\<close>

record chat_message =
  cm_ID :: "64 word"
  cm_message :: qstring
  cm_ownerID :: hash
  cm_peerIDsAnswer :: "hash list"
  cm_time :: int
  cm_ownerNick :: qstring
  cm_room :: qstring

record proto_chat =
  pc_id :: "64 word"
  pc_message :: qstring
  pc_time :: int
  pc_peer_id :: "byte list option"
  pc_peer_nick :: qstring
  pc_chat_room :: qstring
  pc_peer_ids_answer :: "byte list list"

text \<open>From a message of the network: without a time, it has the time of its arrival.\<close>

definition of_proto :: "int \<Rightarrow> proto_chat \<Rightarrow> chat_message" where
  "of_proto now p =
     \<lparr>cm_ID = pc_id p, cm_message = pc_message p,
      cm_ownerID = hash_of_string (case pc_peer_id p of None \<Rightarrow> [] | Some h \<Rightarrow> h),
      cm_peerIDsAnswer = [],
      cm_time = (if pc_time p > 0 then pc_time p else now),
      cm_ownerNick = pc_peer_nick p, cm_room = pc_chat_room p\<rparr>"

definition fillProtoChatMessage :: "chat_message \<Rightarrow> proto_chat" where
  "fillProtoChatMessage m =
     \<lparr>pc_id = cm_ID m, pc_message = cm_message m, pc_time = cm_time m, pc_peer_id = Some (cm_ownerID m),
      pc_peer_nick = cm_ownerNick m, pc_chat_room = cm_room m, pc_peer_ids_answer = cm_peerIDsAnswer m\<rparr>"

lemma of_proto_fill:
  assumes "hash_wf (cm_ownerID m)" "0 < cm_time m"
  shows "of_proto now (fillProtoChatMessage m) = m\<lparr>cm_peerIDsAnswer := []\<rparr>"
  using assms by (simp add: of_proto_def fillProtoChatMessage_def hash_of_string_id)

text \<open>The peers a message answers to do not survive a file or a relay.\<close>

lemma of_proto_loses_answers:
  "cm_peerIDsAnswer (of_proto now (fillProtoChatMessage m)) = []"
  by (simp add: of_proto_def)

subsection \<open>The messages of a room\<close>

record chat_data =
  cd_messages :: "chat_message list"
  cd_messageIDs :: "64 word set"
  cd_changed :: bool

definition no_messages :: chat_data where
  "no_messages = \<lparr>cd_messages = [], cd_messageIDs = {}, cd_changed = False\<rparr>"

fun scan_back :: "chat_message list \<Rightarrow> int \<Rightarrow> nat \<Rightarrow> nat" where
  "scan_back ms t 0 = 0"
| "scan_back ms t (Suc j) = (if cm_time (ms ! j) > t then scan_back ms t j else Suc j)"

text \<open>The loop of \<open>insert\<close>, over the messages from the last one; \<open>j\<close> is kept between its turns.\<close>

fun insert_loop ::
  "nat \<Rightarrow> chat_message list \<Rightarrow> nat \<Rightarrow> chat_data \<Rightarrow> chat_message list \<Rightarrow> chat_message list \<times> chat_data" where
  "insert_loop maximum [] j d inserted = (inserted, d)"
| "insert_loop maximum (m # ms) j d inserted =
     (if cm_ID m \<in> cd_messageIDs d then insert_loop maximum ms j d inserted
      else (let j = scan_back (cd_messages d) (cm_time m) j in
            if length (cd_messages d) \<noteq> maximum \<or> j \<noteq> 0
            then insert_loop maximum ms j
                   (d\<lparr>cd_messageIDs := insert (cm_ID m) (cd_messageIDs d), cd_messages := insert_at j m (cd_messages d)\<rparr>)
                   (m # inserted)
            else insert_loop maximum ms j d inserted))"

definition trim :: "nat \<Rightarrow> chat_data \<Rightarrow> chat_data" where
  "trim maximum d =
     (if length (cd_messages d) > maximum
      then (let n = length (cd_messages d) - maximum in
            d\<lparr>cd_messageIDs := cd_messageIDs d - cm_ID ` set (take n (cd_messages d)),
              cd_messages := drop n (cd_messages d)\<rparr>)
      else d)"

definition insert_messages :: "nat \<Rightarrow> chat_message list \<Rightarrow> chat_data \<Rightarrow> chat_message list \<times> chat_data" where
  "insert_messages maximum messages d =
     (case insert_loop maximum (rev messages) (length (cd_messages d)) d [] of
        (inserted, d) \<Rightarrow>
          (let d = trim maximum d
           in (inserted, if \<not> cd_changed d then d\<lparr>cd_changed := inserted \<noteq> []\<rparr> else d)))"

definition add_message :: "nat \<Rightarrow> chat_message \<Rightarrow> chat_data \<Rightarrow> chat_message \<times> chat_data" where
  "add_message maximum m d = (m, snd (insert_messages maximum [m] d))"

definition add_messages :: "nat \<Rightarrow> int \<Rightarrow> proto_chat list \<Rightarrow> chat_data \<Rightarrow> chat_message list \<times> chat_data" where
  "add_messages maximum now protos d = insert_messages maximum (map (of_proto now) protos) d"

text \<open>\<open>getLastMessageIDs\<close>: a loop from the back with a counter of type \<open>int\<close>.\<close>

definition getLastMessageIDs :: "int \<Rightarrow> chat_data \<Rightarrow> 64 word list" where
  "getLastMessageIDs nMax d = map cm_ID (take (nat nMax) (rev (cd_messages d)))"

text \<open>The loop of \<open>getUnknownMessages\<close>, over the messages from the last one.\<close>

fun unknown_loop :: "chat_message list \<Rightarrow> nat \<Rightarrow> int \<Rightarrow> 64 word set \<Rightarrow> chat_message list \<Rightarrow> chat_message list" where
  "unknown_loop [] k number known res = res"
| "unknown_loop (m # ms) k number known res =
     (if int (Suc k) \<le> number
      then unknown_loop ms (Suc k) number (known - {cm_ID m}) (if cm_ID m \<in> known then res else m # res)
      else res)"

definition getUnknownMessages :: "int \<Rightarrow> 64 word list \<Rightarrow> chat_data \<Rightarrow> chat_message list" where
  "getUnknownMessages number message_ids d = unknown_loop (rev (cd_messages d)) 0 number (set message_ids) []"

text \<open>\<open>fillProtoChatMessages(chatMessages, number)\<close>; a negative number would start beyond the end.\<close>

definition fillProto_last :: "int \<Rightarrow> chat_data \<Rightarrow> proto_chat list" where
  "fillProto_last number d =
     (let i = (if number > int (length (cd_messages d)) then 0 else int (length (cd_messages d)) - number)
      in map fillProtoChatMessage (drop (nat i) (cd_messages d)))"

text \<open>\<open>fillProtoChatMessages\<close> with a limit in bytes (\<open>None\<close> is the largest \<open>int\<close>): what is put
  and what is left.\<close>

fun fillProto_limit ::
  "(proto_chat list \<Rightarrow> int) \<Rightarrow> int option \<Rightarrow> proto_chat list \<Rightarrow> chat_message list \<Rightarrow> proto_chat list \<times> chat_message list" where
  "fillProto_limit bytes limit acc [] = (acc, [])"
| "fillProto_limit bytes limit acc (m # ms) =
     (let acc' = acc @ [fillProtoChatMessage m]
      in if (case limit of None \<Rightarrow> False | Some n \<Rightarrow> bytes acc' > n) then (acc, m # ms)
         else fillProto_limit bytes limit acc' ms)"

subsection \<open>Order, identifiers and number\<close>

definition by_time :: "chat_message list \<Rightarrow> bool" where
  "by_time ms \<longleftrightarrow> sorted (map cm_time ms)"

definition ids_wf :: "chat_data \<Rightarrow> bool" where
  "ids_wf d \<longleftrightarrow> cd_messageIDs d = cm_ID ` set (cd_messages d) \<and> distinct (map cm_ID (cd_messages d))"

definition chat_wf :: "nat \<Rightarrow> chat_data \<Rightarrow> bool" where
  "chat_wf maximum d \<longleftrightarrow> ids_wf d \<and> length (cd_messages d) \<le> maximum"

lemma scan_back_le: "scan_back ms t j \<le> j"
  by (induction j) auto

lemma scan_back_later: "scan_back ms t j \<le> i \<Longrightarrow> i < j \<Longrightarrow> cm_time (ms ! i) > t"
  by (induction j) (auto split: if_splits simp: less_Suc_eq)

lemma scan_back_before: "0 < scan_back ms t j \<Longrightarrow> cm_time (ms ! (scan_back ms t j - 1)) \<le> t"
  by (induction j) (auto split: if_splits)

lemma distinct_insert_at:
  "distinct (map f (insert_at j x xs)) \<longleftrightarrow> f x \<notin> f ` set xs \<and> distinct (map f xs)"
proof -
  have "distinct (map f (take j xs) @ f x # map f (drop j xs)) \<longleftrightarrow>
        f x \<notin> set (map f (take j xs) @ map f (drop j xs)) \<and> distinct (map f (take j xs) @ map f (drop j xs))"
    by auto
  also have "map f (take j xs) @ map f (drop j xs) = map f xs" by (metis append_take_drop_id map_append)
  finally show ?thesis by (simp add: insert_at_def)
qed

lemma insert_loop_ids:
  "ids_wf d \<Longrightarrow> insert_loop maximum ms j d inserted = (res, d') \<Longrightarrow> ids_wf d'"
proof (induction maximum ms j d inserted rule: insert_loop.induct)
  case (2 maximum m ms j d inserted)
  show ?case
  proof (cases "cm_ID m \<in> cd_messageIDs d")
    case True
    then show ?thesis using 2 by simp
  next
    case False
    let ?j = "scan_back (cd_messages d) (cm_time m) j"
    let ?d = "d\<lparr>cd_messageIDs := insert (cm_ID m) (cd_messageIDs d), cd_messages := insert_at ?j m (cd_messages d)\<rparr>"
    have "ids_wf ?d" using 2(4) False by (simp add: ids_wf_def distinct_insert_at)
    then show ?thesis using 2 False by (cases "length (cd_messages d) \<noteq> maximum \<or> ?j \<noteq> 0") (auto simp: Let_def)
  qed
qed simp

lemma ids_wf_changed [simp]: "ids_wf (d\<lparr>cd_changed := c\<rparr>) = ids_wf d"
  by (simp add: ids_wf_def)

lemma trim_wf:
  assumes "ids_wf d"
  shows "chat_wf maximum (trim maximum d)"
proof (cases "length (cd_messages d) > maximum")
  case True
  let ?n = "length (cd_messages d) - maximum" and ?ms = "cd_messages d"
  have "distinct (map cm_ID (take ?n ?ms @ drop ?n ?ms))" using assms by (simp add: ids_wf_def)
  then have "distinct (map cm_ID (take ?n ?ms) @ map cm_ID (drop ?n ?ms))" by (simp only: map_append)
  then have d: "cm_ID ` set (take ?n ?ms) \<inter> cm_ID ` set (drop ?n ?ms) = {}" "distinct (map cm_ID (drop ?n ?ms))"
    by (auto simp del: append_take_drop_id)
  have "cm_ID ` set ?ms = cm_ID ` set (take ?n ?ms) \<union> cm_ID ` set (drop ?n ?ms)"
    by (metis append_take_drop_id image_Un set_append)
  then have "cm_ID ` set ?ms - cm_ID ` set (take ?n ?ms) = cm_ID ` set (drop ?n ?ms)" using d(1) by blast
  then show ?thesis using True assms d(2) by (simp add: trim_def chat_wf_def ids_wf_def Let_def)
next
  case False
  then show ?thesis using assms by (simp add: trim_def chat_wf_def)
qed

text \<open>
  Whatever messages come from the network, in any order and with any identifiers, a room keeps
  at most the configured number of them, no two with the same identifier, and the set of known
  identifiers is the one of the messages it holds.
\<close>

theorem insert_keeps_chat_wf:
  assumes "ids_wf d"
  shows "chat_wf maximum (snd (add_messages maximum now protos d))"
proof -
  obtain ins d' where l: "insert_loop maximum (rev (map (of_proto now) protos)) (length (cd_messages d)) d [] = (ins, d')"
    by fastforce
  have "chat_wf maximum (trim maximum d')" by (rule trim_wf) (rule insert_loop_ids [OF assms l])
  then show ?thesis by (simp add: add_messages_def insert_messages_def l Let_def chat_wf_def)
qed

theorem insert_keeps_chat_wf_witness:
  "chat_wf 2 (snd (add_messages 2 5 [] no_messages))"
  by (rule insert_keeps_chat_wf) (simp add: ids_wf_def no_messages_def)

subsection \<open>The merge keeps the newest messages\<close>

lemma by_time_append:
  "by_time (xs @ ys) \<longleftrightarrow> by_time xs \<and> by_time ys \<and> (\<forall>x \<in> set xs. \<forall>y \<in> set ys. cm_time x \<le> cm_time y)"
  by (auto simp: by_time_def sorted_append)

lemma by_time_Cons: "by_time (x # ys) \<longleftrightarrow> (\<forall>y \<in> set ys. cm_time x \<le> cm_time y) \<and> by_time ys"
  by (auto simp: by_time_def)

text \<open>The place that \<open>scan_back\<close> finds is the right one when all that follows \<open>j\<close> is not older.\<close>

lemma scan_back_place:
  assumes "by_time ms" "j \<le> length ms" "\<forall>m \<in> set (drop j ms). t \<le> cm_time m"
  shows "(\<forall>m \<in> set (take (scan_back ms t j) ms). cm_time m \<le> t) \<and> (\<forall>m \<in> set (drop (scan_back ms t j) ms). t \<le> cm_time m)"
proof
  let ?k = "scan_back ms t j"
  have k: "?k \<le> j" by (rule scan_back_le)
  show "\<forall>m \<in> set (take ?k ms). cm_time m \<le> t"
  proof
    fix m assume "m \<in> set (take ?k ms)"
    then obtain i where i: "i < ?k" "i < length ms" "m = ms ! i" by (auto simp: in_set_conv_nth)
    have "?k - 1 < length ms" using i k assms(2) by linarith
    moreover have "i \<le> ?k - 1" using i by linarith
    ultimately have "cm_time (ms ! i) \<le> cm_time (ms ! (?k - 1))"
      using assms(1) sorted_nth_mono [of "map cm_time ms" i "?k - 1"] i by (simp add: by_time_def)
    also have "\<dots> \<le> t" using scan_back_before i(1) by (metis gr_zeroI less_nat_zero_code)
    finally show "cm_time m \<le> t" using i by simp
  qed
  show "\<forall>m \<in> set (drop ?k ms). t \<le> cm_time m"
  proof
    fix m assume "m \<in> set (drop ?k ms)"
    then obtain i where i: "?k \<le> i" "i < length ms" "m = ms ! i"
      by (auto simp: in_set_conv_nth) (metis add.commute le_add2 less_diff_conv)
    show "t \<le> cm_time m"
    proof (cases "i < j")
      case True
      then show ?thesis using scan_back_later [OF i(1) True] i by simp
    next
      case False
      then have "m \<in> set (drop j ms)" using i by (auto simp: in_set_conv_nth intro!: exI [of _ "i - j"])
      then show ?thesis using assms(3) by blast
    qed
  qed
qed

lemma by_time_insert_at:
  assumes "by_time ms" "\<forall>m \<in> set (take k ms). cm_time m \<le> cm_time x" "\<forall>m \<in> set (drop k ms). cm_time x \<le> cm_time m"
  shows "by_time (insert_at k x ms)"
proof -
  have "by_time (take k ms @ drop k ms)" using assms(1) by simp
  then show ?thesis using assms(2,3) unfolding insert_at_def by (auto simp: by_time_append by_time_Cons simp del: append_take_drop_id)
qed

definition merge_inv :: "nat \<Rightarrow> chat_message list \<Rightarrow> chat_message list \<Rightarrow> nat \<Rightarrow> chat_data \<Rightarrow> bool" where
  "merge_inv maximum ms skipped j d \<longleftrightarrow>
     by_time (skipped @ cd_messages d) \<and> j \<le> length (cd_messages d) \<and>
     (\<forall>x \<in> set skipped \<union> set (drop j (cd_messages d)). \<forall>m \<in> set ms. cm_time m \<le> cm_time x) \<and>
     (skipped \<noteq> [] \<longrightarrow> length (cd_messages d) = maximum \<and> j = 0)"

lemma merge_inv_insert:
  assumes inv: "merge_inv maximum (m # ms) skipped j d" and desc: "\<forall>x \<in> set ms. cm_time x \<le> cm_time m"
    and k: "k = scan_back (cd_messages d) (cm_time m) j" "length (cd_messages d) \<noteq> maximum \<or> k \<noteq> 0"
    and d': "cd_messages d' = insert_at k m (cd_messages d)"
  shows "skipped = [] \<and> merge_inv maximum ms [] k d'"
proof
  have "k \<le> j" unfolding k(1) by (rule scan_back_le)
  then show s: "skipped = []" using inv k(2) by (auto simp: merge_inv_def)
  have place: "\<forall>x \<in> set (take k (cd_messages d)). cm_time x \<le> cm_time m" "\<forall>x \<in> set (drop k (cd_messages d)). cm_time m \<le> cm_time x"
    using scan_back_place [of "cd_messages d" j "cm_time m"] inv k(1) by (auto simp: merge_inv_def by_time_append)
  have len: "k \<le> length (cd_messages d)" using \<open>k \<le> j\<close> inv by (simp add: merge_inv_def)
  have "by_time (cd_messages d')" unfolding d'
    by (rule by_time_insert_at) (use inv place in \<open>auto simp: merge_inv_def by_time_append\<close>)
  moreover have "drop k (cd_messages d') = m # drop k (cd_messages d)" unfolding d' insert_at_def using len by simp
  moreover have "\<forall>y \<in> set ms. \<forall>x \<in> set (m # drop k (cd_messages d)). cm_time y \<le> cm_time x"
    using place(2) desc by (fastforce intro: order_trans)
  ultimately show "merge_inv maximum ms [] k d'" using len d' by (simp add: merge_inv_def)
qed

lemma merge_inv_skip:
  assumes inv: "merge_inv maximum (m # ms) skipped j d" and desc: "\<forall>x \<in> set ms. cm_time x \<le> cm_time m"
    and k: "scan_back (cd_messages d) (cm_time m) j = 0" "length (cd_messages d) = maximum"
  shows "merge_inv maximum ms (m # skipped) 0 d"
proof -
  have "\<forall>x \<in> set (cd_messages d). cm_time m \<le> cm_time x"
    using scan_back_place [of "cd_messages d" j "cm_time m"] inv k(1) by (auto simp: merge_inv_def by_time_append)
  then show ?thesis using inv desc k(2) by (fastforce simp: merge_inv_def by_time_Cons intro: order_trans)
qed

lemma merge_inv_weaken: "merge_inv maximum (m # ms) skipped j d \<Longrightarrow> merge_inv maximum ms skipped j d"
  by (auto simp: merge_inv_def)

lemma insert_loop_newest:
  assumes "insert_loop maximum ms j d inserted = (res, d')" "merge_inv maximum ms skipped j d"
    and "sorted_wrt (\<lambda>a b. cm_time b \<le> cm_time a) ms" "distinct (map cm_ID ms)"
  shows "\<exists>skipped'. by_time (skipped' @ cd_messages d') \<and> (skipped' \<noteq> [] \<longrightarrow> length (cd_messages d') = maximum) \<and>
    mset (skipped' @ cd_messages d') = mset (skipped @ cd_messages d) + mset (filter (\<lambda>m. cm_ID m \<notin> cd_messageIDs d) ms) \<and>
    set res \<subseteq> set inserted \<union> {m \<in> set ms. cm_ID m \<notin> cd_messageIDs d} \<and> set inserted \<subseteq> set res \<and>
    {m \<in> set ms. cm_ID m \<notin> cd_messageIDs d} \<subseteq> set res \<union> set skipped'  \<and> set skipped \<subseteq> set skipped'"
  using assms
proof (induction maximum ms j d inserted arbitrary: skipped rule: insert_loop.induct)
  case (1 maximum j d inserted)
  then show ?case by (intro exI [of _ skipped]) (auto simp: merge_inv_def)
next
  case (2 maximum m ms j d inserted)
  have desc: "\<forall>x \<in> set ms. cm_time x \<le> cm_time m" "sorted_wrt (\<lambda>a b. cm_time b \<le> cm_time a) ms"
    and dist: "cm_ID m \<notin> cm_ID ` set ms" "distinct (map cm_ID ms)" using 2(6,7) by auto
  show ?case
  proof (cases "cm_ID m \<in> cd_messageIDs d")
    case True
    then have "insert_loop maximum ms j d inserted = (res, d')" using 2(4) by simp
    from 2(1) [OF True this merge_inv_weaken [OF 2(5)] desc(2) dist(2)] show ?thesis using True by auto
  next
    case False
    define k where "k = scan_back (cd_messages d) (cm_time m) j"
    show ?thesis
    proof (cases "length (cd_messages d) \<noteq> maximum \<or> k \<noteq> 0")
      case ins: True
      define e where "e = d\<lparr>cd_messageIDs := insert (cm_ID m) (cd_messageIDs d), cd_messages := insert_at k m (cd_messages d)\<rparr>"
      have e: "cd_messages e = insert_at k m (cd_messages d)" "cd_messageIDs e = insert (cm_ID m) (cd_messageIDs d)"
        by (simp_all add: e_def)
      have run: "insert_loop maximum ms k e (m # inserted) = (res, d')"
        using 2(4) False ins by (simp add: Let_def k_def e_def)
      note inv = merge_inv_insert [OF 2(5) desc(1) k_def ins e(1)]
      have f: "x \<in> set ms \<Longrightarrow> cm_ID x \<notin> cd_messageIDs e \<longleftrightarrow> cm_ID x \<notin> cd_messageIDs d" for x
        using dist(1) unfolding e(2) by (metis imageI insert_iff)
      from 2(2) [OF False k_def ins run [unfolded e_def] _ desc(2) dist(2), of "[]", folded e_def]
      have "\<exists>skipped'. by_time (skipped' @ cd_messages d') \<and> (skipped' \<noteq> [] \<longrightarrow> length (cd_messages d') = maximum) \<and>
        mset (skipped' @ cd_messages d') = mset ([] @ cd_messages e) + mset (filter (\<lambda>m. cm_ID m \<notin> cd_messageIDs e) ms) \<and>
        set res \<subseteq> set (m # inserted) \<union> {m \<in> set ms. cm_ID m \<notin> cd_messageIDs e} \<and> set (m # inserted) \<subseteq> set res \<and>
        {m \<in> set ms. cm_ID m \<notin> cd_messageIDs e} \<subseteq> set res \<union> set skipped' \<and> set [] \<subseteq> set skipped'"
        using inv by blast
      then obtain s' where s': "by_time (s' @ cd_messages d')" "s' \<noteq> [] \<longrightarrow> length (cd_messages d') = maximum"
        "mset (s' @ cd_messages d') = mset (cd_messages e) + mset (filter (\<lambda>m. cm_ID m \<notin> cd_messageIDs e) ms)"
        "set res \<subseteq> set (m # inserted) \<union> {m \<in> set ms. cm_ID m \<notin> cd_messageIDs e}" "set (m # inserted) \<subseteq> set res"
        "{m \<in> set ms. cm_ID m \<notin> cd_messageIDs e} \<subseteq> set res \<union> set s'" by auto
      have fe: "filter (\<lambda>m. cm_ID m \<notin> cd_messageIDs e) ms = filter (\<lambda>m. cm_ID m \<notin> cd_messageIDs d) ms"
        by (rule filter_cong) (simp_all add: f)
      have "mset (s' @ cd_messages d') = mset (skipped @ cd_messages d) + mset (filter (\<lambda>m. cm_ID m \<notin> cd_messageIDs d) (m # ms))"
        using s'(3) inv False unfolding fe by (simp add: e(1))
      then show ?thesis using s' f False inv by (intro exI [of _ s']) auto
    next
      case skip: False
      have run: "insert_loop maximum ms k d inserted = (res, d')" using 2(4) False skip by (simp add: Let_def k_def)
      have inv: "merge_inv maximum ms (m # skipped) k d"
        using merge_inv_skip [OF 2(5) desc(1)] skip by (simp add: k_def)
      from 2(3) [OF False k_def skip run inv desc(2) dist(2)] show ?thesis using False by auto
    qed
  qed
qed

text \<open>
  C25: Messages that come from oldest to youngest, as they are always sent, are merged so that the
  room holds the newest of all the messages it knows: together with the ones that are left out, all
  of them older, the messages kept are the old ones and the unknown new ones, in the order of time;
  nothing is left out unless the room is full, and every new message kept is reported.
\<close>

theorem insert_keeps_newest:
  assumes "chat_wf maximum d" "by_time (cd_messages d)" "by_time new" "distinct (map cm_ID new)"
    and "insert_messages maximum new d = (inserted, d')"
  shows "\<exists>older. by_time (older @ cd_messages d') \<and>
    mset (older @ cd_messages d') = mset (cd_messages d) + mset (filter (\<lambda>m. cm_ID m \<notin> cd_messageIDs d) new) \<and>
    (older = [] \<or> length (cd_messages d') = maximum) \<and>
    set inserted \<subseteq> {m \<in> set new. cm_ID m \<notin> cd_messageIDs d} \<and>
    set (cd_messages d') \<inter> {m \<in> set new. cm_ID m \<notin> cd_messageIDs d} \<subseteq> set inserted \<union> set older"
proof -
  obtain e where e: "insert_loop maximum (rev new) (length (cd_messages d)) d [] = (inserted, e)" "cd_messages d' = cd_messages (trim maximum e)"
    using assms(5) by (auto simp: insert_messages_def Let_def split: prod.splits if_splits)
  have inv: "merge_inv maximum (rev new) [] (length (cd_messages d)) d"
    using assms(2) by (simp add: merge_inv_def)
  have desc: "sorted_wrt (\<lambda>a b. cm_time b \<le> cm_time a) (rev new)"
    using assms(3) by (simp add: by_time_def sorted_wrt_rev sorted_map)
  have dist: "distinct (map cm_ID (rev new))" using assms(4) by (simp add: rev_map [symmetric])
  from insert_loop_newest [OF e(1) inv desc dist] obtain s where s:
    "by_time (s @ cd_messages e)" "s \<noteq> [] \<longrightarrow> length (cd_messages e) = maximum"
    "mset (s @ cd_messages e) = mset (cd_messages d) + mset (filter (\<lambda>m. cm_ID m \<notin> cd_messageIDs d) (rev new))"
    "set inserted \<subseteq> {m \<in> set new. cm_ID m \<notin> cd_messageIDs d}"
    "{m \<in> set new. cm_ID m \<notin> cd_messageIDs d} \<subseteq> set inserted \<union> set s" by auto
  define n where "n = length (cd_messages e) - maximum"
  have d': "cd_messages d' = drop n (cd_messages e)" using e(2) by (simp add: trim_def n_def Let_def)
  have all: "(s @ take n (cd_messages e)) @ cd_messages d' = s @ cd_messages e" by (simp add: d')
  have full: "s @ take n (cd_messages e) = [] \<or> length (cd_messages d') = maximum"
    using s(2) by (cases "n = 0") (auto simp: d' n_def)
  have "mset (filter (\<lambda>m. cm_ID m \<notin> cd_messageIDs d) (rev new)) = mset (filter (\<lambda>m. cm_ID m \<notin> cd_messageIDs d) new)"
    by (simp add: rev_filter [symmetric])
  then show ?thesis using s full all by (intro exI [of _ "s @ take n (cd_messages e)"]) auto
qed

definition sample_message :: "64 word \<Rightarrow> int \<Rightarrow> chat_message" where
  "sample_message i t = \<lparr>cm_ID = i, cm_message = [], cm_ownerID = NULL_HASH, cm_peerIDsAnswer = [], cm_time = t,
     cm_ownerNick = [], cm_room = []\<rparr>"

theorem insert_keeps_newest_witness:
  "\<exists>older inserted d'. insert_messages 2 [sample_message 1 10, sample_message 2 20] no_messages = (inserted, d') \<and>
     by_time (older @ cd_messages d')"
proof -
  obtain inserted d' where r: "insert_messages 2 [sample_message 1 10, sample_message 2 20] no_messages = (inserted, d')" by fastforce
  have "\<exists>older. by_time (older @ cd_messages d') \<and>
    mset (older @ cd_messages d') = mset (cd_messages no_messages) +
      mset (filter (\<lambda>m. cm_ID m \<notin> cd_messageIDs no_messages) [sample_message 1 10, sample_message 2 20]) \<and>
    (older = [] \<or> length (cd_messages d') = 2) \<and>
    set inserted \<subseteq> {m \<in> set [sample_message 1 10, sample_message 2 20]. cm_ID m \<notin> cd_messageIDs no_messages} \<and>
    set (cd_messages d') \<inter> {m \<in> set [sample_message 1 10, sample_message 2 20]. cm_ID m \<notin> cd_messageIDs no_messages}
      \<subseteq> set inserted \<union> set older"
    by (rule insert_keeps_newest [OF _ _ _ _ r])
      (simp_all add: chat_wf_def ids_wf_def no_messages_def by_time_def sample_message_def)
  then show ?thesis using r by blast
qed

text \<open>Messages in another order break the order of the room: the place \<open>j\<close> only moves back.\<close>

lemma unsorted_messages_break_order:
  "\<not> by_time (cd_messages (snd (insert_messages 5 [sample_message 1 20, sample_message 2 10] no_messages)))"
  by (simp add: insert_messages_def no_messages_def sample_message_def by_time_def trim_def insert_at_def Let_def)

subsection \<open>Unknown messages\<close>

lemma unknown_loop_filter:
  "distinct (map cm_ID ms) \<Longrightarrow>
     unknown_loop ms k number known res = rev (filter (\<lambda>m. cm_ID m \<notin> known) (take (nat number - k) ms)) @ res"
proof (induction ms k number known res rule: unknown_loop.induct)
  case (2 m ms k number known res)
  have f: "filter (\<lambda>x. cm_ID x \<notin> known - {cm_ID m}) (take n ms) = filter (\<lambda>x. cm_ID x \<notin> known) (take n ms)" for n
  proof (rule filter_cong [OF refl])
    fix x assume "x \<in> set (take n ms)"
    then have "cm_ID x \<noteq> cm_ID m" using 2(2) by (metis distinct.simps(2) image_eqI in_set_takeD list.set_map list.simps(9))
    then show "(cm_ID x \<notin> known - {cm_ID m}) = (cm_ID x \<notin> known)" by simp
  qed
  show ?case
  proof (cases "int (Suc k) \<le> number")
    case True
    then have "nat number - k = Suc (nat number - Suc k)" by linarith
    then show ?thesis using 2 True f by simp
  next
    case False
    then have "nat number - k = 0" by linarith
    then show ?thesis using False by simp
  qed
qed simp

text \<open>
  A peer that asks for the last messages and names the ones it has gets exactly the others of
  the last \<open>number\<close> messages, from oldest to youngest.
\<close>

theorem getUnknownMessages_complement:
  assumes "ids_wf d"
  shows "getUnknownMessages number message_ids d =
    filter (\<lambda>m. cm_ID m \<notin> set message_ids) (drop (length (cd_messages d) - nat number) (cd_messages d))"
proof -
  have "distinct (map cm_ID (rev (cd_messages d)))" using assms by (simp add: ids_wf_def rev_map [symmetric])
  then show ?thesis
    by (simp add: getUnknownMessages_def unknown_loop_filter take_rev rev_filter)
qed

theorem getUnknownMessages_complement_witness:
  "getUnknownMessages 1 [] \<lparr>cd_messages = [sample_message 1 5, sample_message 2 6], cd_messageIDs = {1, 2}, cd_changed = False\<rparr> =
     [sample_message 2 6]"
  by (subst getUnknownMessages_complement) (simp_all add: ids_wf_def sample_message_def)

subsection \<open>Datagrams\<close>

text \<open>The loop that answers \<open>CORE_GET_LAST_CHAT_MESSAGES\<close>: what is sent, \<open>None\<close> if it never ends.\<close>

partial_function (option) send_datagrams ::
  "(proto_chat list \<Rightarrow> int) \<Rightarrow> int option \<Rightarrow> chat_message list \<Rightarrow> proto_chat list list option" where
  "send_datagrams bytes limit messages =
     (case fillProto_limit bytes limit [] messages of (chatMessages, rest) \<Rightarrow>
        if rest = [] then Some [chatMessages]
        else Option.bind (send_datagrams bytes limit rest) (\<lambda>ds. Some (chatMessages # ds)))"

definition datagram_fits :: "(proto_chat list \<Rightarrow> int) \<Rightarrow> int option \<Rightarrow> proto_chat list \<Rightarrow> bool" where
  "datagram_fits bytes limit ps \<longleftrightarrow> (case limit of None \<Rightarrow> True | Some n \<Rightarrow> bytes ps \<le> n)"

lemma fillProto_limit_split:
  assumes "fillProto_limit bytes limit acc ms = (ps, rest)" "datagram_fits bytes limit acc"
  shows "\<exists>fs. ms = fs @ rest \<and> ps = acc @ map fillProtoChatMessage fs \<and> datagram_fits bytes limit ps \<and>
           (rest \<noteq> [] \<longrightarrow> \<not> datagram_fits bytes limit (ps @ [fillProtoChatMessage (hd rest)]))"
  using assms
proof (induction bytes limit acc ms rule: fillProto_limit.induct)
  case (2 bytes limit acc m ms)
  show ?case
  proof (cases "datagram_fits bytes limit (acc @ [fillProtoChatMessage m])")
    case True
    then have "fillProto_limit bytes limit (acc @ [fillProtoChatMessage m]) ms = (ps, rest)"
      using 2(2) by (cases limit) (auto simp: datagram_fits_def Let_def)
    then have "\<exists>finished. ms = finished @ rest \<and> ps = (acc @ [fillProtoChatMessage m]) @ map fillProtoChatMessage finished \<and>
        datagram_fits bytes limit ps \<and> (rest \<noteq> [] \<longrightarrow> \<not> datagram_fits bytes limit (ps @ [fillProtoChatMessage (hd rest)]))"
      using 2(1) [OF refl] True by (cases limit) (auto simp: datagram_fits_def)
    then obtain finished where "ms = finished @ rest" "ps = (acc @ [fillProtoChatMessage m]) @ map fillProtoChatMessage finished"
        "datagram_fits bytes limit ps" "rest \<noteq> [] \<longrightarrow> \<not> datagram_fits bytes limit (ps @ [fillProtoChatMessage (hd rest)])" by blast
    then show ?thesis by (intro exI [of _ "m # finished"]) simp
  next
    case False
    then have "ps = acc" "rest = m # ms" using 2(2) by (auto simp: datagram_fits_def Let_def split: option.splits)
    then show ?thesis using 2(3) False by (intro exI [of _ "[]"]) simp
  qed
qed auto

text \<open>
  When every message datagram_fits in a datagram alone, the answer ends, and its datagrams respect
  the limit and carry all the messages, in order.
\<close>

theorem datagrams_carry_all:
  assumes "datagram_fits bytes limit []" "\<forall>m \<in> set messages. datagram_fits bytes limit [fillProtoChatMessage m]"
  shows "\<exists>ds. send_datagrams bytes limit messages = Some ds \<and> concat ds = map fillProtoChatMessage messages \<and>
           list_all (datagram_fits bytes limit) ds"
  using assms(2)
proof (induction messages rule: length_induct)
  case (1 messages)
  obtain ps rest where f: "fillProto_limit bytes limit [] messages = (ps, rest)" by fastforce
  from fillProto_limit_split [OF f assms(1)] obtain fs where
    fs: "messages = fs @ rest" "ps = map fillProtoChatMessage fs" "datagram_fits bytes limit ps"
      "rest \<noteq> [] \<longrightarrow> \<not> datagram_fits bytes limit (ps @ [fillProtoChatMessage (hd rest)])" by auto
  show ?case
  proof (cases "rest = []")
    case True
    then show ?thesis using f fs by (subst send_datagrams.simps) simp
  next
    case False
    have "fs \<noteq> []" using fs False 1(2) by (cases rest) auto
    then have "length rest < length messages" using fs(1) by simp
    moreover have "\<forall>m \<in> set rest. datagram_fits bytes limit [fillProtoChatMessage m]" using 1(2) fs(1) by simp
    ultimately obtain ds where ds: "send_datagrams bytes limit rest = Some ds" "concat ds = map fillProtoChatMessage rest"
        "list_all (datagram_fits bytes limit) ds" using 1(1) by blast
    have "send_datagrams bytes limit messages = Some (ps # ds)"
      using f False ds(1) by (subst send_datagrams.simps) simp
    then show ?thesis using ds fs by simp
  qed
qed

theorem datagrams_carry_all_witness:
  "\<exists>ds. send_datagrams (\<lambda>ps. int (length ps)) (Some 1) [sample_message 1 5, sample_message 2 6] = Some ds \<and>
     list_all (datagram_fits (\<lambda>ps. int (length ps)) (Some 1)) ds"
  using datagrams_carry_all [of "\<lambda>ps. int (length ps)" "Some 1" "[sample_message 1 5, sample_message 2 6]"]
  by (auto simp: datagram_fits_def)

text \<open>
  C40: A message that does not fit in a datagram alone, which \<open>ChatSystem::send\<close> keeps although it
  could not send it, makes the answer send empty datagrams for ever.
\<close>

theorem oversize_message_never_ends:
  assumes "\<not> datagram_fits bytes limit [fillProtoChatMessage m]"
  shows "send_datagrams bytes limit (m # ms) = None"
proof -
  have stuck: "fillProto_limit bytes limit [] (m # ms) = ([], m # ms)"
    using assms by (auto simp: datagram_fits_def split: option.splits)
  have "\<not> (bytes = bytes \<and> limit = limit \<and> m # ms = m # ms)" if s: "send_datagrams bytes limit (m # ms) = Some ds" for ds
  proof (rule send_datagrams.raw_induct [where P = "\<lambda>b l messages ds. \<not> (b = bytes \<and> l = limit \<and> messages = m # ms)", OF _ s])
    fix f b l messages ds
    assume IH: "\<And>b l messages ds. f b l messages = Some ds \<Longrightarrow> \<not> (b = bytes \<and> l = limit \<and> messages = m # ms)"
      and r: "(case fillProto_limit b l [] messages of (chatMessages, rest) \<Rightarrow>
        if rest = [] then Some [chatMessages] else Option.bind (f b l rest) (\<lambda>ds. Some (chatMessages # ds))) = Some ds"
    show "\<not> (b = bytes \<and> l = limit \<and> messages = m # ms)"
    proof
      assume a: "b = bytes \<and> l = limit \<and> messages = m # ms"
      then have "f bytes limit (m # ms) \<noteq> None"
        using r stuck by (cases "f bytes limit (m # ms)") (simp_all del: fillProto_limit.simps)
      then show False using IH by blast
    qed
  qed
  then show ?thesis by (cases "send_datagrams bytes limit (m # ms)") auto
qed

theorem oversize_message_never_ends_witness:
  "send_datagrams (\<lambda>ps. 600 * int (length ps)) (Some 500) [sample_message 1 5] = None"
  by (rule oversize_message_never_ends) (simp add: datagram_fits_def)

end
