(* ===== verification/Chat_System.thy ===== *)
theory Chat_System
  imports Chat_Messages
begin

text \<open>
  \<open>Core/ChatSystem/priv/ChatSystem.cpp\<close>: the main chat and the rooms.  A peer is its identifier;
  what is sent on the network, told to the interface or saved is returned as effects.  The order
  of a \<open>QHash\<close>, the peer that is drawn among several, the content of the files and the result of the
  sending are arguments.
\<close>

subsection \<open>State\<close>

record room =
  r_messages :: chat_data
  r_peers :: "hash set"
  r_joined :: bool

record chat_system =
  cs_messages :: chat_data
  cs_rooms :: "qstring \<rightharpoonup> room"

definition new_room :: room where
  "new_room = \<lparr>r_messages = no_messages, r_peers = {}, r_joined = False\<rparr>"

definition new_chat_system :: chat_system where
  "new_chat_system = \<lparr>cs_messages = no_messages, cs_rooms = (\<lambda>_. None)\<rparr>"

text \<open>\<open>this->rooms[name]\<close>, which makes the room when there is none.\<close>

definition room_of :: "chat_system \<Rightarrow> qstring \<Rightarrow> room" where
  "room_of cs name = (case cs_rooms cs name of None \<Rightarrow> new_room | Some r \<Rightarrow> r)"

definition set_room :: "qstring \<Rightarrow> room \<Rightarrow> chat_system \<Rightarrow> chat_system" where
  "set_room name r cs = cs\<lparr>cs_rooms := (cs_rooms cs)(name \<mapsto> r)\<rparr>"

datatype send_status = Send_OK | Message_too_large | Unable_to_send

datatype chat_effect =
    New_messages "proto_chat list"
  | Send_all "proto_chat list"
  | Send_to hash "proto_chat list"
  | Ask_last hash int "64 word list" qstring
  | Save_messages qstring chat_data
  | Save_room_list

subsection \<open>Operations of the interface\<close>

definition chat_send ::
  "nat \<Rightarrow> (proto_chat list \<Rightarrow> send_status) \<Rightarrow> chat_message \<Rightarrow> chat_system \<Rightarrow> send_status \<times> chat_effect list \<times> chat_system" where
  "chat_send maximum net m cs =
     (let cs = (if cm_room m = [] then cs\<lparr>cs_messages := snd (add_message maximum m (cs_messages cs))\<rparr>
                else (let r = room_of cs (cm_room m)
                      in set_room (cm_room m) (r\<lparr>r_messages := snd (add_message maximum m (r_messages r))\<rparr>) cs));
          p = fillProtoChatMessage m;
          sent = [p\<lparr>pc_time := 0\<rparr>]
      in case net sent of
           Send_OK \<Rightarrow> (Send_OK, [Send_all sent, New_messages [p]], cs)
         | Message_too_large \<Rightarrow> (Message_too_large, [Send_all sent], cs)
         | Unable_to_send \<Rightarrow> (Unable_to_send, [Send_all sent], cs))"

text \<open>\<open>None\<close> is the null name of the main chat.\<close>

definition getLastChatMessages :: "int \<Rightarrow> qstring option \<Rightarrow> chat_system \<Rightarrow> proto_chat list" where
  "getLastChatMessages number roomName cs =
     (case roomName of None \<Rightarrow> fillProto_last number (cs_messages cs)
      | Some name \<Rightarrow> fillProto_last number (r_messages (room_of cs name)))"

definition getRooms :: "chat_system \<Rightarrow> qstring \<rightharpoonup> hash set \<times> bool" where
  "getRooms cs name = map_option (\<lambda>r. (r_peers r, r_joined r)) (cs_rooms cs name)"

text \<open>\<open>loadFromFile\<close>: \<open>None\<close> is a file that cannot be read.\<close>

definition loadFromFile :: "nat \<Rightarrow> int \<Rightarrow> proto_chat list option \<Rightarrow> chat_data \<Rightarrow> chat_data" where
  "loadFromFile maximum now content d =
     (case content of None \<Rightarrow> d | Some ps \<Rightarrow> (snd (add_messages maximum now ps d))\<lparr>cd_changed := False\<rparr>)"

definition saveToFile :: "qstring \<Rightarrow> chat_data \<Rightarrow> chat_effect list \<times> chat_data" where
  "saveToFile name d =
     (if \<not> cd_changed d then ([], d) else ([Save_messages name d], d\<lparr>cd_changed := False\<rparr>))"

definition loadChatMessages ::
  "nat \<Rightarrow> int \<Rightarrow> proto_chat list option \<Rightarrow> qstring \<Rightarrow> chat_system \<Rightarrow> chat_effect list \<times> chat_system" where
  "loadChatMessages maximum now content name cs =
     (if name \<noteq> [] then
        (case cs_rooms cs name of
           None \<Rightarrow> ([], cs)
         | Some r \<Rightarrow> (let d = loadFromFile maximum now content (r_messages r)
                      in ([New_messages (map fillProtoChatMessage (cd_messages d))], set_room name (r\<lparr>r_messages := d\<rparr>) cs)))
      else (let d = loadFromFile maximum now content (cs_messages cs)
            in ([New_messages (map fillProtoChatMessage (cd_messages d))], cs\<lparr>cs_messages := d\<rparr>)))"

definition saveChatMessages :: "qstring \<Rightarrow> chat_system \<Rightarrow> chat_effect list \<times> chat_system" where
  "saveChatMessages name cs =
     (if name = [] then (case saveToFile [] (cs_messages cs) of (es, d) \<Rightarrow> (es, cs\<lparr>cs_messages := d\<rparr>))
      else (case cs_rooms cs name of
              None \<Rightarrow> ([], cs)
            | Some r \<Rightarrow> (case saveToFile name (r_messages r) of (es, d) \<Rightarrow> (es, set_room name (r\<lparr>r_messages := d\<rparr>) cs))))"

text \<open>The list of the last identifiers is the one of the main chat, whatever the room.\<close>

definition retrieveLastChatMessagesFromPeers ::
  "int \<Rightarrow> (hash set \<Rightarrow> hash) \<Rightarrow> hash set \<Rightarrow> qstring \<Rightarrow> chat_system \<Rightarrow> chat_effect list" where
  "retrieveLastChatMessagesFromPeers N draw peers name cs =
     (if peers = {} then [] else [Ask_last (draw peers) N (getLastMessageIDs N (cs_messages cs)) name])"

definition joinRoom ::
  "nat \<Rightarrow> int \<Rightarrow> int \<Rightarrow> (hash set \<Rightarrow> hash) \<Rightarrow> proto_chat list option \<Rightarrow> qstring \<Rightarrow> chat_system \<Rightarrow>
   chat_effect list \<times> chat_system" where
  "joinRoom maximum N now draw content name cs =
     (let r = room_of cs name in
      if \<not> r_joined r then
        (case loadChatMessages maximum now content name (set_room name (r\<lparr>r_joined := True\<rparr>) cs) of
           (es, cs) \<Rightarrow> (Save_room_list # es @ retrieveLastChatMessagesFromPeers N draw (r_peers r) name cs, cs))
      else ([], set_room name r cs))"

definition leaveRoom :: "qstring \<Rightarrow> chat_system \<Rightarrow> chat_effect list \<times> chat_system" where
  "leaveRoom name cs =
     (case cs_rooms cs name of
        None \<Rightarrow> ([], cs)
      | Some r \<Rightarrow>
          if r_joined r then
            (case saveChatMessages name cs of
               (es, cs) \<Rightarrow>
                 (es @ [Save_room_list],
                  if r_peers r = {} then cs\<lparr>cs_rooms := (cs_rooms cs)(name := None)\<rparr>
                  else set_room name ((room_of cs name)\<lparr>r_joined := False\<rparr>) cs))
          else ([], cs))"

subsection \<open>Messages of the network\<close>

text \<open>\<open>CORE_IM_ALIVE\<close> names the rooms of a peer, which enters them and leaves the others; a room
  that becomes empty and is not joined is forgotten.\<close>

definition enter_room :: "hash \<Rightarrow> qstring \<Rightarrow> chat_system \<Rightarrow> chat_system" where
  "enter_room peer name cs =
     (let r = room_of cs name in set_room name (r\<lparr>r_peers := insert peer (r_peers r)\<rparr>) cs)"

definition leave_others :: "hash \<Rightarrow> qstring set \<Rightarrow> chat_system \<Rightarrow> chat_system" where
  "leave_others peer roomsWithPeer cs =
     cs\<lparr>cs_rooms := (\<lambda>name. case cs_rooms cs name of
          None \<Rightarrow> None
        | Some r \<Rightarrow> if name \<in> roomsWithPeer then Some r
                    else (let r = r\<lparr>r_peers := r_peers r - {peer}\<rparr>
                          in if r_peers r = {} \<and> \<not> r_joined r then None else Some r))\<rparr>"

definition received_IMAlive :: "(hash \<Rightarrow> bool) \<Rightarrow> hash \<Rightarrow> qstring list \<Rightarrow> chat_system \<Rightarrow> chat_system" where
  "received_IMAlive is_peer sender chat_rooms cs =
     (if is_peer sender then leave_others sender (set chat_rooms) (fold (enter_room sender) chat_rooms cs) else cs)"

text \<open>\<open>CORE_CHAT_MESSAGES\<close>.  The test of the rooms ends the loop that completes the identifiers of
  the peers, and nothing more.\<close>

fun set_peer_ids :: "hash \<Rightarrow> qstring \<Rightarrow> nat \<Rightarrow> proto_chat list \<Rightarrow> proto_chat list" where
  "set_peer_ids sender room i [] = []"
| "set_peer_ids sender room i (p # ps) =
     (if i \<noteq> 0 \<and> pc_chat_room p \<noteq> room then p # ps
      else (if pc_peer_id p = None then p\<lparr>pc_peer_id := Some sender\<rparr> else p) # set_peer_ids sender room (Suc i) ps)"

definition told :: "chat_message list \<Rightarrow> chat_effect list" where
  "told ms = (if ms = [] then [] else [New_messages (map fillProtoChatMessage ms)])"

definition received_chat_messages ::
  "nat \<Rightarrow> int \<Rightarrow> hash \<Rightarrow> proto_chat list \<Rightarrow> chat_system \<Rightarrow> chat_effect list \<times> chat_system" where
  "received_chat_messages maximum now sender protos cs =
     (if protos = [] then ([], cs)
      else (let room = pc_chat_room (hd protos);
                protos = set_peer_ids sender room 0 protos
            in if room = [] then
                 (case add_messages maximum now protos (cs_messages cs) of (ms, d) \<Rightarrow> (told ms, cs\<lparr>cs_messages := d\<rparr>))
               else (let r = room_of cs room in
                     if \<not> r_joined r then ([], set_room room r cs)
                     else (case add_messages maximum now protos (r_messages r) of
                             (ms, d) \<Rightarrow> (told ms, set_room room (r\<lparr>r_messages := d\<rparr>) cs)))))"

text \<open>\<open>CORE_GET_LAST_CHAT_MESSAGES\<close>; \<open>None\<close> when the loop of the datagrams never ends.\<close>

definition received_get_last ::
  "(proto_chat list \<Rightarrow> int) \<Rightarrow> int \<Rightarrow> hash \<Rightarrow> int \<Rightarrow> 64 word list \<Rightarrow> qstring \<Rightarrow> chat_system \<Rightarrow> chat_effect list option" where
  "received_get_last bytes limit sender number ids name cs =
     (if name \<noteq> [] \<and> cs_rooms cs name = None then Some []
      else (let d = (if name = [] then cs_messages cs else r_messages (room_of cs name));
                messages = getUnknownMessages number ids d
            in if messages = [] then Some []
               else map_option (map (Send_to sender)) (send_datagrams bytes (Some limit) messages)))"

definition IMAliveMessageToBeSend :: "chat_system \<Rightarrow> qstring set" where
  "IMAliveMessageToBeSend cs = {name. \<exists>r. cs_rooms cs name = Some r \<and> r_joined r}"

text \<open>The two timers, over the rooms in the order of the table.\<close>

definition retrieveLastChatMessages ::
  "int \<Rightarrow> (hash set \<Rightarrow> hash) \<Rightarrow> hash set \<Rightarrow> qstring list \<Rightarrow> chat_system \<Rightarrow> chat_effect list" where
  "retrieveLastChatMessages N draw peers names cs =
     retrieveLastChatMessagesFromPeers N draw peers [] cs @
     concat (map (\<lambda>name. case cs_rooms cs name of
         None \<Rightarrow> []
       | Some r \<Rightarrow> if r_joined r then retrieveLastChatMessagesFromPeers N draw (r_peers r) name cs else []) names)"

fun save_rooms :: "qstring list \<Rightarrow> chat_system \<Rightarrow> chat_effect list \<times> chat_system" where
  "save_rooms [] cs = ([], cs)"
| "save_rooms (name # names) cs =
     (case cs_rooms cs name of
        None \<Rightarrow> save_rooms names cs
      | Some r \<Rightarrow> if r_joined r
          then (case saveChatMessages name cs of (es, cs) \<Rightarrow> case save_rooms names cs of (es', cs) \<Rightarrow> (es @ es', cs))
          else save_rooms names cs)"

definition saveAllChatMessages :: "qstring list \<Rightarrow> chat_system \<Rightarrow> chat_effect list \<times> chat_system" where
  "saveAllChatMessages names cs =
     (case saveChatMessages [] cs of (es, cs) \<Rightarrow> case save_rooms names cs of (es', cs) \<Rightarrow> (es @ es', cs))"

subsection \<open>Rooms\<close>

lemma room_of_set_room [simp]: "room_of (set_room name r cs) x = (if x = name then r else room_of cs x)"
  by (simp add: room_of_def set_room_def)

lemma cs_rooms_set_room [simp]: "cs_rooms (set_room name r cs) = (cs_rooms cs)(name \<mapsto> r)"
  by (simp add: set_room_def)

lemma cs_messages_set_room [simp]: "cs_messages (set_room name r cs) = cs_messages cs"
  by (simp add: set_room_def)

definition in_room :: "hash \<Rightarrow> qstring \<Rightarrow> chat_system \<Rightarrow> bool" where
  "in_room peer name cs \<longleftrightarrow> (\<exists>r. cs_rooms cs name = Some r \<and> peer \<in> r_peers r)"

definition is_joined :: "qstring \<Rightarrow> chat_system \<Rightarrow> bool" where
  "is_joined name cs \<longleftrightarrow> (\<exists>r. cs_rooms cs name = Some r \<and> r_joined r)"

lemma in_room_of: "in_room peer name cs \<longleftrightarrow> peer \<in> r_peers (room_of cs name)"
  by (auto simp: in_room_def room_of_def new_room_def split: option.split)

lemma is_joined_of: "is_joined name cs \<longleftrightarrow> r_joined (room_of cs name)"
  by (auto simp: is_joined_def room_of_def new_room_def split: option.split)

lemma enter_rooms:
  "in_room q x (fold (enter_room p) names cs) \<longleftrightarrow> in_room q x cs \<or> (q = p \<and> x \<in> set names)"
  "is_joined x (fold (enter_room p) names cs) = is_joined x cs"
  "r_messages (room_of (fold (enter_room p) names cs) x) = r_messages (room_of cs x)"
  by (induction names arbitrary: cs) (auto simp: enter_room_def Let_def in_room_of is_joined_of)

lemma leave_rooms:
  "in_room q x (leave_others p S cs) \<longleftrightarrow> in_room q x cs \<and> (q = p \<longrightarrow> x \<in> S)"
  "is_joined x (leave_others p S cs) = is_joined x cs"
  by (auto simp: leave_others_def in_room_def is_joined_def Let_def split: option.splits if_splits)

text \<open>
  After the message by which a peer says that it is alive, the peer is in exactly the rooms it
  names, every other peer is in the rooms where it was, the rooms that are joined are the same, and
  no room is left that is neither joined nor has a peer.
\<close>

theorem rooms_follow_IMAlive:
  assumes "is_peer p" "cs' = received_IMAlive is_peer p names cs"
  shows "(in_room p x cs' \<longleftrightarrow> x \<in> set names) \<and> (q = p \<or> (in_room q x cs' \<longleftrightarrow> in_room q x cs)) \<and>
         (is_joined x cs' \<longleftrightarrow> is_joined x cs) \<and> (cs_rooms cs' x = None \<or> is_joined x cs' \<or> (\<exists>q. in_room q x cs'))"
proof -
  let ?e = "fold (enter_room p) names cs"
  have cs': "cs' = leave_others p (set names) ?e" using assms by (simp add: received_IMAlive_def)
  have "cs_rooms cs' x = None \<or> is_joined x cs' \<or> (\<exists>q. in_room q x cs')"
  proof (cases "cs_rooms cs' x")
    case (Some r)
    show ?thesis
    proof (cases "x \<in> set names")
      case True
      then have "in_room p x cs'" unfolding cs' by (simp add: leave_rooms enter_rooms)
      then show ?thesis by blast
    next
      case False
      then have "r_peers r \<noteq> {} \<or> r_joined r"
        using Some by (auto simp: cs' leave_others_def Let_def split: option.splits if_splits)
      then show ?thesis using Some by (auto simp: in_room_def is_joined_def)
    qed
  qed simp
  then show ?thesis unfolding cs' by (auto simp: leave_rooms enter_rooms)
qed

theorem rooms_follow_IMAlive_witness:
  "in_room [1] [97] (received_IMAlive (\<lambda>_. True) [1] [[97]] new_chat_system)"
  using rooms_follow_IMAlive [of "\<lambda>_. True" "[1]" _ "[[97]]" new_chat_system "[97]" "[1]", OF _ refl] by simp

subsection \<open>Every reachable state\<close>

inductive chat_step :: "nat \<Rightarrow> chat_system \<Rightarrow> chat_system \<Rightarrow> bool" for maximum :: nat where
  step_send: "chat_step maximum cs (snd (snd (chat_send maximum net m cs)))"
| step_join: "chat_step maximum cs (snd (joinRoom maximum N now draw content name cs))"
| step_leave: "chat_step maximum cs (snd (leaveRoom name cs))"
| step_load: "chat_step maximum cs (snd (loadChatMessages maximum now content name cs))"
| step_save: "chat_step maximum cs (snd (saveAllChatMessages names cs))"
| step_alive: "chat_step maximum cs (received_IMAlive is_peer sender chat_rooms cs)"
| step_chat: "chat_step maximum cs (snd (received_chat_messages maximum now sender protos cs))"

inductive chat_reachable :: "nat \<Rightarrow> chat_system \<Rightarrow> bool" for maximum :: nat where
  reach_start: "chat_reachable maximum new_chat_system"
| reach_step: "chat_reachable maximum cs \<Longrightarrow> chat_step maximum cs cs' \<Longrightarrow> chat_reachable maximum cs'"

definition chats_wf :: "nat \<Rightarrow> chat_system \<Rightarrow> bool" where
  "chats_wf maximum cs \<longleftrightarrow> chat_wf maximum (cs_messages cs) \<and> (\<forall>name. chat_wf maximum (r_messages (room_of cs name)))"

lemma no_messages_wf [simp]: "chat_wf maximum no_messages"
  by (simp add: chat_wf_def ids_wf_def no_messages_def)

lemma chat_wf_changed [simp]: "chat_wf maximum (d\<lparr>cd_changed := c\<rparr>) = chat_wf maximum d"
  by (simp add: chat_wf_def)

lemma insert_messages_wf: "chat_wf maximum d \<Longrightarrow> chat_wf maximum (snd (insert_messages maximum ms d))"
proof -
  assume "chat_wf maximum d"
  then have ids: "ids_wf d" by (simp add: chat_wf_def)
  obtain ins d' where l: "insert_loop maximum (rev ms) (length (cd_messages d)) d [] = (ins, d')" by fastforce
  have "chat_wf maximum (trim maximum d')" by (rule trim_wf) (rule insert_loop_ids [OF ids l])
  then show ?thesis by (simp add: insert_messages_def l Let_def)
qed

lemma chat_data_ops_wf:
  assumes "chat_wf maximum d"
  shows "chat_wf maximum (snd (add_message maximum m d))" "chat_wf maximum (snd (add_messages maximum now ps d))"
    "chat_wf maximum (loadFromFile maximum now content d)" "chat_wf maximum (snd (saveToFile name d))"
  using insert_messages_wf [OF assms] assms
  by (auto simp: add_message_def add_messages_def loadFromFile_def saveToFile_def split: option.split)

lemma chats_wf_set_room:
  "chats_wf maximum cs \<Longrightarrow> chat_wf maximum (r_messages r) \<Longrightarrow> chats_wf maximum (set_room name r cs)"
  by (simp add: chats_wf_def)

lemma chats_wf_messages:
  "chats_wf maximum cs \<Longrightarrow> chat_wf maximum d \<Longrightarrow> chats_wf maximum (cs\<lparr>cs_messages := d\<rparr>)"
  by (simp add: chats_wf_def room_of_def)

lemma chats_wf_room: "chats_wf maximum cs \<Longrightarrow> cs_rooms cs name = Some r \<Longrightarrow> chat_wf maximum (r_messages r)"
  by (auto simp: chats_wf_def room_of_def dest: spec [of _ name])

lemma chats_wf_room_of: "chats_wf maximum cs \<Longrightarrow> chat_wf maximum (r_messages (room_of cs name))"
  by (simp add: chats_wf_def)

lemma chats_wf_main: "chats_wf maximum cs \<Longrightarrow> chat_wf maximum (cs_messages cs)"
  by (simp add: chats_wf_def)

lemmas chats_wf_rules = chats_wf_set_room chats_wf_messages chats_wf_room_of chats_wf_main chat_data_ops_wf

lemma loadChatMessages_wf:
  "chats_wf maximum cs \<Longrightarrow> chats_wf maximum (snd (loadChatMessages maximum now content name cs))"
  by (auto simp: loadChatMessages_def Let_def split: option.split intro!: chats_wf_set_room chats_wf_messages
      chat_data_ops_wf dest: chats_wf_room chats_wf_main)

lemma saveChatMessages_wf:
  assumes "chats_wf maximum cs"
  shows "chats_wf maximum (snd (saveChatMessages name cs))"
proof -
  have d: "chat_wf maximum d" if "saveToFile x e = (es, d)" "chat_wf maximum e" for x e es d
    using chat_data_ops_wf(4) [OF that(2), of x] that(1) by simp
  show ?thesis using assms
    by (auto simp: saveChatMessages_def split: option.splits prod.splits
        intro!: chats_wf_set_room chats_wf_messages elim!: d dest: chats_wf_room chats_wf_main)
qed

lemma save_rooms_wf: "chats_wf maximum cs \<Longrightarrow> chats_wf maximum (snd (save_rooms names cs))"
proof (induction names arbitrary: cs)
  case (Cons name names)
  show ?case
    using Cons saveChatMessages_wf [OF Cons.prems, of name]
    by (auto split: option.splits prod.splits) (metis snd_conv)+
qed simp

lemma chat_step_wf:
  assumes "chat_step maximum cs cs'" "chats_wf maximum cs"
  shows "chats_wf maximum cs'"
  using assms
proof (induction rule: chat_step.induct)
  case (step_send cs net m)
  then show ?case
    by (simp add: chat_send_def Let_def chats_wf_rules split: send_status.split)
next
  case (step_join cs N now draw content name)
  have "chats_wf maximum (set_room name ((room_of cs name)\<lparr>r_joined := True\<rparr>) cs)"
    using step_join by (auto intro!: chats_wf_set_room chats_wf_room_of)
  from loadChatMessages_wf [OF this, of now content name] show ?case
    using step_join by (auto simp: joinRoom_def Let_def split: prod.splits intro!: chats_wf_set_room chats_wf_room_of)
next
  case (step_leave cs name)
  note s = saveChatMessages_wf [OF step_leave, of name]
  have "chats_wf maximum (c\<lparr>cs_rooms := (cs_rooms c)(name := None)\<rparr>)" if "chats_wf maximum c" for c
    using that by (auto simp: chats_wf_def room_of_def new_room_def)
  moreover have "snd (leaveRoom name cs) \<in> {cs, (snd (saveChatMessages name cs))\<lparr>cs_rooms := (cs_rooms (snd (saveChatMessages name cs)))(name := None)\<rparr>,
      set_room name ((room_of (snd (saveChatMessages name cs)) name)\<lparr>r_joined := False\<rparr>) (snd (saveChatMessages name cs))}"
    by (simp add: leaveRoom_def case_prod_beta split: option.split)
  moreover have "chats_wf maximum (set_room name ((room_of (snd (saveChatMessages name cs)) name)\<lparr>r_joined := False\<rparr>)
      (snd (saveChatMessages name cs)))"
    using s by (simp add: chats_wf_rules)
  ultimately show ?case using s step_leave by fastforce
next
  case (step_load cs now content name)
  then show ?case by (rule loadChatMessages_wf)
next
  case (step_save cs names)
  then show ?case using saveChatMessages_wf [of maximum cs "[]"] save_rooms_wf
    by (auto simp: saveAllChatMessages_def split: prod.splits) (metis snd_conv)
next
  case (step_alive cs is_peer sender chat_rooms)
  let ?e = "fold (enter_room sender) chat_rooms cs"
  have "cs_messages ?e = cs_messages cs" by (induction chat_rooms arbitrary: cs) (auto simp: enter_room_def Let_def)
  then have e: "chats_wf maximum ?e" using step_alive by (simp add: chats_wf_def enter_rooms)
  have "chats_wf maximum (leave_others sender S c)" if "chats_wf maximum c" for S c
    unfolding chats_wf_def
  proof (intro conjI allI)
    show "chat_wf maximum (cs_messages (leave_others sender S c))" using that by (simp add: leave_others_def chats_wf_def)
    fix name show "chat_wf maximum (r_messages (room_of (leave_others sender S c) name))"
      using chats_wf_room [OF that, of name]
      by (auto simp: room_of_def leave_others_def new_room_def Let_def split: option.split)
  qed
  then show ?case using step_alive e by (simp add: received_IMAlive_def)
next
  case (step_chat cs now sender protos)
  then show ?case
    by (simp add: received_chat_messages_def Let_def case_prod_beta chats_wf_rules)
qed

text \<open>
  C37: In every state the chat can reach, by whatever messages, files and orders of the user, the main
  chat and every room hold at most the configured number of messages, without two of the same
  identifier, and know exactly the identifiers they hold.
\<close>

theorem chats_stay_bounded:
  assumes "chat_reachable maximum cs"
  shows "chats_wf maximum cs"
  using assms
proof (induction rule: chat_reachable.induct)
  case reach_start
  then show ?case by (simp add: chats_wf_def new_chat_system_def room_of_def new_room_def)
next
  case (reach_step cs cs')
  then show ?case by (blast intro: chat_step_wf)
qed

theorem chats_stay_bounded_witness:
  "chats_wf 3 (snd (received_chat_messages 3 5 [1] [fillProtoChatMessage (sample_message 1 10)] new_chat_system))"
  by (rule chats_stay_bounded, rule reach_step [OF reach_start], rule step_chat)

subsection \<open>What the code does not do\<close>

text \<open>Messages of several rooms all enter the room of the first one.\<close>

lemma mixed_rooms_accepted:
  "map cm_room (cd_messages (r_messages (room_of (snd (received_chat_messages 5 0 [1]
      [(fillProtoChatMessage (sample_message 1 10))\<lparr>pc_chat_room := [97]\<rparr>,
       (fillProtoChatMessage (sample_message 2 20))\<lparr>pc_chat_room := [98]\<rparr>]
      (set_room [97] (new_room\<lparr>r_joined := True\<rparr>) new_chat_system))) [97]))) = [[97], [98]]"
  by (simp add: received_chat_messages_def fillProtoChatMessage_def sample_message_def new_room_def no_messages_def
      add_messages_def insert_messages_def of_proto_def trim_def insert_at_def Let_def)

text \<open>A peer of a room is asked with the identifiers of the main chat.\<close>

lemma room_asked_with_main_identifiers:
  assumes "peers \<noteq> {}"
  shows "retrieveLastChatMessagesFromPeers N draw peers name cs =
           [Ask_last (draw peers) N (getLastMessageIDs N (cs_messages cs)) name]"
  using assms by (simp add: retrieveLastChatMessagesFromPeers_def)

end
