(* ===== verification/Sorted_Array.thy ===== *)
theory Sorted_Array
  imports Dg_Prelude "HOL-Library.While_Combinator" "HOL-Library.Monad_Syntax"
begin

text \<open>
  \<open>Common/Containers/SortedArray.h\<close>: a B-tree of order \<open>M\<close> that keeps its values sorted and
  gives access by index.  This theory holds the nodes, the searches and the iterators;
  \<open>Sorted_Array_Insert\<close> and \<open>Sorted_Array_Remove\<close> hold the changes of the tree.

  A node is its \<open>nbItems\<close> items, its children (none for a leaf, else one more than the items) and
  the stored size of its subtree.  The pointers to the parents are modelled by the way that leads
  from a node to the root: a list of frames, each an ancestor and the position of the child the
  way comes from; the child itself is what is in focus, not the one the frame stores.
\<close>

subsection \<open>Nodes\<close>

datatype 'a bnode = BNode (bn_items: "'a list") (bn_children: "'a bnode list") (bn_size: int)

type_synonym 'a frame = "'a bnode \<times> nat"

abbreviation nbItems :: "'a bnode \<Rightarrow> nat" where
  "nbItems n \<equiv> length (bn_items n)"

definition new_node :: "'a bnode" where
  "new_node = BNode [] [] 0"

definition plug :: "'a frame \<Rightarrow> 'a bnode \<Rightarrow> 'a bnode" where
  "plug f c = (case f of (p, i) \<Rightarrow> BNode (bn_items p) ((bn_children p)[i := c]) (bn_size p))"

fun root_of :: "'a bnode \<Rightarrow> 'a frame list \<Rightarrow> 'a bnode" where
  "root_of n [] = n"
| "root_of n (f # fs) = root_of (plug f n) fs"

definition set_item :: "nat \<Rightarrow> 'a \<Rightarrow> 'a bnode \<Rightarrow> 'a bnode" where
  "set_item i v n = BNode ((bn_items n)[i := v]) (bn_children n) (bn_size n)"

subsection \<open>Searches\<close>

text \<open>The binary search in a node; it may not return when the comparison is not an order.\<close>

partial_function (option) bsearch ::
  "('a \<Rightarrow> 'a \<Rightarrow> bool) \<Rightarrow> 'a \<Rightarrow> 'a list \<Rightarrow> nat \<Rightarrow> nat \<Rightarrow> (nat \<times> bool) option" where
  "bsearch lt v xs i1 i2 =
     (let i3 = (i2 + i1) div 2
      in if lt v (xs ! i3) then (if i1 + 1 = i3 then Some (i3, False) else bsearch lt v xs i1 i3)
         else if lt (xs ! i3) v then (if i3 + 1 = i2 then Some (i2, False) else bsearch lt v xs i3 i2)
         else Some (i3, True))"

declare bsearch.simps [code]

definition getPosition :: "('a \<Rightarrow> 'a \<Rightarrow> bool) \<Rightarrow> 'a bnode \<Rightarrow> 'a \<Rightarrow> (nat \<times> bool) option" where
  "getPosition lt node v =
     (let xs = bn_items node
      in if xs = [] \<or> lt v (xs ! 0) then Some (0, False)
         else if lt (xs ! (length xs - 1)) v then Some (length xs, False)
         else if \<not> lt (xs ! 0) v then Some (0, True)
         else bsearch lt v xs 0 (length xs))"

text \<open>
  \<open>position_or\<close> names the result of a search that returned; \<open>getPosition_returns\<close> shows that it
  does for an order.
\<close>

definition position_or :: "(nat \<times> bool) option \<Rightarrow> nat \<times> bool" where
  "position_or r = (case r of Some pe \<Rightarrow> pe | None \<Rightarrow> (0, False))"

abbreviation pos_in :: "('a \<Rightarrow> 'a \<Rightarrow> bool) \<Rightarrow> 'a bnode \<Rightarrow> 'a \<Rightarrow> nat \<times> bool" where
  "pos_in lt node v \<equiv> position_or (getPosition lt node v)"

text \<open>\<open>getNode\<close>: the node, the way to it and the position of the value, \<open>None\<close> for \<open>-1\<close>.\<close>

lemma child_smaller [termination_simp]: "p < length (bn_children n) \<Longrightarrow> size (bn_children n ! p) < size n"
proof (cases n)
  case (BNode xs cs s)
  assume "p < length (bn_children n)"
  then have "size (cs ! p) \<le> size_list size cs"
    by (intro size_list_estimation' [of "cs ! p"]) (simp_all add: BNode)
  then show ?thesis by (simp add: BNode)
qed

fun getNode ::
  "('a \<Rightarrow> 'a \<Rightarrow> bool) \<Rightarrow> 'a bnode \<Rightarrow> 'a \<Rightarrow> 'a frame list \<Rightarrow> 'a bnode \<times> 'a frame list \<times> nat option" where
  "getNode lt node v fs =
     (case pos_in lt node v of (p, ex) \<Rightarrow>
        if ex then (node, fs, Some p)
        else if p < length (bn_children node) then getNode lt (bn_children node ! p) v ((node, p) # fs)
        else (node, fs, None))"

definition contains :: "('a \<Rightarrow> 'a \<Rightarrow> bool) \<Rightarrow> 'a bnode \<Rightarrow> 'a \<Rightarrow> bool" where
  "contains lt root v = (case getNode lt root v [] of (_, _, p) \<Rightarrow> p \<noteq> None)"

definition children_size :: "nat \<Rightarrow> 'a bnode \<Rightarrow> int" where
  "children_size p node = (\<Sum>c \<leftarrow> take p (bn_children node). bn_size c)"

fun indexOf :: "('a \<Rightarrow> 'a \<Rightarrow> bool) \<Rightarrow> 'a bnode \<Rightarrow> 'a \<Rightarrow> int \<Rightarrow> int" where
  "indexOf lt node v nbItemsBefore =
     (case pos_in lt node v of (p, ex) \<Rightarrow>
        let nbItemsBefore = nbItemsBefore + int p + children_size p node
        in if \<not> ex then
             (if p < length (bn_children node) then indexOf lt (bn_children node ! p) v nbItemsBefore else -1)
           else nbItemsBefore)"

fun indexOfNearest :: "('a \<Rightarrow> 'a \<Rightarrow> bool) \<Rightarrow> 'a bnode \<Rightarrow> 'a \<Rightarrow> int \<Rightarrow> int" where
  "indexOfNearest lt node v nbItemsBefore =
     (case pos_in lt node v of (p, ex) \<Rightarrow>
        let nbItemsBefore = nbItemsBefore + int p + children_size p node
        in if \<not> ex then
             (if p < length (bn_children node) then indexOfNearest lt (bn_children node ! p) v nbItemsBefore
              else if nbItemsBefore = 0 then 0 else nbItemsBefore - 1)
           else nbItemsBefore)"

text \<open>
  \<open>getFromIndex\<close>: the loop over the positions of a node goes down into a child or returns a
  position (\<open>Inl\<close>); \<open>None\<close> is \<open>NotFoundException\<close>.
\<close>

datatype index_step = In_child nat int | At_item nat | Not_in_node

fun index_loop :: "'a bnode \<Rightarrow> int \<Rightarrow> nat \<Rightarrow> nat \<Rightarrow> int \<Rightarrow> index_step" where
  "index_loop node index i 0 nbItemsBefore = Not_in_node"
| "index_loop node index i (Suc left) nbItemsBefore =
     (if i < length (bn_children node) \<and> index < nbItemsBefore + bn_size (bn_children node ! i)
      then In_child i nbItemsBefore
      else (let nbItemsBefore =
                  (if i < length (bn_children node) then nbItemsBefore + bn_size (bn_children node ! i)
                   else nbItemsBefore)
            in if nbItemsBefore = index \<and> i < nbItems node then At_item i
               else index_loop node index (i + 1) left (nbItemsBefore + 1)))"

lemma index_loop_child:
  "index_loop node index i left b = In_child j b' \<Longrightarrow> j < length (bn_children node)"
  by (induction node index i left b rule: index_loop.induct) (auto simp: Let_def split: if_splits)

function getFromIndex :: "'a bnode \<Rightarrow> int \<Rightarrow> int \<Rightarrow> 'a frame list \<Rightarrow> ('a bnode \<times> 'a frame list \<times> nat) option" where
  "getFromIndex node index nbItemsBefore fs =
     (case index_loop node index 0 (nbItems node + 1) nbItemsBefore of
        In_child i b \<Rightarrow> getFromIndex (bn_children node ! i) index b ((node, i) # fs)
      | At_item i \<Rightarrow> Some (node, fs, i)
      | Not_in_node \<Rightarrow> None)"
  by pat_completeness auto
termination
  by (relation "measure (\<lambda>(node, _). size node)") (simp_all del: index_loop.simps add: child_smaller [OF index_loop_child])

declare index_loop.simps(2) [simp del]
declare getNode.simps [simp del] indexOf.simps [simp del] indexOfNearest.simps [simp del] getFromIndex.simps [simp del]

text \<open>\<open>get\<close>, the access by index.\<close>

definition get :: "'a bnode \<Rightarrow> int \<Rightarrow> 'a option" where
  "get root index =
     (if index \<ge> bn_size root then None
      else (case getFromIndex root index 0 [] of None \<Rightarrow> None | Some (n, _, p) \<Rightarrow> Some (bn_items n ! p)))"

definition getFromValue :: "('a \<Rightarrow> 'a \<Rightarrow> bool) \<Rightarrow> 'a bnode \<Rightarrow> 'a \<Rightarrow> 'a option" where
  "getFromValue lt root v =
     (case getNode lt root v [] of (_, _, None) \<Rightarrow> None | (n, _, Some p) \<Rightarrow> Some (bn_items n ! p))"

subsection \<open>Positions and iterators\<close>

type_synonym 'a position = "'a bnode \<times> 'a frame list \<times> int"

fun getLeftmostNode :: "'a bnode \<Rightarrow> 'a frame list \<Rightarrow> 'a bnode \<times> 'a frame list" where
  "getLeftmostNode node fs =
     (if 0 < length (bn_children node) then getLeftmostNode (bn_children node ! 0) ((node, 0) # fs)
      else (node, fs))"

fun getRightmostNode :: "'a bnode \<Rightarrow> 'a frame list \<Rightarrow> 'a bnode \<times> 'a frame list" where
  "getRightmostNode node fs =
     (if nbItems node < length (bn_children node)
      then getRightmostNode (bn_children node ! nbItems node) ((node, nbItems node) # fs)
      else (node, fs))"

declare getLeftmostNode.simps [simp del] getRightmostNode.simps [simp del]

text \<open>The loops that go up to the first ancestor with an item after, or before, the way.\<close>

fun climb_next :: "'a frame list \<Rightarrow> ('a bnode \<times> 'a frame list \<times> int) option" where
  "climb_next [] = None"
| "climb_next ((p, i) # fs) = (if i < nbItems p then Some (p, fs, int i) else climb_next fs)"

definition getNextPosition :: "'a position \<Rightarrow> 'a position" where
  "getNextPosition pos = (case pos of (node, fs, p) \<Rightarrow>
     let q = nat (p + 1)
     in if q < length (bn_children node)
        then (case getLeftmostNode (bn_children node ! q) ((node, q) # fs) of (n, gs) \<Rightarrow> (n, gs, 0))
        else if q < nbItems node then (node, fs, int q)
        else (case climb_next fs of Some pos \<Rightarrow> pos | None \<Rightarrow> (node, fs, p + 1)))"

fun climb_previous :: "'a frame list \<Rightarrow> ('a bnode \<times> 'a frame list \<times> int) option" where
  "climb_previous [] = None"
| "climb_previous ((p, i) # fs) = (if 1 \<le> i then Some (p, fs, int i - 1) else climb_previous fs)"

definition getPreviousPosition :: "'a position \<Rightarrow> 'a position" where
  "getPreviousPosition pos = (case pos of (node, fs, p) \<Rightarrow>
     if nat p < length (bn_children node)
     then (case getRightmostNode (bn_children node ! nat p) ((node, nat p) # fs) of
             (n, gs) \<Rightarrow> (n, gs, int (nbItems n) - 1))
     else if p - 1 \<ge> 0 then (node, fs, p - 1)
     else (case climb_previous fs of Some pos \<Rightarrow> pos | None \<Rightarrow> (node, fs, p - 1)))"

definition begin_pos :: "'a bnode \<Rightarrow> 'a position" where
  "begin_pos root = (case getLeftmostNode root [] of (n, fs) \<Rightarrow> (n, fs, 0))"

definition end_pos :: "'a bnode \<Rightarrow> 'a position" where
  "end_pos root = (case getRightmostNode root [] of (n, fs) \<Rightarrow> (n, fs, int (nbItems n)))"

definition item_at :: "'a position \<Rightarrow> 'a" where
  "item_at pos = (case pos of (n, _, p) \<Rightarrow> bn_items n ! nat p)"

text \<open>Two positions are the same when the node, here the way to it, and \<open>p\<close> are.\<close>

definition same_position :: "'a position \<Rightarrow> 'a position \<Rightarrow> bool" where
  "same_position a b = (map snd (fst (snd a)) = map snd (fst (snd b)) \<and> snd (snd a) = snd (snd b))"

fun positionOf :: "('a \<Rightarrow> 'a \<Rightarrow> bool) \<Rightarrow> 'a bnode \<Rightarrow> 'a \<Rightarrow> 'a frame list \<Rightarrow> 'a position option" where
  "positionOf lt node v fs =
     (case pos_in lt node v of (p, ex) \<Rightarrow>
        if \<not> ex then
          (if p < length (bn_children node) then positionOf lt (bn_children node ! p) v ((node, p) # fs) else None)
        else Some (node, fs, int p))"

fun positionOfNearest :: "('a \<Rightarrow> 'a \<Rightarrow> bool) \<Rightarrow> 'a bnode \<Rightarrow> 'a \<Rightarrow> 'a frame list \<Rightarrow> 'a position" where
  "positionOfNearest lt node v fs =
     (case pos_in lt node v of (p, ex) \<Rightarrow>
        if \<not> ex then
          (if p < length (bn_children node) then positionOfNearest lt (bn_children node ! p) v ((node, p) # fs)
           else if p > 0 then (node, fs, int p - 1)
           else (let previous = getPreviousPosition (node, fs, int p)
                 in if snd (snd previous) \<noteq> -1 then previous else (node, fs, int p)))
        else (node, fs, int p))"

declare positionOf.simps [simp del] positionOfNearest.simps [simp del]

end
