(* ===== verification/Sorted_Array_Inv.thy ===== *)
theory Sorted_Array_Inv
  imports Sorted_Array
begin

text \<open>
  What the B-tree of \<open>SortedArray.h\<close> means: the list of its values in order, the shape it keeps,
  and what surrounds a node on its way to the root.  Then the searches are shown to be what the
  list of values says.
\<close>

subsection \<open>The values in order\<close>

text \<open>\<open>weave\<close> puts the items of a node between the values of its children.\<close>

fun weave :: "'a list list \<Rightarrow> 'a list \<Rightarrow> 'a list" where
  "weave [] xs = xs"
| "weave (c # cs) [] = c @ concat cs"
| "weave (c # cs) (x # xs) = c @ x # weave cs xs"

fun weave_left :: "'a list list \<Rightarrow> 'a list \<Rightarrow> 'a list" where
  "weave_left (c # cs) (x # xs) = c @ x # weave_left cs xs"
| "weave_left _ _ = []"

fun weave_right :: "'a list list \<Rightarrow> 'a list \<Rightarrow> 'a list" where
  "weave_right (c # cs) (x # xs) = x # c @ weave_right cs xs"
| "weave_right _ _ = []"

fun inorder :: "'a bnode \<Rightarrow> 'a list" where
  "inorder (BNode xs cs s) = weave (map inorder cs) xs"

lemma inorder_node: "inorder n = weave (map inorder (bn_children n)) (bn_items n)"
  by (cases n) simp

lemma weave_right_Cons: "length cs = Suc (length xs) \<Longrightarrow> weave cs xs = hd cs @ weave_right (tl cs) xs"
  by (induction cs xs rule: weave.induct) (auto simp: neq_Nil_conv length_Suc_conv)

lemma weave_split:
  assumes "length cs = Suc (length xs)" "i \<le> length xs"
  shows "weave cs xs = weave_left (take i cs) (take i xs) @ cs ! i @ weave_right (drop (Suc i) cs) (drop i xs)"
  using assms
proof (induction i arbitrary: cs xs)
  case 0
  then show ?case by (cases cs) (simp_all add: weave_right_Cons)
next
  case (Suc i)
  then obtain c cs' x xs' where "cs = c # cs'" "xs = x # xs'"
    by (metis Suc_le_length_iff length_Suc_conv)
  with Suc show ?case by simp
qed

lemma weave_drop:
  assumes "length cs = Suc (length xs)" "i \<le> length xs"
  shows "weave (drop i cs) (drop i xs) = cs ! i @ weave_right (drop (Suc i) cs) (drop i xs)"
proof -
  have "drop i cs = cs ! i # drop (Suc i) cs" using assms by (simp add: Cons_nth_drop_Suc)
  moreover have "length (drop i cs) = Suc (length (drop i xs))" using assms by simp
  ultimately show ?thesis using weave_right_Cons [of "drop i cs" "drop i xs"] by simp
qed

lemma weave_left_snoc:
  assumes "length cs = Suc (length xs)" "i < length xs"
  shows "weave_left (take (Suc i) cs) (take (Suc i) xs) = weave (take (Suc i) cs) (take i xs) @ [xs ! i]"
  using assms
proof (induction i arbitrary: cs xs)
  case 0
  then show ?case by (cases cs; cases xs) simp_all
next
  case (Suc i)
  then obtain c cs' x xs' where "cs = c # cs'" "xs = x # xs'"
    by (metis Suc_less_eq2 length_Suc_conv)
  with Suc show ?case by simp
qed

lemma weave_right_Suc:
  assumes "length cs = Suc (length xs)" "i < length xs"
  shows "weave_right (drop (Suc i) cs) (drop i xs) = xs ! i # weave (drop (Suc i) cs) (drop (Suc i) xs)"
proof -
  have d: "drop i xs = xs ! i # drop (Suc i) xs" using assms by (simp add: Cons_nth_drop_Suc)
  have "drop (Suc i) cs = cs ! Suc i # drop (Suc (Suc i)) cs" using assms by (simp add: Cons_nth_drop_Suc)
  then show ?thesis using weave_drop [OF assms(1), of "Suc i"] assms by (simp add: d)
qed

text \<open>Around an item of a node with children, and of a leaf.\<close>

lemma weave_item:
  assumes "cs = [] \<or> length cs = Suc (length xs)" "i < length xs"
  shows "weave cs xs = weave (take (Suc i) cs) (take i xs) @ xs ! i # weave (drop (Suc i) cs) (drop (Suc i) xs)"
proof (cases "cs = []")
  case True
  then show ?thesis using assms by (simp add: id_take_nth_drop)
next
  case False
  then have l: "length cs = Suc (length xs)" using assms by simp
  have "weave cs xs = weave_left (take (Suc i) cs) (take (Suc i) xs) @ cs ! Suc i
      @ weave_right (drop (Suc (Suc i)) cs) (drop (Suc i) xs)"
    by (rule weave_split [OF l]) (use assms in simp)
  also have "\<dots> = weave (take (Suc i) cs) (take i xs) @ xs ! i # weave (drop (Suc i) cs) (drop (Suc i) xs)"
    using weave_drop [OF l, of "Suc i"] weave_left_snoc [OF l assms(2)] assms(2) by simp
  finally show ?thesis .
qed

lemma length_weave: "cs = [] \<or> length cs = Suc (length xs) \<Longrightarrow> length (weave cs xs) = length xs + length (concat cs)"
  by (induction cs xs rule: weave.induct) auto

lemma length_weave_left: "length cs = length xs \<Longrightarrow> length (weave_left cs xs) = length xs + length (concat cs)"
  by (induction cs xs rule: weave_left.induct) auto

lemma set_weave: "cs = [] \<or> length cs = Suc (length xs) \<Longrightarrow> set (weave cs xs) = set xs \<union> (\<Union>c\<in>set cs. set c)"
  by (induction cs xs rule: weave.induct) auto

subsection \<open>The shape\<close>

text \<open>
  A node of height \<open>h\<close> that is not the root has between \<open>R = M / 2\<close> and \<open>2 * R\<close> items; \<open>lo\<close> is the
  lower bound.
\<close>

primrec node_ok :: "nat \<Rightarrow> nat \<Rightarrow> nat \<Rightarrow> 'a bnode \<Rightarrow> bool" where
  "node_ok R lo 0 n = (bn_children n = [] \<and> bn_size n = int (nbItems n) \<and> lo \<le> nbItems n \<and> nbItems n \<le> 2 * R)"
| "node_ok R lo (Suc h) n =
     (length (bn_children n) = Suc (nbItems n) \<and> (\<forall>c \<in> set (bn_children n). node_ok R R h c) \<and>
      bn_size n = int (nbItems n) + (\<Sum>c \<leftarrow> bn_children n. bn_size c) \<and> lo \<le> nbItems n \<and> nbItems n \<le> 2 * R)"

fun height :: "'a bnode \<Rightarrow> nat" where
  "height n = (if 0 < length (bn_children n) then Suc (height (bn_children n ! 0)) else 0)"

declare height.simps [simp del]

definition tree_ok :: "nat \<Rightarrow> 'a bnode \<Rightarrow> bool" where
  "tree_ok R n = node_ok R (if height n = 0 then 0 else 1) (height n) n"

definition array_ok :: "('a \<Rightarrow> 'a \<Rightarrow> bool) \<Rightarrow> nat \<Rightarrow> 'a bnode \<Rightarrow> bool" where
  "array_ok lt M root = (tree_ok (M div 2) root \<and> sorted_wrt lt (inorder root))"

lemma node_ok_height: "node_ok R lo h n \<Longrightarrow> height n = h"
proof (induction h arbitrary: lo n)
  case 0
  then show ?case by (simp add: height.simps [of n])
next
  case (Suc h)
  then have "bn_children n ! 0 \<in> set (bn_children n)" "0 < length (bn_children n)" by simp_all
  then have "height (bn_children n ! 0) = h" using Suc.IH [of R] Suc.prems by (metis node_ok.simps(2))
  then show ?case using Suc.prems by (simp add: height.simps [of n])
qed

lemma tree_ok_iff: "tree_ok R n \<longleftrightarrow> (\<exists>h. node_ok R (if h = 0 then 0 else 1) h n)"
  using node_ok_height unfolding tree_ok_def by blast

lemma node_ok_lengths:
  "node_ok R lo h n \<Longrightarrow> map inorder (bn_children n) = [] \<or> length (map inorder (bn_children n)) = Suc (nbItems n)"
  by (cases h) auto

lemma node_ok_le: "node_ok R lo h n \<Longrightarrow> lo' \<le> lo \<Longrightarrow> node_ok R lo' h n"
  by (cases h) auto

lemma node_ok_bounds: "node_ok R lo h n \<Longrightarrow> lo \<le> nbItems n \<and> nbItems n \<le> 2 * R"
  by (cases h) auto

lemma sum_list_int_length:
  "(\<And>c. c \<in> set cs \<Longrightarrow> f c = int (length (g c))) \<Longrightarrow> (\<Sum>c \<leftarrow> cs. f c) = int (length (concat (map g cs)))"
  by (induction cs) auto

lemma node_ok_size: "node_ok R lo h n \<Longrightarrow> bn_size n = int (length (inorder n))"
proof (induction h arbitrary: lo n)
  case 0
  then show ?case by (simp add: inorder_node)
next
  case (Suc h)
  have "(\<Sum>c \<leftarrow> bn_children n. bn_size c) = int (length (concat (map inorder (bn_children n))))"
    by (rule sum_list_int_length) (use Suc in auto)
  then show ?case using Suc.prems by (simp add: inorder_node length_weave)
qed

subsection \<open>What surrounds a node\<close>

fun pre_of :: "'a frame list \<Rightarrow> 'a list" where
  "pre_of [] = []"
| "pre_of ((p, i) # fs) = pre_of fs @ weave_left (map inorder (take i (bn_children p))) (take i (bn_items p))"

fun suf_of :: "'a frame list \<Rightarrow> 'a list" where
  "suf_of [] = []"
| "suf_of ((p, i) # fs) = weave_right (map inorder (drop (Suc i) (bn_children p))) (drop i (bn_items p)) @ suf_of fs"

definition least_items :: "nat \<Rightarrow> nat \<Rightarrow> 'a frame list \<Rightarrow> nat" where
  "least_items R h fs = (if fs = [] then (if h = 0 then 0 else 1) else R)"

text \<open>The way to a node of height \<open>h\<close> and of size \<open>n\<close> is well formed.\<close>

fun way_ok :: "nat \<Rightarrow> nat \<Rightarrow> int \<Rightarrow> 'a frame list \<Rightarrow> bool" where
  "way_ok R h n [] = True"
| "way_ok R h n ((p, i) # fs) =
     (length (bn_children p) = Suc (nbItems p) \<and> i \<le> nbItems p \<and>
      (\<forall>j < length (bn_children p). j \<noteq> i \<longrightarrow> node_ok R R h (bn_children p ! j)) \<and>
      bn_size p = int (nbItems p) + (\<Sum>c \<leftarrow> take i (bn_children p). bn_size c) + n
        + (\<Sum>c \<leftarrow> drop (Suc i) (bn_children p). bn_size c) \<and>
      least_items R (Suc h) fs \<le> nbItems p \<and> nbItems p \<le> 2 * R \<and> way_ok R (Suc h) (bn_size p) fs)"

definition whole :: "'a frame list \<Rightarrow> 'a list \<Rightarrow> 'a list" where
  "whole fs l = pre_of fs @ l @ suf_of fs"

lemma plug_fields [simp]:
  "bn_items (plug (p, i) c) = bn_items p" "bn_children (plug (p, i) c) = (bn_children p)[i := c]"
  "bn_size (plug (p, i) c) = bn_size p"
  by (simp_all add: plug_def)

lemma sum_list_update_split:
  "i < length cs \<Longrightarrow> (\<Sum>c \<leftarrow> cs[i := x]. f c) = (\<Sum>c \<leftarrow> take i cs. f c) + f x + (\<Sum>c \<leftarrow> drop (Suc i) cs. (f c :: int))"
  by (simp add: upd_conv_take_nth_drop)

lemma inorder_plug:
  assumes "length (bn_children p) = Suc (nbItems p)" "i \<le> nbItems p"
  shows "inorder (plug (p, i) c) =
    weave_left (map inorder (take i (bn_children p))) (take i (bn_items p)) @ inorder c
      @ weave_right (map inorder (drop (Suc i) (bn_children p))) (drop i (bn_items p))"
  unfolding inorder_node [of "plug (p, i) c"]
  by (subst weave_split [of _ _ i]) (use assms in \<open>simp_all add: take_map drop_map drop_update_swap take_update_cancel\<close>)

lemma node_ok_plug:
  assumes "way_ok R h (bn_size c) ((p, i) # fs)" "node_ok R R h c"
  shows "node_ok R (least_items R (Suc h) fs) (Suc h) (plug (p, i) c)"
proof -
  have "\<forall>x \<in> set ((bn_children p)[i := c]). node_ok R R h x"
  proof
    fix x assume "x \<in> set ((bn_children p)[i := c])"
    then obtain j where "j < length (bn_children p)" "x = (bn_children p)[i := c] ! j"
      by (auto simp: in_set_conv_nth)
    then show "node_ok R R h x" using assms by (cases "j = i") simp_all
  qed
  moreover have "i < length (bn_children p)" using assms by simp
  ultimately show ?thesis using assms by (simp add: sum_list_update_split)
qed

lemma root_of_both:
  "way_ok R h (bn_size n) fs \<Longrightarrow> node_ok R (least_items R h fs) h n \<Longrightarrow>
   tree_ok R (root_of n fs) \<and> inorder (root_of n fs) = whole fs (inorder n)"
proof (induction fs arbitrary: n h)
  case Nil
  then have "node_ok R (if h = 0 then 0 else 1) h n" by (simp add: least_items_def)
  then have "tree_ok R n" unfolding tree_ok_iff by blast
  then show ?case by (simp add: whole_def)
next
  case (Cons f fs)
  obtain p i where f: "f = (p, i)" by fastforce
  have c: "node_ok R R h n" using Cons.prems(2) by (simp add: least_items_def)
  have "node_ok R (least_items R (Suc h) fs) (Suc h) (plug f n)"
    using node_ok_plug [OF _ c] Cons.prems(1) unfolding f by blast
  moreover have "way_ok R (Suc h) (bn_size (plug f n)) fs" "length (bn_children p) = Suc (nbItems p)" "i \<le> nbItems p"
    using Cons.prems(1) unfolding f way_ok.simps plug_fields by blast+
  ultimately show ?case using Cons.IH [of "Suc h" "plug f n"] by (simp add: f whole_def inorder_plug)
qed

lemmas root_of_ok = root_of_both [THEN conjunct1] root_of_both [THEN conjunct2]

text \<open>Going down into a child.\<close>

lemma way_down:
  assumes "node_ok R (least_items R (Suc h) fs) (Suc h) n" "way_ok R (Suc h) (bn_size n) fs" "i \<le> nbItems n"
  shows "way_ok R h (bn_size (bn_children n ! i)) ((n, i) # fs)" "node_ok R R h (bn_children n ! i)"
    "whole ((n, i) # fs) (inorder (bn_children n ! i)) = whole fs (inorder n)"
    "root_of (bn_children n ! i) ((n, i) # fs) = root_of n fs"
proof -
  let ?cs = "bn_children n"
  have l: "length ?cs = Suc (nbItems n)" using assms by simp
  have i: "i < length ?cs" using assms l by simp
  have s: "(\<Sum>c \<leftarrow> ?cs. bn_size c) = (\<Sum>c \<leftarrow> take i ?cs. bn_size c) + bn_size (?cs ! i) + (\<Sum>c \<leftarrow> drop (Suc i) ?cs. bn_size c)"
    using sum_list_update_split [OF i, of bn_size "?cs ! i"] by simp
  show "way_ok R h (bn_size (?cs ! i)) ((n, i) # fs)" using assms l s by simp
  show "node_ok R R h (?cs ! i)" using assms i by simp
  have p: "plug (n, i) (?cs ! i) = n" by (simp add: plug_def)
  show "whole ((n, i) # fs) (inorder (?cs ! i)) = whole fs (inorder n)"
    using inorder_plug [OF l assms(3), of "?cs ! i"] by (simp add: p whole_def)
  show "root_of (?cs ! i) ((n, i) # fs) = root_of n fs" by (simp add: p)
qed

end
