(* ===== verification/Sorted_Array_Search.thy ===== *)
theory Sorted_Array_Search
  imports Sorted_Array_Inv
begin

text \<open>
  The searches of \<open>SortedArray.h\<close> against the list of the values: the interface of the order
  (\<open>value_order\<close>, what the code needs of the comparison it is given), the position in a node, the
  node of a value, its index and the access by index.
\<close>

subsection \<open>The order of the values\<close>

definition same_value :: "('a \<Rightarrow> 'a \<Rightarrow> bool) \<Rightarrow> 'a \<Rightarrow> 'a \<Rightarrow> bool" where
  "same_value lt a b = (\<not> lt a b \<and> \<not> lt b a)"

definition rank :: "('a \<Rightarrow> 'a \<Rightarrow> bool) \<Rightarrow> 'a \<Rightarrow> 'a list \<Rightarrow> nat" where
  "rank lt v l = length (filter (\<lambda>x. lt x v) l)"

definition at_position :: "('a \<Rightarrow> 'a \<Rightarrow> bool) \<Rightarrow> 'a \<Rightarrow> 'a list \<Rightarrow> nat \<Rightarrow> bool \<Rightarrow> bool" where
  "at_position lt v xs p ex =
     (p \<le> length xs \<and> (\<forall>x \<in> set (take p xs). lt x v) \<and>
      (if ex then p < length xs \<and> same_value lt (xs ! p) v else (\<forall>x \<in> set (drop p xs). lt v x)))"

lemma sorted_wrt_weave:
  "cs = [] \<or> length cs = Suc (length xs) \<Longrightarrow> sorted_wrt r (weave cs xs) \<Longrightarrow> sorted_wrt r xs"
  by (induction cs xs rule: weave.induct) (auto simp: sorted_wrt_append set_weave)

lemma rank_append [simp]: "rank lt v (xs @ ys) = rank lt v xs + rank lt v ys"
  by (simp add: rank_def)

locale value_order =
  fixes lt :: "'a \<Rightarrow> 'a \<Rightarrow> bool"
  assumes lt_irrefl: "\<not> lt a a"
    and lt_trans: "lt a b \<Longrightarrow> lt b c \<Longrightarrow> lt a c"
    and lt_weak: "lt a b \<Longrightarrow> lt a c \<or> lt c b"
begin

lemma lt_asym: "lt a b \<Longrightarrow> \<not> lt b a"
  using lt_trans lt_irrefl by blast

lemma same_lt_left: "same_value lt a b \<Longrightarrow> lt a c \<longleftrightarrow> lt b c"
  unfolding same_value_def using lt_weak lt_trans by blast

lemma same_lt_right: "same_value lt a b \<Longrightarrow> lt c a \<longleftrightarrow> lt c b"
  unfolding same_value_def using lt_weak lt_trans by blast

lemma sorted_before: "sorted_wrt lt (a @ x # b) \<Longrightarrow> y \<in> set a \<Longrightarrow> \<not> lt v x \<Longrightarrow> lt y v"
  using lt_weak [of y x v] by (auto simp: sorted_wrt_append)

lemma sorted_after: "sorted_wrt lt (a @ x # b) \<Longrightarrow> y \<in> set b \<Longrightarrow> \<not> lt x v \<Longrightarrow> lt v y"
  using lt_weak [of x y v] by (auto simp: sorted_wrt_append)

lemma sorted_nth_before: "sorted_wrt lt xs \<Longrightarrow> i < length xs \<Longrightarrow> \<not> lt v (xs ! i) \<Longrightarrow> x \<in> set (take i xs) \<Longrightarrow> lt x v"
  using sorted_before [of "take i xs" "xs ! i" "drop (Suc i) xs"] by (simp add: id_take_nth_drop [symmetric])

lemma sorted_nth_after: "sorted_wrt lt xs \<Longrightarrow> i < length xs \<Longrightarrow> \<not> lt (xs ! i) v \<Longrightarrow> x \<in> set (drop (Suc i) xs) \<Longrightarrow> lt v x"
  using sorted_after [of "take i xs" "xs ! i" "drop (Suc i) xs"] by (simp add: id_take_nth_drop [symmetric])

subsection \<open>The position in a node\<close>

lemma at_position_between:
  assumes "sorted_wrt lt xs" "i < length xs" "lt (xs ! i) v" "Suc i = length xs \<or> lt v (xs ! Suc i)"
  shows "at_position lt v xs (Suc i) False"
proof -
  have "\<forall>x \<in> set (take (Suc i) xs). lt x v"
    using sorted_nth_before [OF assms(1,2), of v] assms(2,3) lt_asym by (auto simp: take_Suc_conv_app_nth)
  moreover have "\<forall>x \<in> set (drop (Suc i) xs). lt v x"
  proof (cases "Suc i = length xs")
    case False
    then have n: "Suc i < length xs" "lt v (xs ! Suc i)" using assms by simp_all
    then have "drop (Suc i) xs = xs ! Suc i # drop (Suc (Suc i)) xs" by (simp add: Cons_nth_drop_Suc)
    then show ?thesis using sorted_nth_after [OF assms(1) n(1), of v] n(2) lt_asym by auto
  qed simp
  ultimately show ?thesis using assms(2) by (simp add: at_position_def)
qed

lemma at_position_found:
  assumes "sorted_wrt lt xs" "i < length xs" "\<not> lt v (xs ! i)" "\<not> lt (xs ! i) v"
  shows "at_position lt v xs i True"
  using assms sorted_nth_before [OF assms(1,2,3)] by (simp add: at_position_def same_value_def)

lemma bsearch_position:
  assumes "sorted_wrt lt xs" "i1 < i2" "i2 \<le> length xs" "lt (xs ! i1) v" "i2 = length xs \<or> lt v (xs ! i2)"
  shows "\<exists>p ex. bsearch lt v xs i1 i2 = Some (p, ex) \<and> at_position lt v xs p ex"
  using assms(2-)
proof (induction "i2 - i1" arbitrary: i1 i2 rule: less_induct)
  case less
  let ?m = "(i2 + i1) div 2"
  have m: "i1 \<le> ?m" "?m < i2" using less.prems by auto
  then have ml: "?m < length xs" using less.prems by simp
  consider (l) "lt v (xs ! ?m)" | (r) "lt (xs ! ?m) v" | (e) "\<not> lt v (xs ! ?m)" "\<not> lt (xs ! ?m) v" by blast
  then show ?case
  proof cases
    case l
    then have i: "i1 < ?m" using m less.prems(3) lt_asym by (metis nat_less_le)
    show ?thesis
    proof (cases "i1 + 1 = ?m")
      case True
      have "at_position lt v xs (Suc i1) False"
        by (rule at_position_between [OF assms(1)]) (use True l less.prems ml in auto)
      then show ?thesis using True l by (subst bsearch.simps) (auto simp: Let_def)
    next
      case False
      have "\<exists>p ex. bsearch lt v xs i1 ?m = Some (p, ex) \<and> at_position lt v xs p ex"
        by (rule less.hyps) (use i m l ml less.prems in auto)
      then show ?thesis using False l by (subst bsearch.simps) (auto simp: Let_def)
    qed
  next
    case r
    then have nl: "\<not> lt v (xs ! ?m)" using lt_asym by blast
    show ?thesis
    proof (cases "?m + 1 = i2")
      case True
      have "at_position lt v xs (Suc ?m) False"
        by (rule at_position_between [OF assms(1)]) (use True r less.prems ml in auto)
      then show ?thesis using True r nl by (subst bsearch.simps) (auto simp: Let_def)
    next
      case False
      have "i1 < ?m" using m False by linarith
      then have "\<exists>p ex. bsearch lt v xs ?m i2 = Some (p, ex) \<and> at_position lt v xs p ex"
        by (intro less.hyps) (use m r ml less.prems in auto)
      then show ?thesis using False r nl by (subst bsearch.simps) (auto simp: Let_def)
    qed
  next
    case e
    then show ?thesis using at_position_found [OF assms(1) ml] by (subst bsearch.simps) (auto simp: Let_def)
  qed
qed

lemma getPosition_position:
  assumes "sorted_wrt lt (bn_items node)"
  shows "\<exists>p ex. getPosition lt node v = Some (p, ex) \<and> at_position lt v (bn_items node) p ex"
proof -
  let ?xs = "bn_items node"
  consider (e) "?xs = []" | (f) "?xs \<noteq> []" "lt v (?xs ! 0)" | (l) "?xs \<noteq> []" "\<not> lt v (?xs ! 0)" "lt (?xs ! (length ?xs - 1)) v"
    | (z) "?xs \<noteq> []" "\<not> lt v (?xs ! 0)" "\<not> lt (?xs ! (length ?xs - 1)) v" "\<not> lt (?xs ! 0) v"
    | (b) "?xs \<noteq> []" "\<not> lt v (?xs ! 0)" "\<not> lt (?xs ! (length ?xs - 1)) v" "lt (?xs ! 0) v" by blast
  then show ?thesis
  proof cases
    case e
    then show ?thesis by (auto simp: getPosition_def at_position_def)
  next
    case f
    have "?xs = ?xs ! 0 # drop 1 ?xs" using f(1) by (cases ?xs) auto
    then have "\<forall>x \<in> set ?xs. lt v x"
      using sorted_nth_after [OF assms, of 0 v] f lt_asym by (metis One_nat_def length_greater_0_conv set_ConsD)
    then show ?thesis using f by (auto simp: getPosition_def at_position_def)
  next
    case l
    have "at_position lt v ?xs (Suc (length ?xs - 1)) False"
      by (rule at_position_between [OF assms]) (use l in auto)
    then show ?thesis using l by (auto simp: getPosition_def Let_def)
  next
    case z
    then show ?thesis using at_position_found [OF assms, of 0 v] by (auto simp: getPosition_def Let_def)
  next
    case b
    then show ?thesis using bsearch_position [OF assms, of 0 "length ?xs" v] by (simp add: getPosition_def Let_def)
  qed
qed

lemma pos_in_position:
  assumes "sorted_wrt lt (bn_items node)"
  obtains p ex where "pos_in lt node v = (p, ex)" "at_position lt v (bn_items node) p ex"
  using getPosition_position [OF assms, of v] by (auto simp: position_or_def)

subsection \<open>The node of a value\<close>

lemma weave_left_less:
  "sorted_wrt lt (weave_left cs xs) \<Longrightarrow> \<forall>x \<in> set xs. lt x v \<Longrightarrow> y \<in> set (weave_left cs xs) \<Longrightarrow> lt y v"
  by (induction cs xs rule: weave_left.induct) (auto simp: sorted_wrt_append intro: lt_trans)

lemma weave_right_greater:
  "sorted_wrt lt (weave_right cs xs) \<Longrightarrow> \<forall>x \<in> set xs. lt v x \<Longrightarrow> y \<in> set (weave_right cs xs) \<Longrightarrow> lt v y"
  by (induction cs xs rule: weave_right.induct) (auto simp: sorted_wrt_append intro: lt_trans)

definition between :: "'a \<Rightarrow> 'a frame list \<Rightarrow> bool" where
  "between v fs = ((\<forall>x \<in> set (pre_of fs). lt x v) \<and> (\<forall>x \<in> set (suf_of fs). lt v x))"

lemma between_down:
  assumes "sorted_wrt lt (whole ((n, p) # fs) l)" "between v fs" "at_position lt v (bn_items n) p False"
  shows "between v ((n, p) # fs)"
proof -
  let ?l = "weave_left (map inorder (take p (bn_children n))) (take p (bn_items n))"
  let ?r = "weave_right (map inorder (drop (Suc p) (bn_children n))) (drop p (bn_items n))"
  have "sorted_wrt lt ?l" "sorted_wrt lt ?r" using assms(1) by (auto simp: whole_def sorted_wrt_append)
  moreover have "\<forall>x \<in> set (take p (bn_items n)). lt x v" "\<forall>x \<in> set (drop p (bn_items n)). lt v x"
    using assms(3) by (simp_all add: at_position_def)
  ultimately have "\<forall>x \<in> set ?l. lt x v" "\<forall>x \<in> set ?r. lt v x"
    using weave_left_less weave_right_greater by blast+
  then show ?thesis using assms(2) by (auto simp: between_def)
qed

lemma sorted_items:
  assumes "sorted_wrt lt (whole fs (inorder n))" "node_ok R lo h n"
  shows "sorted_wrt lt (bn_items n)"
proof -
  have "sorted_wrt lt (inorder n)" using assms(1) by (auto simp: whole_def sorted_wrt_append)
  then show ?thesis using sorted_wrt_weave [OF node_ok_lengths [OF assms(2)]] by (simp add: inorder_node)
qed

definition found_node :: "nat \<Rightarrow> 'a \<Rightarrow> 'a bnode \<Rightarrow> 'a frame list \<Rightarrow> nat option \<Rightarrow> bool" where
  "found_node R v n fs pos =
     (\<exists>h. node_ok R (least_items R h fs) h n \<and> way_ok R h (bn_size n) fs \<and> between v fs \<and>
        (case pos of Some p \<Rightarrow> at_position lt v (bn_items n) p True
         | None \<Rightarrow> h = 0 \<and> (\<exists>p. at_position lt v (bn_items n) p False)))"

lemma found_item:
  "node_ok R (least_items R h fs) h n \<Longrightarrow> way_ok R h (bn_size n) fs \<Longrightarrow> between v fs \<Longrightarrow>
   at_position lt v (bn_items n) p True \<Longrightarrow> found_node R v n fs (Some p)"
  unfolding found_node_def by auto

lemma found_leaf:
  "node_ok R (least_items R 0 fs) 0 n \<Longrightarrow> way_ok R 0 (bn_size n) fs \<Longrightarrow> between v fs \<Longrightarrow>
   at_position lt v (bn_items n) p False \<Longrightarrow> found_node R v n fs None"
  unfolding found_node_def by auto

lemma getNode_found:
  assumes "node_ok R (least_items R h fs) h node" "way_ok R h (bn_size node) fs"
    "sorted_wrt lt (whole fs (inorder node))" "between v fs"
    "getNode lt node v fs = (n, gs, pos)"
  shows "found_node R v n gs pos \<and> whole gs (inorder n) = whole fs (inorder node) \<and> root_of n gs = root_of node fs"
  using assms
proof (induction h arbitrary: node fs)
  case 0
  obtain p ex where p: "pos_in lt node v = (p, ex)" "at_position lt v (bn_items node) p ex"
    using pos_in_position [OF sorted_items [OF 0(3) 0(1)]] .
  have "n = node" "gs = fs" "pos = (if ex then Some p else None)"
    using 0(5,1) p(1) by (simp_all add: getNode.simps [of lt node] split: if_splits)
  then show ?case using found_item [OF 0(1,2,4)] found_leaf [OF 0(1,2,4)] p(2) by (cases ex) simp_all
next
  case (Suc h)
  obtain p ex where p: "pos_in lt node v = (p, ex)" "at_position lt v (bn_items node) p ex"
    using pos_in_position [OF sorted_items [OF Suc.prems(3) Suc.prems(1)]] .
  show ?case
  proof (cases ex)
    case True
    then have "n = node" "gs = fs" "pos = Some p"
      using Suc.prems(5) p(1) by (simp_all add: getNode.simps [of lt node])
    then show ?thesis using found_item [OF Suc.prems(1,2,4)] p(2) True by simp
  next
    case False
    have i: "p \<le> nbItems node" using p(2) by (simp add: at_position_def)
    note d = way_down [OF Suc.prems(1,2) i]
    have "p < length (bn_children node)" using i Suc.prems(1) by simp
    then have g: "getNode lt (bn_children node ! p) v ((node, p) # fs) = (n, gs, pos)"
      using Suc.prems(5) p(1) False by (simp add: getNode.simps [of lt node])
    have ok: "node_ok R (least_items R h ((node, p) # fs)) h (bn_children node ! p)"
      using d(2) by (simp add: least_items_def)
    have so: "sorted_wrt lt (whole ((node, p) # fs) (inorder (bn_children node ! p)))"
      using Suc.prems(3) d(3) by simp
    show ?thesis
      using Suc.IH [OF ok d(1) so between_down [OF so Suc.prems(4)] g] p(2) False d(3,4) by simp
  qed
qed

lemma getNode_root:
  assumes "array_ok lt M root" "getNode lt root v [] = (n, fs, pos)"
  shows "found_node (M div 2) v n fs pos" "whole fs (inorder n) = inorder root" "root_of n fs = root"
proof -
  obtain h where "node_ok (M div 2) (if h = 0 then 0 else 1) h root"
    using assms(1) by (auto simp: array_ok_def tree_ok_iff)
  then have h: "node_ok (M div 2) (least_items (M div 2) h ([] :: 'a frame list)) h root"
    by (simp add: least_items_def)
  have "found_node (M div 2) v n fs pos \<and> whole fs (inorder n) = whole [] (inorder root) \<and> root_of n fs = root_of root []"
    by (rule getNode_found [OF h _ _ _ assms(2)])
      (use assms(1) in \<open>simp_all add: array_ok_def whole_def between_def\<close>)
  then show "found_node (M div 2) v n fs pos" "whole fs (inorder n) = inorder root" "root_of n fs = root"
    by (simp_all add: whole_def)
qed

end

end
