(* ===== verification/Sorted_Array_Index.thy ===== *)
theory Sorted_Array_Index
  imports Sorted_Array_Search
begin

text \<open>
  Finding values and indexes in the B-tree of \<open>SortedArray.h\<close>: \<open>contains\<close> and \<open>getFromValue\<close> find a
  value exactly when the list of values has it, the access by index is the list's, and \<open>indexOf\<close> is
  the rank of the value except in an inner node, where the child before the item is not counted.
\<close>

subsection \<open>Values\<close>

context value_order
begin

lemma found_node_present:
  assumes "found_node R v n fs (Some p)"
  shows "p < nbItems n" "same_value lt (bn_items n ! p) v" "bn_items n ! p \<in> set (whole fs (inorder n))"
proof -
  from assms obtain h where h: "node_ok R (least_items R h fs) h n" "at_position lt v (bn_items n) p True"
    by (auto simp: found_node_def)
  then show p: "p < nbItems n" and "same_value lt (bn_items n ! p) v" by (simp_all add: at_position_def)
  have "set (bn_items n) \<subseteq> set (inorder n)" using node_ok_lengths [OF h(1)] by (simp add: inorder_node set_weave)
  then show "bn_items n ! p \<in> set (whole fs (inorder n))" using nth_mem [OF p] by (auto simp: whole_def)
qed

lemma found_node_absent:
  assumes "found_node R v n fs None" "x \<in> set (whole fs (inorder n))"
  shows "\<not> same_value lt x v"
proof -
  from assms(1) obtain p where p: "between v fs" "bn_children n = []" "at_position lt v (bn_items n) p False"
    by (auto simp: found_node_def)
  have "set (bn_items n) = set (take p (bn_items n)) \<union> set (drop p (bn_items n))"
    by (metis append_take_drop_id set_append)
  then have "lt x v \<or> lt v x"
    using assms(2) p by (auto simp: whole_def between_def inorder_node at_position_def)
  then show ?thesis by (auto simp: same_value_def)
qed

lemma contains_present:
  assumes "array_ok lt M root"
  shows "contains lt root v \<longleftrightarrow> (\<exists>x \<in> set (inorder root). same_value lt x v)"
proof -
  obtain n fs pos where g: "getNode lt root v [] = (n, fs, pos)" by (metis prod_cases3)
  note f = getNode_root [OF assms g]
  show ?thesis
  proof (cases pos)
    case None
    then show ?thesis using found_node_absent f(1,2) by (auto simp: contains_def g)
  next
    case (Some p)
    then show ?thesis using found_node_present [OF f(1) [unfolded Some]] f(2) by (auto simp: contains_def g)
  qed
qed

lemma getFromValue_found:
  assumes "array_ok lt M root"
  shows "case getFromValue lt root v of None \<Rightarrow> \<forall>x \<in> set (inorder root). \<not> same_value lt x v
    | Some x \<Rightarrow> x \<in> set (inorder root) \<and> same_value lt x v"
proof -
  obtain n fs pos where g: "getNode lt root v [] = (n, fs, pos)" by (metis prod_cases3)
  note f = getNode_root [OF assms g]
  show ?thesis
  proof (cases pos)
    case None
    then show ?thesis using found_node_absent f(1,2) by (auto simp: getFromValue_def g)
  next
    case (Some p)
    then show ?thesis using found_node_present [OF f(1) [unfolded Some]] f(2) by (auto simp: getFromValue_def g)
  qed
qed

subsection \<open>Ranks\<close>


lemma rank_all: "\<forall>x \<in> set xs. lt x v \<Longrightarrow> rank lt v xs = length xs"
  by (simp add: rank_def)

lemma rank_none: "\<forall>x \<in> set xs. \<not> lt x v \<Longrightarrow> rank lt v xs = 0"
  by (simp add: rank_def)

lemma rank_greater: "\<forall>x \<in> set xs. lt v x \<Longrightarrow> rank lt v xs = 0"
  using lt_asym by (auto intro: rank_none)

end

lemma children_size_inorder:
  assumes "node_ok R lo h n"
  shows "children_size p n = int (length (concat (map inorder (take p (bn_children n)))))"
proof (cases h)
  case 0
  then show ?thesis using assms by (simp add: children_size_def)
next
  case (Suc k)
  have "\<forall>c \<in> set (take p (bn_children n)). node_ok R R k c" using assms Suc by (auto dest: in_set_takeD)
  then show ?thesis unfolding children_size_def using node_ok_size by (intro sum_list_int_length) blast
qed

lemma inorder_leaf: "node_ok R lo 0 n \<Longrightarrow> inorder n = bn_items n"
  by (simp add: inorder_node)

lemma length_before_child:
  assumes "node_ok R lo (Suc h) n" "p \<le> nbItems n"
  shows "int (length (weave_left (map inorder (take p (bn_children n))) (take p (bn_items n)))) = int p + children_size p n"
  using assms children_size_inorder [OF assms(1), of p]
  by (subst length_weave_left) (simp_all add: min_def)

lemma inorder_child:
  assumes "node_ok R lo (Suc h) n" "p \<le> nbItems n"
  shows "inorder n = weave_left (map inorder (take p (bn_children n))) (take p (bn_items n)) @
     inorder (bn_children n ! p) @ weave_right (map inorder (drop (Suc p) (bn_children n))) (drop p (bn_items n))"
proof -
  have "plug (n, p) (bn_children n ! p) = n" by (simp add: plug_def)
  then show ?thesis using inorder_plug [of n p "bn_children n ! p"] assms by simp
qed

definition forgotten :: "'a bnode \<Rightarrow> nat option \<Rightarrow> int" where
  "forgotten n pos = (case pos of None \<Rightarrow> 0
     | Some p \<Rightarrow> if p < length (bn_children n) then bn_size (bn_children n ! p) else 0)"

context value_order
begin

lemma rank_child:
  assumes "node_ok R lo (Suc h) n" "sorted_wrt lt (inorder n)" "at_position lt v (bn_items n) p ex"
  shows "int (rank lt v (inorder n)) = int p + children_size p n + int (rank lt v (inorder (bn_children n ! p)))"
    "\<not> ex \<Longrightarrow> (\<exists>x \<in> set (inorder n). same_value lt x v) \<longleftrightarrow> (\<exists>x \<in> set (inorder (bn_children n ! p)). same_value lt x v)"
    "ex \<Longrightarrow> int (rank lt v (inorder (bn_children n ! p))) = bn_size (bn_children n ! p)"
proof -
  let ?l = "weave_left (map inorder (take p (bn_children n))) (take p (bn_items n))"
  let ?r = "weave_right (map inorder (drop (Suc p) (bn_children n))) (drop p (bn_items n))"
  have p: "p \<le> nbItems n" using assms(3) by (simp add: at_position_def)
  have i: "inorder n = ?l @ inorder (bn_children n ! p) @ ?r" by (rule inorder_child [OF assms(1) p])
  have s: "sorted_wrt lt ?l" "sorted_wrt lt ?r" using assms(2) by (simp_all add: i sorted_wrt_append)
  have l: "\<forall>x \<in> set ?l. lt x v" using weave_left_less [OF s(1)] assms(3) unfolding at_position_def by blast
  have r: "\<forall>x \<in> set ?r. \<not> lt x v"
  proof (cases ex)
    case False
    then have "\<forall>x \<in> set ?r. lt v x" using weave_right_greater [OF s(2)] assms(3) unfolding at_position_def by simp
    then show ?thesis using lt_asym by blast
  next
    case True
    then have x: "p < nbItems n" "same_value lt (bn_items n ! p) v" using assms(3) by (simp_all add: at_position_def)
    have "?r = bn_items n ! p # weave (map inorder (drop (Suc p) (bn_children n))) (drop (Suc p) (bn_items n))"
      using weave_right_Suc [of "map inorder (bn_children n)" "bn_items n" p] x assms(1) by (simp add: drop_map)
    moreover from this have "\<forall>y \<in> set (tl ?r). lt v y"
      using s(2) same_lt_left [OF x(2)] by simp
    ultimately show ?thesis using x(2) lt_asym unfolding same_value_def by (metis list.sel(3) set_ConsD)
  qed
  show "int (rank lt v (inorder n)) = int p + children_size p n + int (rank lt v (inorder (bn_children n ! p)))"
    using rank_all [OF l] rank_none [OF r] length_before_child [OF assms(1) p] by (simp add: i)
  assume "\<not> ex"
  then have "\<forall>x \<in> set ?r. lt v x" using weave_right_greater [OF s(2)] assms(3) unfolding at_position_def by simp
  then show "(\<exists>x \<in> set (inorder n). same_value lt x v) \<longleftrightarrow> (\<exists>x \<in> set (inorder (bn_children n ! p)). same_value lt x v)"
    using l by (auto simp: i same_value_def)
next
  assume ex
  then have x: "p < nbItems n" "same_value lt (bn_items n ! p) v" using assms(3) by (simp_all add: at_position_def)
  have "sorted_wrt lt (inorder (bn_children n ! p) @ bn_items n ! p # rest)"
    if "rest = weave (map inorder (drop (Suc p) (bn_children n))) (drop (Suc p) (bn_items n))" for rest
    using assms(2) x weave_right_Suc [of "map inorder (bn_children n)" "bn_items n" p] assms(1) that
    by (simp add: inorder_child [OF assms(1), of p] sorted_wrt_append drop_map)
  then have "\<forall>y \<in> set (inorder (bn_children n ! p)). lt y v"
    using x(2) unfolding same_value_def by (blast dest: sorted_before)
  moreover have "node_ok R R h (bn_children n ! p)" using assms(1) x(1) by simp
  ultimately show "int (rank lt v (inorder (bn_children n ! p))) = bn_size (bn_children n ! p)"
    using rank_all node_ok_size by metis
qed

lemma rank_leaf:
  assumes "node_ok R lo 0 n" "at_position lt v (bn_items n) p ex" "sorted_wrt lt (bn_items n)"
  shows "rank lt v (inorder n) = p" "(\<exists>x \<in> set (inorder n). same_value lt x v) \<longleftrightarrow> ex"
proof -
  let ?xs = "bn_items n"
  have i: "inorder n = take p ?xs @ drop p ?xs" using assms(1) by (simp add: inorder_node)
  have "\<forall>x \<in> set (drop p ?xs). \<not> lt x v"
  proof (cases ex)
    case True
    then have "p < length ?xs" "same_value lt (?xs ! p) v" using assms(2) by (simp_all add: at_position_def)
    moreover from this have "drop p ?xs = ?xs ! p # drop (Suc p) ?xs" by (simp add: Cons_nth_drop_Suc)
    ultimately show ?thesis using sorted_nth_after [OF assms(3), of p v] lt_asym unfolding same_value_def
      by (metis set_ConsD)
  next
    case False
    then show ?thesis using assms(2) lt_asym by (auto simp: at_position_def)
  qed
  then show "rank lt v (inorder n) = p"
    using rank_all [of "take p ?xs" v] rank_none [of "drop p ?xs" v] assms(2) unfolding i rank_append
    by (simp add: at_position_def)
  show "(\<exists>x \<in> set (inorder n). same_value lt x v) \<longleftrightarrow> ex"
  proof (cases ex)
    case True
    then show ?thesis using assms(1,2) nth_mem [of p ?xs] by (auto simp: at_position_def inorder_node)
  next
    case False
    have u: "set ?xs = set (take p ?xs) \<union> set (drop p ?xs)" by (metis append_take_drop_id set_append)
    have "\<forall>x \<in> set ?xs. lt x v \<or> lt v x" unfolding u using False assms(2) by (auto simp: at_position_def)
    then show ?thesis using False by (auto simp: inorder_leaf [OF assms(1)] same_value_def)
  qed
qed

text \<open>
  \<open>indexOf\<close> and \<open>indexOfNearest\<close>.  For a value found in an inner node they do not count the child
  before it (\<open>forgotten\<close>).
\<close>

lemma indexOf_from:
  assumes "node_ok R lo h node" "sorted_wrt lt (inorder node)" "getNode lt node v fs = (n, gs, pos)"
  shows "indexOf lt node v b =
      (if \<exists>x \<in> set (inorder node). same_value lt x v
       then b + int (rank lt v (inorder node)) - forgotten n pos else -1) \<and>
    indexOfNearest lt node v b =
      (if \<exists>x \<in> set (inorder node). same_value lt x v
       then b + int (rank lt v (inorder node)) - forgotten n pos
       else if b + int (rank lt v (inorder node)) = 0 then 0 else b + int (rank lt v (inorder node)) - 1)"
  using assms
proof (induction h arbitrary: lo node b fs)
  case 0
  have so: "sorted_wrt lt (bn_items node)" using 0(1,2) by (simp add: inorder_node)
  obtain p ex where p: "pos_in lt node v = (p, ex)" "at_position lt v (bn_items node) p ex"
    using pos_in_position [OF so] .
  have c: "bn_children node = []" "children_size p node = 0" using 0(1) by (simp_all add: children_size_def)
  show ?case
    using 0(3) p(1) c rank_leaf [OF 0(1) p(2) so]
    by (simp add: indexOf.simps [of lt node] indexOfNearest.simps [of lt node] getNode.simps [of lt node]
        forgotten_def Let_def split: if_splits option.splits)
next
  case (Suc h)
  have so: "sorted_wrt lt (bn_items node)"
    using sorted_wrt_weave [OF node_ok_lengths [OF Suc.prems(1)]] Suc.prems(2) by (simp add: inorder_node)
  obtain p ex where p: "pos_in lt node v = (p, ex)" "at_position lt v (bn_items node) p ex"
    using pos_in_position [OF so] .
  have pl: "p \<le> nbItems node" using p(2) by (simp add: at_position_def)
  then have c: "p < length (bn_children node)" using Suc.prems(1) by simp
  note r = rank_child [OF Suc.prems(1,2) p(2)]
  show ?case
  proof (cases ex)
    case True
    then have x: "p < nbItems node" "same_value lt (bn_items node ! p) v" using p(2) by (simp_all add: at_position_def)
    have "bn_items node ! p \<in> set (inorder node)"
      using node_ok_lengths [OF Suc.prems(1)] nth_mem [OF x(1)] by (simp add: inorder_node set_weave)
    then have e: "\<exists>x \<in> set (inorder node). same_value lt x v" using x(2) by blast
    have "n = node" "pos = Some p" using Suc.prems(3) p(1) True by (simp_all add: getNode.simps [of lt node])
    then show ?thesis using e r(1) r(3) [OF True] p(1) True c
      by (simp add: indexOf.simps [of lt node] indexOfNearest.simps [of lt node] forgotten_def Let_def)
  next
    case False
    have ok: "node_ok R R h (bn_children node ! p)" using Suc.prems(1) c by simp
    have s: "sorted_wrt lt (inorder (bn_children node ! p))"
      using Suc.prems(2) by (simp add: inorder_child [OF Suc.prems(1) pl] sorted_wrt_append)
    have g: "getNode lt (bn_children node ! p) v ((node, p) # fs) = (n, gs, pos)"
      using Suc.prems(3) p(1) False c by (simp add: getNode.simps [of lt node])
    show ?thesis
      using Suc.IH [OF ok s g, of "b + int p + children_size p node"] r(1) r(2) [OF False] p(1) False c
      by (simp add: indexOf.simps [of lt node] indexOfNearest.simps [of lt node] Let_def algebra_simps)
  qed
qed

end

end
