(* ===== verification/Sorted_Array_Iter.thy ===== *)
theory Sorted_Array_Iter
  imports Sorted_Array_Index
begin

text \<open>
  Positions in the B-tree of \<open>SortedArray.h\<close>: the access by index and the iterators.  A position has
  an index in the list of the values; \<open>getNextPosition\<close> moves it by one, and a loop from \<open>begin\<close> to
  \<open>end\<close> sees every value once, in order.
\<close>

subsection \<open>Positions\<close>

fun stored :: "'a bnode \<Rightarrow> 'a frame list \<Rightarrow> bool" where
  "stored n [] = True"
| "stored n ((p, i) # fs) = (i < length (bn_children p) \<and> bn_children p ! i = n \<and> stored p fs)"

definition node_in :: "nat \<Rightarrow> nat \<Rightarrow> 'a bnode \<Rightarrow> 'a bnode \<Rightarrow> 'a frame list \<Rightarrow> bool" where
  "node_in R h root n fs =
     (node_ok R (least_items R h fs) h n \<and> way_ok R h (bn_size n) fs \<and> stored n fs \<and> root_of n fs = root)"

definition before :: "'a bnode \<Rightarrow> nat \<Rightarrow> 'a list" where
  "before n p = weave (map inorder (take (Suc p) (bn_children n))) (take p (bn_items n))"

definition pos_index :: "'a position \<Rightarrow> nat" where
  "pos_index pos = (case pos of (n, fs, p) \<Rightarrow> length (pre_of fs) + length (before n (nat p)))"

lemma stored_root_of: "stored n (f # fs) \<Longrightarrow> root_of n (f # fs) = root_of (fst f) fs"
  by (cases f) (auto simp: plug_def)

lemma stored_unique:
  "stored n fs \<Longrightarrow> stored m gs \<Longrightarrow> root_of n fs = root_of m gs \<Longrightarrow> map snd fs = map snd gs \<Longrightarrow> n = m \<and> fs = gs"
proof (induction fs arbitrary: n m gs)
  case (Cons f fs)
  then obtain g gs' where gs: "gs = g # gs'" by (cases gs) auto
  have "root_of (fst f) fs = root_of (fst g) gs'"
    using Cons.prems stored_root_of [of n f fs] stored_root_of [of m g gs'] by (simp add: gs del: root_of.simps)
  then have "fst f = fst g \<and> fs = gs'"
    using Cons.IH [of "fst f" "fst g" gs'] Cons.prems by (cases f; cases g) (simp add: gs)
  then show ?case using Cons.prems by (cases f; cases g) (auto simp: gs)
qed simp

lemma node_in_root: "tree_ok R root \<Longrightarrow> node_in R (height root) root root []"
  by (simp add: node_in_def tree_ok_def least_items_def)

lemma node_in_whole: "node_in R h root n fs \<Longrightarrow> whole fs (inorder n) = inorder root"
  using root_of_ok(2) [of R h n fs] by (simp add: node_in_def)

lemma node_in_down:
  assumes "node_in R (Suc h) root n fs" "i \<le> nbItems n"
  shows "node_in R h root (bn_children n ! i) ((n, i) # fs)"
proof -
  have n: "node_ok R (least_items R (Suc h) fs) (Suc h) n" "way_ok R (Suc h) (bn_size n) fs" "stored n fs" "root_of n fs = root"
    using assms(1) by (auto simp: node_in_def)
  note d = way_down [OF n(1,2) assms(2)]
  have "stored (bn_children n ! i) ((n, i) # fs)" using n(1,3) assms(2) by simp
  then show ?thesis using d n(4) by (simp add: node_in_def least_items_def del: way_ok.simps root_of.simps)
qed

lemma node_in_up:
  assumes "node_in R h root n ((p, i) # fs)"
  shows "node_in R (Suc h) root p fs"
proof -
  have s: "stored n ((p, i) # fs)" and w: "way_ok R h (bn_size n) ((p, i) # fs)"
    and r: "root_of n ((p, i) # fs) = root" and n: "node_ok R R h n"
    using assms unfolding node_in_def least_items_def by (simp_all only: list.distinct if_False)
  have p: "plug (p, i) n = p" using s by (auto simp: plug_def)
  have "node_ok R (least_items R (Suc h) fs) (Suc h) p" using node_ok_plug [OF w n] by (simp add: p)
  moreover have "way_ok R (Suc h) (bn_size p) fs" using w unfolding way_ok.simps by blast
  moreover have "stored p fs" "root_of p fs = root" using s r p by simp_all
  ultimately show ?thesis by (simp only: node_in_def)
qed

lemma inorder_around:
  assumes "node_ok R lo h n" "p < nbItems n"
  shows "inorder n = before n p @ bn_items n ! p #
    weave (map inorder (drop (Suc p) (bn_children n))) (drop (Suc p) (bn_items n))"
  using weave_item [OF node_ok_lengths [OF assms(1)] assms(2)]
  by (simp add: inorder_node before_def take_map drop_map)

lemma item_at_index:
  assumes "node_in R h root n fs" "0 \<le> p" "p < int (nbItems n)"
  shows "item_at (n, fs, p) = inorder root ! pos_index (n, fs, p)" "pos_index (n, fs, p) < length (inorder root)"
proof -
  have p: "nat p < nbItems n" using assms by simp
  have n: "node_ok R (least_items R h fs) h n" using assms(1) by (simp add: node_in_def)
  note w = node_in_whole [OF assms(1), symmetric, unfolded whole_def inorder_around [OF n p]]
  show "item_at (n, fs, p) = inorder root ! pos_index (n, fs, p)"
    by (simp add: item_at_def pos_index_def w nth_append)
  show "pos_index (n, fs, p) < length (inorder root)" by (simp add: pos_index_def w)
qed

subsection \<open>Access by index\<close>

definition before_child :: "'a bnode \<Rightarrow> nat \<Rightarrow> int" where
  "before_child n i = int i + children_size i n"

lemma before_length:
  assumes "node_ok R lo h n" "p \<le> nbItems n"
  shows "int (length (before n p)) =
    before_child n p + (if p < length (bn_children n) then bn_size (bn_children n ! p) else 0)"
proof (cases h)
  case 0
  then show ?thesis using assms by (simp add: before_def before_child_def children_size_def)
next
  case (Suc k)
  have l: "length (bn_children n) = Suc (nbItems n)" using assms(1) Suc by simp
  have "node_ok R R k (bn_children n ! p)" using assms Suc by simp
  then have s: "bn_size (bn_children n ! p) = int (length (inorder (bn_children n ! p)))" by (rule node_ok_size)
  have "length (before n p) = p + length (concat (map inorder (take (Suc p) (bn_children n))))"
    unfolding before_def by (subst length_weave) (use l assms(2) in auto)
  then show ?thesis using children_size_inorder [OF assms(1), of p] s l assms(2)
    by (simp add: before_child_def take_Suc_conv_app_nth)
qed

lemma before_child_Suc:
  "before_child n (Suc i) = before_child n i + 1 + (if i < length (bn_children n) then bn_size (bn_children n ! i) else 0)"
  by (simp add: before_child_def children_size_def take_Suc_conv_app_nth)

lemma before_child_end:
  assumes "node_ok R lo h n"
  shows "before_child n (Suc (nbItems n)) = bn_size n + 1"
  using assms by (cases h) (simp_all add: before_child_def children_size_def)

lemma index_loop_spec:
  assumes "node_ok R lo h n" "i + left = nbItems n + 1" "b = b0 + before_child n i"
    "b \<le> index \<or> left = 0 \<and> b \<le> index + 1"
  shows "case index_loop n index i left b of
      In_child j b' \<Rightarrow> j < length (bn_children n) \<and> b' = b0 + before_child n j \<and> b' \<le> index
        \<and> index < b' + bn_size (bn_children n ! j)
    | At_item j \<Rightarrow> j < nbItems n \<and> index = b0 + int (length (before n j))
    | Not_in_node \<Rightarrow> b0 + bn_size n \<le> index"
  using assms(2-)
proof (induction left arbitrary: i b)
  case 0
  then have "b0 + bn_size n + 1 = b" using before_child_end [OF assms(1)] by simp
  then show ?case using 0 by auto
next
  case (Suc left)
  then have i: "i \<le> nbItems n" and bi: "b \<le> index" by auto
  define c where "c = (if i < length (bn_children n) then bn_size (bn_children n ! i) else 0)"
  have l: "index_loop n index i (Suc left) b =
    (if i < length (bn_children n) \<and> index < b + c then In_child i b
     else if b + c = index \<and> i < nbItems n then At_item i else index_loop n index (i + 1) left (b + c + 1))"
    by (simp add: index_loop.simps c_def Let_def)
  have bl: "int (length (before n i)) = before_child n i + c"
    using before_length [OF assms(1) i] by (simp add: c_def)
  show ?case
  proof (cases "i < length (bn_children n) \<and> index < b + c")
    case True
    then have "index_loop n index i (Suc left) b = In_child i b" unfolding l by simp
    then show ?thesis using True Suc.prems bi by (auto simp: c_def)
  next
    case no: False
    then have ge: "b + c \<le> index" using bi by (auto simp: c_def)
    show ?thesis
    proof (cases "b + c = index \<and> i < nbItems n")
      case True
      then have "index_loop n index i (Suc left) b = At_item i" using no unfolding l by simp
      then show ?thesis using True Suc.prems bl by simp
    next
      case False
      have "b + c + 1 = b0 + before_child n (i + 1)" using Suc.prems by (simp add: before_child_Suc c_def)
      moreover have "b + c + 1 \<le> index \<or> left = 0 \<and> b + c + 1 \<le> index + 1"
        using False ge Suc.prems(1) by auto
      ultimately show ?thesis using Suc.IH [of "i + 1" "b + c + 1"] Suc.prems(1) l no False by simp
    qed
  qed
qed

lemma before_pre_child:
  assumes "node_ok R lo (Suc h) n" "i \<le> nbItems n"
  shows "int (length (pre_of ((n, i) # fs))) = int (length (pre_of fs)) + before_child n i"
  using length_before_child [OF assms] by (simp add: before_child_def)

lemma getFromIndex_spec:
  assumes "node_in R h root n fs" "b \<le> index" "index < b + bn_size n"
  shows "\<exists>m gs p k. getFromIndex n index b fs = Some (m, gs, p) \<and> node_in R k root m gs \<and> p < nbItems m \<and>
    int (pos_index (m, gs, int p)) = int (length (pre_of fs)) + (index - b)"
  using assms
proof (induction h arbitrary: n fs b)
  case 0
  have n: "node_ok R (least_items R 0 fs) 0 n" using 0(1) by (simp add: node_in_def)
  have c: "bn_children n = []" using n by simp
  show ?case
  proof (cases "index_loop n index 0 (nbItems n + 1) b")
    case (At_item p)
    then show ?thesis
      using index_loop_spec [OF n, of 0 "nbItems n + 1" b b index] 0
      by (auto simp: getFromIndex.simps [of n] before_child_def children_size_def pos_index_def
          simp del: index_loop.simps)
  qed (use index_loop_spec [OF n, of 0 "nbItems n + 1" b b index] 0(2,3) c in
      \<open>auto simp: before_child_def children_size_def simp del: index_loop.simps\<close>)
next
  case (Suc h)
  have n: "node_ok R (least_items R (Suc h) fs) (Suc h) n" using Suc.prems(1) by (simp add: node_in_def)
  note l = index_loop_spec [OF n, of 0 "nbItems n + 1" b b index]
  show ?case
  proof (cases "index_loop n index 0 (nbItems n + 1) b")
    case (At_item p)
    then show ?thesis using l Suc.prems
      by (auto simp: getFromIndex.simps [of n] before_child_def children_size_def pos_index_def
          simp del: index_loop.simps)
  next
    case (In_child j b')
    then have j: "j < length (bn_children n)" "b' = b + before_child n j" "b' \<le> index"
      "index < b' + bn_size (bn_children n ! j)"
      using l Suc.prems by (simp_all add: before_child_def children_size_def del: index_loop.simps)
    have jn: "j \<le> nbItems n" using j(1) n by simp
    have e: "getFromIndex n index b fs = getFromIndex (bn_children n ! j) index b' ((n, j) # fs)"
      using In_child by (simp add: getFromIndex.simps [of n] del: index_loop.simps)
    show ?thesis
      using Suc.IH [OF node_in_down [OF Suc.prems(1) jn] j(3,4)] before_pre_child [OF n jn, of fs] j(2)
      unfolding e by simp
  qed (use l Suc.prems in \<open>simp add: before_child_def children_size_def del: index_loop.simps\<close>)
qed

lemma index_loop_negative:
  "\<forall>c \<in> set (bn_children n). 0 \<le> bn_size c \<Longrightarrow> index < b \<Longrightarrow>
   case index_loop n index i left b of In_child j b' \<Rightarrow> index < b' | At_item _ \<Rightarrow> False | Not_in_node \<Rightarrow> True"
proof (induction left arbitrary: i b)
  case (Suc left)
  define c where "c = (if i < length (bn_children n) then bn_size (bn_children n ! i) else 0)"
  have "0 \<le> c" using Suc.prems(1) by (simp add: c_def)
  then have "index < b + c + 1" "b + c \<noteq> index" using Suc.prems(2) by simp_all
  moreover have "index_loop n index i (Suc left) b =
    (if i < length (bn_children n) \<and> index < b + c then In_child i b
     else if b + c = index \<and> i < nbItems n then At_item i else index_loop n index (i + 1) left (b + c + 1))"
    by (simp add: index_loop.simps c_def Let_def)
  ultimately show ?case using Suc.IH [OF Suc.prems(1), of "b + c + 1" "i + 1"] Suc.prems(2) by simp
qed simp

lemma getFromIndex_negative:
  "node_ok R lo h n \<Longrightarrow> index < b \<Longrightarrow> getFromIndex n index b fs = None"
proof (induction h arbitrary: lo n b fs)
  case 0
  then show ?case using index_loop_negative [of n index b 0 "nbItems n + 1"]
      index_loop_child [of n index 0 "nbItems n + 1" b]
    by (auto simp: getFromIndex.simps [of n] simp del: index_loop.simps split: index_step.splits)
next
  case (Suc h)
  then have c: "\<forall>c \<in> set (bn_children n). node_ok R R h c" by simp
  then have "\<forall>c \<in> set (bn_children n). 0 \<le> bn_size c" using node_ok_size by fastforce
  then show ?case
    using index_loop_negative [of n index b 0 "nbItems n + 1"] index_loop_child [of n index 0 "nbItems n + 1" b]
      Suc.IH [OF bspec [OF c nth_mem]] Suc.prems(2)
    by (auto simp: getFromIndex.simps [of n] simp del: index_loop.simps split: index_step.splits)
qed

lemma get_list:
  assumes "tree_ok R root"
  shows "get root index =
    (if 0 \<le> index \<and> index < int (length (inorder root)) then Some (inorder root ! nat index) else None)"
proof -
  note n = node_in_root [OF assms]
  have ok: "node_ok R (least_items R (height root) ([] :: 'a frame list)) (height root) root"
    using n by (simp add: node_in_def)
  note s = node_ok_size [OF ok]
  consider "index < 0" | "0 \<le> index" "index < bn_size root" | "bn_size root \<le> index" by linarith
  then show ?thesis
  proof cases
    case 1
    then show ?thesis using getFromIndex_negative [OF ok, of index 0 "[]"] s by (simp add: get_def)
  next
    case 2
    then obtain m gs p k where m: "getFromIndex root index 0 [] = Some (m, gs, p)" "node_in R k root m gs" "p < nbItems m"
      "int (pos_index (m, gs, int p)) = index"
      using getFromIndex_spec [OF n, of 0 index] by auto
    have "bn_items m ! p = inorder root ! pos_index (m, gs, int p)"
      using item_at_index(1) [OF m(2), of "int p"] m(3) by (simp add: item_at_def)
    moreover have "pos_index (m, gs, int p) = nat index" using m(4) by simp
    ultimately show ?thesis using 2 m(1) s by (simp add: get_def)
  next
    case 3
    then show ?thesis using s by (simp add: get_def)
  qed
qed

subsection \<open>Iterators\<close>

definition pos_ok :: "nat \<Rightarrow> 'a bnode \<Rightarrow> 'a position \<Rightarrow> bool" where
  "pos_ok R root pos = (case pos of (n, fs, p) \<Rightarrow>
     (\<exists>h. node_in R h root n fs) \<and> (0 \<le> p \<and> p < int (nbItems n) \<or> pos = end_pos root))"

lemma getLeftmostNode_spec:
  assumes "node_in R h root n fs" "getLeftmostNode n fs = (m, gs)"
  shows "node_in R 0 root m gs \<and> pre_of gs = pre_of fs \<and> (0 < h \<longrightarrow> gs \<noteq> []) \<and> (fs \<noteq> [] \<longrightarrow> gs \<noteq> [])"
  using assms
proof (induction h arbitrary: n fs)
  case 0
  then have "m = n" "gs = fs" by (simp_all add: getLeftmostNode.simps [of n] node_in_def)
  then show ?case using 0(1) by simp
next
  case (Suc h)
  have "getLeftmostNode (bn_children n ! 0) ((n, 0) # fs) = (m, gs)"
    using Suc.prems by (auto simp: getLeftmostNode.simps [of n] node_in_def)
  moreover have "node_in R h root (bn_children n ! 0) ((n, 0) # fs)" by (rule node_in_down [OF Suc.prems(1)]) simp
  ultimately show ?case using Suc.IH by fastforce
qed

lemma climb_next_spec:
  assumes "node_in R h root n fs" "climb_next fs = Some (m, gs, p)"
  shows "(\<exists>k. node_in R k root m gs) \<and> 0 \<le> p \<and> p < int (nbItems m) \<and>
    pre_of gs @ before m (nat p) = pre_of fs @ inorder n"
  using assms
proof (induction fs arbitrary: n h)
  case (Cons f fs)
  obtain a i where f: "f = (a, i)" by fastforce
  note up = node_in_up [OF Cons.prems(1) [unfolded f]]
  have a: "node_ok R (least_items R (Suc h) fs) (Suc h) a" using up by (simp add: node_in_def)
  have n: "i \<le> nbItems a" "bn_children a ! i = n" using Cons.prems(1) by (simp_all add: f node_in_def)
  show ?case
  proof (cases "i < nbItems a")
    case True
    then have e: "m = a" "gs = fs" "p = int i" using Cons.prems(2) by (simp_all add: f)
    have "weave_right (map inorder (drop (Suc i) (bn_children a))) (drop i (bn_items a))
        = bn_items a ! i # weave (map inorder (drop (Suc i) (bn_children a))) (drop (Suc i) (bn_items a))"
      using weave_right_Suc [of "map inorder (bn_children a)" "bn_items a" i] a True by (simp add: drop_map)
    then have "before a i = weave_left (map inorder (take i (bn_children a))) (take i (bn_items a)) @ inorder n"
      using inorder_child [OF a n(1)] inorder_around [OF a True] n(2) by simp
    then show ?thesis using e up True by (auto simp: f)
  next
    case False
    then have i: "i = nbItems a" using n(1) by simp
    have "inorder a = weave_left (map inorder (take i (bn_children a))) (take i (bn_items a)) @ inorder n"
      using inorder_child [OF a n(1)] n(2) a by (simp add: i)
    then show ?thesis using Cons.IH [OF up] Cons.prems(2) False by (simp add: f)
  qed
qed simp

lemma climb_next_None: "climb_next fs = None \<Longrightarrow> way_ok R h s fs \<Longrightarrow> \<forall>(p, i) \<in> set fs. i = nbItems p"
  by (induction fs arbitrary: h s rule: climb_next.induct) (auto split: if_splits)

lemma getRightmostNode_way:
  "stored n fs \<Longrightarrow> \<forall>(p, i) \<in> set fs. i = nbItems p \<Longrightarrow> getRightmostNode (root_of n fs) [] = getRightmostNode n fs"
proof (induction fs arbitrary: n)
  case (Cons f fs)
  obtain p i where f: "f = (p, i)" by fastforce
  have "getRightmostNode (root_of p fs) [] = getRightmostNode p fs" using Cons f by auto
  then show ?case using Cons.prems stored_root_of [of n f fs] unfolding f
    by (auto simp: getRightmostNode.simps [of p] simp del: root_of.simps)
qed simp

lemma pos_ok_next:
  assumes R: "1 \<le> R" and n: "node_in R h root n fs" and p: "0 \<le> p" "p < int (nbItems n)"
  shows "pos_ok R root (getNextPosition (n, fs, p))"
    "pos_index (getNextPosition (n, fs, p)) = Suc (pos_index (n, fs, p))"
proof -
  have ok: "node_ok R (least_items R h fs) h n" and w: "way_ok R h (bn_size n) fs" and st: "stored n fs"
    and ro: "root_of n fs = root" using n by (simp_all add: node_in_def)
  define q where "q = Suc (nat p)"
  have q: "nat (p + 1) = q" "nat p < nbItems n" "q \<le> nbItems n" "int q = p + 1" using p by (auto simp: q_def)
  have "pos_ok R root (getNextPosition (n, fs, p)) \<and>
    pos_index (getNextPosition (n, fs, p)) = Suc (pos_index (n, fs, p))"
  proof (cases h)
    case (Suc k)
    obtain m gs where m: "getLeftmostNode (bn_children n ! q) ((n, q) # fs) = (m, gs)" by fastforce
    have nx: "getNextPosition (n, fs, p) = (m, gs, 0)"
      using ok q m by (simp add: getNextPosition_def Suc)
    note l = getLeftmostNode_spec [OF node_in_down [OF n [unfolded Suc] q(3)] m]
    have "1 \<le> nbItems m" using l R by (auto simp: node_in_def least_items_def)
    moreover have "length (weave_left (map inorder (take q (bn_children n))) (take q (bn_items n)))
        = Suc (length (before n (nat p)))"
      using weave_left_snoc [of "map inorder (bn_children n)" "bn_items n" "nat p"] ok q(2)
      by (simp add: Suc q_def before_def take_map)
    moreover have "length (before m 0) = 0" using l by (simp add: before_def node_in_def)
    ultimately show ?thesis using l unfolding nx by (auto simp: pos_ok_def pos_index_def)
  next
    case 0
    have c: "bn_children n = []" using ok by (simp add: 0)
    show ?thesis
    proof (cases "q < nbItems n")
      case True
      then have nx: "getNextPosition (n, fs, p) = (n, fs, int q)" using q c by (simp add: getNextPosition_def)
      show ?thesis unfolding nx using n True c q by (auto simp: pos_ok_def pos_index_def before_def q_def)
    next
      case False
      then have qe: "q = nbItems n" using q by simp
      have bl: "length (before n (nat p)) + 1 = length (inorder n)"
        using c qe q_def by (simp add: before_def inorder_node)
      show ?thesis
      proof (cases "climb_next fs")
        case None
        then have nx: "getNextPosition (n, fs, p) = (n, fs, int q)" using q c qe by (simp add: getNextPosition_def)
        have "getRightmostNode root [] = (n, fs)"
          using getRightmostNode_way [OF st climb_next_None [OF None w]] ro c
          by (simp add: getRightmostNode.simps [of n])
        then have "(n, fs, int q) = end_pos root" by (simp add: end_pos_def qe)
        then have "pos_ok R root (n, fs, int q)" using n unfolding pos_ok_def by auto
        moreover have "pos_index (n, fs, int q) = Suc (pos_index (n, fs, p))"
          using c qe by (simp add: pos_index_def before_def q_def)
        ultimately show ?thesis unfolding nx by blast
      next
        case (Some pos)
        obtain m gs r where pos: "pos = (m, gs, r)" by (metis prod_cases3)
        have nx: "getNextPosition (n, fs, p) = (m, gs, r)" using q c qe Some pos by (simp add: getNextPosition_def)
        note cl = climb_next_spec [OF n Some [unfolded pos]]
        have "length (pre_of gs @ before m (nat r)) = length (pre_of fs @ inorder n)" using cl by metis
        then have "pos_index (m, gs, r) = Suc (pos_index (n, fs, p))" using bl by (simp add: pos_index_def)
        moreover have "pos_ok R root (m, gs, r)" using cl unfolding pos_ok_def by auto
        ultimately show ?thesis unfolding nx by blast
      qed
    qed
  qed
  then show "pos_ok R root (getNextPosition (n, fs, p))"
    "pos_index (getNextPosition (n, fs, p)) = Suc (pos_index (n, fs, p))" by blast+
qed

lemma getRightmostNode_spec:
  assumes "node_in R h root n fs" "getRightmostNode n fs = (m, gs)"
  shows "node_in R 0 root m gs \<and> suf_of gs = suf_of fs \<and> (0 < h \<longrightarrow> gs \<noteq> []) \<and> (fs \<noteq> [] \<longrightarrow> gs \<noteq> [])"
  using assms
proof (induction h arbitrary: n fs)
  case 0
  then have "m = n" "gs = fs" by (simp_all add: getRightmostNode.simps [of n] node_in_def)
  then show ?case using 0(1) by simp
next
  case (Suc h)
  have "getRightmostNode (bn_children n ! nbItems n) ((n, nbItems n) # fs) = (m, gs)"
    using Suc.prems by (auto simp: getRightmostNode.simps [of n] node_in_def)
  moreover have "node_in R h root (bn_children n ! nbItems n) ((n, nbItems n) # fs)"
    by (rule node_in_down [OF Suc.prems(1)]) simp
  moreover have "suf_of ((n, nbItems n) # fs) = suf_of fs" using Suc.prems(1) by (simp add: node_in_def)
  ultimately show ?case using Suc.IH by fastforce
qed

lemma end_pos_spec:
  assumes "tree_ok R root"
  shows "pos_ok R root (end_pos root)" "pos_index (end_pos root) = length (inorder root)"
proof -
  obtain m gs where m: "getRightmostNode root [] = (m, gs)" by fastforce
  note r = getRightmostNode_spec [OF node_in_root [OF assms] m]
  then have c: "node_in R 0 root m gs" "suf_of gs = []" "bn_children m = []" by (auto simp: node_in_def)
  have "length (inorder root) = length (whole gs (inorder m))" using node_in_whole [OF c(1)] by simp
  then show "pos_index (end_pos root) = length (inorder root)"
    using c by (simp add: end_pos_def m pos_index_def before_def whole_def inorder_node)
  show "pos_ok R root (end_pos root)" using c(1) unfolding pos_ok_def end_pos_def m by auto
qed

lemma begin_pos_spec:
  assumes "tree_ok R root" "1 \<le> R"
  shows "pos_ok R root (begin_pos root)" "pos_index (begin_pos root) = 0"
proof -
  obtain m gs where m: "getLeftmostNode root [] = (m, gs)" by fastforce
  note l = getLeftmostNode_spec [OF node_in_root [OF assms(1)] m]
  then have c: "node_in R 0 root m gs" "pre_of gs = []" "bn_children m = []" by (auto simp: node_in_def)
  then show "pos_index (begin_pos root) = 0" by (simp add: begin_pos_def m pos_index_def before_def)
  have b: "begin_pos root = (m, gs, 0)" by (simp add: begin_pos_def m)
  show "pos_ok R root (begin_pos root)"
  proof (cases "nbItems m = 0")
    case True
    then have "gs = []" using c(1) assms(2) by (auto simp: node_in_def least_items_def split: if_splits)
    then have r: "m = root" using c(1) by (simp add: node_in_def)
    have "(root, [], 0) = end_pos root"
      using c(3) True by (simp add: end_pos_def getRightmostNode.simps [of root] r)
    then show ?thesis using c(1) \<open>gs = []\<close> unfolding b pos_ok_def r by auto
  next
    case False
    then show ?thesis using c(1) unfolding b pos_ok_def by auto
  qed
qed

lemma same_end:
  assumes "tree_ok R root" "pos_ok R root pos"
  shows "same_position pos (end_pos root) \<longleftrightarrow> pos = end_pos root"
proof
  obtain n fs p where pos: "pos = (n, fs, p)" by (metis prod_cases3)
  obtain m gs q where e: "end_pos root = (m, gs, q)" by (metis prod_cases3)
  obtain h k where "node_in R h root n fs" "node_in R k root m gs"
    using assms(2) end_pos_spec(1) [OF assms(1)] unfolding pos_ok_def pos e by auto
  moreover assume "same_position pos (end_pos root)"
  ultimately show "pos = end_pos root"
    using stored_unique [of n fs m gs] unfolding pos e by (simp add: same_position_def node_in_def)
qed (simp add: same_position_def)

text \<open>The loop over an array, with what is done to each value.\<close>

definition iterate :: "('a \<Rightarrow> 'b \<Rightarrow> 'b) \<Rightarrow> 'a bnode \<Rightarrow> 'b \<Rightarrow> 'b option" where
  "iterate f root acc =
     map_option snd (while_option (\<lambda>(pos, a). \<not> same_position pos (end_pos root))
       (\<lambda>(pos, a). (getNextPosition pos, f (item_at pos) a)) (begin_pos root, acc))"

lemma iterate_from:
  assumes "tree_ok R root" "1 \<le> R" "pos_ok R root pos"
  shows "map_option snd (while_option (\<lambda>(pos, a). \<not> same_position pos (end_pos root))
       (\<lambda>(pos, a). (getNextPosition pos, f (item_at pos) a)) (pos, acc)) =
     Some (fold f (drop (pos_index pos) (inorder root)) acc)"
  using assms(3)
proof (induction "length (inorder root) - pos_index pos" arbitrary: pos acc rule: less_induct)
  case less
  show ?case
  proof (cases "pos = end_pos root")
    case True
    then show ?thesis using same_end [OF assms(1) less.prems] end_pos_spec(2) [OF assms(1)]
      by (subst while_option_unfold) simp
  next
    case False
    obtain n fs p where pos: "pos = (n, fs, p)" by (metis prod_cases3)
    obtain h where n: "node_in R h root n fs" "0 \<le> p" "p < int (nbItems n)"
      using less.prems False unfolding pos_ok_def pos by auto
    note nx = pos_ok_next [OF assms(2) n] and it = item_at_index [OF n]
    have d: "drop (pos_index pos) (inorder root) = item_at pos # drop (Suc (pos_index pos)) (inorder root)"
      using it unfolding pos by (simp add: Cons_nth_drop_Suc)
    show ?thesis
      using less.hyps [of "getNextPosition pos" "f (item_at pos) acc"] nx it(2) same_end [OF assms(1) less.prems] False
      by (subst while_option_unfold) (simp add: pos [symmetric] d)
  qed
qed

lemma iterate_fold:
  assumes "tree_ok R root" "1 \<le> R"
  shows "iterate f root acc = Some (fold f (inorder root) acc)"
  using iterate_from [OF assms begin_pos_spec(1) [OF assms], of f acc] begin_pos_spec(2) [OF assms]
  by (simp add: iterate_def)

end
