(* ===== verification/Sorted_Array_Insert.thy ===== *)
theory Sorted_Array_Insert
  imports Sorted_Array_Iter
begin

text \<open>
  Insertion in the B-tree of \<open>SortedArray.h\<close>: \<open>add\<close>, which goes up the tree while nodes are full,
  \<open>split\<close>, and the operations that insert.  A full node is split as if the value were first inserted
  in it and the node then cut at its middle; the list of the values gets the value at its place.
\<close>

subsection \<open>Operations\<close>

text \<open>\<open>nth_list\<close>: a child that may be missing, as in a leaf, whose children are all null.\<close>

definition nth_list :: "nat \<Rightarrow> 'a list \<Rightarrow> 'a list" where
  "nth_list i xs = (if i < length xs then [xs ! i] else [])"

definition opt_list :: "'a option \<Rightarrow> 'a list" where
  "opt_list x = (case x of None \<Rightarrow> [] | Some y \<Rightarrow> [y])"

text \<open>
  The loop from the right that looks for the item after which the value goes, and moves the items
  and the children on its way.
\<close>

fun scan_right :: "('a \<Rightarrow> 'a \<Rightarrow> bool) \<Rightarrow> 'a \<Rightarrow> 'a list \<Rightarrow> nat \<Rightarrow> nat" where
  "scan_right lt v xs 0 = 0"
| "scan_right lt v xs (Suc i) = (if lt (xs ! i) v then Suc i else scan_right lt v xs i)"

definition put :: "('a \<Rightarrow> 'a \<Rightarrow> bool) \<Rightarrow> 'a \<Rightarrow> 'a bnode option \<Rightarrow> 'a list \<Rightarrow> 'a bnode list \<Rightarrow> 'a list \<times> 'a bnode list" where
  "put lt v child xs cs =
     (let i = scan_right lt v xs (length xs)
      in (insert_at i v xs, take (Suc i) cs @ opt_list child @ drop (Suc i) cs))"

text \<open>
  \<open>split\<close>: the values of the new node are copied from the right (\<open>split_right\<close>; its result holds the
  last index, whether the value was put, the items and the children), then the median is chosen, and
  what is left goes to the left node.
\<close>

fun split_right ::
  "('a \<Rightarrow> 'a \<Rightarrow> bool) \<Rightarrow> 'a \<Rightarrow> 'a bnode option \<Rightarrow> 'a bnode \<Rightarrow> nat \<Rightarrow> nat \<Rightarrow> bool \<Rightarrow> 'a list \<Rightarrow> 'a bnode list
    \<Rightarrow> nat \<times> bool \<times> 'a list \<times> 'a bnode list" where
  "split_right lt v child node 0 i inserted xs cs = (i, inserted, xs, cs)"
| "split_right lt v child node (Suc j) i inserted xs cs =
     (if \<not> inserted \<and> lt (bn_items node ! i) v
      then split_right lt v child node j i True (v # xs) (opt_list child @ cs)
      else split_right lt v child node j (i - 1) inserted
             (bn_items node ! i # xs) (nth_list (i + 1) (bn_children node) @ cs))"

definition split ::
  "('a \<Rightarrow> 'a \<Rightarrow> bool) \<Rightarrow> nat \<Rightarrow> 'a bnode \<Rightarrow> 'a \<Rightarrow> 'a bnode option \<Rightarrow> 'a bnode \<times> 'a \<times> 'a bnode" where
  "split lt M node v child =
     (let nb = (M - 1) div 2;
          right_node = (\<lambda>xs cs. BNode xs cs (int nb + (\<Sum>c \<leftarrow> cs. bn_size c)));
          left_node = (\<lambda>xs cs r. BNode xs cs (bn_size node - bn_size r))
      in case split_right lt v child node nb (M - 2) False [] [] of (i, inserted, xs, cs) \<Rightarrow>
           if \<not> inserted \<and> lt (bn_items node ! i) v
           then (let r = right_node xs (opt_list child @ cs)
                 in (left_node (take (i + 1) (bn_items node)) (take (i + 2) (bn_children node)) r, v, r))
           else (let r = right_node xs (nth_list (i + 1) (bn_children node) @ cs)
                 in if inserted
                    then (left_node (take i (bn_items node)) (take (i + 1) (bn_children node)) r, bn_items node ! i, r)
                    else (case put lt v child (take i (bn_items node)) (take (i + 1) (bn_children node)) of
                            (ys, ds) \<Rightarrow> (left_node ys ds r, bn_items node ! i, r))))"

definition change_size :: "int \<Rightarrow> 'a bnode \<Rightarrow> 'a bnode" where
  "change_size k n = BNode (bn_items n) (bn_children n) (bn_size n + k)"

definition incrementSize :: "'a bnode \<Rightarrow> 'a frame list \<Rightarrow> 'a bnode \<times> 'a frame list" where
  "incrementSize node fs = (change_size 1 node, map (\<lambda>(p, i). (change_size 1 p, i)) fs)"

text \<open>\<open>add\<close> returns the root of the tree.\<close>

definition new_root :: "'a bnode \<Rightarrow> 'a \<Rightarrow> 'a bnode \<Rightarrow> 'a bnode" where
  "new_root l m r = BNode [m] [l, r] (1 + bn_size l + bn_size r)"

fun add ::
  "('a \<Rightarrow> 'a \<Rightarrow> bool) \<Rightarrow> nat \<Rightarrow> 'a bnode \<Rightarrow> 'a frame list \<Rightarrow> 'a \<Rightarrow> 'a bnode option \<Rightarrow> 'a bnode" where
  "add lt M node fs v child =
     (if nbItems node < M - 1
      then (case put lt v child (bn_items node) (bn_children node) of (xs, cs) \<Rightarrow>
              case incrementSize (BNode xs cs (bn_size node)) fs of (n, gs) \<Rightarrow> root_of n gs)
      else (case split lt M node v child of (l, m, r) \<Rightarrow>
              (case fs of [] \<Rightarrow> new_root l m r
               | f # fs \<Rightarrow> add lt M (plug f l) fs m (Some r))))"

declare add.simps [simp del]

definition insert_value :: "('a \<Rightarrow> 'a \<Rightarrow> bool) \<Rightarrow> nat \<Rightarrow> 'a \<Rightarrow> 'a bnode \<Rightarrow> bool \<times> 'a bnode" where
  "insert_value lt M v root =
     (case getNode lt root v [] of
        (node, fs, None) \<Rightarrow> (False, add lt M node fs v None)
      | (node, fs, Some p) \<Rightarrow> (True, root_of (set_item p v node) fs))"

text \<open>\<open>setSortedFunction\<close>: a new tree, in which the values are added in their present order.\<close>

definition resort_step :: "('a \<Rightarrow> 'a \<Rightarrow> bool) \<Rightarrow> nat \<Rightarrow> 'a \<Rightarrow> 'a bnode \<Rightarrow> 'a bnode" where
  "resort_step lt M v root = (case getNode lt root v [] of (node, fs, _) \<Rightarrow> add lt M node fs v None)"

definition setSortedFunction :: "('a \<Rightarrow> 'a \<Rightarrow> bool) \<Rightarrow> nat \<Rightarrow> 'a bnode \<Rightarrow> 'a bnode option" where
  "setSortedFunction lt M root = iterate (resort_step lt M) root new_node"

text \<open>
  \<open>getValue\<close>: what \<open>operator[]\<close> refers to.  After the insertion the value is looked for again from the
  parent of the node it was added to, or from this node when it is the root; a position \<open>-1\<close> there
  is read all the same, which is \<open>None\<close>.
\<close>

definition parent_after_add ::
  "('a \<Rightarrow> 'a \<Rightarrow> bool) \<Rightarrow> nat \<Rightarrow> 'a bnode \<Rightarrow> 'a frame list \<Rightarrow> 'a \<Rightarrow> 'a bnode" where
  "parent_after_add lt M node fs v =
     (if nbItems node < M - 1
      then (case put lt v None (bn_items node) (bn_children node) of (xs, cs) \<Rightarrow>
              let n = change_size 1 (BNode xs cs (bn_size node))
              in case fs of [] \<Rightarrow> n | f # _ \<Rightarrow> change_size 1 (plug f n))
      else (case split lt M node v None of (l, m, r) \<Rightarrow>
              (case fs of [] \<Rightarrow> new_root l m r
               | (p, i) # _ \<Rightarrow>
                   let p = plug (p, i) l
                   in if nbItems p < M - 1
                      then (case put lt m (Some r) (bn_items p) (bn_children p) of (xs, cs) \<Rightarrow>
                              change_size 1 (BNode xs cs (bn_size p)))
                      else (case split lt M p m (Some r) of (pl, _, pr) \<Rightarrow>
                              if i \<le> (M - 1) div 2 then pl else pr))))"

definition getValue :: "('a \<Rightarrow> 'a \<Rightarrow> bool) \<Rightarrow> nat \<Rightarrow> 'a \<Rightarrow> 'a bnode \<Rightarrow> 'a option \<times> 'a bnode" where
  "getValue lt M v root =
     (case getNode lt root v [] of
        (node, fs, Some p) \<Rightarrow> (Some (bn_items node ! p), root)
      | (node, fs, None) \<Rightarrow>
          (case getNode lt (parent_after_add lt M node fs v) v [] of
             (n, _, p) \<Rightarrow> (map_option (\<lambda>p. bn_items n ! p) p, add lt M node fs v None)))"

subsection \<open>Splitting is inserting and cutting in the middle\<close>

definition cut_at :: "('a \<Rightarrow> 'a \<Rightarrow> bool) \<Rightarrow> 'a \<Rightarrow> 'a list \<Rightarrow> nat \<Rightarrow> bool" where
  "cut_at lt v xs i = (i \<le> length xs \<and> (\<forall>j < i. lt (xs ! j) v) \<and> (\<forall>j < length xs. i \<le> j \<longrightarrow> \<not> lt (xs ! j) v))"

definition put_child :: "nat \<Rightarrow> 'a option \<Rightarrow> 'a list \<Rightarrow> 'a list" where
  "put_child i child cs = take (Suc i) cs @ opt_list child @ drop (Suc i) cs"

lemma scan_right_cut: "cut_at lt v xs i \<Longrightarrow> i \<le> n \<Longrightarrow> n \<le> length xs \<Longrightarrow> scan_right lt v xs n = i"
  by (induction n) (auto simp: cut_at_def le_Suc_eq)

lemma scan_right_take: "n \<le> k \<Longrightarrow> scan_right lt v (take k xs) n = scan_right lt v xs n"
  by (induction n) auto

lemma put_cut: "cut_at lt v xs i \<Longrightarrow> put lt v child xs cs = (insert_at i v xs, put_child i child cs)"
  using scan_right_cut [of lt v xs i "length xs"] by (simp add: put_def put_child_def cut_at_def)

lemma nth_insert_at_cases:
  "i \<le> length xs \<Longrightarrow> k \<le> length xs \<Longrightarrow> insert_at i v xs ! k = (if k < i then xs ! k else if k = i then v else xs ! (k - 1))"
  by (rule nth_insert_at)

lemma put_child_leaf: "put_child i None [] = []"
  by (simp add: put_child_def opt_list_def)

lemma put_child_insert: "i < length cs \<Longrightarrow> put_child i (Some c) cs = insert_at (Suc i) c cs"
  by (simp add: put_child_def insert_at_def opt_list_def)

lemma length_put_child: "i < length cs \<Longrightarrow> length (put_child i (Some c) cs) = Suc (length cs)"
  by (simp add: put_child_insert)

text \<open>A node that may be split: a full leaf, or a full inner node with the child to attach.\<close>

definition full_node :: "nat \<Rightarrow> 'a bnode \<Rightarrow> 'a bnode option \<Rightarrow> bool" where
  "full_node R node child =
     (nbItems node = 2 * R \<and> (if child = None then bn_children node = [] else length (bn_children node) = Suc (2 * R)))"

lemma put_child_nth:
  assumes "full_node R node child" "i \<le> 2 * R" "k \<le> Suc (2 * R)"
  shows "drop k (put_child i child (bn_children node)) =
    (if k = Suc i then opt_list child else nth_list (if k \<le> i then k else k - 1) (bn_children node))
      @ drop (Suc k) (put_child i child (bn_children node))"
proof (cases child)
  case None
  then show ?thesis using assms(1) by (simp add: full_node_def put_child_leaf nth_list_def opt_list_def)
next
  case (Some c)
  let ?cs = "bn_children node"
  have l: "length ?cs = Suc (2 * R)" using assms(1) Some by (simp add: full_node_def)
  have p: "put_child i (Some c) ?cs = insert_at (Suc i) c ?cs" using l assms(2) by (simp add: put_child_insert)
  have "drop k (insert_at (Suc i) c ?cs) = insert_at (Suc i) c ?cs ! k # drop (Suc k) (insert_at (Suc i) c ?cs)"
    using l assms(3) by (intro Cons_nth_drop_Suc [symmetric]) simp
  moreover have "insert_at (Suc i) c ?cs ! k = (if k < Suc i then ?cs ! k else if k = Suc i then c else ?cs ! (k - 1))"
    using l assms(2,3) by (intro nth_insert_at_cases) simp_all
  ultimately show ?thesis using l assms(2,3) unfolding Some p by (auto simp: nth_list_def opt_list_def)
qed

lemma split_right_spec:
  fixes node :: "'a bnode"
  assumes "full_node R node child" "cut_at lt v (bn_items node) i"
  defines "X \<equiv> insert_at i v (bn_items node)" and "C \<equiv> put_child i child (bn_children node)"
  assumes "j \<le> R" "if ins then k = R + j \<and> R + j < i else k + 1 = R + j \<and> i \<le> R + j" "1 \<le> R"
  shows "\<exists>k' ins'. split_right lt v child node j k ins (drop (R + 1 + j) X) (drop (R + 2 + j) C) =
      (k', ins', drop (R + 1) X, drop (R + 2) C) \<and> (if ins' then k' = R \<and> R < i else k' + 1 = R \<and> i \<le> R)"
  using assms(5,6)
proof (induction j arbitrary: k ins)
  case 0
  then show ?case by (cases ins) auto
next
  case (Suc j)
  let ?xs = "bn_items node"
  have l: "length ?xs = 2 * R" "i \<le> 2 * R" using assms(1,2) by (simp_all add: full_node_def cut_at_def)
  have x: "drop (R + 1 + j) X = X ! (R + 1 + j) # drop (R + 1 + Suc j) X"
    using l Suc.prems(1) by (simp add: X_def Cons_nth_drop_Suc)
  have xn: "X ! (R + 1 + j) = (if R + 1 + j < i then ?xs ! (R + 1 + j) else if R + 1 + j = i then v else ?xs ! (R + j))"
    unfolding X_def using l Suc.prems(1) nth_insert_at_cases [of i ?xs "R + 1 + j" v] by simp
  have c: "drop (R + 2 + j) C = (if R + 2 + j = Suc i then opt_list child
      else nth_list (if R + 2 + j \<le> i then R + 2 + j else R + 1 + j) (bn_children node)) @ drop (R + 2 + Suc j) C"
    unfolding C_def using put_child_nth [OF assms(1) l(2), of "R + 2 + j"] Suc.prems(1) by simp
  consider (a) "\<not> ins" "lt (?xs ! k) v" | (b) "\<not> ins" "\<not> lt (?xs ! k) v" | (c) ins by blast
  then show ?case
  proof cases
    case a
    then have k: "k = R + j" "i \<le> R + Suc j" using Suc.prems(2) by auto
    have "k < 2 * R" using Suc.prems(1) k by simp
    then have "\<not> i \<le> R + j" using a(2) assms(2) l(1) k by (auto simp: cut_at_def)
    then have i: "i = R + 1 + j" using k by simp
    have "split_right lt v child node (Suc j) k ins (drop (R + 1 + Suc j) X) (drop (R + 2 + Suc j) C)
        = split_right lt v child node j k True (drop (R + 1 + j) X) (drop (R + 2 + j) C)"
      using a x xn c i by simp
    then show ?thesis using Suc.IH [of True k] Suc.prems(1) k i by simp
  next
    case b
    then have k: "k = R + j" "i \<le> R + Suc j" using Suc.prems(2) by auto
    have "k < 2 * R" using Suc.prems(1) k by simp
    then have "i \<le> R + j" using b(2) assms(2) l(1) k by (metis cut_at_def not_le)
    then have "split_right lt v child node (Suc j) k ins (drop (R + 1 + Suc j) X) (drop (R + 2 + Suc j) C)
        = split_right lt v child node j (k - 1) False (drop (R + 1 + j) X) (drop (R + 2 + j) C)"
      using b x xn c k by simp
    then show ?thesis using Suc.IH [of False "k - 1"] Suc.prems(1) k \<open>i \<le> R + j\<close> assms(7) by simp
  next
    case c
    then have k: "k = R + Suc j" "R + Suc j < i" using Suc.prems(2) by auto
    then have "split_right lt v child node (Suc j) k ins (drop (R + 1 + Suc j) X) (drop (R + 2 + Suc j) C)
        = split_right lt v child node j (k - 1) True (drop (R + 1 + j) X) (drop (R + 2 + j) C)"
      using c x xn \<open>drop (R + 2 + j) C = _\<close> by simp
    then show ?thesis using Suc.IH [of True "k - 1"] Suc.prems(1) k by simp
  qed
qed

lemma split_spec:
  fixes node :: "'a bnode"
  assumes "full_node R node child" "cut_at lt v (bn_items node) i" "1 \<le> R" "M = 2 * R + 1"
  defines "X \<equiv> insert_at i v (bn_items node)" and "C \<equiv> put_child i child (bn_children node)"
  defines "r \<equiv> BNode (drop (R + 1) X) (drop (R + 1) C) (int R + (\<Sum>c \<leftarrow> drop (R + 1) C. bn_size c))"
  shows "split lt M node v child = (BNode (take R X) (take (R + 1) C) (bn_size node - bn_size r), X ! R, r)"
proof -
  let ?xs = "bn_items node" and ?cs = "bn_children node"
  have l: "length ?xs = 2 * R" "i \<le> 2 * R" "length X = 2 * R + 1"
    using assms(1,2) by (simp_all add: full_node_def cut_at_def X_def)
  have lc: "length C \<le> 2 * R + 2"
    using assms(1) l(2) unfolding C_def by (cases child) (simp_all add: full_node_def put_child_leaf length_put_child)
  have n: "(M - 1) div 2 = R" "M - 2 + 1 = R + R" using assms(3,4) by simp_all
  obtain k ins where s: "split_right lt v child node R (M - 2) False [] [] = (k, ins, drop (R + 1) X, drop (R + 2) C)"
    and k: "if ins then k = R \<and> R < i else k + 1 = R \<and> i \<le> R"
    using split_right_spec [where j = R and k = "M - 2" and ins = False, OF assms(1,2)] l(2,3) lc n(2) assms(3)
    unfolding X_def [symmetric] C_def [symmetric] by auto
  have xn: "X ! R = (if R < i then ?xs ! R else if R = i then v else ?xs ! (R - 1))"
    unfolding X_def using l nth_insert_at_cases [of i ?xs R v] by simp
  have c: "drop (R + 1) C = (if R + 1 = Suc i then opt_list child else nth_list (if R + 1 \<le> i then R + 1 else R) ?cs)
      @ drop (R + 2) C"
    unfolding C_def using put_child_nth [OF assms(1) l(2), of "R + 1"] by simp
  have tx: "take R X = (if R \<le> i then take R ?xs else insert_at i v (take (R - 1) ?xs))"
    unfolding X_def insert_at_def using l assms(3) by (auto simp: min_def take_Cons' drop_take Suc_diff_le)
  have tc: "take (R + 1) C = (if R \<le> i then take (R + 1) ?cs else put_child i child (take R ?cs))"
  proof (cases child)
    case None
    then show ?thesis using assms(1) by (simp add: C_def put_child_leaf full_node_def)
  next
    case (Some c)
    then have "length ?cs = 2 * R + 1" using assms(1) by (simp add: full_node_def)
    then show ?thesis unfolding C_def put_child_def Some opt_list_def using l(2)
      by (auto simp: min_def take_Cons' drop_take Suc_diff_le)
  qed
  consider (median) "\<not> ins" "lt (?xs ! k) v" | (left) "\<not> ins" "\<not> lt (?xs ! k) v" | (right) ins by blast
  then show ?thesis
  proof cases
    case median
    then have "k + 1 = R" "\<not> i \<le> k" using k assms(2) l(1) by (auto simp: cut_at_def)
    then have "i = R" using k median by simp
    then show ?thesis using s median n xn c tx tc \<open>k + 1 = R\<close> by (simp add: split_def r_def Let_def)
  next
    case left
    then have kr: "k + 1 = R" using k by simp
    then have "k < 2 * R" using assms(3) by simp
    then have "i \<le> k" using left(2) assms(2) l(1) by (metis cut_at_def not_le)
    then have ik: "i < R" "k = R - 1" using kr by simp_all
    have ct: "cut_at lt v (take k ?xs) i" using assms(2) \<open>i \<le> k\<close> ik l(1) by (auto simp: cut_at_def)
    have "put lt v child (take k ?xs) (take (k + 1) ?cs) = (take R X, take (R + 1) C)"
      using put_cut [OF ct] tx tc ik kr by simp
    then show ?thesis using s left n xn c ik kr by (simp add: split_def r_def Let_def)
  next
    case right
    then show ?thesis using s k n xn c tx tc by (simp add: split_def r_def Let_def)
  qed
qed

subsection \<open>Adding a value\<close>

text \<open>
  A node of height \<open>h\<close> is ready to take a value, and the child that comes after it: its stored size
  already counts that child, which was cut from one of its children.
\<close>

primrec ready :: "nat \<Rightarrow> nat \<Rightarrow> 'a bnode \<Rightarrow> 'a bnode option \<Rightarrow> bool" where
  "ready R 0 node child =
     (child = None \<and> bn_children node = [] \<and> bn_size node = int (nbItems node) \<and> nbItems node \<le> 2 * R)"
| "ready R (Suc h) node child =
     ((case child of None \<Rightarrow> False | Some c \<Rightarrow> node_ok R R h c \<and>
         bn_size node = int (nbItems node) + (\<Sum>c \<leftarrow> bn_children node. bn_size c) + bn_size c) \<and>
      length (bn_children node) = Suc (nbItems node) \<and> (\<forall>c \<in> set (bn_children node). node_ok R R h c) \<and>
      nbItems node \<le> 2 * R)"

lemma sum_list_insert_at: "i \<le> length cs \<Longrightarrow> (\<Sum>c \<leftarrow> insert_at i x cs. f c) = (\<Sum>c \<leftarrow> cs. f c) + (f x :: int)"
proof -
  assume "i \<le> length cs"
  have "(\<Sum>c \<leftarrow> cs. f c) = (\<Sum>c \<leftarrow> take i cs @ drop i cs. f c)" by simp
  then show ?thesis unfolding insert_at_def by (simp del: append_take_drop_id)
qed

text \<open>What the node is after the value and the child are put in it.\<close>

lemma ready_put:
  fixes node :: "'a bnode" and v :: 'a
  assumes "ready R h node child" "i \<le> nbItems node"
  defines "X \<equiv> insert_at i v (bn_items node)" and "C \<equiv> put_child i child (bn_children node)"
  shows "length X = Suc (nbItems node)" "C = [] \<longleftrightarrow> h = 0" "h \<noteq> 0 \<Longrightarrow> length C = Suc (length X)"
    "\<forall>k. h = Suc k \<longrightarrow> (\<forall>c \<in> set C. node_ok R R k c)" "bn_size node = int (nbItems node) + (\<Sum>c \<leftarrow> C. bn_size c)"
proof -
  show "length X = Suc (nbItems node)" by (simp add: X_def)
  have "(C = [] \<longleftrightarrow> h = 0) \<and> (h \<noteq> 0 \<longrightarrow> length C = Suc (length X)) \<and>
    (\<forall>k. h = Suc k \<longrightarrow> (\<forall>c \<in> set C. node_ok R R k c)) \<and> bn_size node = int (nbItems node) + (\<Sum>c \<leftarrow> C. bn_size c)"
  proof (cases h)
    case 0
    then show ?thesis using assms(1) by (simp add: C_def put_child_leaf)
  next
    case (Suc k)
    then obtain c where c: "child = Some c" "node_ok R R k c" "length (bn_children node) = Suc (nbItems node)"
      "\<forall>c \<in> set (bn_children node). node_ok R R k c"
      "bn_size node = int (nbItems node) + (\<Sum>c \<leftarrow> bn_children node. bn_size c) + bn_size c"
      using assms(1) by (cases child) auto
    then have C: "C = insert_at (Suc i) c (bn_children node)" using assms(2) by (simp add: C_def put_child_insert)
    have "C \<noteq> []" by (simp add: C insert_at_def)
    then show ?thesis using Suc c assms(2) by (simp add: C X_def sum_list_insert_at)
  qed
  then show "C = [] \<longleftrightarrow> h = 0" "h \<noteq> 0 \<Longrightarrow> length C = Suc (length X)"
    "\<forall>k. h = Suc k \<longrightarrow> (\<forall>c \<in> set C. node_ok R R k c)" "bn_size node = int (nbItems node) + (\<Sum>c \<leftarrow> C. bn_size c)"
    by blast+
qed

lemma node_ok_part:
  assumes "h = 0 \<longleftrightarrow> C = []" "h \<noteq> 0 \<Longrightarrow> length C = Suc (length X)" "\<forall>k. h = Suc k \<longrightarrow> (\<forall>c \<in> set C. node_ok R R k c)"
    "lo \<le> length X" "length X \<le> 2 * R" "s = int (length X) + (\<Sum>c \<leftarrow> C. bn_size c)"
  shows "node_ok R lo h (BNode X C s)"
  using assms by (cases h) auto

lemma way_ok_change: "way_ok R h s fs \<Longrightarrow> way_ok R h (s + k) (map (\<lambda>(p, i). (change_size k p, i)) fs)"
proof (induction fs arbitrary: h s)
  case (Cons f fs)
  obtain p i where f: "f = (p, i)" by fastforce
  have "way_ok R (Suc h) (bn_size p + k) (map (\<lambda>(p, i). (change_size k p, i)) fs)"
    by (rule Cons.IH) (use Cons.prems f in auto)
  then show ?case using Cons.prems by (auto simp: f change_size_def least_items_def)
qed simp

lemma pre_suf_change [simp]:
  "pre_of (map (\<lambda>(p, i). (change_size k p, i)) fs) = pre_of fs"
  "suf_of (map (\<lambda>(p, i). (change_size k p, i)) fs) = suf_of fs"
  by (induction fs) (auto simp: change_size_def)

lemma whole_change [simp]: "whole (map (\<lambda>(p, i). (change_size k p, i)) fs) l = whole fs l"
  by (simp add: whole_def)

text \<open>Cutting a full node in the middle.\<close>

lemma halves_ok:
  assumes "h = 0 \<longleftrightarrow> C = []" "h \<noteq> 0 \<Longrightarrow> length C = Suc (length X)" "\<forall>k. h = Suc k \<longrightarrow> (\<forall>c \<in> set C. node_ok R R k c)"
    "length X = 2 * R + 1" "s = int (2 * R) + (\<Sum>c \<leftarrow> C. bn_size c)"
  defines "r \<equiv> BNode (drop (R + 1) X) (drop (R + 1) C) (int R + (\<Sum>c \<leftarrow> drop (R + 1) C. bn_size c))"
  defines "l \<equiv> BNode (take R X) (take (R + 1) C) (s - bn_size r)"
  shows "node_ok R R h l" "node_ok R R h r" "weave (map inorder C) X = inorder l @ X ! R # inorder r"
    "bn_size l + bn_size r = s"
proof -
  have "(\<Sum>c \<leftarrow> C. bn_size c) = (\<Sum>c \<leftarrow> take (R + 1) C @ drop (R + 1) C. bn_size c)" by simp
  then have sum: "(\<Sum>c \<leftarrow> C. bn_size c) = (\<Sum>c \<leftarrow> take (R + 1) C. bn_size c) + (\<Sum>c \<leftarrow> drop (R + 1) C. bn_size c)"
    by (simp del: append_take_drop_id)
  show "node_ok R R h l" unfolding l_def
    by (rule node_ok_part) (use assms(1-5) sum in \<open>auto simp: r_def dest: in_set_takeD\<close>)
  show "node_ok R R h r" unfolding r_def
    by (rule node_ok_part) (use assms(1-5) in \<open>auto dest: in_set_dropD\<close>)
  have "map inorder C = [] \<or> length (map inorder C) = Suc (length X)" using assms(1,2) by auto
  then show "weave (map inorder C) X = inorder l @ X ! R # inorder r"
    using weave_item [of "map inorder C" X R] assms(4) by (simp add: l_def r_def take_map drop_map)
  show "bn_size l + bn_size r = s" by (simp add: l_def)
qed

lemma weave_put_child:
  assumes "length cs = Suc (length xs)" "i \<le> length xs"
  shows "weave (map inorder (put_child i (Some r) (cs[i := l]))) (insert_at i m xs) =
    weave_left (map inorder (take i cs)) (take i xs) @ inorder l @ m # inorder r
      @ weave_right (map inorder (drop (Suc i) cs)) (drop i xs)"
proof -
  have p: "put_child i (Some r) (cs[i := l]) = take i cs @ l # r # drop (Suc i) cs"
    using assms by (simp add: put_child_def opt_list_def take_Suc_conv_app_nth)
  have "length (take i xs @ m # drop i xs) = Suc (length xs)" using assms by simp
  then show ?thesis unfolding p insert_at_def
    by (subst weave_split [where i = i]) (use assms in \<open>simp_all add: nth_append min_def take_map drop_map\<close>)
qed

lemma weave_left_items: "length cs = length xs \<Longrightarrow> set xs \<subseteq> set (weave_left cs xs)"
  by (induction cs xs rule: weave_left.induct) auto

lemma weave_right_items: "length cs = length xs \<Longrightarrow> set xs \<subseteq> set (weave_right cs xs)"
  by (induction cs xs rule: weave_right.induct) auto

context value_order
begin

lemma cut_at_frame:
  assumes "sorted_wrt lt (whole ((p, i) # fs) l)" "m \<in> set l"
    "length (bn_children p) = Suc (nbItems p)" "i \<le> nbItems p"
  shows "cut_at lt m (bn_items p) i"
proof -
  have "set (take i (bn_items p)) \<subseteq> set (weave_left (map inorder (take i (bn_children p))) (take i (bn_items p)))"
    by (rule weave_left_items) (use assms(3,4) in simp)
  moreover have "set (drop i (bn_items p)) \<subseteq> set (weave_right (map inorder (drop (Suc i) (bn_children p))) (drop i (bn_items p)))"
    by (rule weave_right_items) (use assms(3,4) in simp)
  ultimately have b: "\<forall>x \<in> set (take i (bn_items p)). lt x m" "\<forall>x \<in> set (drop i (bn_items p)). lt m x"
    using assms(1,2) by (auto simp: whole_def sorted_wrt_append)
  show ?thesis unfolding cut_at_def
  proof (intro conjI allI impI)
    show "i \<le> nbItems p" by fact
    show "lt (bn_items p ! j) m" if "j < i" for j
    proof -
      have "take i (bn_items p) ! j \<in> set (take i (bn_items p))" using that assms(4) by (intro nth_mem) simp
      then show ?thesis using b(1) that by simp
    qed
    show "\<not> lt (bn_items p ! j) m" if "j < nbItems p" "i \<le> j" for j
    proof -
      have "bn_items p ! j \<in> set (drop i (bn_items p))"
        using that by (auto simp: in_set_conv_nth intro!: exI [of _ "j - i"])
      then show ?thesis using b(2) lt_asym by blast
    qed
  qed
qed

lemma add_room:
  assumes "ready R h node child" "least_items R h fs \<le> nbItems node" "way_ok R h (bn_size node) fs"
    "cut_at lt v (bn_items node) i" "nbItems node < 2 * R" "M = 2 * R + 1"
  shows "tree_ok R (add lt M node fs v child) \<and> inorder (add lt M node fs v child) =
    whole fs (weave (map inorder (put_child i child (bn_children node))) (insert_at i v (bn_items node)))"
proof -
  let ?X = "insert_at i v (bn_items node)" and ?C = "put_child i child (bn_children node)"
  let ?n = "BNode ?X ?C (bn_size node + 1)" and ?gs = "map (\<lambda>(p, i). (change_size 1 p, i)) fs"
  have i: "i \<le> nbItems node" using assms(4) by (simp add: cut_at_def)
  note r = ready_put [OF assms(1) i]
  have ok: "node_ok R (least_items R h ?gs) h ?n"
    by (rule node_ok_part) (use r assms(2,5) in \<open>auto simp: least_items_def\<close>)
  have w: "way_ok R h (bn_size ?n) ?gs" using way_ok_change [OF assms(3), of 1] by simp
  have "add lt M node fs v child = root_of ?n ?gs"
    using assms(5) put_cut [OF assms(4)] \<open>M = 2 * R + 1\<close> by (subst add.simps) (simp add: incrementSize_def change_size_def)
  then show ?thesis using root_of_both [OF w ok] by simp
qed

lemma split_halves:
  assumes "ready R h node child" "cut_at lt v (bn_items node) i" "nbItems node = 2 * R" "1 \<le> R" "M = 2 * R + 1"
  obtains l m r where "split lt M node v child = (l, m, r)" "node_ok R R h l" "node_ok R R h r"
    "weave (map inorder (put_child i child (bn_children node))) (insert_at i v (bn_items node)) =
      inorder l @ m # inorder r" "bn_size l + bn_size r = bn_size node"
proof -
  have i: "i \<le> nbItems node" using assms(2) by (simp add: cut_at_def)
  have full: "full_node R node child" using assms(1,3) by (cases h) (auto simp: full_node_def split: option.splits)
  note r = ready_put [OF assms(1) i]
  note s = split_spec [OF full assms(2,4,5)]
  note halves = halves_ok [OF r(2) [symmetric] r(3,4) r(1) [unfolded assms(3) Suc_eq_plus1] r(5) [unfolded assms(3)]]
  show thesis by (rule that [OF s halves])
qed

lemma add_spec:
  assumes "1 \<le> R" "M = 2 * R + 1"
  shows "ready R h node child \<Longrightarrow> least_items R h fs \<le> nbItems node \<Longrightarrow> way_ok R h (bn_size node) fs \<Longrightarrow>
    cut_at lt v (bn_items node) i \<Longrightarrow>
    sorted_wrt lt (whole fs (weave (map inorder (put_child i child (bn_children node))) (insert_at i v (bn_items node)))) \<Longrightarrow>
    tree_ok R (add lt M node fs v child) \<and> inorder (add lt M node fs v child) =
      whole fs (weave (map inorder (put_child i child (bn_children node))) (insert_at i v (bn_items node)))"
proof (induction fs arbitrary: h node v child i)
  case Nil
  show ?case
  proof (cases "nbItems node < 2 * R")
    case True
    then show ?thesis using add_room [OF Nil.prems(1-4)] assms(2) by blast
  next
    case False
    then have nb: "nbItems node = 2 * R" using Nil.prems(1) by (cases h) auto
    obtain l m r where s: "split lt M node v child = (l, m, r)" "node_ok R R h l" "node_ok R R h r"
      "weave (map inorder (put_child i child (bn_children node))) (insert_at i v (bn_items node)) =
        inorder l @ m # inorder r" "bn_size l + bn_size r = bn_size node"
      using split_halves [OF Nil.prems(1,4) nb assms] .
    have a: "add lt M node [] v child = new_root l m r" using nb assms(2) s(1) by (subst add.simps) simp
    have "node_ok R 1 (Suc h) (new_root l m r)" using s assms(1) by (simp add: new_root_def)
    then have "tree_ok R (new_root l m r)" unfolding tree_ok_iff by (intro exI [of _ "Suc h"]) simp
    moreover have "inorder (new_root l m r) = inorder l @ m # inorder r" by (simp add: new_root_def)
    ultimately show ?thesis by (simp add: a s(4) whole_def)
  qed
next
  case (Cons f fs)
  obtain p k where f: "f = (p, k)" by fastforce
  show ?case
  proof (cases "nbItems node < 2 * R")
    case True
    then show ?thesis using add_room [OF Cons.prems(1-4)] assms(2) by blast
  next
    case False
    then have nb: "nbItems node = 2 * R" using Cons.prems(1) by (cases h) auto
    obtain l m r where s: "split lt M node v child = (l, m, r)" "node_ok R R h l" "node_ok R R h r"
      "weave (map inorder (put_child i child (bn_children node))) (insert_at i v (bn_items node)) =
        inorder l @ m # inorder r" "bn_size l + bn_size r = bn_size node"
      using split_halves [OF Cons.prems(1,4) nb assms] .
    have w: "length (bn_children p) = Suc (nbItems p)" "k \<le> nbItems p"
      "\<forall>j < length (bn_children p). j \<noteq> k \<longrightarrow> node_ok R R h (bn_children p ! j)"
      "bn_size p = int (nbItems p) + (\<Sum>c \<leftarrow> take k (bn_children p). bn_size c) + bn_size node
        + (\<Sum>c \<leftarrow> drop (Suc k) (bn_children p). bn_size c)"
      "least_items R (Suc h) fs \<le> nbItems p" "nbItems p \<le> 2 * R" "way_ok R (Suc h) (bn_size p) fs"
      using Cons.prems(3) unfolding f way_ok.simps by blast+
    let ?p = "plug f l"
    have pf: "bn_items ?p = bn_items p" "bn_children ?p = (bn_children p)[k := l]" "bn_size ?p = bn_size p"
      by (simp_all add: f)
    have kl: "k < length (bn_children p)" using w by simp
    have ch: "\<forall>c \<in> set ((bn_children p)[k := l]). node_ok R R h c"
    proof
      fix c assume "c \<in> set ((bn_children p)[k := l])"
      then obtain j where "j < length (bn_children p)" "c = (bn_children p)[k := l] ! j" by (auto simp: in_set_conv_nth)
      then show "node_ok R R h c" using w(3) s(2) by (cases "j = k") simp_all
    qed
    have rd: "ready R (Suc h) ?p (Some r)"
      using w ch s(3,5) by (simp add: pf sum_list_update_split [OF kl])
    have e: "weave (map inorder (put_child k (Some r) (bn_children ?p))) (insert_at k m (bn_items ?p)) =
      weave_left (map inorder (take k (bn_children p))) (take k (bn_items p)) @ (inorder l @ m # inorder r)
        @ weave_right (map inorder (drop (Suc k) (bn_children p))) (drop k (bn_items p))"
      using weave_put_child [OF w(1,2)] by (simp add: pf)
    have wh: "whole fs (weave (map inorder (put_child k (Some r) (bn_children ?p))) (insert_at k m (bn_items ?p)))
      = whole (f # fs) (inorder l @ m # inorder r)" unfolding e by (simp add: whole_def f)
    have so: "sorted_wrt lt (whole (f # fs) (inorder l @ m # inorder r))" using Cons.prems(5) s(4) by simp
    have ct: "cut_at lt m (bn_items ?p) k"
      using cut_at_frame [OF so [unfolded f], of m] w(1,2) by (simp add: pf)
    have a: "add lt M node (f # fs) v child = add lt M ?p fs m (Some r)"
      using nb assms(2) s(1) by (subst add.simps) simp
    show ?thesis
      using Cons.IH [OF rd _ _ ct] w(5,7) so unfolding a s(4) wh by (simp add: pf)
  qed
qed

end

subsection \<open>The list of the values\<close>

text \<open>The specification: the value replaces the one that is the same, or gets its place.\<close>

definition insert_sorted :: "('a \<Rightarrow> 'a \<Rightarrow> bool) \<Rightarrow> 'a \<Rightarrow> 'a list \<Rightarrow> 'a list" where
  "insert_sorted lt v l = filter (\<lambda>x. lt x v) l @ v # filter (\<lambda>x. lt v x) l"

lemma inorder_set_item:
  assumes "node_ok R lo h n" "p < nbItems n"
  shows "node_ok R lo h (set_item p v n)" "inorder (set_item p v n) =
    before n p @ v # weave (map inorder (drop (Suc p) (bn_children n))) (drop (Suc p) (bn_items n))"
proof -
  show o: "node_ok R lo h (set_item p v n)" using assms(1) by (cases h) (simp_all add: set_item_def)
  show "inorder (set_item p v n) =
    before n p @ v # weave (map inorder (drop (Suc p) (bn_children n))) (drop (Suc p) (bn_items n))"
    using inorder_around [OF o, of p] assms(2) by (simp add: set_item_def before_def)
qed

context value_order
begin

lemma insert_sorted_place:
  assumes "\<forall>x \<in> set a. lt x v" "\<forall>x \<in> set b. lt v x"
  shows "insert_sorted lt v (a @ b) = a @ v # b"
proof -
  have "\<forall>x \<in> set b. \<not> lt x v" "\<forall>x \<in> set a. \<not> lt v x" using assms lt_asym by blast+
  then show ?thesis using assms by (simp add: insert_sorted_def)
qed

lemma insert_sorted_replace:
  assumes "\<forall>y \<in> set a. lt y v" "same_value lt x v" "\<forall>y \<in> set b. lt v y"
  shows "insert_sorted lt v (a @ x # b) = a @ v # b"
proof -
  have "insert_sorted lt v (a @ x # b) = insert_sorted lt v (a @ b)"
    using assms(2) by (simp add: insert_sorted_def same_value_def)
  then show ?thesis using insert_sorted_place assms by simp
qed

lemma insert_sorted_sorted: "sorted_wrt lt l \<Longrightarrow> sorted_wrt lt (insert_sorted lt v l)"
  by (auto simp: insert_sorted_def sorted_wrt_append sorted_wrt_filter intro: lt_trans)

lemma cut_position: "at_position lt v xs p False \<Longrightarrow> cut_at lt v xs p"
proof -
  assume p: "at_position lt v xs p False"
  have "lt (xs ! j) v" if "j < p" for j
  proof -
    have "take p xs ! j \<in> set (take p xs)" using that p by (intro nth_mem) (simp add: at_position_def)
    then show ?thesis using p that by (simp add: at_position_def)
  qed
  moreover have "\<not> lt (xs ! j) v" if "p \<le> j" "j < length xs" for j
  proof -
    have "drop p xs ! (j - p) \<in> set (drop p xs)" using that by (intro nth_mem) simp
    then have "lt v (xs ! j)" using p that by (simp add: at_position_def)
    then show ?thesis using lt_asym by blast
  qed
  ultimately show ?thesis using p by (auto simp: cut_at_def at_position_def)
qed

lemma add_new:
  assumes "1 \<le> R" "M = 2 * R + 1" "found_node R v n fs None" "sorted_wrt lt (whole fs (inorder n))"
  shows "tree_ok R (add lt M n fs v None) \<and> inorder (add lt M n fs v None) = insert_sorted lt v (whole fs (inorder n))"
proof -
  obtain p where n: "node_ok R (least_items R 0 fs) 0 n" "way_ok R 0 (bn_size n) fs" "between v fs"
    "at_position lt v (bn_items n) p False"
    using assms(3) by (auto simp: found_node_def simp del: node_ok.simps)
  have rd: "ready R 0 n None" using n(1) by simp
  have i: "inorder n = take p (bn_items n) @ drop p (bn_items n)" using n(1) by (simp add: inorder_node)
  have "insert_sorted lt v ((pre_of fs @ take p (bn_items n)) @ (drop p (bn_items n) @ suf_of fs))
      = (pre_of fs @ take p (bn_items n)) @ v # (drop p (bn_items n) @ suf_of fs)"
    by (rule insert_sorted_place) (use n(3,4) in \<open>auto simp: between_def at_position_def\<close>)
  then have e: "whole fs (insert_at p v (bn_items n)) = insert_sorted lt v (whole fs (inorder n))"
    unfolding whole_def insert_at_def i by (simp only: append.assoc append_Cons)
  have w: "weave (map inorder (put_child p None (bn_children n))) (insert_at p v (bn_items n)) = insert_at p v (bn_items n)"
    using n(1) by (simp add: put_child_leaf)
  have "least_items R 0 fs \<le> nbItems n" using n(1) by simp
  then show ?thesis
    using add_spec [OF assms(1,2) rd _ n(2) cut_position [OF n(4)]] insert_sorted_sorted [OF assms(4), of v]
    unfolding w e by simp
qed

lemma insert_value_ok:
  assumes "1 \<le> R" "M = 2 * R + 1" "array_ok lt M root"
  shows "array_ok lt M (snd (insert_value lt M v root)) \<and>
    inorder (snd (insert_value lt M v root)) = insert_sorted lt v (inorder root) \<and>
    fst (insert_value lt M v root) = (\<exists>x \<in> set (inorder root). same_value lt x v)"
proof -
  have R: "M div 2 = R" using assms(2) by simp
  obtain n fs pos where g: "getNode lt root v [] = (n, fs, pos)" by (metis prod_cases3)
  note f = getNode_root [OF assms(3) g, unfolded R]
  have so: "sorted_wrt lt (whole fs (inorder n))" using assms(3) f(2) by (simp add: array_ok_def)
  show ?thesis
  proof (cases pos)
    case None
    have "\<not> (\<exists>x \<in> set (inorder root). same_value lt x v)"
      using found_node_absent [OF f(1) [unfolded None]] f(2) by simp
    then show ?thesis
      using add_new [OF assms(1,2) f(1) [unfolded None] so] f(2) insert_sorted_sorted [OF so, of v] None g
      by (simp add: insert_value_def array_ok_def R)
  next
    case (Some p)
    obtain h where n: "node_ok R (least_items R h fs) h n" "way_ok R h (bn_size n) fs" "between v fs"
      "at_position lt v (bn_items n) p True"
      using f(1) by (auto simp: found_node_def Some)
    have p: "p < nbItems n" "same_value lt (bn_items n ! p) v" using n(4) by (simp_all add: at_position_def)
    let ?a = "before n p" and ?b = "weave (map inorder (drop (Suc p) (bn_children n))) (drop (Suc p) (bn_items n))"
    note s = inorder_set_item [OF n(1) p(1), of v] and i = inorder_around [OF n(1) p(1)]
    have w: "way_ok R h (bn_size (set_item p v n)) fs" using n(2) by (simp add: set_item_def)
    have so': "sorted_wrt lt ((pre_of fs @ ?a) @ bn_items n ! p # (?b @ suf_of fs))"
      using so by (simp add: whole_def i)
    have "\<forall>y \<in> set (pre_of fs @ ?a). lt y v" "\<forall>y \<in> set (?b @ suf_of fs). lt v y"
      using sorted_before [OF so', of _ v] sorted_after [OF so', of _ v] p(2) by (auto simp: same_value_def)
    then have e: "insert_sorted lt v (whole fs (inorder n)) = whole fs (inorder (set_item p v n))"
      using insert_sorted_replace [of "pre_of fs @ ?a" v "bn_items n ! p" "?b @ suf_of fs"] p(2)
      by (simp add: whole_def i s(2))
    have "\<exists>x \<in> set (inorder root). same_value lt x v"
      using found_node_present(2,3) [OF f(1) [unfolded Some]] f(2) by auto
    then show ?thesis
      using root_of_both [OF w s(1)] e f(2) insert_sorted_sorted [OF so, of v] Some g
      by (simp add: insert_value_def array_ok_def R)
  qed
qed

lemma new_node_ok: "array_ok lt M new_node"
proof -
  have "node_ok (M div 2) 0 0 new_node" by (simp add: new_node_def)
  then have "tree_ok (M div 2) new_node" unfolding tree_ok_iff by (intro exI [of _ 0]) simp
  then show ?thesis by (simp add: array_ok_def new_node_def)
qed

lemma insert_sorted_mset:
  assumes "\<forall>x \<in> set l. \<not> same_value lt x v"
  shows "mset (insert_sorted lt v l) = add_mset v (mset l)"
proof -
  have "filter (\<lambda>x. lt v x) l = filter (\<lambda>x. \<not> lt x v) l"
    using assms lt_asym unfolding same_value_def by (intro filter_cong) auto
  then show ?thesis by (simp add: insert_sorted_def mset_filter [symmetric] del: mset_filter)
      (simp add: multiset_partition [symmetric])
qed

lemma resort_fold:
  assumes "1 \<le> R" "M = 2 * R + 1"
  shows "array_ok lt M t \<Longrightarrow> \<forall>x \<in> set (inorder t). \<forall>y \<in> set l. \<not> same_value lt x y \<Longrightarrow>
      sorted_wrt (\<lambda>x y. \<not> same_value lt x y) l \<Longrightarrow>
    array_ok lt M (fold (resort_step lt M) l t) \<and>
    mset (inorder (fold (resort_step lt M) l t)) = mset (inorder t) + mset l"
proof (induction l arbitrary: t)
  case (Cons v l)
  have ab: "\<forall>x \<in> set (inorder t). \<not> same_value lt x v" using Cons.prems(2) by auto
  have i: "fst (insert_value lt M v t) = False" using insert_value_ok [OF assms Cons.prems(1), of v] ab by auto
  have e: "resort_step lt M v t = snd (insert_value lt M v t)"
    using i by (auto simp: resort_step_def insert_value_def split: prod.splits option.splits)
  have s: "inorder (resort_step lt M v t) = insert_sorted lt v (inorder t)" "array_ok lt M (resort_step lt M v t)"
    using insert_value_ok [OF assms Cons.prems(1), of v] by (simp_all add: e)
  have "set (inorder (resort_step lt M v t)) \<subseteq> insert v (set (inorder t))" by (auto simp: s(1) insert_sorted_def)
  then have "\<forall>x \<in> set (inorder (resort_step lt M v t)). \<forall>y \<in> set l. \<not> same_value lt x y"
    "sorted_wrt (\<lambda>x y. \<not> same_value lt x y) l"
    using Cons.prems(2,3) by (auto simp: same_value_def)
  then show ?case using Cons.IH [OF s(2)] insert_sorted_mset [OF ab] by (simp add: s(1))
qed simp

end

end
