(* ===== verification/Sorted_Array_Remove.thy ===== *)
theory Sorted_Array_Remove
  imports Sorted_Array_Insert
begin

text \<open>
  Removal from the B-tree of \<open>SortedArray.h\<close>: \<open>remove\<close>, which takes the item of a leaf in place of one
  of an inner node, and \<open>rebalance\<close>, which goes up the tree while a node has too few items and takes
  one from a neighbour or merges two nodes.
\<close>

subsection \<open>Operations\<close>

definition decrementSize :: "'a bnode \<Rightarrow> 'a frame list \<Rightarrow> 'a bnode \<times> 'a frame list" where
  "decrementSize node fs = (change_size (-1) node, map (\<lambda>(p, i). (change_size (-1) p, i)) fs)"

definition shiftLeft :: "nat \<Rightarrow> nat \<Rightarrow> 'a bnode \<Rightarrow> 'a bnode" where
  "shiftLeft i j n = BNode (remove_at i (bn_items n)) (remove_at j (bn_children n)) (bn_size n)"

text \<open>\<open>shiftRight\<close> with the child that \<open>moveChild\<close> puts in the free place.\<close>

definition shiftRight :: "'a \<Rightarrow> 'a bnode list \<Rightarrow> 'a bnode \<Rightarrow> 'a bnode" where
  "shiftRight v child n = BNode (v # bn_items n) (child @ bn_children n) (bn_size n)"

definition sizes :: "'a bnode list \<Rightarrow> int" where
  "sizes cs = (\<Sum>c \<leftarrow> cs. bn_size c)"

definition take_from_right :: "'a bnode \<Rightarrow> 'a bnode \<Rightarrow> nat \<Rightarrow> 'a bnode \<Rightarrow> 'a bnode" where
  "take_from_right p node i r =
     (let c = nth_list 0 (bn_children r);
          node' = BNode (bn_items node @ [bn_items p ! i]) (bn_children node @ c) (bn_size node + sizes c + 1);
          r' = change_size (- sizes c - 1) (shiftLeft 0 0 r)
      in BNode ((bn_items p)[i := bn_items r ! 0]) ((bn_children p)[i := node', Suc i := r']) (bn_size p))"

definition take_from_left :: "'a bnode \<Rightarrow> 'a bnode \<Rightarrow> nat \<Rightarrow> 'a bnode \<Rightarrow> 'a bnode" where
  "take_from_left p l i node =
     (let c = nth_list (nbItems l) (bn_children l);
          node' = change_size (sizes c + 1) (shiftRight (bn_items p ! i) c node);
          l' = BNode (take (nbItems l - 1) (bn_items l)) (take (nbItems l) (bn_children l)) (bn_size l - sizes c - 1)
      in BNode ((bn_items p)[i := bn_items l ! (nbItems l - 1)]) ((bn_children p)[i := l', Suc i := node']) (bn_size p))"

text \<open>\<open>merge\<close>: into the root when it has one item left, else into the left node.\<close>

definition merge_root :: "'a bnode \<Rightarrow> 'a bnode \<Rightarrow> 'a bnode \<Rightarrow> 'a bnode" where
  "merge_root p l r = BNode (bn_items l @ bn_items p ! 0 # bn_items r) (bn_children l @ bn_children r) (bn_size p)"

definition merge_left :: "'a bnode \<Rightarrow> 'a bnode \<Rightarrow> nat \<Rightarrow> 'a bnode \<Rightarrow> 'a bnode" where
  "merge_left p l i r =
     (let l' = BNode (bn_items l @ bn_items p ! i # bn_items r) (bn_children l @ bn_children r) (bn_size l + 1 + bn_size r)
      in shiftLeft i (i + 1) (plug (p, i) l'))"

datatype 'a balance = Settled "'a bnode" | New_root "'a bnode" | Merged "'a bnode"

definition merge :: "'a bnode \<Rightarrow> 'a bnode \<Rightarrow> nat \<Rightarrow> 'a bnode \<Rightarrow> 'a frame list \<Rightarrow> 'a balance" where
  "merge p l i r fs = (if fs = [] \<and> nbItems p = 1 then New_root (merge_root p l r) else Merged (merge_left p l i r))"

text \<open>
  \<open>rebalance\<close> of the \<open>i\<close>-th child of \<open>p\<close>; the neighbours are those of \<open>getRightNeighbor\<close> and
  \<open>getLeftNeighbor\<close>.
\<close>

definition getRightNeighbor :: "'a bnode \<Rightarrow> nat \<Rightarrow> 'a bnode option" where
  "getRightNeighbor p i = (if i < nbItems p then Some (bn_children p ! (i + 1)) else None)"

definition getLeftNeighbor :: "'a bnode \<Rightarrow> nat \<Rightarrow> 'a bnode option" where
  "getLeftNeighbor p i = (if 1 \<le> i then Some (bn_children p ! (i - 1)) else None)"

definition rebalance_step :: "nat \<Rightarrow> 'a bnode \<Rightarrow> 'a bnode \<Rightarrow> nat \<Rightarrow> 'a frame list \<Rightarrow> 'a balance" where
  "rebalance_step M node p i fs =
     (let rich = (\<lambda>n. case n of None \<Rightarrow> False | Some n \<Rightarrow> nbItems n > M div 2)
      in case (getRightNeighbor p i, getLeftNeighbor p i) of (right, left) \<Rightarrow>
           if rich right then Settled (take_from_right p node i (the right))
           else if rich left then Settled (take_from_left p (the left) (i - 1) node)
           else (case right of Some r \<Rightarrow> merge p node i r fs
                 | None \<Rightarrow> merge p (the left) (i - 1) node fs))"

fun rebalance :: "nat \<Rightarrow> 'a bnode \<Rightarrow> 'a frame list \<Rightarrow> 'a bnode" where
  "rebalance M node [] = node"
| "rebalance M node ((p, i) # fs) =
     (if nbItems node \<ge> M div 2 then root_of node ((p, i) # fs)
      else (case rebalance_step M node p i fs of
              Settled p \<Rightarrow> root_of p fs
            | New_root root \<Rightarrow> root
            | Merged p \<Rightarrow> rebalance M p fs))"

text \<open>
  The item of an inner node is exchanged with the last one before it or the first one after it, and
  removed from the leaf of that one.
\<close>

definition remove_leaf :: "nat \<Rightarrow> 'a bnode \<Rightarrow> nat \<Rightarrow> 'a frame list \<Rightarrow> 'a bnode" where
  "remove_leaf M node i fs =
     (case decrementSize (BNode (remove_at i (bn_items node)) (bn_children node) (bn_size node)) fs of
        (n, gs) \<Rightarrow> rebalance M n gs)"

definition remove_item :: "nat \<Rightarrow> 'a bnode \<Rightarrow> nat \<Rightarrow> 'a frame list \<Rightarrow> 'a bnode" where
  "remove_item M node i fs =
     (if int (nbItems node) = bn_size node then remove_leaf M node i fs
      else (let l = fst (getRightmostNode (bn_children node ! i) ((node, i) # fs));
                r = fst (getLeftmostNode (bn_children node ! (i + 1)) ((node, i + 1) # fs));
                v = bn_items node ! i
            in if nbItems l > nbItems r
               then (case getRightmostNode (bn_children node ! i) ((set_item i (bn_items l ! (nbItems l - 1)) node, i) # fs) of
                       (n, gs) \<Rightarrow> remove_leaf M (set_item (nbItems l - 1) v n) (nbItems l - 1) gs)
               else (case getLeftmostNode (bn_children node ! (i + 1)) ((set_item i (bn_items r ! 0) node, i + 1) # fs) of
                       (n, gs) \<Rightarrow> remove_leaf M (set_item 0 v n) 0 gs)))"

definition remove_value :: "('a \<Rightarrow> 'a \<Rightarrow> bool) \<Rightarrow> nat \<Rightarrow> 'a \<Rightarrow> 'a bnode \<Rightarrow> bool \<times> 'a bnode" where
  "remove_value lt M v root =
     (case getNode lt root v [] of
        (_, _, None) \<Rightarrow> (False, root)
      | (node, fs, Some p) \<Rightarrow> (True, remove_item M node p fs))"

definition removeFromIndex :: "nat \<Rightarrow> int \<Rightarrow> 'a bnode \<Rightarrow> 'a bnode option" where
  "removeFromIndex M index root =
     (case getFromIndex root index 0 [] of None \<Rightarrow> None | Some (node, fs, p) \<Rightarrow> Some (remove_item M node p fs))"

subsection \<open>Two neighbours\<close>

lemma weave_join:
  "C = [] \<and> D = [] \<or> length C = Suc (length X) \<and> length D = Suc (length Y) \<Longrightarrow>
   weave (C @ D) (X @ x # Y) = weave C X @ x # weave D Y"
proof (induction C X rule: weave.induct)
  case (2 c cs)
  then show ?case by auto
qed auto

lemma weave_two:
  assumes "length cs = Suc (length xs)" "k < length xs"
  shows "weave cs xs = weave_left (take k cs) (take k xs) @ (cs ! k @ xs ! k # cs ! Suc k)
    @ weave_right (drop (Suc (Suc k)) cs) (drop (Suc k) xs)"
proof -
  have "drop (Suc k) cs = cs ! Suc k # drop (Suc (Suc k)) cs" "drop k xs = xs ! k # drop (Suc k) xs"
    using assms by (simp_all add: Cons_nth_drop_Suc)
  then show ?thesis using weave_split [OF assms(1), of k] assms(2) by simp
qed

text \<open>A node around two neighbours, after they are changed and after they are merged.\<close>

lemma inorder_two:
  assumes "length (bn_children p) = Suc (nbItems p)" "k < nbItems p"
  shows "inorder (BNode ((bn_items p)[k := y]) ((bn_children p)[k := a, Suc k := b]) s) =
    weave_left (map inorder (take k (bn_children p))) (take k (bn_items p)) @ (inorder a @ y # inorder b)
      @ weave_right (map inorder (drop (Suc (Suc k)) (bn_children p))) (drop (Suc k) (bn_items p))"
  using weave_two [of "map inorder ((bn_children p)[k := a, Suc k := b])" "(bn_items p)[k := y]" k] assms
  by (simp add: take_map drop_map)

lemma inorder_merged:
  assumes "length (bn_children p) = Suc (nbItems p)" "k < nbItems p"
  shows "inorder (shiftLeft k (k + 1) (plug (p, k) a)) =
    weave_left (map inorder (take k (bn_children p))) (take k (bn_items p)) @ inorder a
      @ weave_right (map inorder (drop (Suc (Suc k)) (bn_children p))) (drop (Suc k) (bn_items p))"
proof -
  have c: "remove_at (k + 1) ((bn_children p)[k := a]) = take k (bn_children p) @ a # drop (Suc (Suc k)) (bn_children p)"
    using assms by (simp add: remove_at_def take_Suc_conv_app_nth)
  have "length (take k (bn_items p) @ drop (Suc k) (bn_items p)) = nbItems p - 1" using assms by simp
  then show ?thesis unfolding shiftLeft_def plug_fields c inorder.simps
    by (subst weave_split [where i = k]) (use assms in \<open>simp_all add: remove_at_def nth_append min_def take_map drop_map\<close>)
qed

text \<open>Neighbours that are exchanged or merged in a well-formed parent.\<close>

lemma way_two:
  assumes "way_ok R h s ((p, i) # fs)" "k < nbItems p" "k = i \<or> Suc k = i"
  defines "other \<equiv> bn_children p ! (if k = i then Suc k else k)"
  shows "node_ok R R h other" "bn_size p = int (nbItems p) + (\<Sum>c \<leftarrow> take k (bn_children p). bn_size c) + s + bn_size other
    + (\<Sum>c \<leftarrow> drop (Suc (Suc k)) (bn_children p). bn_size c)"
    "\<forall>c \<in> set (take k (bn_children p)) \<union> set (drop (Suc (Suc k)) (bn_children p)). node_ok R R h c"
proof -
  let ?cs = "bn_children p"
  have l: "length ?cs = Suc (nbItems p)" and ok: "\<And>j. j < length ?cs \<Longrightarrow> j \<noteq> i \<Longrightarrow> node_ok R R h (?cs ! j)"
    and sz: "bn_size p = int (nbItems p) + (\<Sum>c \<leftarrow> take i ?cs. bn_size c) + s + (\<Sum>c \<leftarrow> drop (Suc i) ?cs. bn_size c)"
    using assms(1) unfolding way_ok.simps by blast+
  show "node_ok R R h other" using ok l assms(2,3) by (auto simp: other_def)
  have d: "drop (Suc k) ?cs = ?cs ! Suc k # drop (Suc (Suc k)) ?cs" and t: "take (Suc k) ?cs = take k ?cs @ [?cs ! k]"
    using l assms(2) by (simp_all add: Cons_nth_drop_Suc take_Suc_conv_app_nth)
  show "bn_size p = int (nbItems p) + (\<Sum>c \<leftarrow> take k ?cs. bn_size c) + s + bn_size other
    + (\<Sum>c \<leftarrow> drop (Suc (Suc k)) ?cs. bn_size c)"
    using assms(3) sz d t by (auto simp: other_def)
  show "\<forall>c \<in> set (take k ?cs) \<union> set (drop (Suc (Suc k)) ?cs). node_ok R R h c"
  proof
    fix c assume "c \<in> set (take k ?cs) \<union> set (drop (Suc (Suc k)) ?cs)"
    then obtain j where "c = ?cs ! j" "j < length ?cs" "j < k \<or> Suc k < j"
      using l assms(2) by (auto simp: in_set_conv_nth)
    then show "node_ok R R h c" using ok assms(3) by auto
  qed
qed

lemma update_two:
  assumes "Suc k < length cs"
  shows "cs[k := a, Suc k := b] = take k cs @ a # b # drop (Suc (Suc k)) cs"
proof -
  have "(T @ u # v # D)[length T := a, Suc (length T) := b] = T @ a # b # D" for T D u v
    by (induction T) auto
  from this [of "take k cs" "cs ! k" "cs ! Suc k" "drop (Suc (Suc k)) cs"] show ?thesis
    using assms by (simp add: Cons_nth_drop_Suc id_take_nth_drop [symmetric])
qed

lemma two_settled:
  assumes "way_ok R h s ((p, i) # fs)" "k < nbItems p" "k = i \<or> Suc k = i" "node_ok R R h a" "node_ok R R h b"
    "bn_size a + bn_size b = s + bn_size (bn_children p ! (if k = i then Suc k else k))"
  shows "node_ok R (least_items R (Suc h) fs) (Suc h)
    (BNode ((bn_items p)[k := y]) ((bn_children p)[k := a, Suc k := b]) (bn_size p))"
proof -
  note w = way_two [OF assms(1-3)]
  let ?cs = "bn_children p"
  have l: "length ?cs = Suc (nbItems p)" "least_items R (Suc h) fs \<le> nbItems p" "nbItems p \<le> 2 * R"
    using assms(1) unfolding way_ok.simps by blast+
  have c: "?cs[k := a, Suc k := b] = take k ?cs @ a # b # drop (Suc (Suc k)) ?cs"
    using l(1) assms(2) by (simp add: update_two)
  show ?thesis unfolding c node_ok.simps using w assms(2,4-6) l by auto
qed

lemma two_merged:
  assumes "way_ok R h s ((p, i) # fs)" "k < nbItems p" "k = i \<or> Suc k = i" "node_ok R R h a"
    "bn_size a = s + bn_size (bn_children p ! (if k = i then Suc k else k)) + 1" "lo < nbItems p"
  shows "node_ok R lo (Suc h) (shiftLeft k (k + 1) (plug (p, k) a))"
proof -
  note w = way_two [OF assms(1-3)]
  let ?cs = "bn_children p"
  have l: "length ?cs = Suc (nbItems p)" "nbItems p \<le> 2 * R"
    using assms(1) unfolding way_ok.simps by blast+
  have c: "remove_at (k + 1) (?cs[k := a]) = take k ?cs @ a # drop (Suc (Suc k)) ?cs"
    using l(1) assms(2) by (simp add: remove_at_def take_Suc_conv_app_nth)
  show ?thesis unfolding shiftLeft_def plug_fields c node_ok.simps
    using w assms(2,4-6) l by (auto simp: length_remove_at)
qed

text \<open>Taking an item from a neighbour, and merging, keep the values.\<close>

lemma node_parts:
  assumes "node_ok R lo h n"
  shows "h = 0 \<longleftrightarrow> bn_children n = []" "h \<noteq> 0 \<Longrightarrow> length (bn_children n) = Suc (nbItems n)"
    "\<forall>k. h = Suc k \<longrightarrow> (\<forall>c \<in> set (bn_children n). node_ok R R k c)"
    "bn_size n = int (nbItems n) + sizes (bn_children n)"
  using assms by (cases h; auto simp: sizes_def)+

lemma sizes_append [simp]: "sizes (xs @ ys) = sizes xs + sizes ys"
  by (simp add: sizes_def)

lemma right_parts:
  assumes "node_ok R lo h r" "1 \<le> nbItems r"
  shows "bn_children r = nth_list 0 (bn_children r) @ remove_at 0 (bn_children r)"
    "bn_items r = bn_items r ! 0 # remove_at 0 (bn_items r)"
  using assms by (cases "bn_children r"; cases "bn_items r"; simp add: nth_list_def remove_at_def)+

lemma taken_right:
  fixes n r :: "'a bnode" and x :: 'a
  assumes "node_ok R lo h n" "nbItems n + 1 = R" "node_ok R R h r" "R < nbItems r"
  defines "c \<equiv> nth_list 0 (bn_children r)"
  defines "n' \<equiv> BNode (bn_items n @ [x]) (bn_children n @ c) (bn_size n + sizes c + 1)"
    and "r' \<equiv> change_size (- sizes c - 1) (shiftLeft 0 0 r)"
  shows "node_ok R R h n'" "node_ok R R h r'" "bn_size n' + bn_size r' = bn_size n + bn_size r"
    "inorder n @ x # inorder r = inorder n' @ bn_items r ! 0 # inorder r'"
proof -
  note n = node_parts [OF assms(1)] and r = node_parts [OF assms(3)]
  have p: "bn_children r = c @ remove_at 0 (bn_children r)" "bn_items r = bn_items r ! 0 # remove_at 0 (bn_items r)"
    using right_parts [OF assms(3)] assms(4) by (simp_all add: c_def)
  have lc: "length c = (if h = 0 then 0 else 1)" using r(1) by (auto simp: c_def nth_list_def)
  have sc: "set c \<subseteq> set (bn_children r)" using p(1) by (metis set_append Un_upper1)
  have sd: "set (remove_at 0 (bn_children r)) \<subseteq> set (bn_children r)" by (rule set_remove_at_subset)
  have li: "length (remove_at 0 (bn_items r)) = nbItems r - 1" using assms(4) by (subst length_remove_at) auto
  have lr: "h \<noteq> 0 \<Longrightarrow> length (remove_at 0 (bn_children r)) = nbItems r"
    using r(2) assms(4) by (simp add: length_remove_at)
  have ss: "sizes (bn_children r) = sizes c + sizes (remove_at 0 (bn_children r))" by (subst p(1)) simp
  show "node_ok R R h n'" unfolding n'_def
    by (rule node_ok_part) (use n r lc sc assms(2) in \<open>auto simp: sizes_def\<close>)
  show "node_ok R R h r'" unfolding r'_def change_size_def shiftLeft_def bnode.sel
  proof (rule node_ok_part)
    show "h = 0 \<longleftrightarrow> remove_at 0 (bn_children r) = []"
      using lr r(1) assms(4) by (cases h) (auto simp: remove_at_def)
    show "\<forall>k. h = Suc k \<longrightarrow> (\<forall>c \<in> set (remove_at 0 (bn_children r)). node_ok R R k c)" using r(3) sd by blast
    show "bn_size r + (- sizes c - 1) = int (length (remove_at 0 (bn_items r))) + (\<Sum>c \<leftarrow> remove_at 0 (bn_children r). bn_size c)"
      using r(4) ss li assms(4) by (simp add: sizes_def)
  qed (use li lr assms(4) node_ok_bounds [OF assms(3)] in auto)
  show "bn_size n' + bn_size r' = bn_size n + bn_size r" by (simp add: n'_def r'_def change_size_def shiftLeft_def)
  let ?d = "map inorder (remove_at 0 (bn_children r))" and ?y = "remove_at 0 (bn_items r)"
  have ir: "inorder r = weave (map inorder c @ ?d) (bn_items r ! 0 # ?y)"
    unfolding inorder_node [of r] by (metis p map_append)
  have "inorder n' = inorder n @ x # concat (map inorder c)"
  proof (cases h)
    case 0
    then show ?thesis using n(1) lc by (simp add: n'_def inorder_node)
  next
    case (Suc k)
    then obtain d where d: "c = [d]" using lc by (auto simp: length_Suc_conv)
    show ?thesis using weave_join [of "map inorder (bn_children n)" "[inorder d]" "bn_items n" "[]" x] n(2) Suc
      by (simp add: n'_def d inorder_node)
  qed
  moreover have "inorder r = concat (map inorder c) @ bn_items r ! 0 # inorder r'"
  proof (cases h)
    case 0
    then show ?thesis using r(1) lc ir by (simp add: r'_def change_size_def shiftLeft_def remove_at_def)
  next
    case (Suc k)
    then obtain d where d: "c = [d]" using lc by (auto simp: length_Suc_conv)
    show ?thesis using ir by (simp add: d r'_def change_size_def shiftLeft_def)
  qed
  ultimately show "inorder n @ x # inorder r = inorder n' @ bn_items r ! 0 # inorder r'" by simp
qed

lemma left_parts:
  assumes "node_ok R lo h l" "1 \<le> nbItems l"
  shows "bn_children l = take (nbItems l) (bn_children l) @ nth_list (nbItems l) (bn_children l)"
    "bn_items l = take (nbItems l - 1) (bn_items l) @ [bn_items l ! (nbItems l - 1)]"
proof -
  show "bn_children l = take (nbItems l) (bn_children l) @ nth_list (nbItems l) (bn_children l)"
    using node_parts(1,2) [OF assms(1)] by (cases h) (auto simp: nth_list_def take_Suc_conv_app_nth [symmetric])
  show "bn_items l = take (nbItems l - 1) (bn_items l) @ [bn_items l ! (nbItems l - 1)]"
    using assms(2) by (simp add: take_Suc_conv_app_nth [symmetric])
qed

lemma taken_left:
  fixes n l :: "'a bnode" and x :: 'a
  assumes "node_ok R lo h n" "nbItems n + 1 = R" "node_ok R R h l" "R < nbItems l"
  defines "c \<equiv> nth_list (nbItems l) (bn_children l)"
  defines "n' \<equiv> change_size (sizes c + 1) (shiftRight x c n)"
    and "l' \<equiv> BNode (take (nbItems l - 1) (bn_items l)) (take (nbItems l) (bn_children l)) (bn_size l - sizes c - 1)"
  shows "node_ok R R h n'" "node_ok R R h l'" "bn_size l' + bn_size n' = bn_size n + bn_size l"
    "inorder l @ x # inorder n = inorder l' @ bn_items l ! (nbItems l - 1) # inorder n'"
proof -
  note n = node_parts [OF assms(1)] and l = node_parts [OF assms(3)]
  have p: "bn_children l = take (nbItems l) (bn_children l) @ c"
    "bn_items l = take (nbItems l - 1) (bn_items l) @ [bn_items l ! (nbItems l - 1)]"
    using left_parts [OF assms(3)] assms(4) by (simp_all add: c_def)
  have lc: "length c = (if h = 0 then 0 else 1)" using l(1,2) by (auto simp: c_def nth_list_def)
  have sc: "set c \<subseteq> set (bn_children l)" by (auto simp: c_def nth_list_def)
  have ss: "sizes (bn_children l) = sizes (take (nbItems l) (bn_children l)) + sizes c" by (subst p(1)) simp
  show "node_ok R R h n'" unfolding n'_def change_size_def shiftRight_def bnode.sel
    by (rule node_ok_part) (use n l lc sc assms(2) in \<open>auto simp: sizes_def\<close>)
  show "node_ok R R h l'" unfolding l'_def
  proof (rule node_ok_part)
    show "h = 0 \<longleftrightarrow> take (nbItems l) (bn_children l) = []" using l(1,2) assms(4) by (cases h) auto
    show "\<forall>k. h = Suc k \<longrightarrow> (\<forall>c \<in> set (take (nbItems l) (bn_children l)). node_ok R R k c)"
      using l(3) by (auto dest: in_set_takeD)
    show "bn_size l - sizes c - 1 = int (length (take (nbItems l - 1) (bn_items l)))
        + (\<Sum>c \<leftarrow> take (nbItems l) (bn_children l). bn_size c)"
      using l(4) ss assms(4) by (simp add: sizes_def)
  qed (use l(2) assms(4) node_ok_bounds [OF assms(3)] in auto)
  show "bn_size l' + bn_size n' = bn_size n + bn_size l" by (simp add: n'_def l'_def change_size_def shiftRight_def)
  have "inorder n' = concat (map inorder c) @ x # inorder n"
  proof (cases h)
    case 0
    then show ?thesis using n(1) lc by (simp add: n'_def change_size_def shiftRight_def inorder_node)
  next
    case (Suc k)
    then obtain d where "c = [d]" using lc by (auto simp: length_Suc_conv)
    then show ?thesis by (simp add: n'_def change_size_def shiftRight_def inorder_node)
  qed
  moreover have "inorder l = inorder l' @ bn_items l ! (nbItems l - 1) # concat (map inorder c)"
  proof (cases h)
    case 0
    then show ?thesis using l(1) lc p(2) by (simp add: l'_def inorder_node)
  next
    case (Suc k)
    then obtain d where d: "c = [d]" using lc by (auto simp: length_Suc_conv)
    have "inorder l = weave (map inorder (take (nbItems l) (bn_children l)) @ [inorder d])
        (take (nbItems l - 1) (bn_items l) @ bn_items l ! (nbItems l - 1) # [])"
      unfolding inorder_node [of l] using p unfolding d by (metis list.simps(8,9) map_append)
    also have "\<dots> = inorder l' @ bn_items l ! (nbItems l - 1) # inorder d"
      by (subst weave_join) (use l(2) Suc assms(4) in \<open>auto simp: l'_def\<close>)
    finally show ?thesis by (simp add: d)
  qed
  ultimately show "inorder l @ x # inorder n = inorder l' @ bn_items l ! (nbItems l - 1) # inorder n'" by simp
qed

lemma joined:
  assumes "node_ok R lo h l" "node_ok R lo' h r" "nbItems l + nbItems r + 1 = 2 * R"
    "s = bn_size l + 1 + bn_size r" "1 \<le> R"
  shows "node_ok R R h (BNode (bn_items l @ x # bn_items r) (bn_children l @ bn_children r) s)"
    "inorder (BNode (bn_items l @ x # bn_items r) (bn_children l @ bn_children r) s) = inorder l @ x # inorder r"
proof -
  note l = node_parts [OF assms(1)] and r = node_parts [OF assms(2)]
  show "node_ok R R h (BNode (bn_items l @ x # bn_items r) (bn_children l @ bn_children r) s)"
    by (rule node_ok_part) (use l r assms(3-5) in \<open>auto simp: sizes_def\<close>)
  show "inorder (BNode (bn_items l @ x # bn_items r) (bn_children l @ bn_children r) s) = inorder l @ x # inorder r"
    using weave_join [of "map inorder (bn_children l)" "map inorder (bn_children r)" "bn_items l" "bn_items r" x] l(1,2) r(1,2)
    by (simp add: inorder_node) blast
qed

text \<open>One step of \<open>rebalance\<close>.\<close>

definition balanced :: "nat \<Rightarrow> nat \<Rightarrow> 'a frame list \<Rightarrow> 'a list \<Rightarrow> int \<Rightarrow> 'a balance \<Rightarrow> bool" where
  "balanced R h fs l s b = (case b of
     Settled p \<Rightarrow> node_ok R (least_items R (Suc h) fs) (Suc h) p \<and> inorder p = l \<and> bn_size p = s
   | New_root r \<Rightarrow> fs = [] \<and> tree_ok R r \<and> inorder r = l
   | Merged p \<Rightarrow> node_ok R (if fs = [] then 1 else R - 1) (Suc h) p \<and> inorder p = l \<and> bn_size p = s)"

lemma merge_balanced:
  assumes "1 \<le> R" "way_ok R h s ((p, i) # fs)" "k < nbItems p" "k = i \<or> Suc k = i"
    "node_ok R lo h a" "node_ok R lo' h b" "nbItems a + nbItems b + 1 = 2 * R"
    "bn_size a + bn_size b = s + bn_size (bn_children p ! (if k = i then Suc k else k))"
    "l = weave_left (map inorder (take k (bn_children p))) (take k (bn_items p)) @ (inorder a @ bn_items p ! k # inorder b)
      @ weave_right (map inorder (drop (Suc (Suc k)) (bn_children p))) (drop (Suc k) (bn_items p))"
  shows "balanced R h fs l (bn_size p) (merge p a k b fs)"
proof -
  have p: "length (bn_children p) = Suc (nbItems p)" "least_items R (Suc h) fs \<le> nbItems p"
    using assms(2) unfolding way_ok.simps by blast+
  show ?thesis
  proof (cases "fs = [] \<and> nbItems p = 1")
    case True
    then have k: "k = 0" "fs = []" "nbItems p = 1" using assms(3) by simp_all
    have "bn_size p = bn_size a + 1 + bn_size b"
      using way_two(2) [OF assms(2-4)] assms(8) k p(1) by simp
    note j = joined [OF assms(5-7) this assms(1), of "bn_items p ! 0"]
    have "tree_ok R (merge_root p a b)"
      unfolding merge_root_def tree_ok_iff
      by (rule exI [of _ h]) (rule node_ok_le [OF j(1)], use assms(1) in simp)
    moreover have "inorder (merge_root p a b) = l"
      using j(2) assms(9) k p(1) by (simp add: merge_root_def)
    ultimately show ?thesis using k by (simp add: balanced_def merge_def)
  next
    case False
    let ?a = "BNode (bn_items a @ bn_items p ! k # bn_items b) (bn_children a @ bn_children b) (bn_size a + 1 + bn_size b)"
    note j = joined [OF assms(5-7) refl assms(1), of "bn_items p ! k"]
    have m: "merge p a k b fs = Merged (shiftLeft k (k + 1) (plug (p, k) ?a))"
      using False by (auto simp: merge_def merge_left_def Let_def)
    have "(if fs = [] then 1 else R - 1) < nbItems p" using False p(2) assms(1) by (auto simp: least_items_def)
    then have "node_ok R (if fs = [] then 1 else R - 1) (Suc h) (shiftLeft k (k + 1) (plug (p, k) ?a))"
      using assms(8) by (intro two_merged [OF assms(2-4) j(1)]) simp_all
    moreover have "inorder (shiftLeft k (k + 1) (plug (p, k) ?a)) = l"
      using inorder_merged [OF p(1) assms(3), of ?a] j(2) assms(9) by simp
    ultimately show ?thesis unfolding m by (simp add: balanced_def shiftLeft_def del: node_ok.simps)
  qed
qed

lemma inorder_right_neighbor:
  assumes "length (bn_children p) = Suc (nbItems p)" "i < nbItems p"
  shows "inorder (plug (p, i) n) =
    weave_left (map inorder (take i (bn_children p))) (take i (bn_items p))
      @ (inorder n @ bn_items p ! i # inorder (bn_children p ! Suc i))
      @ weave_right (map inorder (drop (Suc (Suc i)) (bn_children p))) (drop (Suc i) (bn_items p))"
proof -
  have "(bn_children p)[i := n, Suc i := bn_children p ! Suc i] = (bn_children p)[i := n]"
    by (metis list_update_id list_update_swap n_not_Suc_n)
  then show ?thesis using inorder_two [OF assms, of "bn_items p ! i" n "bn_children p ! Suc i" "bn_size p"]
    by (simp add: plug_def)
qed

lemma inorder_left_neighbor:
  assumes "length (bn_children p) = Suc (nbItems p)" "k < nbItems p"
  shows "inorder (plug (p, Suc k) n) =
    weave_left (map inorder (take k (bn_children p))) (take k (bn_items p))
      @ (inorder (bn_children p ! k) @ bn_items p ! k # inorder n)
      @ weave_right (map inorder (drop (Suc (Suc k)) (bn_children p))) (drop (Suc k) (bn_items p))"
  using inorder_two [OF assms, of "bn_items p ! k" "bn_children p ! k" n "bn_size p"] by (simp add: plug_def)

lemma rebalance_step_balanced:
  assumes "1 \<le> R" "M div 2 = R" "way_ok R h (bn_size n) ((p, i) # fs)" "node_ok R (R - 1) h n" "nbItems n < R"
  shows "balanced R h fs (inorder (plug (p, i) n)) (bn_size p) (rebalance_step M n p i fs)"
proof -
  have p: "length (bn_children p) = Suc (nbItems p)" "i \<le> nbItems p" "least_items R (Suc h) fs \<le> nbItems p"
    and ok: "\<And>j. j < length (bn_children p) \<Longrightarrow> j \<noteq> i \<Longrightarrow> node_ok R R h (bn_children p ! j)"
    using assms(3) unfolding way_ok.simps by blast+
  have n: "nbItems n + 1 = R" using node_ok_bounds [OF assms(4)] assms(1,5) by simp
  have p1: "1 \<le> nbItems p" using p(3) assms(1) by (auto simp: least_items_def split: if_splits)
  let ?r = "bn_children p ! Suc i" and ?l = "bn_children p ! (i - 1)"
  have r: "node_ok R R h ?r" "R \<le> nbItems ?r" if "i < nbItems p"
    using ok [of "Suc i"] node_ok_bounds [of R R h ?r] that p(1) by auto
  have l: "node_ok R R h ?l" "R \<le> nbItems ?l" "i - 1 < nbItems p" "Suc (i - 1) = i" if "1 \<le> i"
    using ok [of "i - 1"] node_ok_bounds [of R R h ?l] that p(1,2) by auto
  consider (right) "i < nbItems p" "R < nbItems ?r"
    | (left) "\<not> (i < nbItems p \<and> R < nbItems ?r)" "1 \<le> i" "R < nbItems ?l"
    | (merge_right) "i < nbItems p" "\<not> R < nbItems ?r" "\<not> (1 \<le> i \<and> R < nbItems ?l)"
    | (merge_left) "\<not> i < nbItems p" "1 \<le> i" "\<not> R < nbItems ?l"
    using p(2) p1 by fastforce
  then show ?thesis
  proof cases
    case right
    note t = taken_right [OF assms(4) n r(1) [OF right(1)] right(2)]
    have s: "rebalance_step M n p i fs = Settled (take_from_right p n i ?r)"
      using right assms(2) by (simp add: rebalance_step_def getRightNeighbor_def)
    show ?thesis unfolding s balanced_def take_from_right_def Let_def balance.case
      using two_settled [OF assms(3) right(1) _ t(1,2)] inorder_two [OF p(1) right(1)] t(3,4)
        inorder_right_neighbor [OF p(1) right(1)] by simp
  next
    case left
    note q = l [OF left(2)]
    note t = taken_left [OF assms(4) n q(1) left(3)]
    have s: "rebalance_step M n p i fs = Settled (take_from_left p ?l (i - 1) n)"
      using left assms(2) by (auto simp: rebalance_step_def getRightNeighbor_def getLeftNeighbor_def)
    show ?thesis unfolding s balanced_def take_from_left_def Let_def balance.case
      using two_settled [OF assms(3) q(3) _ t(2,1)] inorder_two [OF p(1) q(3)] t(3,4)
        inorder_left_neighbor [OF p(1) q(3)] q(4) by simp
  next
    case merge_right
    have s: "rebalance_step M n p i fs = merge p n i ?r fs"
      using merge_right assms(2) by (auto simp: rebalance_step_def getRightNeighbor_def getLeftNeighbor_def)
    show ?thesis unfolding s
      by (rule merge_balanced [OF assms(1,3) merge_right(1) _ assms(4) r(1) [OF merge_right(1)]])
        (use n r(2) merge_right inorder_right_neighbor [OF p(1) merge_right(1)] in auto)
  next
    case merge_left
    note q = l [OF merge_left(2)]
    have s: "rebalance_step M n p i fs = merge p ?l (i - 1) n fs"
      using merge_left assms(2) by (auto simp: rebalance_step_def getRightNeighbor_def getLeftNeighbor_def)
    show ?thesis unfolding s
      by (rule merge_balanced [OF assms(1,3) q(3) _ q(1) assms(4)])
        (use n q merge_left inorder_left_neighbor [OF p(1) q(3)] in auto)
  qed
qed

lemma way_ok_up: "way_ok R h s ((p, i) # fs) \<Longrightarrow> way_ok R (Suc h) (bn_size p) fs"
  unfolding way_ok.simps by blast

lemma rebalance_ok:
  assumes "1 \<le> R" "M div 2 = R"
  shows "way_ok R h (bn_size n) fs \<Longrightarrow> node_ok R (if fs = [] then (if h = 0 then 0 else 1) else R - 1) h n \<Longrightarrow>
    tree_ok R (rebalance M n fs) \<and> inorder (rebalance M n fs) = whole fs (inorder n)"
proof (induction fs arbitrary: n h)
  case Nil
  then have "tree_ok R n" unfolding tree_ok_iff by (intro exI [of _ h]) simp
  then show ?case by (simp add: whole_def)
next
  case (Cons f fs)
  obtain p i where f: "f = (p, i)" by fastforce
  show ?case
  proof (cases "R \<le> nbItems n")
    case True
    then have "node_ok R (least_items R h (f # fs)) h n"
      using Cons.prems(2) by (cases h) (auto simp: least_items_def)
    then show ?thesis using root_of_both [OF Cons.prems(1)] True assms(2) by (simp add: f del: root_of.simps)
  next
    case False
    have w: "way_ok R h (bn_size n) ((p, i) # fs)" using Cons.prems(1) by (simp only: f)
    have pl: "length (bn_children p) = Suc (nbItems p)" "i \<le> nbItems p" using w unfolding way_ok.simps by blast+
    have b: "balanced R h fs (inorder (plug (p, i) n)) (bn_size p) (rebalance_step M n p i fs)"
      using rebalance_step_balanced [OF assms w] Cons.prems(2) False by simp
    have e: "whole fs (inorder (plug (p, i) n)) = whole (f # fs) (inorder n)"
      using inorder_plug [OF pl] by (simp add: whole_def f)
    show ?thesis
    proof (cases "rebalance_step M n p i fs")
      case (Settled q)
      then have "node_ok R (least_items R (Suc h) fs) (Suc h) q" "inorder q = inorder (plug (p, i) n)" "bn_size q = bn_size p"
        using b by (simp_all add: balanced_def del: node_ok.simps)
      then show ?thesis using root_of_both [of R "Suc h" q fs] way_ok_up [OF w] e Settled False assms(2)
        by (simp add: f)
    next
      case (New_root q)
      then show ?thesis using b e False assms(2) by (auto simp: balanced_def f whole_def)
    next
      case (Merged q)
      then have q: "node_ok R (if fs = [] then 1 else R - 1) (Suc h) q" "inorder q = inorder (plug (p, i) n)" "bn_size q = bn_size p"
        using b by (simp_all add: balanced_def del: node_ok.simps)
      then have "node_ok R (if fs = [] then (if Suc h = 0 then 0 else 1) else R - 1) (Suc h) q"
        by (cases "fs = []") (simp_all del: node_ok.simps)
      then show ?thesis using Cons.IH [of "Suc h" q] way_ok_up [OF w] q e Merged False assms(2)
        by (simp add: f del: node_ok.simps)
    qed
  qed
qed

subsection \<open>Removal\<close>

definition after :: "'a bnode \<Rightarrow> nat \<Rightarrow> 'a list" where
  "after n p = weave (map inorder (drop (Suc p) (bn_children n))) (drop (Suc p) (bn_items n))"

lemma remove_leaf_ok:
  assumes "1 \<le> R" "M div 2 = R" "node_ok R (least_items R 0 fs) 0 n" "way_ok R 0 (bn_size n) fs" "i < nbItems n"
  shows "tree_ok R (remove_leaf M n i fs) \<and> inorder (remove_leaf M n i fs) = whole fs (remove_at i (bn_items n))"
proof -
  let ?n = "change_size (-1) (BNode (remove_at i (bn_items n)) (bn_children n) (bn_size n))"
  let ?gs = "map (\<lambda>(p, i). (change_size (-1) p, i)) fs"
  have w: "way_ok R 0 (bn_size ?n) ?gs" using way_ok_change [OF assms(4), of "-1"] by (simp add: change_size_def)
  have "node_ok R (if ?gs = [] then (if (0::nat) = 0 then 0 else 1) else R - 1) 0 ?n"
    using assms(3,5) by (auto simp: change_size_def length_remove_at least_items_def)
  then show ?thesis using rebalance_ok [OF assms(1,2) w] assms(3)
    by (simp add: remove_leaf_def decrementSize_def) (simp add: change_size_def)
qed

text \<open>The outermost leaves below a node.\<close>

lemma rightmost_way:
  assumes "node_ok R (least_items R h fs) h n" "way_ok R h (bn_size n) fs" "getRightmostNode n fs = (m, gs)"
  shows "node_ok R (least_items R 0 gs) 0 m \<and> way_ok R 0 (bn_size m) gs \<and> whole gs (inorder m) = whole fs (inorder n)
    \<and> suf_of gs = suf_of fs \<and> (fs \<noteq> [] \<longrightarrow> gs \<noteq> [])"
  using assms
proof (induction h arbitrary: n fs)
  case 0
  then have "m = n" "gs = fs" by (simp_all add: getRightmostNode.simps [of n])
  then show ?case using 0(1,2) by simp
next
  case (Suc h)
  note d = way_down [OF Suc.prems(1,2) order_refl]
  have g: "getRightmostNode (bn_children n ! nbItems n) ((n, nbItems n) # fs) = (m, gs)"
    using Suc.prems(1,3) by (simp add: getRightmostNode.simps [of n])
  have ok: "node_ok R (least_items R h ((n, nbItems n) # fs)) h (bn_children n ! nbItems n)"
    using d(2) by (simp add: least_items_def)
  have "suf_of ((n, nbItems n) # fs) = suf_of fs" using Suc.prems(1) by simp
  then show ?case using Suc.IH [OF ok d(1) g] d(3) by (simp del: node_ok.simps way_ok.simps)
qed

lemma leftmost_way:
  assumes "node_ok R (least_items R h fs) h n" "way_ok R h (bn_size n) fs" "getLeftmostNode n fs = (m, gs)"
  shows "node_ok R (least_items R 0 gs) 0 m \<and> way_ok R 0 (bn_size m) gs \<and> whole gs (inorder m) = whole fs (inorder n)
    \<and> pre_of gs = pre_of fs \<and> (fs \<noteq> [] \<longrightarrow> gs \<noteq> [])"
  using assms
proof (induction h arbitrary: n fs)
  case 0
  then have "m = n" "gs = fs" by (simp_all add: getLeftmostNode.simps [of n])
  then show ?case using 0(1,2) by simp
next
  case (Suc h)
  note d = way_down [OF Suc.prems(1,2) le0]
  have g: "getLeftmostNode (bn_children n ! 0) ((n, 0) # fs) = (m, gs)"
    using Suc.prems(1,3) by (simp add: getLeftmostNode.simps [of n])
  have ok: "node_ok R (least_items R h ((n, 0) # fs)) h (bn_children n ! 0)"
    using d(2) by (simp add: least_items_def)
  show ?case using Suc.IH [OF ok d(1) g] d(3) by (simp del: node_ok.simps way_ok.simps)
qed

lemma fst_getRightmostNode: "fst (getRightmostNode n fs) = fst (getRightmostNode n gs)"
proof (induction n fs arbitrary: gs rule: getRightmostNode.induct)
  case (1 n fs)
  show ?case
  proof (cases "nbItems n < length (bn_children n)")
    case True
    then have "getRightmostNode n hs = getRightmostNode (bn_children n ! nbItems n) ((n, nbItems n) # hs)" for hs
      by (subst getRightmostNode.simps) simp
    then show ?thesis using "1" [OF True, of "(n, nbItems n) # gs"] by metis
  next
    case False
    then show ?thesis by (simp add: getRightmostNode.simps [of n])
  qed
qed

lemma fst_getLeftmostNode: "fst (getLeftmostNode n fs) = fst (getLeftmostNode n gs)"
proof (induction n fs arbitrary: gs rule: getLeftmostNode.induct)
  case (1 n fs)
  show ?case
  proof (cases "0 < length (bn_children n)")
    case True
    then have "getLeftmostNode n hs = getLeftmostNode (bn_children n ! 0) ((n, 0) # hs)" for hs
      by (subst getLeftmostNode.simps) simp
    then show ?thesis using "1" [OF True, of "(n, 0) # gs"] by metis
  next
    case False
    then show ?thesis by (simp add: getLeftmostNode.simps [of n])
  qed
qed

lemma remove_at_last: "remove_at (length xs - Suc 0) xs = butlast xs"
  by (simp add: remove_at_def butlast_conv_take)

lemma remove_leaf_set_item: "i < nbItems n \<Longrightarrow> remove_leaf M (set_item i v n) i fs = remove_leaf M n i fs"
  by (simp add: remove_leaf_def set_item_def remove_at_def)

lemma inner_size:
  assumes "node_ok R lo (Suc h) n" "1 \<le> R"
  shows "int (nbItems n) < bn_size n"
proof -
  obtain c cs where c: "bn_children n = c # cs" using assms(1) by (cases "bn_children n") auto
  then have ok: "node_ok R R h c" "\<forall>d \<in> set cs. node_ok R R h d" using assms(1) by simp_all
  have "1 \<le> bn_size c" using ok(1) assms(2) node_ok_size [OF ok(1)] node_parts(4) [OF ok(1)] node_ok_bounds [OF ok(1)]
    by (cases h) (auto simp: inorder_node length_weave)
  moreover have "0 \<le> (\<Sum>c \<leftarrow> cs. bn_size c)" using ok(2) node_ok_size by (intro sum_list_nonneg) force
  ultimately show ?thesis using assms(1) c by simp
qed

lemma remove_item_ok:
  assumes "1 \<le> R" "M div 2 = R" "node_ok R (least_items R h fs) h n" "way_ok R h (bn_size n) fs" "i < nbItems n"
  shows "tree_ok R (remove_item M n i fs) \<and>
    inorder (remove_item M n i fs) = pre_of fs @ before n i @ after n i @ suf_of fs"
proof (cases h)
  case 0
  have n: "bn_children n = []" "int (nbItems n) = bn_size n" using assms(3) 0 by simp_all
  have "remove_at i (bn_items n) = before n i @ after n i" by (simp add: before_def after_def n(1) remove_at_def)
  then show ?thesis using remove_leaf_ok [OF assms(1,2) _ _ assms(5)] assms(3,4) 0 n(2)
    by (simp add: remove_item_def whole_def del: node_ok.simps)
next
  case (Suc k)
  have n: "node_ok R (least_items R (Suc k) fs) (Suc k) n" "way_ok R (Suc k) (bn_size n) fs" using assms(3,4) Suc by simp_all
  have nl: "int (nbItems n) \<noteq> bn_size n" using inner_size [OF n(1) assms(1)] by simp
  have len: "length (bn_children n) = Suc (nbItems n)" using n(1) by simp
  define l where "l = fst (getRightmostNode (bn_children n ! i) ((n, i) # fs))"
  define r where "r = fst (getLeftmostNode (bn_children n ! (i + 1)) ((n, i + 1) # fs))"
  have s: "node_ok R (least_items R (Suc k) fs) (Suc k) (set_item i x n)" "way_ok R (Suc k) (bn_size (set_item i x n)) fs"
    "before (set_item i x n) i = before n i" "after (set_item i x n) i = after n i" "nbItems (set_item i x n) = nbItems n"
    "bn_children (set_item i x n) = bn_children n" for x
    using n by (simp_all add: set_item_def before_def after_def)
  have whole_n: "whole fs (inorder (set_item i x n)) = pre_of fs @ before n i @ x # after n i @ suf_of fs" for x
    using inorder_set_item(2) [OF n(1) assms(5)] by (simp add: whole_def after_def)
  have before_n: "before n i = weave_left (map inorder (take i (bn_children n))) (take i (bn_items n)) @ inorder (bn_children n ! i)"
    using inorder_child [OF n(1), of i] inorder_around [OF n(1) assms(5)] assms(5) len
      weave_right_Suc [of "map inorder (bn_children n)" "bn_items n" i] by (simp add: drop_map)
  show ?thesis
  proof (cases "nbItems r < nbItems l")
    case True
    let ?x = "bn_items l ! (nbItems l - 1)"
    let ?n = "set_item i ?x n"
    obtain m gs where m: "getRightmostNode (bn_children n ! i) ((?n, i) # fs) = (m, gs)" by fastforce
    have ml: "m = l" using fst_getRightmostNode [of "bn_children n ! i" "(?n, i) # fs" "(n, i) # fs"] m by (simp add: l_def)
    have i: "i \<le> nbItems ?n" using s(5) assms(5) by simp
    note d = way_down [OF s(1,2) i, unfolded s(6)]
    have "node_ok R (least_items R k ((?n, i) # fs)) k (bn_children n ! i)" using d(2) by (simp add: least_items_def)
    note w = rightmost_way [OF this d(1) m, unfolded ml]
    have il: "inorder l = bn_items l" using w by (simp add: inorder_node)
    have nb: "nbItems l - 1 < nbItems l" using True by simp
    have last: "bn_items l = butlast (bn_items l) @ [?x]" using True
      by (metis append_butlast_last_id last_conv_nth length_0_conv not_less_zero)
    have suf: "suf_of gs = ?x # after n i @ suf_of fs"
      using w weave_right_Suc [of "map inorder (bn_children n)" "bn_items ?n" i] assms(5) len
      by (simp add: set_item_def drop_map after_def)
    have "whole gs (inorder l) = whole ((?n, i) # fs) (inorder (bn_children n ! i))" using w by blast
    then have "whole gs (inorder l) = pre_of fs @ before n i @ suf_of gs" unfolding d(3) whole_n suf .
    then have "pre_of gs @ bn_items l @ suf_of gs = pre_of fs @ before n i @ suf_of gs" by (simp only: whole_def il)
    then have "pre_of gs @ bn_items l = pre_of fs @ before n i" by simp
    then have "pre_of gs @ butlast (bn_items l) @ [?x] = pre_of fs @ before n i" using last by simp
    then have e: "whole gs (butlast (bn_items l)) = pre_of fs @ before n i @ after n i @ suf_of fs"
      using suf unfolding whole_def by (metis append.assoc append_Cons append_Nil)
    have "remove_item M n i fs = remove_leaf M l (nbItems l - 1) gs"
      using nl True m ml remove_leaf_set_item [OF nb]
      by (simp add: remove_item_def Let_def l_def [symmetric] r_def [symmetric] del: One_nat_def)
    then show ?thesis using remove_leaf_ok [OF assms(1,2) _ _ nb] w e by (simp add: remove_at_last del: node_ok.simps)
  next
    case False
    let ?x = "bn_items r ! 0"
    let ?n = "set_item i ?x n"
    obtain m gs where m: "getLeftmostNode (bn_children n ! (i + 1)) ((?n, i + 1) # fs) = (m, gs)" by fastforce
    have mr: "m = r" using fst_getLeftmostNode [of "bn_children n ! (i + 1)" "(?n, i + 1) # fs" "(n, i + 1) # fs"] m
      by (simp add: r_def)
    have i: "i + 1 \<le> nbItems ?n" using s(5) assms(5) by simp
    note d = way_down [OF s(1,2) i, unfolded s(6)]
    have "node_ok R (least_items R k ((?n, i + 1) # fs)) k (bn_children n ! (i + 1))" using d(2) by (simp add: least_items_def)
    note w = leftmost_way [OF this d(1) m, unfolded mr]
    have ir: "inorder r = bn_items r" using w by (simp add: inorder_node)
    have nb: "0 < nbItems r" using w assms(1) by (auto simp: least_items_def)
    have first: "bn_items r = ?x # remove_at 0 (bn_items r)" using nb by (cases "bn_items r") simp_all
    have "weave_left (take (Suc i) (map inorder (bn_children ?n))) (take (Suc i) (bn_items ?n)) =
        weave (take (Suc i) (map inorder (bn_children ?n))) (take i (bn_items ?n)) @ [bn_items ?n ! i]"
      by (rule weave_left_snoc) (use len assms(5) in \<open>simp_all add: set_item_def\<close>)
    then have pre: "pre_of gs = pre_of fs @ before n i @ [?x]"
      using w s(3) [of ?x] assms(5) by (simp add: before_def take_map) (simp add: set_item_def)
    have "whole gs (inorder r) = whole ((?n, i + 1) # fs) (inorder (bn_children n ! (i + 1)))" using w by blast
    then have "whole gs (inorder r) = pre_of gs @ after n i @ suf_of fs" unfolding d(3) whole_n pre by simp
    then have "pre_of gs @ bn_items r @ suf_of gs = pre_of gs @ after n i @ suf_of fs" by (simp only: whole_def ir)
    then have "?x # remove_at 0 (bn_items r) @ suf_of gs = after n i @ suf_of fs" using first
      by (metis append_Cons append_same_eq same_append_eq)
    then have e: "whole gs (remove_at 0 (bn_items r)) = pre_of fs @ before n i @ after n i @ suf_of fs"
      using pre unfolding whole_def by simp
    have "remove_item M n i fs = remove_leaf M r 0 gs"
      using nl False m mr remove_leaf_set_item [OF nb]
      by (simp add: remove_item_def Let_def l_def [symmetric] r_def [simplified, symmetric])
    then show ?thesis using remove_leaf_ok [OF assms(1,2) _ _ nb] w e by (simp del: node_ok.simps)
  qed
qed

end
