(* ===== verification/Sorted_Array_Use.thy ===== *)
theory Sorted_Array_Use
  imports Sorted_Array_Remove
begin

text \<open>
  The B-tree of \<open>SortedArray.h\<close> as a whole: each operation against the list of the values, for any
  order and any odd \<open>M\<close>.  Then its two clients: \<open>Common/Containers/MapArray.h\<close>, whose order compares
  the keys, and \<open>Core/FileManager/priv/SizeIndexEntries.cpp\<close>, which orders entries by their size.
\<close>

subsection \<open>Removal of a value and of an index\<close>

context value_order
begin

lemma filter_different:
  assumes "\<forall>y \<in> set a. lt y v" "same_value lt x v" "\<forall>y \<in> set b. lt v y"
  shows "filter (\<lambda>x. \<not> same_value lt x v) (a @ x # b) = a @ b"
proof -
  have "filter (\<lambda>x. \<not> same_value lt x v) a = a" "filter (\<lambda>x. \<not> same_value lt x v) b = b"
    using assms(1,3) by (auto simp: same_value_def filter_id_conv)
  then show ?thesis using assms(2) by simp
qed

lemma remove_value_ok:
  assumes "1 \<le> R" "M = 2 * R + 1" "array_ok lt M root"
  shows "array_ok lt M (snd (remove_value lt M v root)) \<and>
    inorder (snd (remove_value lt M v root)) = filter (\<lambda>x. \<not> same_value lt x v) (inorder root) \<and>
    fst (remove_value lt M v root) = (\<exists>x \<in> set (inorder root). same_value lt x v)"
proof -
  have R: "M div 2 = R" using assms(2) by simp
  obtain n fs pos where g: "getNode lt root v [] = (n, fs, pos)" by (metis prod_cases3)
  note f = getNode_root [OF assms(3) g, unfolded R]
  have so: "sorted_wrt lt (whole fs (inorder n))" using assms(3) f(2) by (simp add: array_ok_def)
  show ?thesis
  proof (cases pos)
    case None
    have "\<not> (\<exists>x \<in> set (inorder root). same_value lt x v)"
      using found_node_absent [OF f(1) [unfolded None]] f(2) by simp
    then have "filter (\<lambda>x. \<not> same_value lt x v) (inorder root) = inorder root"
      "\<not> (\<exists>x \<in> set (inorder root). same_value lt x v)" by (auto simp: filter_id_conv)
    then show ?thesis using None g assms(3) by (simp add: remove_value_def)
  next
    case (Some p)
    obtain h where n: "node_ok R (least_items R h fs) h n" "way_ok R h (bn_size n) fs" "between v fs"
      "at_position lt v (bn_items n) p True"
      using f(1) by (auto simp: found_node_def Some)
    have p: "p < nbItems n" "same_value lt (bn_items n ! p) v" using n(4) by (simp_all add: at_position_def)
    note i = inorder_around [OF n(1) p(1), folded after_def]
    note r = remove_item_ok [OF assms(1) R n(1,2) p(1)]
    have l: "inorder root = (pre_of fs @ before n p) @ bn_items n ! p # (after n p @ suf_of fs)"
      using f(2) by (simp add: whole_def i)
    have so': "sorted_wrt lt ((pre_of fs @ before n p) @ bn_items n ! p # (after n p @ suf_of fs))"
      using assms(3) unfolding l [symmetric] array_ok_def by blast
    have "\<forall>y \<in> set (pre_of fs @ before n p). lt y v" "\<forall>y \<in> set (after n p @ suf_of fs). lt v y"
      using sorted_before [OF so', of _ v] sorted_after [OF so', of _ v] p(2) by (auto simp: same_value_def)
    then have e: "inorder (remove_item M n p fs) = filter (\<lambda>x. \<not> same_value lt x v) (inorder root)"
      unfolding l using filter_different [of "pre_of fs @ before n p" v "bn_items n ! p" "after n p @ suf_of fs"] p(2) r
      by (simp del: filter_append)
    have "sorted_wrt lt (filter (\<lambda>x. \<not> same_value lt x v) (inorder root))"
      using assms(3) by (simp add: array_ok_def sorted_wrt_filter)
    then have "array_ok lt M (remove_item M n p fs)" using r e by (simp add: array_ok_def R)
    moreover have "\<exists>x \<in> set (inorder root). same_value lt x v"
      using found_node_present(2,3) [OF f(1) [unfolded Some]] f(2) by auto
    ultimately show ?thesis using Some g e by (simp add: remove_value_def)
  qed
qed

end

lemma removeFromIndex_list:
  assumes "1 \<le> R" "M = 2 * R + 1" "tree_ok R root" "0 \<le> index" "index < int (length (inorder root))"
  shows "\<exists>t. removeFromIndex M index root = Some t \<and> tree_ok R t \<and> inorder t = remove_at (nat index) (inorder root)"
proof -
  have R: "M div 2 = R" using assms(2) by simp
  note n = node_in_root [OF assms(3)]
  have s: "bn_size root = int (length (inorder root))"
    using n node_ok_size unfolding node_in_def by blast
  obtain m gs p k where m: "getFromIndex root index 0 [] = Some (m, gs, p)" "node_in R k root m gs" "p < nbItems m"
    "int (pos_index (m, gs, int p)) = index"
    using getFromIndex_spec [OF n, of 0 index] assms(4,5) s by auto
  have nd: "node_ok R (least_items R k gs) k m" "way_ok R k (bn_size m) gs" using m(2) by (simp_all add: node_in_def)
  note r = remove_item_ok [OF assms(1) R nd m(3)]
  have l: "inorder root = (pre_of gs @ before m p) @ bn_items m ! p # (after m p @ suf_of gs)"
    using node_in_whole [OF m(2)] inorder_around [OF nd(1) m(3), folded after_def] by (simp add: whole_def)
  have "nat index = length (pre_of gs @ before m p)" using m(4) by (simp add: pos_index_def)
  then have "remove_at (nat index) (inorder root) = (pre_of gs @ before m p) @ after m p @ suf_of gs"
    unfolding l by (simp only: remove_at_length_append)
  then show ?thesis using m(1) r by (simp add: removeFromIndex_def)
qed

subsection \<open>The properties of the container\<close>

text \<open>
  C6: Inserting a value in a well-formed array keeps it well formed, puts the value in place of the
  one that is the same, or at its place among the others, and tells which of the two.
\<close>

theorem insert_refines_list:
  assumes "value_order lt" "odd M" "3 \<le> M" "array_ok lt M root"
  shows "array_ok lt M (snd (insert_value lt M v root)) \<and>
    inorder (snd (insert_value lt M v root)) = insert_sorted lt v (inorder root) \<and>
    fst (insert_value lt M v root) = contains lt root v"
proof -
  obtain R where "M = 2 * R + 1" using assms(2) by (blast elim: oddE)
  moreover from this have "1 \<le> R" using assms(3) by simp
  ultimately show ?thesis
    using value_order.insert_value_ok [OF assms(1) _ _ assms(4)] value_order.contains_present [OF assms(1,4)] by simp
qed

lemma int_order: "value_order ((<) :: int \<Rightarrow> int \<Rightarrow> bool)"
  by unfold_locales auto

definition array_of :: "nat \<Rightarrow> int list \<Rightarrow> int bnode" where
  "array_of M l = fold (\<lambda>v t. snd (insert_value (<) M v t)) l new_node"

lemma array_of_4: "array_of 3 [4, 1, 3, 2] = BNode [3] [BNode [1, 2] [] 2, BNode [4] [] 1] 4"
  by code_simp

lemma array_of_4_ok: "array_ok (<) 3 (array_of 3 [4, 1, 3, 2])"
  unfolding array_of_4 by code_simp

theorem insert_refines_list_witness:
  "array_ok (<) 3 (snd (insert_value (<) 3 0 (array_of 3 [4, 1, 3, 2]))) \<and>
   inorder (snd (insert_value (<) 3 0 (array_of 3 [4, 1, 3, 2]))) = [0, 1, 2, 3, 4]"
proof -
  have i: "inorder (array_of 3 [4, 1, 3, 2]) = [1, 2, 3, 4]" by (simp add: array_of_4)
  show ?thesis
    using insert_refines_list [OF int_order _ _ array_of_4_ok, of 0] by (simp add: i insert_sorted_def)
qed

text \<open>
  C7: Removing a value from a well-formed array keeps it well formed, removes exactly the value that
  is the same, if any, and tells whether there was one; removing by index removes the value there.
\<close>

theorem remove_refines_list:
  assumes "value_order lt" "odd M" "3 \<le> M" "array_ok lt M root"
  shows "array_ok lt M (snd (remove_value lt M v root)) \<and>
    inorder (snd (remove_value lt M v root)) = filter (\<lambda>x. \<not> same_value lt x v) (inorder root) \<and>
    fst (remove_value lt M v root) = contains lt root v \<and>
    (0 \<le> index \<and> index < bn_size root \<longrightarrow>
      (\<exists>t. removeFromIndex M index root = Some t \<and> array_ok lt M t \<and> inorder t = remove_at (nat index) (inorder root)))"
proof -
  obtain R where R: "M = 2 * R + 1" using assms(2) by (blast elim: oddE)
  then have R1: "1 \<le> R" "M div 2 = R" using assms(3) by simp_all
  have t: "tree_ok R root" "sorted_wrt lt (inorder root)" using assms(4) R1 by (simp_all add: array_ok_def)
  have s: "bn_size root = int (length (inorder root))"
    using node_in_root [OF t(1)] node_ok_size unfolding node_in_def by blast
  have rm: "sorted_wrt lt (remove_at k l)" if "sorted_wrt lt l" for k l
  proof (cases "k < length l")
    case True
    then have "sorted_wrt lt (take k l @ l ! k # drop (Suc k) l)" using that by (simp add: id_take_nth_drop [symmetric])
    then show ?thesis by (auto simp: remove_at_def sorted_wrt_append)
  next
    case False
    then show ?thesis using that by (simp add: remove_at_def)
  qed
  note r = value_order.remove_value_ok [OF assms(1) R1(1) R assms(4), of v]
  have c: "fst (remove_value lt M v root) = contains lt root v"
    using r value_order.contains_present [OF assms(1,4), of v] by simp
  have "\<exists>t. removeFromIndex M index root = Some t \<and> array_ok lt M t \<and> inorder t = remove_at (nat index) (inorder root)"
    if ix: "0 \<le> index" "index < bn_size root"
  proof -
    obtain t where "removeFromIndex M index root = Some t" "tree_ok R t" "inorder t = remove_at (nat index) (inorder root)"
      using removeFromIndex_list [OF R1(1) R t(1), of index] ix s by auto
    then show ?thesis using rm [OF t(2)] R1(2) by (simp add: array_ok_def)
  qed
  then show ?thesis using r c by blast
qed

theorem remove_refines_list_witness:
  "inorder (snd (remove_value (<) 3 3 (array_of 3 [4, 1, 3, 2]))) = [1, 2, 4] \<and>
   (\<exists>t. removeFromIndex 3 2 (array_of 3 [4, 1, 3, 2]) = Some t \<and> inorder t = [1, 2, 4])"
proof -
  have i: "inorder (array_of 3 [4, 1, 3, 2]) = [1, 2, 3, 4]" "bn_size (array_of 3 [4, 1, 3, 2]) = 4" by (simp_all add: array_of_4)
  show ?thesis
    using remove_refines_list [OF int_order _ _ array_of_4_ok, of 3 2]
    by (auto simp: i same_value_def remove_at_def)
qed



text \<open>
  \<open>indexOf\<close> tells exactly whether a value is there; the index is the number of lesser values, less
  the size of the child before the item when the value is in an inner node, which is not counted.
\<close>

theorem indexOf_rank:
  assumes "value_order lt" "array_ok lt M root" "getNode lt root v [] = (n, fs, pos)"
  shows "indexOf lt root v 0 =
      (if contains lt root v then int (rank lt v (inorder root)) - forgotten n pos else -1) \<and>
    indexOfNearest lt root v 0 =
      (if contains lt root v then int (rank lt v (inorder root)) - forgotten n pos
       else max 0 (int (rank lt v (inorder root)) - 1))"
proof -
  obtain h where "node_ok (M div 2) (if h = 0 then 0 else 1) h root" "sorted_wrt lt (inorder root)"
    using assms(2) by (auto simp: array_ok_def tree_ok_iff)
  from value_order.indexOf_from [OF assms(1) this assms(3), of 0]
  show ?thesis using value_order.contains_present [OF assms(1,2)] by (auto simp: max_def)
qed

theorem indexOf_rank_witness: "indexOf (<) (array_of 3 [4, 1, 3, 2]) 2 0 = 1"
proof -
  have g: "getNode (<) (array_of 3 [4, 1, 3, 2]) 2 [] =
    (BNode [1, 2] [] 2, [(BNode [3] [BNode [1, 2] [] 2, BNode [4] [] 1] 4, 0)], Some 1)"
    unfolding array_of_4 by code_simp
  have c: "contains (<) (array_of 3 [4, 1, 3, 2]) 2" by (simp add: contains_def g)
  have i: "inorder (array_of 3 [4, 1, 3, 2]) = [1, 2, 3, 4]" by (simp add: array_of_4)
  show ?thesis
    using indexOf_rank [OF int_order array_of_4_ok g] c by (simp add: i rank_def forgotten_def)
qed

lemma indexOf_inner_node_wrong:
  "get (array_of 3 [4, 1, 3, 2]) 2 = Some 3 \<and> indexOf (<) (array_of 3 [4, 1, 3, 2]) 3 0 = 0"
  unfolding array_of_4 by code_simp

text \<open>\<open>getValue\<close> inserts like \<open>insert\<close>, but may lose the value it inserted.\<close>

lemma getValue_tree:
  "snd (getValue lt M v root) = (if contains lt root v then root else snd (insert_value lt M v root))"
  by (auto simp: getValue_def contains_def insert_value_def split: prod.splits option.splits)

lemma getValue_present:
  "contains lt root v \<Longrightarrow> fst (getValue lt M v root) = getFromValue lt root v"
  by (auto simp: getValue_def contains_def getFromValue_def split: prod.splits option.splits)

lemma getValue_loses_value:
  "fst (getValue (<) 3 55 (array_of 3 [10, 30, 50, 70, 90, 20, 60, 100])) = None \<and>
   contains (<) (snd (getValue (<) 3 55 (array_of 3 [10, 30, 50, 70, 90, 20, 60, 100]))) 55"
proof -
  have "array_of 3 [10, 30, 50, 70, 90, 20, 60, 100] =
    BNode [30, 70] [BNode [10, 20] [] 2, BNode [50, 60] [] 2, BNode [90, 100] [] 2] 8"
    by code_simp
  then show ?thesis by (simp only:) code_simp
qed

text \<open>
  \<open>setSortedFunction\<close> gives a well-formed array in the new order with the same values, when no
  two of them are the same in the new order.
\<close>

theorem setSortedFunction_sorts:
  assumes "value_order lt" "odd M" "3 \<le> M" "array_ok old M root"
    "sorted_wrt (\<lambda>x y. \<not> same_value lt x y) (inorder root)"
  shows "\<exists>t. setSortedFunction lt M root = Some t \<and> array_ok lt M t \<and> mset (inorder t) = mset (inorder root)"
proof -
  obtain R where R: "M = 2 * R + 1" using assms(2) by (blast elim: oddE)
  then have R1: "1 \<le> R" "M div 2 = R" using assms(3) by simp_all
  have "setSortedFunction lt M root = Some (fold (resort_step lt M) (inorder root) new_node)"
    using iterate_fold [of R root "resort_step lt M" new_node] assms(4) R1 by (simp add: setSortedFunction_def array_ok_def)
  moreover have "inorder (new_node :: 'a bnode) = []" by (simp add: new_node_def)
  ultimately show ?thesis
    using value_order.resort_fold [OF assms(1) R1(1) R value_order.new_node_ok [OF assms(1)] _ assms(5)] by simp
qed

theorem setSortedFunction_sorts_witness:
  "\<exists>t. setSortedFunction (\<lambda>x y. y < x) 3 (array_of 3 [4, 1, 3, 2]) = Some t \<and>
     array_ok (\<lambda>x y. y < x) 3 t \<and> mset (inorder t) = {# 1, 2, 3, 4 #}"
proof -
  have i: "inorder (array_of 3 [4, 1, 3, 2]) = [1, 2, 3, 4]" by (simp add: array_of_4)
  have "value_order (\<lambda>x y :: int. y < x)" by unfold_locales auto
  then show ?thesis
    using setSortedFunction_sorts [OF _ _ _ array_of_4_ok, of "\<lambda>x y. y < x"] by (simp add: i same_value_def)
qed

end
