(* ===== verification/Sorted_Array_Clients.thy ===== *)
theory Sorted_Array_Clients
  imports Sorted_Array_Use
begin

text \<open>
  The clients of the B-tree of \<open>SortedArray.h\<close>: \<open>Common/Containers/MapArray.h\<close>, an array of keys
  with values, and \<open>Core/FileManager/priv/SizeIndexEntries.cpp\<close>, the entries of the cache by size.
  The interface they rely on is \<open>sorted_store\<close>; the B-tree is an instance for any order and odd \<open>M\<close>.
\<close>

subsection \<open>The interface of a sorted store\<close>

datatype 'a store_op = Put 'a | Drop 'a

primrec list_op :: "('a \<Rightarrow> 'a \<Rightarrow> bool) \<Rightarrow> 'a store_op \<Rightarrow> 'a list \<Rightarrow> 'a list" where
  "list_op lt (Put v) l = insert_sorted lt v l"
| "list_op lt (Drop v) l = filter (\<lambda>x. \<not> same_value lt x v) l"

locale sorted_store =
  fixes lt :: "'a \<Rightarrow> 'a \<Rightarrow> bool" and ok :: "'t \<Rightarrow> bool" and vals :: "'t \<Rightarrow> 'a list"
    and put :: "'a \<Rightarrow> 't \<Rightarrow> 't" and drop_value :: "'a \<Rightarrow> 't \<Rightarrow> 't"
  assumes put_ok: "ok t \<Longrightarrow> ok (put v t)" and put_vals: "ok t \<Longrightarrow> vals (put v t) = insert_sorted lt v (vals t)"
    and drop_ok: "ok t \<Longrightarrow> ok (drop_value v t)"
    and drop_vals: "ok t \<Longrightarrow> vals (drop_value v t) = filter (\<lambda>x. \<not> same_value lt x v) (vals t)"
begin

primrec store_step :: "'a store_op \<Rightarrow> 't \<Rightarrow> 't" where
  "store_step (Put v) t = put v t"
| "store_step (Drop v) t = drop_value v t"

lemma step_refines: "ok t \<Longrightarrow> ok (store_step op t) \<and> vals (store_step op t) = list_op lt op (vals t)"
  by (cases op) (simp_all add: put_ok put_vals drop_ok drop_vals)

lemma history_refines: "ok t \<Longrightarrow> ok (fold store_step ops t) \<and> vals (fold store_step ops t) = fold (list_op lt) ops (vals t)"
  by (induction ops arbitrary: t) (simp_all add: step_refines)

end

locale order_of_degree = value_order +
  fixes M :: nat
  assumes odd_M: "odd M" and M_3: "3 \<le> M"

sublocale order_of_degree \<subseteq> store: sorted_store lt "array_ok lt M" inorder
  "\<lambda>v t. snd (insert_value lt M v t)" "\<lambda>v t. snd (remove_value lt M v t)"
proof unfold_locales
  obtain R where R: "M = 2 * R + 1" using odd_M by (blast elim: oddE)
  then have R1: "1 \<le> R" using M_3 by simp
  fix t :: "'a bnode" and v
  assume t: "array_ok lt M t"
  show "array_ok lt M (snd (insert_value lt M v t))" "inorder (snd (insert_value lt M v t)) = insert_sorted lt v (inorder t)"
    using insert_value_ok [OF R1 R t] by blast+
  show "array_ok lt M (snd (remove_value lt M v t))"
    "inorder (snd (remove_value lt M v t)) = filter (\<lambda>x. \<not> same_value lt x v) (inorder t)"
    using remove_value_ok [OF R1 R t] by blast+
qed

context order_of_degree
begin

text \<open>Everything that is built by insertions and removals from an empty array is well formed.\<close>

lemma built_ok:
  "array_ok lt M (fold store.store_step ops new_node) \<and>
   inorder (fold store.store_step ops new_node) = fold (list_op lt) ops []"
  using store.history_refines [OF new_node_ok, of ops] by (simp add: new_node_def)

end

subsection \<open>MapArray\<close>

record ('k, 'v) element =
  e_key :: 'k
  e_value :: 'v

definition element_lt :: "('k::linorder, 'v) element \<Rightarrow> ('k, 'v) element \<Rightarrow> bool" where
  "element_lt a b = (e_key a < e_key b)"

definition ARRAY_M :: nat where
  "ARRAY_M = 7"

interpretation map_array: order_of_degree element_lt ARRAY_M
  by unfold_locales (auto simp: element_lt_def ARRAY_M_def)

type_synonym ('k, 'v) map_array = "('k, 'v) element bnode"

definition map_insert :: "'k::linorder \<Rightarrow> 'v \<Rightarrow> ('k, 'v) map_array \<Rightarrow> bool \<times> ('k, 'v) map_array" where
  "map_insert k v a = insert_value element_lt ARRAY_M \<lparr>e_key = k, e_value = v\<rparr> a"

text \<open>\<open>d\<close> is the value \<open>T()\<close> of the element that is searched.\<close>

definition map_remove :: "'v \<Rightarrow> 'k::linorder \<Rightarrow> ('k, 'v) map_array \<Rightarrow> bool \<times> ('k, 'v) map_array" where
  "map_remove d k a = remove_value element_lt ARRAY_M \<lparr>e_key = k, e_value = d\<rparr> a"

definition map_indexOf :: "'v \<Rightarrow> 'k::linorder \<Rightarrow> ('k, 'v) map_array \<Rightarrow> int" where
  "map_indexOf d k a = indexOf element_lt a \<lparr>e_key = k, e_value = d\<rparr> 0"

definition getValueFromIndex :: "int \<Rightarrow> ('k, 'v) map_array \<Rightarrow> 'v option" where
  "getValueFromIndex i a = map_option e_value (get a i)"

definition getKeyFromIndex :: "int \<Rightarrow> ('k, 'v) map_array \<Rightarrow> 'k option" where
  "getKeyFromIndex i a = map_option e_key (get a i)"

definition map_at :: "'v \<Rightarrow> 'k::linorder \<Rightarrow> ('k, 'v) map_array \<Rightarrow> 'v option \<times> ('k, 'v) map_array" where
  "map_at d k a = (case getValue element_lt ARRAY_M \<lparr>e_key = k, e_value = d\<rparr> a of (e, a) \<Rightarrow> (map_option e_value e, a))"

text \<open>The map an array stands for.\<close>

definition map_of_array :: "('k, 'v) map_array \<Rightarrow> 'k \<rightharpoonup> 'v" where
  "map_of_array a = map_of (map (\<lambda>e. (e_key e, e_value e)) (inorder a))"

lemma map_of_filter_key:
  "map_of (map (\<lambda>e. (e_key e, e_value e)) (filter (\<lambda>e. P (e_key e)) l)) j =
     (if P j then map_of (map (\<lambda>e. (e_key e, e_value e)) l) j else None)"
  by (induction l) auto

lemma map_insert_update:
  assumes "array_ok element_lt ARRAY_M a"
  shows "map_of_array (snd (map_insert k v a)) = (map_of_array a)(k \<mapsto> v)"
proof
  fix j
  show "map_of_array (snd (map_insert k v a)) j = ((map_of_array a)(k \<mapsto> v)) j"
    by (cases "j < k"; cases "j = k")
      (auto simp: map_insert_def map_of_array_def map_array.store.put_vals [OF assms] insert_sorted_def
        element_lt_def map_add_def map_of_filter_key [of "\<lambda>x. x < k"] map_of_filter_key [of "\<lambda>x. k < x"]
        split: option.splits)
qed

lemma map_remove_delete:
  assumes "array_ok element_lt ARRAY_M a"
  shows "map_of_array (snd (map_remove d k a)) = (map_of_array a)(k := None)"
proof
  fix j
  have "(\<lambda>x. \<not> same_value element_lt x \<lparr>e_key = k, e_value = d\<rparr>) = (\<lambda>x. e_key x \<noteq> k)"
    by (auto simp: same_value_def element_lt_def)
  then show "map_of_array (snd (map_remove d k a)) j = ((map_of_array a)(k := None)) j"
    by (simp add: map_remove_def map_of_array_def map_array.store.drop_vals [OF assms]
        map_of_filter_key [of "\<lambda>x. x \<noteq> k"])
qed

text \<open>
  A \<open>MapArray\<close> is a map: inserting a key updates it, removing a key deletes it, whatever was done
  before, and the elements stay ordered by their keys.
\<close>

theorem map_array_is_map:
  assumes "array_ok element_lt ARRAY_M a"
  shows "map_of_array (snd (map_insert k v a)) = (map_of_array a)(k \<mapsto> v) \<and>
    map_of_array (snd (map_remove d k a)) = (map_of_array a)(k := None) \<and>
    array_ok element_lt ARRAY_M (snd (map_insert k v a)) \<and> array_ok element_lt ARRAY_M (snd (map_remove d k a))"
  using map_insert_update [OF assms] map_remove_delete [OF assms]
    map_array.store.put_ok [OF assms] map_array.store.drop_ok [OF assms]
  by (simp add: map_insert_def map_remove_def)

theorem map_array_is_map_witness:
  "map_of_array (snd (map_insert (1::int) ''a'' new_node)) = [1 \<mapsto> ''a'']"
proof -
  have "map_of_array (new_node :: (int, string) map_array) = Map.empty" by (simp add: map_of_array_def new_node_def)
  then show ?thesis
    using map_array_is_map [of "new_node :: (int, string) map_array" 1 "''a''" "[]", OF map_array.new_node_ok] by simp
qed

end
