(* ===== verification/Size_Index.thy ===== *)
theory Size_Index
  imports Sorted_Array_Clients
begin

text \<open>
  \<open>Core/FileManager/priv/SizeIndexEntries.cpp\<close>: the entries of the cache ordered by their size, in
  the B-tree of \<open>SortedArray.h\<close>, and the search of those whose size is in an interval.
\<close>

subsection \<open>The nearest position\<close>

lemma node_in_getNode: "node_in R h root node fs \<Longrightarrow> getNode lt node v fs = (n, gs, pos) \<Longrightarrow> \<exists>k. node_in R k root n gs"
proof (induction h arbitrary: node fs)
  case 0
  then have "bn_children node = []" by (simp add: node_in_def)
  then have "n = node" "gs = fs" using 0(2) by (auto simp: getNode.simps [of lt node] split: prod.splits if_splits)
  then show ?case using 0(1) by blast
next
  case (Suc h)
  obtain p ex where p: "pos_in lt node v = (p, ex)" by fastforce
  show ?case
  proof (cases "\<not> ex \<and> p < length (bn_children node)")
    case True
    then have "p \<le> nbItems node" using Suc.prems(1) by (simp add: node_in_def)
    then show ?thesis using Suc.IH [OF node_in_down [OF Suc.prems(1)]] Suc.prems(2) True p
      by (simp add: getNode.simps [of lt node])
  next
    case False
    then have "n = node" "gs = fs" using Suc.prems(2) p by (auto simp: getNode.simps [of lt node] split: if_splits)
    then show ?thesis using Suc.prems(1) by blast
  qed
qed

definition nearest_in :: "('a \<Rightarrow> 'a \<Rightarrow> bool) \<Rightarrow> 'a \<Rightarrow> 'a bnode \<Rightarrow> 'a frame list \<Rightarrow> nat option \<Rightarrow> 'a position" where
  "nearest_in lt v n gs pos = (case pos of Some p \<Rightarrow> (n, gs, int p)
     | None \<Rightarrow> let p = fst (pos_in lt n v)
               in if p > 0 then (n, gs, int p - 1)
                  else (let previous = getPreviousPosition (n, gs, int p)
                        in if snd (snd previous) \<noteq> -1 then previous else (n, gs, int p)))"

lemma positionOfNearest_getNode:
  "getNode lt node v fs = (n, gs, pos) \<Longrightarrow> positionOfNearest lt node v fs = nearest_in lt v n gs pos"
proof (induction lt node v fs rule: getNode.induct)
  case (1 lt node v fs)
  obtain p ex where p: "pos_in lt node v = (p, ex)" by fastforce
  show ?case
  proof (cases "\<not> ex \<and> p < length (bn_children node)")
    case True
    then show ?thesis using "1.IH" [OF p [symmetric]] "1.prems" p
      by (simp add: getNode.simps [of lt node] positionOfNearest.simps [of lt node])
  next
    case False
    then have "n = node" "gs = fs" "pos = (if ex then Some p else None)"
      using "1.prems" p by (auto simp: getNode.simps [of lt node] split: if_splits)
    then show ?thesis using False p by (auto simp: positionOfNearest.simps [of lt node] nearest_in_def Let_def)
  qed
qed

lemma climb_previous_spec:
  assumes "node_in R h root n fs" "climb_previous fs = Some (m, gs, p)"
  shows "(\<exists>k. node_in R k root m gs) \<and> 0 \<le> p \<and> p < int (nbItems m) \<and>
    length (pre_of fs) = Suc (pos_index (m, gs, p))"
  using assms
proof (induction fs arbitrary: n h)
  case (Cons f fs)
  obtain a i where f: "f = (a, i)" by fastforce
  note up = node_in_up [OF Cons.prems(1) [unfolded f]]
  have a: "length (bn_children a) = Suc (nbItems a)" "i \<le> nbItems a"
    using up Cons.prems(1) by (simp_all add: node_in_def f)
  show ?case
  proof (cases "1 \<le> i")
    case True
    then have e: "m = a" "gs = fs" "p = int i - 1" "Suc (i - 1) = i" using Cons.prems(2) by (auto simp: f)
    have "weave_left (take i (map inorder (bn_children a))) (take i (bn_items a)) =
      weave (take i (map inorder (bn_children a))) (take (i - 1) (bn_items a)) @ [bn_items a ! (i - 1)]"
      using weave_left_snoc [of "map inorder (bn_children a)" "bn_items a" "i - 1"] a e(4) by simp
    then have "length (pre_of (f # fs)) = Suc (pos_index (m, gs, p))"
      using e True by (simp add: f pos_index_def before_def take_map nat_diff_distrib)
    then show ?thesis using up True a(2) e by auto
  next
    case False
    then have "i = 0" by simp
    then show ?thesis using Cons.IH [OF up] Cons.prems(2) by (simp add: f)
  qed
qed simp

lemma climb_previous_None: "climb_previous fs = None \<Longrightarrow> pre_of fs = []"
  by (induction fs rule: climb_previous.induct) (auto split: if_splits simp: not_le)

context value_order
begin

lemma rank_position:
  assumes "node_in R h root n gs" "between v gs" "at_position lt v (bn_items n) p ex" "h = 0 \<or> ex"
    "sorted_wrt lt (inorder root)"
  shows "rank lt v (inorder root) = pos_index (n, gs, int p)"
proof (cases ex)
  case True
  then have p: "p < nbItems n" "same_value lt (bn_items n ! p) v" using assms(3) by (simp_all add: at_position_def)
  have nd: "node_ok R (least_items R h gs) h n" using assms(1) by (simp add: node_in_def)
  have l: "inorder root = (pre_of gs @ before n p) @ bn_items n ! p # (after n p @ suf_of gs)"
    using node_in_whole [OF assms(1)] inorder_around [OF nd p(1), folded after_def] by (simp add: whole_def)
  have "\<forall>y \<in> set (pre_of gs @ before n p). lt y v" "\<forall>y \<in> set (after n p @ suf_of gs). lt v y"
    using sorted_before [OF assms(5) [unfolded l], of _ v] sorted_after [OF assms(5) [unfolded l], of _ v] p(2)
    by (auto simp: same_value_def)
  then have "rank lt v (pre_of gs @ before n p) = length (pre_of gs @ before n p)" "rank lt v (after n p @ suf_of gs) = 0"
    using rank_all rank_greater by blast+
  moreover have "rank lt v [bn_items n ! p] = 0" using p(2) by (simp add: rank_def same_value_def)
  moreover have "rank lt v (inorder root) =
    rank lt v (pre_of gs @ before n p) + rank lt v [bn_items n ! p] + rank lt v (after n p @ suf_of gs)"
    unfolding l by (subst rank_append) (simp add: rank_def)
  ultimately show ?thesis by (simp add: pos_index_def)
next
  case False
  then have n: "bn_children n = []" using assms(1,4) by (auto simp: node_in_def)
  have l: "inorder root = (pre_of gs @ take p (bn_items n)) @ (drop p (bn_items n) @ suf_of gs)"
    using node_in_whole [OF assms(1)] n by (simp add: whole_def inorder_node) (metis append.assoc append_take_drop_id)
  have "rank lt v (pre_of gs @ take p (bn_items n)) = length (pre_of gs @ take p (bn_items n))"
    by (rule rank_all) (use assms(2,3) in \<open>auto simp: between_def at_position_def\<close>)
  moreover have "rank lt v (drop p (bn_items n) @ suf_of gs) = 0"
    by (rule rank_greater) (use assms(2,3) False in \<open>auto simp: between_def at_position_def\<close>)
  ultimately show ?thesis using assms(3) unfolding l rank_append by (simp add: pos_index_def before_def n at_position_def)
qed

lemma nearest_position:
  assumes "1 \<le> R" "M div 2 = R" "array_ok lt M root" "inorder root \<noteq> []"
  shows "\<exists>n fs p h. positionOfNearest lt root v [] = (n, fs, p) \<and> node_in R h root n fs \<and> 0 \<le> p \<and> p < int (nbItems n) \<and>
    pos_index (n, fs, p) = (if contains lt root v then rank lt v (inorder root) else rank lt v (inorder root) - 1)"
proof -
  have t: "tree_ok R root" "sorted_wrt lt (inorder root)" using assms(2,3) by (simp_all add: array_ok_def)
  obtain n gs pos where g: "getNode lt root v [] = (n, gs, pos)" by (metis prod_cases3)
  note f = getNode_root [OF assms(3) g, unfolded assms(2)]
  obtain h where na: "node_in R h root n gs" using node_in_getNode [OF node_in_root [OF t(1)] g] by blast
  have c: "contains lt root v \<longleftrightarrow> pos \<noteq> None" by (simp add: contains_def g)
  have ne: "positionOfNearest lt root v [] = nearest_in lt v n gs pos" by (rule positionOfNearest_getNode [OF g])
  show ?thesis
  proof (cases pos)
    case (Some p)
    then have at: "between v gs" "at_position lt v (bn_items n) p True" using f(1) by (auto simp: found_node_def)
    have "rank lt v (inorder root) = pos_index (n, gs, int p)" using rank_position [OF na at _ t(2)] by simp
    moreover have "p < nbItems n" using at(2) by (simp add: at_position_def)
    ultimately show ?thesis using na c Some ne by (auto simp: nearest_in_def)
  next
    case None
    then have at: "between v gs" "bn_children n = []" using f(1) by (auto simp: found_node_def)
    have h: "h = 0" using na at(2) by (cases h) (auto simp: node_in_def)
    have nd: "node_ok R (least_items R 0 gs) 0 n" using na by (simp add: node_in_def h)
    have so: "sorted_wrt lt (whole gs (inorder n))" using t(2) f(2) by simp
    obtain p ex where p: "pos_in lt n v = (p, ex)" "at_position lt v (bn_items n) p ex"
      using pos_in_position [OF sorted_items [OF so nd]] .
    have "\<not> ex"
    proof
      assume ex
      then have "p < nbItems n" "same_value lt (bn_items n ! p) v" using p(2) by (simp_all add: at_position_def)
      moreover from this have "bn_items n ! p \<in> set (whole gs (inorder n))" using at(2) by (simp add: whole_def inorder_node)
      ultimately show False using found_node_absent [OF f(1) [unfolded None]] by blast
    qed
    then have pa: "at_position lt v (bn_items n) p False" using p(2) by simp
    have r: "rank lt v (inorder root) = length (pre_of gs) + p"
      using rank_position [OF na at(1) pa _ t(2)] pa by (simp add: h pos_index_def before_def at(2) at_position_def)
    show ?thesis
    proof (cases "p > 0")
      case True
      then have "pos_index (n, gs, int p - 1) = rank lt v (inorder root) - 1" "p \<le> nbItems n"
        using r pa by (auto simp: pos_index_def before_def at(2) at_position_def nat_diff_distrib)
      then show ?thesis using True ne None c na p(1) by (auto simp: nearest_in_def)
    next
      case False
      then have p0: "p = 0" by simp
      show ?thesis
      proof (cases "climb_previous gs = None")
        case False
        then obtain m fs q where some: "climb_previous gs = Some (m, fs, q)" by auto
        note cl = climb_previous_spec [OF na some]
        have "positionOfNearest lt root v [] = (m, fs, q)"
          using ne None p(1) p0 at(2) some cl by (auto simp: nearest_in_def getPreviousPosition_def Let_def)
        then show ?thesis using cl r p0 c None by auto
      next
        case first: True
        have pre: "pre_of gs = []" using climb_previous_None first by blast
        have "0 < nbItems n"
        proof (rule ccontr)
          assume "\<not> 0 < nbItems n"
          then have z: "nbItems n = 0" by simp
          then have "gs = []" using nd assms(1) by (auto simp: least_items_def split: if_splits)
          then show False using f(2) z at(2) assms(4) by (simp add: whole_def inorder_node)
        qed
        then show ?thesis using ne None p(1) p0 at(2) first na r pre c
          by (auto simp: nearest_in_def getPreviousPosition_def pos_index_def before_def)
      qed
    qed
  qed
qed

end

subsection \<open>The index of the sizes\<close>

text \<open>An entry is its size, the hash of its address (\<open>qHash\<close>) and its name.\<close>

record size_entry =
  en_size :: int
  en_hash :: nat
  en_name :: string

definition size_lt :: "size_entry \<Rightarrow> size_entry \<Rightarrow> bool" where
  "size_lt e1 e2 = (if en_size e1 = en_size e2 then en_hash e1 < en_hash e2 else en_size e1 < en_size e2)"

interpretation size_index: order_of_degree size_lt ARRAY_M
  by unfold_locales (auto simp: size_lt_def ARRAY_M_def split: if_splits)

definition size_addItem :: "size_entry \<Rightarrow> size_entry bnode \<Rightarrow> size_entry bnode" where
  "size_addItem e index = snd (insert_value size_lt ARRAY_M e index)"

definition size_rmItem :: "size_entry \<Rightarrow> size_entry bnode \<Rightarrow> size_entry bnode" where
  "size_rmItem e index = snd (remove_value size_lt ARRAY_M e index)"

text \<open>The state of the loop: the position, the result, their number and whether the limit is reached.\<close>

type_synonym size_state = "size_entry position \<times> size_entry list \<times> int \<times> bool"

definition size_step :: "int \<Rightarrow> (size_entry \<Rightarrow> bool) \<Rightarrow> size_state \<Rightarrow> size_state" where
  "size_step limit predicat s = (case s of (i, result, nb, _) \<Rightarrow>
     if predicat (item_at i)
     then (if nb + 1 \<ge> limit then (i, result @ [item_at i], nb + 1, True)
           else (getNextPosition i, result @ [item_at i], nb + 1, False))
     else (getNextPosition i, result, nb, False))"

definition size_loop ::
  "size_entry bnode \<Rightarrow> int \<Rightarrow> int \<Rightarrow> (size_entry \<Rightarrow> bool) \<Rightarrow> size_entry position \<Rightarrow> size_entry list \<Rightarrow> int \<Rightarrow> size_entry list option" where
  "size_loop index sizeMax limit predicat i result nb =
     map_option (\<lambda>(_, result, _, _). result)
       (while_option (\<lambda>(i, _, _, stop). \<not> stop \<and> \<not> same_position i (end_pos index) \<and> en_size (item_at i) \<le> sizeMax)
         (size_step limit predicat) (i, result, nb, False))"

text \<open>\<open>hash\<close> is that of the address of the entry that is made for the search.\<close>

definition size_search ::
  "nat \<Rightarrow> int \<Rightarrow> int \<Rightarrow> int \<Rightarrow> (size_entry \<Rightarrow> bool) \<Rightarrow> size_entry bnode \<Rightarrow> size_entry list option" where
  "size_search hash sizeMin sizeMax limit predicat index =
     (if bn_size index = 0 then Some []
      else (let i = positionOfNearest size_lt index \<lparr>en_size = sizeMin, en_hash = hash, en_name = []\<rparr> [];
                i = (if en_size (item_at i) < sizeMin then getNextPosition i else i)
            in size_loop index sizeMax limit predicat i [] 0))"

text \<open>The loop on the list of the entries.\<close>

fun collect :: "int \<Rightarrow> int \<Rightarrow> (size_entry \<Rightarrow> bool) \<Rightarrow> size_entry list \<Rightarrow> int \<Rightarrow> size_entry list" where
  "collect sizeMax limit predicat [] nb = []"
| "collect sizeMax limit predicat (e # es) nb =
     (if en_size e \<le> sizeMax
      then (if predicat e then e # (if nb + 1 \<ge> limit then [] else collect sizeMax limit predicat es (nb + 1))
            else collect sizeMax limit predicat es nb)
      else [])"

lemma collect_take:
  "0 \<le> nb \<Longrightarrow> nb < max 1 limit \<Longrightarrow> collect sizeMax limit predicat es nb =
     take (nat (max 1 limit - nb)) (filter predicat (takeWhile (\<lambda>e. en_size e \<le> sizeMax) es))"
proof (induction es arbitrary: nb)
  case (Cons e es)
  show ?case
  proof (cases "predicat e \<and> en_size e \<le> sizeMax")
    case True
    show ?thesis
    proof (cases "nb + 1 \<ge> limit")
      case le: True
      then have "nat (max 1 limit - nb) = Suc 0" using Cons.prems by (simp add: max_def split: if_splits)
      then show ?thesis using True le by simp
    next
      case False
      then have "nb + 1 < max 1 limit" "nat (max 1 limit - nb) = Suc (nat (max 1 limit - (nb + 1)))"
        using Cons.prems by auto
      then show ?thesis using True False Cons.IH [of "nb + 1"] Cons.prems(1) by simp
    qed
  next
    case False
    then show ?thesis using Cons by auto
  qed
qed simp

lemma size_loop_collect:
  assumes "tree_ok R index" "1 \<le> R" "pos_ok R index i"
  shows "size_loop index sizeMax limit predicat i result nb =
    Some (result @ collect sizeMax limit predicat (drop (pos_index i) (inorder index)) nb)"
  using assms(3)
proof (induction "length (inorder index) - pos_index i" arbitrary: i result nb rule: less_induct)
  case less
  show ?case
  proof (cases "i = end_pos index")
    case True
    then show ?thesis using same_end [OF assms(1) less.prems] end_pos_spec(2) [OF assms(1)]
      unfolding size_loop_def by (subst while_option_unfold) simp
  next
    case False
    obtain n fs p where i: "i = (n, fs, p)" by (metis prod_cases3)
    obtain h where n: "node_in R h index n fs" "0 \<le> p" "p < int (nbItems n)"
      using less.prems False unfolding pos_ok_def i by auto
    note nx = pos_ok_next [OF assms(2) n, folded i] and it = item_at_index [OF n, folded i]
    have d: "drop (pos_index i) (inorder index) = item_at i # drop (Suc (pos_index i)) (inorder index)"
      using it by (simp add: Cons_nth_drop_Suc)
    have IH: "size_loop index sizeMax limit predicat (getNextPosition i) r k =
        Some (r @ collect sizeMax limit predicat (drop (Suc (pos_index i)) (inorder index)) k)" for r k
      using less.hyps [of "getNextPosition i" r k] nx it(2) by simp
    have ne: "\<not> same_position i (end_pos index)" using same_end [OF assms(1) less.prems] False by simp
    have unfold: "size_loop index sizeMax limit predicat i result nb =
      (if en_size (item_at i) \<le> sizeMax
       then (if predicat (item_at i) \<and> nb + 1 \<ge> limit then Some (result @ [item_at i])
             else size_loop index sizeMax limit predicat (getNextPosition i)
               (if predicat (item_at i) then result @ [item_at i] else result) (if predicat (item_at i) then nb + 1 else nb))
       else Some result)"
      unfolding size_loop_def
      by (subst while_option_unfold) (simp add: ne size_step_def while_option_unfold [of _ _ "(i, result @ [item_at i], nb + 1, True)"])
    show ?thesis unfolding unfold d by (simp add: IH)
  qed
qed

text \<open>In the order of the index the entries below a size come first.\<close>

lemma sorted_sizes:
  fixes nm :: string and l :: "size_entry list"
  assumes "sorted_wrt size_lt l" "\<forall>e \<in> set l. en_size e = s \<longrightarrow> h \<le> en_hash e"
  defines "r \<equiv> rank size_lt \<lparr>en_size = s, en_hash = h, en_name = nm\<rparr> l"
  shows "drop r l = filter (\<lambda>e. s \<le> en_size e) l" "i < length l \<Longrightarrow> en_size (l ! i) < s \<longleftrightarrow> i < r"
proof -
  let ?f = "\<lparr>en_size = s, en_hash = h, en_name = nm\<rparr>"
  have eq: "size_lt e ?f \<longleftrightarrow> en_size e < s" if "e \<in> set l" for e
    using assms(2) that by (auto simp: size_lt_def not_less)
  have split: "sorted_wrt size_lt l \<Longrightarrow> l = filter (\<lambda>e. en_size e < s) l @ filter (\<lambda>e. s \<le> en_size e) l" for l
  proof (induction l)
    case (Cons e l)
    show ?case
    proof (cases "en_size e < s")
      case True
      then show ?thesis using Cons by simp
    next
      case False
      then have "\<forall>x \<in> set l. s \<le> en_size x" using Cons.prems by (fastforce simp: size_lt_def split: if_splits)
      then have "filter (\<lambda>e. en_size e < s) l = []" "filter (\<lambda>e. s \<le> en_size e) l = l"
        by (auto simp: filter_empty_conv filter_id_conv not_less)
      then show ?thesis using False by simp
    qed
  qed simp
  have r: "r = length (filter (\<lambda>e. en_size e < s) l)" unfolding r_def rank_def using eq by (metis (mono_tags, lifting) filter_cong)
  define a b where "a = filter (\<lambda>e. en_size e < s) l" and "b = filter (\<lambda>e. s \<le> en_size e) l"
  have l: "l = a @ b" using split [OF assms(1)] by (simp add: a_def b_def)
  have ra: "r = length a" using r by (simp add: a_def)
  have "drop r l = b" using l ra by simp
  then show "drop r l = filter (\<lambda>e. s \<le> en_size e) l" by (simp only: b_def)
  assume i: "i < length l"
  show "en_size (l ! i) < s \<longleftrightarrow> i < r"
  proof (cases "i < r")
    case True
    then have "l ! i \<in> set a" using l ra by (metis nth_append nth_mem)
    then show ?thesis using True by (simp add: a_def)
  next
    case False
    then have "l ! i \<in> set b" using l ra i by (metis add_diff_inverse_nat length_append nat_add_left_cancel_less nth_append nth_mem)
    then show ?thesis using False by (simp add: b_def)
  qed
qed

lemma takeWhile_sizes:
  "sorted_wrt size_lt l \<Longrightarrow> takeWhile (\<lambda>e. en_size e \<le> m) l = filter (\<lambda>e. en_size e \<le> m) l"
proof (induction l)
  case (Cons e l)
  show ?case
  proof (cases "en_size e \<le> m")
    case False
    then have "\<forall>x \<in> set l. \<not> en_size x \<le> m" using Cons.prems by (fastforce simp: size_lt_def split: if_splits)
    then show ?thesis using False by (simp add: filter_empty_conv)
  qed (use Cons in simp)
qed simp

lemma size_search_ok:
  assumes "array_ok size_lt ARRAY_M index" "\<forall>e \<in> set (inorder index). en_size e = sizeMin \<longrightarrow> hash \<le> en_hash e"
  shows "size_search hash sizeMin sizeMax limit predicat index =
    Some (take (nat (max 1 limit))
      (filter (\<lambda>e. sizeMin \<le> en_size e \<and> en_size e \<le> sizeMax \<and> predicat e) (inorder index)))"
proof -
  let ?l = "inorder index" and ?f = "\<lparr>en_size = sizeMin, en_hash = hash, en_name = []\<rparr>"
  have R: "ARRAY_M div 2 = 3" "(1::nat) \<le> 3" by (simp_all add: ARRAY_M_def)
  have t: "tree_ok 3 index" "sorted_wrt size_lt ?l" using assms(1) by (simp_all add: array_ok_def R)
  have s: "bn_size index = int (length ?l)" using node_in_root [OF t(1)] node_ok_size unfolding node_in_def by blast
  show ?thesis
  proof (cases "?l = []")
    case True
    then show ?thesis using s by (simp add: size_search_def)
  next
    case False
    define r where "r = rank size_lt ?f ?l"
    note so = sorted_sizes [OF t(2) assms(2), where nm = "[]", folded r_def]
    obtain n fs p h where i: "positionOfNearest size_lt index ?f [] = (n, fs, p)" "node_in 3 h index n fs" "0 \<le> p"
      "p < int (nbItems n)" "pos_index (n, fs, p) = (if contains size_lt index ?f then r else r - 1)"
      using size_index.nearest_position [OF R(2,1) assms(1) False, of ?f] unfolding r_def by blast
    let ?i = "(n, fs, p)"
    note it = item_at_index [OF i(2-4)]
    have ok: "pos_ok 3 index ?i" using i(2-4) unfolding pos_ok_def by auto
    note nx = pos_ok_next [OF R(2) i(2-4)]
    define j where "j = (if en_size (item_at ?i) < sizeMin then getNextPosition ?i else ?i)"
    have "pos_index ?i < r \<longleftrightarrow> en_size (item_at ?i) < sizeMin" using so(2) [OF it(2)] it(1) by simp
    then have j: "pos_ok 3 index j" "pos_index j = r"
      using ok nx i(5) by (auto simp: j_def split: if_splits)
    have d: "drop r ?l = filter (\<lambda>e. sizeMin \<le> en_size e) ?l" by (rule so(1))
    have sd: "sorted_wrt size_lt (filter (\<lambda>e. sizeMin \<le> en_size e) ?l)" using t(2) by (rule sorted_wrt_filter)
    have "size_search hash sizeMin sizeMax limit predicat index = size_loop index sizeMax limit predicat j [] 0"
      using False s i(1) by (simp add: size_search_def j_def)
    also have "\<dots> = Some (collect sizeMax limit predicat (filter (\<lambda>e. sizeMin \<le> en_size e) ?l) 0)"
      using size_loop_collect [OF t(1) R(2) j(1), of sizeMax limit predicat "[]" 0] d j(2) by simp
    also have "\<dots> = Some (take (nat (max 1 limit))
        (filter (\<lambda>e. sizeMin \<le> en_size e \<and> en_size e \<le> sizeMax \<and> predicat e) ?l))"
      by (subst collect_take) (auto simp: takeWhile_sizes [OF sd] conj_commute conj_left_commute)
    finally show ?thesis .
  qed
qed


definition sized :: "int \<Rightarrow> nat \<Rightarrow> size_entry" where
  "sized s h = \<lparr>en_size = s, en_hash = h, en_name = []\<rparr>"


text \<open>Two entries of the least size with smaller hashes: the first one is missed.\<close>

lemma size_search_misses:
  "size_search 9 10 20 5 (\<lambda>_. True) (size_addItem (sized 10 1) (size_addItem (sized 10 2) new_node)) = Some [sized 10 2]"
  by code_simp

end
