(* ===== verification/Peer_Socket.thy ===== *)
theory Peer_Socket
  imports Hash_Value
begin

text \<open>
  \<open>Core/PeerManager/priv\<close>: the sockets to one peer.  \<open>PeerMessageSocket\<close> answers the messages of the
  peer, \<open>ConnectionPool\<close> holds its sockets, \<open>GetChunksResult\<close>, \<open>GetEntriesResult\<close> and
  \<open>GetHashesResult\<close> are the requests made to the peer.  Bytes and frames are in \<open>Message_Socket\<close>; here
  a socket has the messages that are complete and unread.  Sockets and requests are named by
  numbers.  The file manager, the other peers and the settings are the record \<open>node_env\<close>, an argument;
  so is what the client of a request does in a slot: whether it drops the request.
\<close>

subsection \<open>Messages\<close>

text \<open>Files, directories, entries and chunks of the file manager are named by numbers.\<close>

type_synonym entry = nat
type_synonym entries = nat
type_synonym address = nat

datatype entry_status = ER_OK | ER_DONT_HAVE | ER_TIMEOUT_SCANNING_IN_PROGRESS | ER_ERROR_UNKNOWN
datatype hashes_status = HR_OK | HR_DONT_HAVE | HR_HASHES_DONT_MATCH | HR_ERROR_UNKNOWN
datatype chunks_status = GR_OK | GR_ALREADY_DOWNLOADING | GR_TOO_MANY_CONNECTIONS | GR_ERROR_UNKNOWN
datatype chunk_status = CR_OK | CR_DONT_HAVE | CR_DONT_HAVE_DATA_FROM_OFFSET | CR_ERROR_UNKNOWN

record entry_result =
  er_status :: entry_status
  er_entries :: "entries option"

definition empty_result :: entry_result where
  "empty_result = \<lparr>er_status = ER_OK, er_entries = None\<rparr>"

record peer_info =
  pi_address :: qstring
  pi_port :: "32 word"
  pi_nick :: qstring
  pi_id :: "byte list"
  pi_last_seen :: "64 word"

datatype core_msg =
    Get_entries "entry list" bool
  | Get_entries_result "entry_result list"
  | Get_hashes entry
  | Get_hashes_result hashes_status "32 word"
  | Hash_result "32 word" hash
  | Get_chunks "(byte list \<times> 32 word) list"
  | Get_chunks_result chunks_status "(chunk_status \<times> 32 word) list"
  | Get_peer_list "32 word"
  | Get_peer_list_result "peer_info list"
  | Other_message

subsection \<open>State\<close>

record peer_socket =
  ps_active :: bool
  ps_listening :: bool
  ps_valid :: bool
  ps_in :: "core_msg list"
  ps_out :: "core_msg list"
  ps_nbHash :: "32 word"
  ps_hashes :: bool
  ps_results :: "nat option list"
  ps_answer :: "entry_result list"

datatype request_kind = Chunks_request | Entries_request | Hashes_request

record request =
  rq_kind :: request_kind
  rq_socket :: "nat option"
  rq_connected :: bool
  rq_closeTheSocket :: bool
  rq_timer :: bool
  rq_timeouted :: bool

record conn_pool =
  cp_sockets :: "nat \<Rightarrow> peer_socket"
  cp_nb :: nat
  cp_toPeer :: "nat list"
  cp_fromPeer :: "nat list"
  cp_ip :: "(address \<times> 16 word) option"
  cp_closed :: "nat list"
  cp_uploads :: "(nat \<times> 32 word \<times> nat) list"
  cp_requests :: "request list"
  cp_nresults :: nat
  cp_crashed :: bool
  cp_gossip :: "(address \<times> 16 word) list"

text \<open>A live peer as \<open>getPeers\<close> gives it, and what the socket calls outside of the pool.\<close>

record live_peer =
  lp_ip :: "address option"
  lp_port :: "16 word"
  lp_nick :: qstring
  lp_id :: hash

record node_env =
  max_number_idle_socket :: nat
  gossip_max_peers :: "32 word"
  gossip_peer_ttl_minutes :: "32 word"
  now_secs :: "64 word"
  self_id :: hash
  live_peers :: "live_peer list"
  address_text :: "address \<Rightarrow> qstring"
  text_address :: "qstring \<Rightarrow> address option"
  fm_roots :: entries
  fm_scanned :: "entry \<Rightarrow> entry_result option"
  fm_hashes :: "entry \<Rightarrow> hashes_status \<times> 32 word"
  fm_chunk :: "hash \<Rightarrow> (nat \<times> 32 word) option"

text \<open>\<open>nbHash\<close> is not initialised: \<open>garbage\<close> is what its memory holds.\<close>

definition new_peer_socket :: "32 word \<Rightarrow> core_msg list \<Rightarrow> peer_socket" where
  "new_peer_socket garbage msgs =
     \<lparr>ps_active = True, ps_listening = False, ps_valid = True, ps_in = msgs, ps_out = [], ps_nbHash = garbage,
      ps_hashes = False, ps_results = [], ps_answer = []\<rparr>"

definition new_pool :: conn_pool where
  "new_pool = \<lparr>cp_sockets = (\<lambda>_. new_peer_socket 0 []), cp_nb = 0, cp_toPeer = [], cp_fromPeer = [], cp_ip = None,
     cp_closed = [], cp_uploads = [], cp_requests = [], cp_nresults = 0, cp_crashed = False, cp_gossip = []\<rparr>"

definition upd :: "nat \<Rightarrow> (peer_socket \<Rightarrow> peer_socket) \<Rightarrow> conn_pool \<Rightarrow> conn_pool" where
  "upd s f p = p\<lparr>cp_sockets := (cp_sockets p)(s := f (cp_sockets p s))\<rparr>"

abbreviation sock :: "conn_pool \<Rightarrow> nat \<Rightarrow> peer_socket" where
  "sock p s \<equiv> cp_sockets p s"

definition getAllSockets :: "conn_pool \<Rightarrow> nat list" where
  "getAllSockets p = cp_toPeer p @ cp_fromPeer p"

subsection \<open>Use of a socket\<close>

definition setActive :: "nat \<Rightarrow> conn_pool \<Rightarrow> conn_pool" where
  "setActive s p = upd s (\<lambda>x. x\<lparr>ps_active := True\<rparr>) p"

definition send_msg :: "nat \<Rightarrow> core_msg \<Rightarrow> conn_pool \<Rightarrow> conn_pool" where
  "send_msg s m p =
     (if \<not> ps_listening (sock p s) then p
      else upd s (\<lambda>x. x\<lparr>ps_out := ps_out x @ [m]\<rparr>) (setActive s p))"

definition stop_listening :: "nat \<Rightarrow> conn_pool \<Rightarrow> conn_pool" where
  "stop_listening s p = upd s (\<lambda>x. x\<lparr>ps_listening := False\<rparr>) p"

text \<open>
  The signals \<open>closed\<close> and \<open>becomeIdle\<close> reach the pool as long as it holds the socket; \<open>closed\<close> is
  queued until the event loop delivers it.
\<close>

definition close_socket :: "nat \<Rightarrow> conn_pool \<Rightarrow> conn_pool" where
  "close_socket s p =
     (let p = upd s (\<lambda>x. x\<lparr>ps_active := False, ps_listening := False\<rparr>) p
      in if s \<in> set (getAllSockets p) then p\<lparr>cp_closed := cp_closed p @ [s]\<rparr> else p)"

fun idle_excess :: "(nat \<Rightarrow> bool) \<Rightarrow> nat \<Rightarrow> nat \<Rightarrow> nat list \<Rightarrow> nat list" where
  "idle_excess active m n [] = []"
| "idle_excess active m n (s # ss) =
     (if active s then idle_excess active m n ss
      else if n + 1 > m then s # idle_excess active m (n + 1) ss
      else idle_excess active m (n + 1) ss)"

definition socketBecomeIdle :: "nat \<Rightarrow> conn_pool \<Rightarrow> conn_pool" where
  "socketBecomeIdle m p =
     fold close_socket (idle_excess (\<lambda>s. ps_active (sock p s)) m 0 (getAllSockets p)) p"

definition becomeIdle :: "node_env \<Rightarrow> nat \<Rightarrow> conn_pool \<Rightarrow> conn_pool" where
  "becomeIdle e s p = (if s \<in> set (getAllSockets p) then socketBecomeIdle (max_number_idle_socket e) p else p)"

text \<open>
  \<open>finished\<close>.  \<open>resume\<close> is what listening again does with the messages that wait; in a handler of a
  message the socket listens, so that nothing is resumed and \<open>resume\<close> is not used.
\<close>

definition finished_with ::
  "(conn_pool \<Rightarrow> conn_pool) \<Rightarrow> node_env \<Rightarrow> bool \<Rightarrow> nat \<Rightarrow> conn_pool \<Rightarrow> conn_pool" where
  "finished_with resume e closeTheSocket s p =
     (if \<not> ps_active (sock p s) then p
      else if closeTheSocket \<or> \<not> ps_valid (sock p s) then close_socket s p
      else (let p = upd s (\<lambda>x. x\<lparr>ps_active := False\<rparr>) p;
                p = (if ps_listening (sock p s) then p else resume (upd s (\<lambda>x. x\<lparr>ps_listening := True\<rparr>) p))
            in becomeIdle e s p))"

abbreviation finished_in :: "node_env \<Rightarrow> bool \<Rightarrow> nat \<Rightarrow> conn_pool \<Rightarrow> conn_pool" where
  "finished_in \<equiv> finished_with (\<lambda>p. p)"

subsection \<open>The entries of directories\<close>

definition send_entries_answer :: "(conn_pool \<Rightarrow> conn_pool) \<Rightarrow> node_env \<Rightarrow> nat \<Rightarrow> conn_pool \<Rightarrow> conn_pool" where
  "send_entries_answer resume e s p =
     (let p = send_msg s (Get_entries_result (ps_answer (sock p s))) p
      in finished_with resume e False s (upd s (\<lambda>x. x\<lparr>ps_answer := [], ps_results := []\<rparr>) p))"

text \<open>The loop of the slots \<open>entriesResult\<close> and \<open>entriesResultTimeout\<close>: \<open>f\<close> fills the result of the sender.\<close>

definition settle_result ::
  "nat \<Rightarrow> (entry_result \<Rightarrow> entry_result) \<Rightarrow> peer_socket \<Rightarrow> peer_socket" where
  "settle_result sender f x = x
     \<lparr>ps_answer := map (\<lambda>(r, a). if r = Some sender then f a else a) (zip (ps_results x) (ps_answer x)) @
                    drop (length (ps_results x)) (ps_answer x),
      ps_results := map (\<lambda>r. if r = Some sender then None else r) (ps_results x)\<rparr>"

definition settle_slot ::
  "(conn_pool \<Rightarrow> conn_pool) \<Rightarrow> node_env \<Rightarrow> nat \<Rightarrow> nat \<Rightarrow> (entry_result \<Rightarrow> entry_result) \<Rightarrow> conn_pool \<Rightarrow> conn_pool" where
  "settle_slot resume e s sender f p =
     (let resultEmpty = (\<forall>r \<in> set (ps_results (sock p s)). r = Some sender \<or> r = None);
          p = upd s (settle_result sender f) p
      in if resultEmpty then send_entries_answer resume e s p else p)"

definition entriesResult ::
  "(conn_pool \<Rightarrow> conn_pool) \<Rightarrow> node_env \<Rightarrow> nat \<Rightarrow> nat \<Rightarrow> entry_result \<Rightarrow> conn_pool \<Rightarrow> conn_pool" where
  "entriesResult resume e s sender r p = settle_slot resume e s sender (\<lambda>_. r) p"

definition entriesResultTimeout ::
  "(conn_pool \<Rightarrow> conn_pool) \<Rightarrow> node_env \<Rightarrow> nat \<Rightarrow> nat \<Rightarrow> conn_pool \<Rightarrow> conn_pool" where
  "entriesResultTimeout resume e s sender p =
     settle_slot resume e s sender (\<lambda>a. a\<lparr>er_status := ER_TIMEOUT_SCANNING_IN_PROGRESS\<rparr>) p"

text \<open>\<open>start\<close> of the result of a directory: a directory that is scanned answers at once.\<close>

definition start_result :: "node_env \<Rightarrow> nat \<Rightarrow> nat \<times> entry \<Rightarrow> conn_pool \<Rightarrow> conn_pool" where
  "start_result e s rd p =
     (case fm_scanned e (snd rd) of None \<Rightarrow> p | Some r \<Rightarrow> entriesResult (\<lambda>p. p) e s (fst rd) r p)"

definition on_get_entries :: "node_env \<Rightarrow> nat \<Rightarrow> entry list \<Rightarrow> bool \<Rightarrow> conn_pool \<Rightarrow> conn_pool" where
  "on_get_entries e s dirs get_roots p =
     (if ps_results (sock p s) \<noteq> [] then p
      else (let ids = [cp_nresults p ..< cp_nresults p + length dirs];
                answer = ps_answer (sock p s) @ replicate (length dirs) empty_result @
                         (if dirs = [] \<or> get_roots then [\<lparr>er_status = ER_OK, er_entries = Some (fm_roots e)\<rparr>] else []);
                p = upd s (\<lambda>x. x\<lparr>ps_results := map Some ids, ps_answer := answer\<rparr>) p;
                p = p\<lparr>cp_nresults := cp_nresults p + length dirs\<rparr>
            in if dirs = [] then send_entries_answer (\<lambda>p. p) e s p
               else fold (start_result e s) (zip ids dirs) p))"

subsection \<open>Hashes, chunks and lists of peers\<close>

definition on_get_hashes :: "node_env \<Rightarrow> nat \<Rightarrow> entry \<Rightarrow> conn_pool \<Rightarrow> conn_pool" where
  "on_get_hashes e s file p =
     (let (status, nb) = fm_hashes e file;
          p = upd s (\<lambda>x. x\<lparr>ps_hashes := True, ps_nbHash := nb\<rparr>) p;
          p = send_msg s (Get_hashes_result status nb) p
      in if status \<noteq> HR_OK then finished_in e False s (upd s (\<lambda>x. x\<lparr>ps_hashes := False\<rparr>) p) else p)"

definition nextAskedHash ::
  "(conn_pool \<Rightarrow> conn_pool) \<Rightarrow> node_env \<Rightarrow> nat \<Rightarrow> 32 word \<Rightarrow> hash \<Rightarrow> conn_pool \<Rightarrow> conn_pool" where
  "nextAskedHash resume e s num h p =
     (let p = send_msg s (Hash_result num h) p;
          p = upd s (\<lambda>x. x\<lparr>ps_nbHash := ps_nbHash x - 1\<rparr>) p
      in if ps_nbHash (sock p s) = 0
         then finished_with resume e False s (upd s (\<lambda>x. x\<lparr>ps_hashes := False\<rparr>) p)
         else p)"

definition on_hash_result :: "node_env \<Rightarrow> nat \<Rightarrow> conn_pool \<Rightarrow> conn_pool" where
  "on_hash_result e s p =
     (let p = upd s (\<lambda>x. x\<lparr>ps_nbHash := ps_nbHash x - 1\<rparr>) p
      in if ps_nbHash (sock p s) = 0 then finished_in e False s p else p)"

definition socketGetChunk :: "nat \<Rightarrow> 32 word \<Rightarrow> nat \<Rightarrow> conn_pool \<Rightarrow> conn_pool" where
  "socketGetChunk chunk offset s p =
     (if s \<in> set (cp_fromPeer p) then p\<lparr>cp_uploads := cp_uploads p @ [(chunk, offset, s)]\<rparr> else p)"

definition on_get_chunks :: "node_env \<Rightarrow> nat \<Rightarrow> (byte list \<times> 32 word) list \<Rightarrow> conn_pool \<Rightarrow> conn_pool" where
  "on_get_chunks e s chunks p =
     (case chunks of
        [] \<Rightarrow> finished_in e True s p
      | (str, offset) # _ \<Rightarrow>
          (let h = hash_of_string str
           in if hash_isNull h then finished_in e True s p
              else (case fm_chunk e h of
                      None \<Rightarrow> finished_in e False s (send_msg s (Get_chunks_result GR_OK [(CR_DONT_HAVE, 0)]) p)
                    | Some (chunk, knownBytes) \<Rightarrow>
                        socketGetChunk chunk offset s
                          (stop_listening s (send_msg s (Get_chunks_result GR_OK [(CR_OK, knownBytes)]) p)))))"

text \<open>The loop over the live peers; the limit is compared as a signed number.\<close>

fun list_peers :: "node_env \<Rightarrow> int \<Rightarrow> int \<Rightarrow> live_peer list \<Rightarrow> peer_info list" where
  "list_peers e maxPeers n [] = []"
| "list_peers e maxPeers n (q # qs) =
     (case lp_ip q of
        None \<Rightarrow> list_peers e maxPeers n qs
      | Some ip \<Rightarrow>
          if n \<ge> maxPeers then []
          else \<lparr>pi_address = address_text e ip, pi_port = ucast (lp_port q), pi_nick = lp_nick q, pi_id = lp_id q,
                pi_last_seen = now_secs e\<rparr> # list_peers e maxPeers (n + 1) qs)"

definition on_get_peer_list :: "node_env \<Rightarrow> nat \<Rightarrow> 32 word \<Rightarrow> conn_pool \<Rightarrow> conn_pool" where
  "on_get_peer_list e s max_peers p =
     (let maxPeers = (if max_peers > 0 then max_peers else gossip_max_peers e)
      in finished_in e False s (send_msg s (Get_peer_list_result (list_peers e (sint maxPeers) 0 (live_peers e))) p))"

definition addGossipCandidate :: "address \<times> 16 word \<Rightarrow> conn_pool \<Rightarrow> conn_pool" where
  "addGossipCandidate c p = (if c \<in> set (cp_gossip p) then p else p\<lparr>cp_gossip := cp_gossip p @ [c]\<rparr>)"

definition takeGossipCandidates :: "conn_pool \<Rightarrow> (address \<times> 16 word) list \<times> conn_pool" where
  "takeGossipCandidates p = (cp_gossip p, p\<lparr>cp_gossip := []\<rparr>)"

definition gossip_peer :: "node_env \<Rightarrow> peer_info \<Rightarrow> conn_pool \<Rightarrow> conn_pool" where
  "gossip_peer e info p =
     (let ttlCutoff = now_secs e - ucast (gossip_peer_ttl_minutes e) * 60
      in if pi_last_seen info < ttlCutoff then p
         else (case text_address e (pi_address info) of
                 None \<Rightarrow> p
               | Some addr \<Rightarrow>
                   if pi_id info = [] then p
                   else (let id = hash_of_chars (Some (pi_id info))
                         in if \<not> hash_isNull id \<and> id \<noteq> self_id e
                            then addGossipCandidate (addr, ucast (pi_port info)) p else p)))"

definition onNewMessage :: "node_env \<Rightarrow> nat \<Rightarrow> core_msg \<Rightarrow> conn_pool \<Rightarrow> conn_pool" where
  "onNewMessage e s m p =
     (case m of
        Get_entries dirs get_roots \<Rightarrow> on_get_entries e s dirs get_roots p
      | Get_entries_result _ \<Rightarrow> finished_in e False s p
      | Get_hashes file \<Rightarrow> on_get_hashes e s file p
      | Get_hashes_result _ nb \<Rightarrow> upd s (\<lambda>x. x\<lparr>ps_nbHash := nb\<rparr>) p
      | Hash_result _ _ \<Rightarrow> on_hash_result e s p
      | Get_chunks chunks \<Rightarrow> on_get_chunks e s chunks p
      | Get_peer_list n \<Rightarrow> on_get_peer_list e s n p
      | Get_peer_list_result infos \<Rightarrow> finished_in e False s (fold (gossip_peer e) infos p)
      | _ \<Rightarrow> p)"

subsection \<open>Requests\<close>

definition upd_req :: "nat \<Rightarrow> (request \<Rightarrow> request) \<Rightarrow> conn_pool \<Rightarrow> conn_pool" where
  "upd_req r f p = p\<lparr>cp_requests := (cp_requests p)[r := f (cp_requests p ! r)]\<rparr>"

text \<open>A request without a socket: only that of entries tests the pointer, the others dereference it.\<close>

definition null_socket :: "request_kind \<Rightarrow> conn_pool \<Rightarrow> conn_pool" where
  "null_socket k p = (if k = Entries_request then p else p\<lparr>cp_crashed := True\<rparr>)"

text \<open>The deleter of a request: it is disconnected first, then the socket is given back.\<close>

definition doDeleteLater ::
  "(nat \<Rightarrow> conn_pool \<Rightarrow> conn_pool) \<Rightarrow> node_env \<Rightarrow> nat \<Rightarrow> conn_pool \<Rightarrow> conn_pool" where
  "doDeleteLater resume e r p =
     (let q = cp_requests p ! r;
          closeTheSocket = (rq_kind q = Chunks_request \<and> (rq_timeouted q \<or> rq_closeTheSocket q))
      in case rq_socket q of
           None \<Rightarrow> null_socket (rq_kind q) p
         | Some s \<Rightarrow> upd_req r (\<lambda>q. q\<lparr>rq_socket := None, rq_timer := False\<rparr>)
                      (finished_with (resume s) e closeTheSocket s (upd_req r (\<lambda>q. q\<lparr>rq_connected := False\<rparr>) p)))"

text \<open>
  \<open>newMessage\<close> of a request: \<open>drops r m\<close> says whether the client clears the request in the slot
  of its signal.
\<close>

type_synonym client = "nat \<Rightarrow> core_msg \<Rightarrow> bool"

definition client_slot :: "node_env \<Rightarrow> client \<Rightarrow> nat \<Rightarrow> core_msg \<Rightarrow> conn_pool \<Rightarrow> conn_pool" where
  "client_slot e drops r m p = (if drops r m then doDeleteLater (\<lambda>_ p. p) e r p else p)"

definition chunks_newMessage :: "node_env \<Rightarrow> client \<Rightarrow> nat \<Rightarrow> core_msg \<Rightarrow> conn_pool \<Rightarrow> conn_pool" where
  "chunks_newMessage e drops r m p =
     (case m of
        Get_chunks_result status _ \<Rightarrow>
          (let p = client_slot e drops r m (upd_req r (\<lambda>q. q\<lparr>rq_timer := False\<rparr>) p)
           in case rq_socket (cp_requests p ! r) of
                None \<Rightarrow> p
              | Some s \<Rightarrow> if status = GR_OK then stop_listening s p
                          else upd_req r (\<lambda>q. q\<lparr>rq_closeTheSocket := True\<rparr>) p)
      | _ \<Rightarrow> p)"

definition entries_newMessage :: "node_env \<Rightarrow> client \<Rightarrow> nat \<Rightarrow> core_msg \<Rightarrow> conn_pool \<Rightarrow> conn_pool" where
  "entries_newMessage e drops r m p =
     (case m of
        Get_entries_result _ \<Rightarrow> client_slot e drops r m (upd_req r (\<lambda>q. q\<lparr>rq_timer := False, rq_connected := False\<rparr>) p)
      | _ \<Rightarrow> p)"

definition hashes_newMessage :: "node_env \<Rightarrow> client \<Rightarrow> nat \<Rightarrow> core_msg \<Rightarrow> conn_pool \<Rightarrow> conn_pool" where
  "hashes_newMessage e drops r m p =
     (case m of
        Get_hashes_result _ _ \<Rightarrow> client_slot e drops r m (upd_req r (\<lambda>q. q\<lparr>rq_timer := True\<rparr>) p)
      | Hash_result _ _ \<Rightarrow> client_slot e drops r m (upd_req r (\<lambda>q. q\<lparr>rq_timer := True\<rparr>) p)
      | _ \<Rightarrow> p)"

definition request_newMessage :: "node_env \<Rightarrow> client \<Rightarrow> core_msg \<Rightarrow> nat \<Rightarrow> conn_pool \<Rightarrow> conn_pool" where
  "request_newMessage e drops m r p =
     (if \<not> rq_connected (cp_requests p ! r) then p else case rq_kind (cp_requests p ! r) of
        Chunks_request \<Rightarrow> chunks_newMessage e drops r m p
      | Entries_request \<Rightarrow> entries_newMessage e drops r m p
      | Hashes_request \<Rightarrow> hashes_newMessage e drops r m p)"

text \<open>\<open>readMessage\<close>: the handler of the socket, then the signal \<open>newMessage\<close> to the requests.\<close>

definition listeners :: "nat \<Rightarrow> conn_pool \<Rightarrow> nat list" where
  "listeners s p = [r \<leftarrow> [0 ..< length (cp_requests p)].
     rq_connected (cp_requests p ! r) \<and> rq_socket (cp_requests p ! r) = Some s]"

definition handle_message :: "node_env \<Rightarrow> client \<Rightarrow> nat \<Rightarrow> core_msg \<Rightarrow> conn_pool \<Rightarrow> conn_pool" where
  "handle_message e drops s m p =
     (let p = onNewMessage e s m (setActive s p) in fold (request_newMessage e drops m) (listeners s p) p)"

fun drain :: "node_env \<Rightarrow> client \<Rightarrow> nat \<Rightarrow> core_msg list \<Rightarrow> conn_pool \<Rightarrow> conn_pool" where
  "drain e drops s [] p = p"
| "drain e drops s (m # ms) p =
     (if ps_listening (sock p s) then drain e drops s ms (handle_message e drops s m p)
      else upd s (\<lambda>x. x\<lparr>ps_in := m # ms\<rparr>) p)"

text \<open>\<open>dataReceivedSlot\<close> on the complete messages that wait; \<open>startListening\<close> calls it.\<close>

definition read_waiting :: "node_env \<Rightarrow> client \<Rightarrow> nat \<Rightarrow> conn_pool \<Rightarrow> conn_pool" where
  "read_waiting e drops s p = drain e drops s (ps_in (sock p s)) (upd s (\<lambda>x. x\<lparr>ps_in := []\<rparr>) p)"

definition start_listening :: "node_env \<Rightarrow> client \<Rightarrow> nat \<Rightarrow> conn_pool \<Rightarrow> conn_pool" where
  "start_listening e drops s p =
     (if ps_listening (sock p s) then p else read_waiting e drops s (upd s (\<lambda>x. x\<lparr>ps_listening := True\<rparr>) p))"

definition finished :: "node_env \<Rightarrow> client \<Rightarrow> bool \<Rightarrow> nat \<Rightarrow> conn_pool \<Rightarrow> conn_pool" where
  "finished e drops closeTheSocket s p = finished_with (read_waiting e drops s) e closeTheSocket s p"

definition receive_messages :: "node_env \<Rightarrow> client \<Rightarrow> nat \<Rightarrow> core_msg list \<Rightarrow> conn_pool \<Rightarrow> conn_pool" where
  "receive_messages e drops s ms p =
     (let p = upd s (\<lambda>x. x\<lparr>ps_in := ps_in x @ ms\<rparr>) p
      in if ps_listening (sock p s) then read_waiting e drops s p else p)"

text \<open>Data that is less than a message only make the socket active; the socket is told of the end of
  the connection as long as it listens.\<close>

definition onNewDataReceived :: "nat \<Rightarrow> conn_pool \<Rightarrow> conn_pool" where
  "onNewDataReceived s p = (if ps_listening (sock p s) then setActive s p else p)"

definition onDisconnected :: "nat \<Rightarrow> conn_pool \<Rightarrow> conn_pool" where
  "onDisconnected s p = (if ps_listening (sock p s) then close_socket s p else p)"

subsection \<open>The pool\<close>

datatype direction = TO_PEER | FROM_PEER

definition addNewSocket ::
  "node_env \<Rightarrow> client \<Rightarrow> peer_socket \<Rightarrow> direction \<Rightarrow> conn_pool \<Rightarrow> nat \<times> conn_pool" where
  "addNewSocket e drops x dir p =
     (let s = cp_nb p;
          p = p\<lparr>cp_nb := s + 1, cp_sockets := (cp_sockets p)(s := x)\<rparr>;
          p = (case dir of TO_PEER \<Rightarrow> p\<lparr>cp_toPeer := cp_toPeer p @ [s]\<rparr> | FROM_PEER \<Rightarrow> p\<lparr>cp_fromPeer := cp_fromPeer p @ [s]\<rparr>)
      in (s, start_listening e drops s p))"

definition newConnexion :: "node_env \<Rightarrow> client \<Rightarrow> 32 word \<Rightarrow> core_msg list \<Rightarrow> conn_pool \<Rightarrow> conn_pool" where
  "newConnexion e drops garbage msgs p = snd (addNewSocket e drops (new_peer_socket garbage msgs) FROM_PEER p)"

definition getASocket :: "node_env \<Rightarrow> client \<Rightarrow> 32 word \<Rightarrow> conn_pool \<Rightarrow> nat option \<times> conn_pool" where
  "getASocket e drops garbage p =
     (case find (\<lambda>s. \<not> ps_active (sock p s)) (cp_toPeer p) of
        Some s \<Rightarrow> (Some s, setActive s p)
      | None \<Rightarrow>
          if cp_ip p \<noteq> None
          then (case addNewSocket e drops (new_peer_socket garbage []) TO_PEER p of (s, p) \<Rightarrow> (Some s, p))
          else (None, p))"

definition closeAllSocket :: "conn_pool \<Rightarrow> conn_pool" where
  "closeAllSocket p = fold close_socket (getAllSockets p) p"

definition setIP :: "(address \<times> 16 word) option \<Rightarrow> conn_pool \<Rightarrow> conn_pool" where
  "setIP ip p = p\<lparr>cp_ip := ip\<rparr>"

definition socketClosed :: "nat \<Rightarrow> conn_pool \<Rightarrow> conn_pool" where
  "socketClosed s p =
     (if s \<in> set (cp_toPeer p) then p\<lparr>cp_toPeer := remove1 s (cp_toPeer p)\<rparr>
      else if s \<in> set (cp_fromPeer p) then p\<lparr>cp_fromPeer := remove1 s (cp_fromPeer p)\<rparr>
      else p)"

text \<open>A request of \<open>Peer::getChunks\<close>, \<open>getEntries\<close> or \<open>getHashes\<close>, its start and its timeout.\<close>

definition make_request :: "node_env \<Rightarrow> client \<Rightarrow> request_kind \<Rightarrow> 32 word \<Rightarrow> conn_pool \<Rightarrow> conn_pool" where
  "make_request e drops k garbage p =
     (case getASocket e drops garbage p of
        (s, p) \<Rightarrow> p\<lparr>cp_requests := cp_requests p @ [\<lparr>rq_kind = k, rq_socket = s, rq_connected = False,
                     rq_closeTheSocket = False, rq_timer = False, rq_timeouted = False\<rparr>]\<rparr>)"

definition start_request :: "nat \<Rightarrow> core_msg \<Rightarrow> conn_pool \<Rightarrow> conn_pool" where
  "start_request r m p =
     (case rq_socket (cp_requests p ! r) of
        None \<Rightarrow> upd_req r (\<lambda>q. q\<lparr>rq_timer := True\<rparr>) (null_socket (rq_kind (cp_requests p ! r)) p)
      | Some s \<Rightarrow> upd_req r (\<lambda>q. q\<lparr>rq_timer := True\<rparr>) (send_msg s m (upd_req r (\<lambda>q. q\<lparr>rq_connected := True\<rparr>) p)))"

definition request_timeout :: "node_env \<Rightarrow> client \<Rightarrow> bool \<Rightarrow> nat \<Rightarrow> conn_pool \<Rightarrow> conn_pool" where
  "request_timeout e drops dropped r p =
     (if rq_timer (cp_requests p ! r)
      then (let p = upd_req r (\<lambda>q. q\<lparr>rq_timer := False, rq_timeouted := True\<rparr>) p
            in if dropped then doDeleteLater (read_waiting e drops) e r p else p)
      else p)"

end
