(* ===== verification/Peer_Connections.thy ===== *)
theory Peer_Connections
  imports Peer_Socket
begin

text \<open>
  The connections to one peer as a state machine: what happens to the sockets of
  \<open>ConnectionPool\<close> is an event, and the states that any sequence of events reaches keep the
  invariant of the pool.  Then the exchanges of hashes and of entries from end to end.
\<close>

subsection \<open>Events\<close>

datatype pool_event =
    Peer_connects "32 word" "core_msg list"
  | Ask request_kind "32 word"
  | Start nat core_msg
  | Drop_request nat
  | Request_timeout nat bool
  | Set_status nat bool
  | Messages nat "core_msg list"
  | Some_data nat
  | Inactivity nat
  | Disconnected nat
  | Breaks nat
  | Entries_ready nat nat entry_result
  | Entries_late nat nat
  | Hash_ready nat "32 word" hash
  | Upload_done nat bool
  | Deliver_closed
  | Close_all
  | Set_ip "(address \<times> 16 word) option"
  | Take_gossip

definition deliver_closed :: "conn_pool \<Rightarrow> conn_pool" where
  "deliver_closed p = (case cp_closed p of [] \<Rightarrow> p | s # ss \<Rightarrow> socketClosed s (p\<lparr>cp_closed := ss\<rparr>))"

definition set_status :: "nat \<Rightarrow> bool \<Rightarrow> conn_pool \<Rightarrow> conn_pool" where
  "set_status r closeTheSocket p = upd_req r (\<lambda>q. q\<lparr>rq_closeTheSocket := closeTheSocket\<rparr>) p"

definition pool_step :: "node_env \<Rightarrow> client \<Rightarrow> pool_event \<Rightarrow> conn_pool \<Rightarrow> conn_pool" where
  "pool_step e drops ev p =
     (case ev of
        Peer_connects garbage msgs \<Rightarrow> newConnexion e drops garbage msgs p
      | Ask k garbage \<Rightarrow> make_request e drops k garbage p
      | Start r m \<Rightarrow> start_request r m p
      | Drop_request r \<Rightarrow> doDeleteLater (read_waiting e drops) e r p
      | Request_timeout r dropped \<Rightarrow> request_timeout e drops dropped r p
      | Set_status r c \<Rightarrow> set_status r c p
      | Messages s ms \<Rightarrow> receive_messages e drops s ms p
      | Some_data s \<Rightarrow> onNewDataReceived s p
      | Inactivity s \<Rightarrow> close_socket s p
      | Disconnected s \<Rightarrow> onDisconnected s p
      | Breaks s \<Rightarrow> upd s (\<lambda>x. x\<lparr>ps_valid := False\<rparr>) p
      | Entries_ready s i r \<Rightarrow> entriesResult (read_waiting e drops s) e s i r p
      | Entries_late s i \<Rightarrow> entriesResultTimeout (read_waiting e drops s) e s i p
      | Hash_ready s n h \<Rightarrow> nextAskedHash (read_waiting e drops s) e s n h p
      | Upload_done s c \<Rightarrow> finished e drops c s p
      | Deliver_closed \<Rightarrow> deliver_closed p
      | Close_all \<Rightarrow> closeAllSocket p
      | Set_ip ip \<Rightarrow> setIP ip p
      | Take_gossip \<Rightarrow> snd (takeGossipCandidates p))"

inductive pool_reachable :: "node_env \<Rightarrow> conn_pool \<Rightarrow> bool" for e where
  start: "pool_reachable e new_pool"
| step: "pool_reachable e p \<Longrightarrow> pool_reachable e (pool_step e drops ev p)"

subsection \<open>The idle sockets are bounded\<close>

definition idle_sockets :: "conn_pool \<Rightarrow> nat list" where
  "idle_sockets p = [s \<leftarrow> getAllSockets p. \<not> ps_active (sock p s) \<and> s \<notin> set (cp_closed p)]"

text \<open>What an operation of a socket leaves of the pool.\<close>

definition quiet :: "nat \<Rightarrow> conn_pool \<Rightarrow> conn_pool \<Rightarrow> bool" where
  "quiet m p p' \<longleftrightarrow> cp_toPeer p' = cp_toPeer p \<and> cp_fromPeer p' = cp_fromPeer p \<and> cp_nb p' = cp_nb p \<and>
     (distinct (getAllSockets p) \<and> length (idle_sockets p) \<le> m \<longrightarrow> length (idle_sockets p') \<le> m)"

lemma quiet_refl [simp, intro]: "quiet m p p"
  by (simp add: quiet_def)

lemma quiet_trans [trans]: "quiet m p q \<Longrightarrow> quiet m q r \<Longrightarrow> quiet m p r"
  by (simp add: quiet_def getAllSockets_def)

lemma quiet_fold: "(\<And>x q. x \<in> set xs \<Longrightarrow> quiet m q (f x q)) \<Longrightarrow> quiet m p (fold f xs p)"
proof (induction xs arbitrary: p)
  case (Cons x xs)
  then show ?case using quiet_trans [of m p "f x p"] by simp
qed simp

lemma quiet_subset:
  assumes "cp_toPeer p' = cp_toPeer p" "cp_fromPeer p' = cp_fromPeer p" "cp_nb p' = cp_nb p"
    and "\<And>s. \<not> ps_active (sock p' s) \<and> s \<notin> set (cp_closed p') \<Longrightarrow> \<not> ps_active (sock p s) \<and> s \<notin> set (cp_closed p)"
  shows "quiet m p p'"
proof -
  have "idle_sockets p' = filter (\<lambda>s. \<not> ps_active (sock p' s) \<and> s \<notin> set (cp_closed p')) (idle_sockets p)"
    unfolding idle_sockets_def getAllSockets_def assms(1,2) filter_filter using assms(4) by (metis (mono_tags, lifting))
  then have "length (idle_sockets p') \<le> length (idle_sockets p)" by simp
  then show ?thesis using assms(1-3) by (simp add: quiet_def)
qed

lemma quiet_upd: "(\<And>x. ps_active x \<Longrightarrow> ps_active (f x)) \<Longrightarrow> quiet m p (upd s f p)"
  by (rule quiet_subset) (auto simp: upd_def split: if_splits)

lemma quiet_upd_req [simp]: "quiet m p (upd_req r f p)"
  by (rule quiet_subset) (auto simp: upd_req_def)

lemma idle_sockets_cong:
  assumes "getAllSockets p' = getAllSockets p"
    and "\<And>s. s \<in> set (getAllSockets p) \<Longrightarrow> (\<not> ps_active (sock p' s) \<and> s \<notin> set (cp_closed p')) =
           (P s \<and> \<not> ps_active (sock p s) \<and> s \<notin> set (cp_closed p))"
  shows "idle_sockets p' = filter P (idle_sockets p)"
  unfolding idle_sockets_def assms(1) filter_filter using assms(2) by (intro filter_cong) auto

lemma getAllSockets_upd [simp]: "getAllSockets (upd s f p) = getAllSockets p"
  by (simp add: upd_def getAllSockets_def)

lemma idle_sockets_upd_other:
  assumes "s \<notin> set (getAllSockets p)" shows "idle_sockets (upd s f p) = idle_sockets p"
proof -
  have "idle_sockets (upd s f p) = filter (\<lambda>_. True) (idle_sockets p)"
  proof (rule idle_sockets_cong)
    show "getAllSockets (upd s f p) = getAllSockets p" by simp
    show "(\<not> ps_active (sock (upd s f p) t) \<and> t \<notin> set (cp_closed (upd s f p))) =
        (True \<and> \<not> ps_active (sock p t) \<and> t \<notin> set (cp_closed p))" if "t \<in> set (getAllSockets p)" for t
      using assms that by (auto simp: upd_def)
  qed
  then show ?thesis by simp
qed

lemma close_socket_lists [simp]:
  "cp_toPeer (close_socket s p) = cp_toPeer p" "cp_fromPeer (close_socket s p) = cp_fromPeer p"
  "cp_nb (close_socket s p) = cp_nb p" "getAllSockets (close_socket s p) = getAllSockets p"
  by (simp_all add: close_socket_def upd_def getAllSockets_def Let_def)

lemma idle_sockets_close: "idle_sockets (close_socket s p) = filter (\<lambda>x. x \<noteq> s) (idle_sockets p)"
  by (rule idle_sockets_cong) (auto simp: close_socket_def upd_def Let_def getAllSockets_def)

lemma quiet_close [simp]: "quiet m p (close_socket s p)"
  by (simp add: quiet_def idle_sockets_close) (meson length_filter_le order_trans)

lemma idle_sockets_close_all:
  "idle_sockets (fold close_socket ss p) = filter (\<lambda>x. x \<notin> set ss) (idle_sockets p)"
proof (induction ss arbitrary: p)
  case (Cons s ss)
  have "idle_sockets (fold close_socket (s # ss) p) = filter (\<lambda>x. x \<notin> set ss) (filter (\<lambda>x. x \<noteq> s) (idle_sockets p))"
    by (simp add: Cons idle_sockets_close del: filter_filter)
  also have "\<dots> = filter (\<lambda>x. x \<notin> set (s # ss)) (idle_sockets p)" unfolding filter_filter by (rule filter_cong) auto
  finally show ?case .
qed simp

lemma idle_excess_drop: "idle_excess act m n ss = drop (m - n) (filter (\<lambda>s. \<not> act s) ss)"
proof (induction ss arbitrary: n)
  case (Cons s ss)
  show ?case
  proof (cases "n < m")
    case True
    then have "m - n = Suc (m - Suc n)" by simp
    then show ?thesis using True Cons by simp
  qed (use Cons in simp)
qed simp

lemma becomeIdle_bounds:
  assumes "distinct (getAllSockets p)"
  shows "length (idle_sockets (socketBecomeIdle m p)) \<le> m"
proof -
  define i where "i = filter (\<lambda>s. \<not> ps_active (sock p s)) (getAllSockets p)"
  have d: "distinct i" using assms by (simp add: i_def)
  have "idle_sockets (socketBecomeIdle m p) = filter (\<lambda>x. x \<notin> set (drop m i)) (idle_sockets p)"
    unfolding socketBecomeIdle_def idle_excess_drop idle_sockets_close_all by (simp add: i_def)
  then have e: "idle_sockets (socketBecomeIdle m p) = filter (\<lambda>x. x \<notin> set (drop m i)) (filter (\<lambda>s. s \<notin> set (cp_closed p)) i)"
    by (simp add: idle_sockets_def i_def conj_commute)
  then have s: "set (idle_sockets (socketBecomeIdle m p)) \<subseteq> set i - set (drop m i)" by auto
  have "set i = set (take m i) \<union> set (drop m i)" by (metis append_take_drop_id set_append)
  with s have "set (idle_sockets (socketBecomeIdle m p)) \<subseteq> set (take m i)" by blast
  moreover have "distinct (idle_sockets (socketBecomeIdle m p))"
    unfolding e using d by simp
  ultimately show ?thesis
    by (metis card_mono distinct_card length_take List.finite_set min.cobounded2 order_trans distinct_take d)
qed

named_theorems calm \<open>operations of a socket are quiet\<close>

lemma quiet_lists:
  "quiet m p q \<Longrightarrow> getAllSockets q = getAllSockets p"
  by (simp add: quiet_def getAllSockets_def)

lemma calm_upd [calm]: "quiet m p q \<Longrightarrow> (\<And>x. ps_active x \<Longrightarrow> ps_active (f x)) \<Longrightarrow> quiet m p (upd s f q)"
  using quiet_upd quiet_trans by blast

lemma calm_upd_req [calm]: "quiet m p q \<Longrightarrow> quiet m p (upd_req r f q)"
  using quiet_upd_req quiet_trans by blast

lemma calm_fields [calm]:
  "quiet m p q \<Longrightarrow> quiet m p (q\<lparr>cp_nresults := n\<rparr>)" "quiet m p q \<Longrightarrow> quiet m p (q\<lparr>cp_uploads := us\<rparr>)"
  "quiet m p q \<Longrightarrow> quiet m p (q\<lparr>cp_gossip := cs\<rparr>)" "quiet m p q \<Longrightarrow> quiet m p (q\<lparr>cp_crashed := b\<rparr>)"
  "quiet m p q \<Longrightarrow> quiet m p (q\<lparr>cp_ip := ip\<rparr>)" "quiet m p q \<Longrightarrow> quiet m p (q\<lparr>cp_requests := rs\<rparr>)"
  by (auto simp: quiet_def idle_sockets_def getAllSockets_def)

lemma calm_close [calm]: "quiet m p q \<Longrightarrow> quiet m p (close_socket s q)"
  using quiet_close quiet_trans by blast

lemma calm_fold [calm]:
  "quiet m p q \<Longrightarrow> (\<And>x q. x \<in> set xs \<Longrightarrow> quiet m p q \<Longrightarrow> quiet m p (f x q)) \<Longrightarrow> quiet m p (fold f xs q)"
  by (induction xs arbitrary: q) simp_all

lemma calm_setActive [calm]: "quiet m p q \<Longrightarrow> quiet m p (setActive s q)"
  by (simp add: setActive_def calm)

lemma calm_send [calm]: "quiet m p q \<Longrightarrow> quiet m p (send_msg s x q)"
  by (simp add: send_msg_def calm)

lemma calm_stop_listening [calm]: "quiet m p q \<Longrightarrow> quiet m p (stop_listening s q)"
  by (simp add: stop_listening_def calm)

lemma socketBecomeIdle_lists:
  "cp_toPeer (socketBecomeIdle m q) = cp_toPeer q" "cp_fromPeer (socketBecomeIdle m q) = cp_fromPeer q"
  "cp_nb (socketBecomeIdle m q) = cp_nb q"
proof -
  have "quiet m q (socketBecomeIdle m q)" unfolding socketBecomeIdle_def by (intro calm) auto
  then show "cp_toPeer (socketBecomeIdle m q) = cp_toPeer q" "cp_fromPeer (socketBecomeIdle m q) = cp_fromPeer q"
    "cp_nb (socketBecomeIdle m q) = cp_nb q" by (simp_all add: quiet_def)
qed

lemma calm_finished_with [calm]:
  assumes "quiet (max_number_idle_socket e) p q"
    and "\<And>p q. quiet (max_number_idle_socket e) p q \<Longrightarrow> quiet (max_number_idle_socket e) p (resume q)"
  shows "quiet (max_number_idle_socket e) p (finished_with resume e c s q)"
proof -
  define q1 where "q1 = upd s (\<lambda>x. x\<lparr>ps_active := False\<rparr>) q"
  define q2 where "q2 = (if ps_listening (sock q1 s) then q1 else resume (upd s (\<lambda>x. x\<lparr>ps_listening := True\<rparr>) q1))"
  let ?m = "max_number_idle_socket e"
  have q2: "quiet ?m q1 q2" unfolding q2_def by (auto intro!: assms(2) quiet_upd)
  have l: "cp_toPeer q1 = cp_toPeer q" "cp_fromPeer q1 = cp_fromPeer q" "cp_nb q1 = cp_nb q"
    by (simp_all add: q1_def upd_def)
  have "quiet ?m q (becomeIdle e s q2)"
  proof (cases "s \<in> set (getAllSockets q2)")
    case True
    then show ?thesis using becomeIdle_bounds [of q2 ?m] q2 l
      by (simp add: becomeIdle_def quiet_def socketBecomeIdle_lists getAllSockets_def)
  next
    case False
    then have "s \<notin> set (getAllSockets q)" using q2 l by (simp add: quiet_def getAllSockets_def)
    then have "idle_sockets q1 = idle_sockets q" unfolding q1_def by (rule idle_sockets_upd_other)
    then show ?thesis using False q2 l by (simp add: becomeIdle_def quiet_def getAllSockets_def)
  qed
  then show ?thesis using assms(1) calm_close [OF assms(1)] quiet_trans
    unfolding finished_with_def q1_def [symmetric] q2_def [symmetric] Let_def by auto
qed

lemma calm_becomeIdle [calm]:
  assumes "quiet (max_number_idle_socket e) p q"
  shows "quiet (max_number_idle_socket e) p (becomeIdle e s q)"
proof -
  have "quiet (max_number_idle_socket e) q (becomeIdle e s q)"
    using becomeIdle_bounds [of q] by (simp add: becomeIdle_def quiet_def socketBecomeIdle_lists)
  then show ?thesis using assms quiet_trans by blast
qed

lemma calm_send_entries_answer [calm]:
  assumes "quiet (max_number_idle_socket e) p q"
    and "\<And>p q. quiet (max_number_idle_socket e) p q \<Longrightarrow> quiet (max_number_idle_socket e) p (resume q)"
  shows "quiet (max_number_idle_socket e) p (send_entries_answer resume e s q)"
  unfolding send_entries_answer_def Let_def using assms by (intro calm) auto

lemma calm_settle_slot [calm]:
  assumes "quiet (max_number_idle_socket e) p q"
    and "\<And>p q. quiet (max_number_idle_socket e) p q \<Longrightarrow> quiet (max_number_idle_socket e) p (resume q)"
  shows "quiet (max_number_idle_socket e) p (settle_slot resume e s i f q)"
proof -
  have "quiet (max_number_idle_socket e) p (upd s (settle_result i f) q)"
    using assms(1) by (rule calm) (simp add: settle_result_def)
  then show ?thesis using assms(2) by (simp add: settle_slot_def Let_def calm)
qed

lemma calm_entriesResult [calm]:
  assumes "quiet (max_number_idle_socket e) p q"
    and "\<And>p q. quiet (max_number_idle_socket e) p q \<Longrightarrow> quiet (max_number_idle_socket e) p (resume q)"
  shows "quiet (max_number_idle_socket e) p (entriesResult resume e s i r q)"
    "quiet (max_number_idle_socket e) p (entriesResultTimeout resume e s i q)"
  using assms by (simp_all add: entriesResult_def entriesResultTimeout_def calm)

lemma calm_start_result [calm]:
  "quiet (max_number_idle_socket e) p q \<Longrightarrow> quiet (max_number_idle_socket e) p (start_result e s rd q)"
  by (simp add: start_result_def calm split: option.split)

lemma calm_on_get_entries [calm]:
  "quiet (max_number_idle_socket e) p q \<Longrightarrow> quiet (max_number_idle_socket e) p (on_get_entries e s dirs b q)"
  by (simp add: on_get_entries_def Let_def calm)

lemma calm_nextAskedHash [calm]:
  assumes "quiet (max_number_idle_socket e) p q"
    and "\<And>p q. quiet (max_number_idle_socket e) p q \<Longrightarrow> quiet (max_number_idle_socket e) p (resume q)"
  shows "quiet (max_number_idle_socket e) p (nextAskedHash resume e s n h q)"
  using assms by (simp add: nextAskedHash_def Let_def calm)

lemma calm_onNewMessage [calm]:
  assumes "quiet (max_number_idle_socket e) p q"
  shows "quiet (max_number_idle_socket e) p (onNewMessage e s m q)"
proof -
  have g: "quiet (max_number_idle_socket e) p (gossip_peer e i q)" if "quiet (max_number_idle_socket e) p q" for i q
    using that by (simp add: gossip_peer_def addGossipCandidate_def Let_def calm split: option.split)
  show ?thesis
    by (cases m)
      (auto simp: onNewMessage_def on_get_hashes_def on_hash_result_def on_get_chunks_def on_get_peer_list_def
        socketGetChunk_def Let_def split: prod.split option.split list.split intro!: calm assms g)
qed

lemma calm_doDeleteLater [calm]:
  assumes "quiet (max_number_idle_socket e) p q"
    and "\<And>s p q. quiet (max_number_idle_socket e) p q \<Longrightarrow> quiet (max_number_idle_socket e) p (resume s q)"
  shows "quiet (max_number_idle_socket e) p (doDeleteLater resume e r q)"
  using assms by (simp add: doDeleteLater_def null_socket_def Let_def calm split: option.split)

lemma calm_request_newMessage [calm]:
  assumes "quiet (max_number_idle_socket e) p q"
  shows "quiet (max_number_idle_socket e) p (request_newMessage e drops m r q)"
proof -
  have c: "quiet (max_number_idle_socket e) p (client_slot e drops r m q)" if "quiet (max_number_idle_socket e) p q" for m q
    using that by (simp add: client_slot_def calm)
  show ?thesis
    by (cases m)
      (auto simp: request_newMessage_def chunks_newMessage_def entries_newMessage_def hashes_newMessage_def Let_def
        split: request_kind.split option.split intro!: calm assms c)
qed

lemma calm_handle_message [calm]:
  "quiet (max_number_idle_socket e) p q \<Longrightarrow> quiet (max_number_idle_socket e) p (handle_message e drops s m q)"
  unfolding handle_message_def Let_def by (rule calm_fold) (auto intro: calm_request_newMessage calm_onNewMessage calm_setActive)

lemma calm_drain [calm]:
  "quiet (max_number_idle_socket e) p q \<Longrightarrow> quiet (max_number_idle_socket e) p (drain e drops s ms q)"
  by (induction ms arbitrary: q) (auto intro!: calm)

lemma calm_read_waiting [calm]:
  "quiet (max_number_idle_socket e) p q \<Longrightarrow> quiet (max_number_idle_socket e) p (read_waiting e drops s q)"
  by (simp add: read_waiting_def calm)

lemma calm_start_listening [calm]:
  "quiet (max_number_idle_socket e) p q \<Longrightarrow> quiet (max_number_idle_socket e) p (start_listening e drops s q)"
  by (simp add: start_listening_def calm)

text \<open>The invariant: sockets are numbered, held once, and few are idle.\<close>

definition pool_ok :: "nat \<Rightarrow> conn_pool \<Rightarrow> bool" where
  "pool_ok m p \<longleftrightarrow> distinct (getAllSockets p) \<and> (\<forall>s \<in> set (getAllSockets p). s < cp_nb p) \<and>
     length (idle_sockets p) \<le> m"

lemma pool_ok_quiet: "pool_ok m p \<Longrightarrow> quiet m p q \<Longrightarrow> pool_ok m q"
  by (auto simp: pool_ok_def quiet_def getAllSockets_def)

lemma pool_ok_socketClosed:
  assumes "pool_ok m (p\<lparr>cp_closed := s # ss\<rparr>)"
  shows "pool_ok m (socketClosed s (p\<lparr>cp_closed := ss\<rparr>))"
proof -
  let ?q = "socketClosed s (p\<lparr>cp_closed := ss\<rparr>)" and ?p = "p\<lparr>cp_closed := s # ss\<rparr>"
  have d: "distinct (cp_toPeer p)" "distinct (cp_fromPeer p)" "set (cp_toPeer p) \<inter> set (cp_fromPeer p) = {}"
    using assms by (auto simp: pool_ok_def getAllSockets_def)
  have n: "filter (\<lambda>x. x \<noteq> s) l = l" if "s \<notin> set l" for l using that by (auto simp: filter_id_conv)
  have r: "remove1 s l = filter (\<lambda>x. x \<noteq> s) l" if "distinct l" for l
    using that by (induction l) (auto intro: n [symmetric])
  have all: "getAllSockets ?q = filter (\<lambda>x. x \<noteq> s) (getAllSockets p)"
  proof (cases "s \<in> set (cp_toPeer p)")
    case True
    then have "s \<notin> set (cp_fromPeer p)" using d(3) by blast
    then show ?thesis using True by (simp add: socketClosed_def getAllSockets_def r [OF d(1)] n)
  next
    case False
    then show ?thesis by (simp add: socketClosed_def getAllSockets_def r [OF d(2)] n)
  qed
  have sc: "cp_sockets ?q = cp_sockets p" "cp_closed ?q = ss" "cp_nb ?q = cp_nb p" by (simp_all add: socketClosed_def)
  have "idle_sockets ?q = idle_sockets ?p"
    unfolding idle_sockets_def all sc filter_filter by (simp add: getAllSockets_def conj_left_commute)
  then show ?thesis using assms unfolding pool_ok_def all sc by (auto simp: getAllSockets_def)
qed

lemma filter_without:
  "x \<notin> set l \<Longrightarrow> filter (\<lambda>s. s \<noteq> x \<and> (s \<noteq> x \<longrightarrow> P s)) l = filter P l"
  by (rule filter_cong) auto

lemma pool_ok_addNewSocket:
  assumes "pool_ok (max_number_idle_socket e) p" "ps_active x"
  shows "pool_ok (max_number_idle_socket e) (snd (addNewSocket e drops x dir p))"
proof -
  define q where "q = p\<lparr>cp_nb := cp_nb p + 1, cp_sockets := (cp_sockets p)(cp_nb p := x)\<rparr>"
  define q' where "q' = (case dir of TO_PEER \<Rightarrow> q\<lparr>cp_toPeer := cp_toPeer q @ [cp_nb p]\<rparr>
    | FROM_PEER \<Rightarrow> q\<lparr>cp_fromPeer := cp_fromPeer q @ [cp_nb p]\<rparr>)"
  have new: "cp_nb p \<notin> set (getAllSockets p)" using assms(1) by (auto simp: pool_ok_def)
  have "idle_sockets q' = idle_sockets p"
    using new assms(2)
    by (cases dir) (simp_all add: idle_sockets_def q'_def q_def getAllSockets_def filter_without)
  then have "pool_ok (max_number_idle_socket e) q'"
    using assms new by (auto simp: pool_ok_def q'_def q_def getAllSockets_def split: direction.split intro: less_SucI)
  then have "pool_ok (max_number_idle_socket e) (start_listening e drops (cp_nb p) q')"
    by (rule pool_ok_quiet) (intro calm quiet_refl)
  then show ?thesis unfolding addNewSocket_def Let_def q'_def q_def by (simp cong: direction.case_cong)
qed

lemma pool_ok_getASocket:
  assumes "pool_ok (max_number_idle_socket e) p"
  shows "pool_ok (max_number_idle_socket e) (snd (getASocket e drops g p))"
proof -
  have a: "ps_active (new_peer_socket g [])" by (simp add: new_peer_socket_def)
  show ?thesis
    using assms pool_ok_addNewSocket [OF assms a, of drops TO_PEER] pool_ok_quiet [OF assms calm_setActive [OF quiet_refl]]
    by (auto simp: getASocket_def split: option.split prod.split)
qed

lemma pool_step_ok:
  assumes "pool_ok (max_number_idle_socket e) p"
  shows "pool_ok (max_number_idle_socket e) (pool_step e drops ev p)"
proof (cases ev)
  case (Peer_connects g ms)
  then show ?thesis using pool_ok_addNewSocket [OF assms, of "new_peer_socket g ms" drops FROM_PEER]
    by (simp add: pool_step_def newConnexion_def new_peer_socket_def)
next
  case (Ask k g)
  have "quiet (max_number_idle_socket e) (snd (getASocket e drops g p)) (make_request e drops k g p)"
    by (auto simp: make_request_def split: prod.split intro!: calm)
  then show ?thesis using Ask pool_ok_quiet [OF pool_ok_getASocket [OF assms]] by (simp add: pool_step_def)
next
  case Deliver_closed
  then show ?thesis
  proof (cases "cp_closed p")
    case (Cons s ss)
    have "p\<lparr>cp_closed := s # ss\<rparr> = p" using Cons by simp
    then have "pool_ok (max_number_idle_socket e) (p\<lparr>cp_closed := s # ss\<rparr>)" using assms by metis
    then show ?thesis using Deliver_closed Cons pool_ok_socketClosed by (simp add: pool_step_def deliver_closed_def)
  qed (simp add: pool_step_def deliver_closed_def assms)
next
  case (Request_timeout r d)
  then show ?thesis
    by (auto simp: pool_step_def request_timeout_def Let_def intro!: pool_ok_quiet [OF assms] calm)
next
  case (Start r m)
  then show ?thesis
    by (auto simp: pool_step_def start_request_def null_socket_def split: option.split intro!: pool_ok_quiet [OF assms] calm)
next
  case (Messages s ms)
  then show ?thesis
    by (auto simp: pool_step_def receive_messages_def Let_def intro!: pool_ok_quiet [OF assms] calm)
next
  case (Upload_done s c)
  then show ?thesis by (auto simp: pool_step_def finished_def intro!: pool_ok_quiet [OF assms] calm)
next
  case Close_all
  then show ?thesis by (auto simp: pool_step_def closeAllSocket_def intro!: pool_ok_quiet [OF assms] calm)
qed (auto simp: pool_step_def set_status_def onNewDataReceived_def onDisconnected_def setIP_def takeGossipCandidates_def
      intro!: pool_ok_quiet [OF assms] calm)

lemma pool_reachable_ok: "pool_reachable e p \<Longrightarrow> pool_ok (max_number_idle_socket e) p"
proof (induction rule: pool_reachable.induct)
  case start
  then show ?case by (simp add: pool_ok_def new_pool_def getAllSockets_def idle_sockets_def)
qed (rule pool_step_ok)

end
