(* ===== verification/Peer_Exchanges.thy ===== *)
theory Peer_Exchanges
  imports Peer_Connections
begin

text \<open>
  The exchanges over the sockets of \<open>ConnectionPool\<close> from end to end: which socket a request is given,
  the hashes of a file, the entries of directories whatever the order of their scans, the list of the
  peers; then what goes wrong around a socket that is given back twice or closed.
\<close>

subsection \<open>What the end of a transaction leaves\<close>

lemma sock_upd [simp]: "sock (upd s f p) t = (if t = s then f (sock p s) else sock p t)"
  by (simp add: upd_def)

lemma upd_fields [simp]:
  "cp_nresults (upd s f p) = cp_nresults p" "cp_requests (upd s f p) = cp_requests p"
  "cp_toPeer (upd s f p) = cp_toPeer p" "cp_fromPeer (upd s f p) = cp_fromPeer p"
  by (simp_all add: upd_def)

text \<open>Closing sockets makes them idle and deaf, and no more.\<close>

definition only_closed :: "peer_socket \<Rightarrow> peer_socket \<Rightarrow> bool" where
  "only_closed x y \<longleftrightarrow> y = x \<or> y = x\<lparr>ps_active := False, ps_listening := False\<rparr>"

lemma only_closed_refl [simp]: "only_closed x x"
  by (simp add: only_closed_def)

lemma only_closed_trans: "only_closed x y \<Longrightarrow> only_closed y z \<Longrightarrow> only_closed x z"
  by (auto simp: only_closed_def)

lemma only_closed_fields:
  assumes "only_closed x y"
  shows "ps_out y = ps_out x" "ps_results y = ps_results x" "ps_answer y = ps_answer x" "ps_nbHash y = ps_nbHash x"
    "ps_active y \<Longrightarrow> ps_active x" "ps_valid y = ps_valid x"
  using assms by (auto simp: only_closed_def)

lemma close_socket_only: "only_closed (sock p t) (sock (close_socket s p) t)"
  by (simp add: close_socket_def Let_def only_closed_def)

lemma fold_close_only: "only_closed (sock p t) (sock (fold close_socket ss p) t)"
  by (induction ss arbitrary: p) (auto intro: only_closed_trans [OF close_socket_only])

lemma becomeIdle_only: "only_closed (sock p t) (sock (becomeIdle e s p) t)"
  by (simp add: becomeIdle_def socketBecomeIdle_def fold_close_only)

lemma finished_listening:
  assumes "ps_active (sock p s)" "ps_valid (sock p s)" "ps_listening (sock p s)"
  shows "only_closed ((sock p s)\<lparr>ps_active := False\<rparr>) (sock (finished_with resume e False s p) s)"
proof -
  have "finished_with resume e False s p = becomeIdle e s (upd s (\<lambda>x. x\<lparr>ps_active := False\<rparr>) p)"
    using assms by (simp add: finished_with_def Let_def)
  moreover have "sock (upd s (\<lambda>x. x\<lparr>ps_active := False\<rparr>) p) s = (sock p s)\<lparr>ps_active := False\<rparr>" by simp
  ultimately show ?thesis using becomeIdle_only by metis
qed

lemma finished_ends:
  fixes e resume
  assumes "ps_active (sock p s)" "ps_valid (sock p s)" "ps_listening (sock p s)"
  defines "q \<equiv> finished_with resume e False s p"
  shows "\<not> ps_active (sock q s)" "ps_out (sock q s) = ps_out (sock p s)" "ps_results (sock q s) = ps_results (sock p s)"
    "ps_answer (sock q s) = ps_answer (sock p s)" "ps_nbHash (sock q s) = ps_nbHash (sock p s)"
  using finished_listening [OF assms(1-3), of resume e, folded q_def]
  by (auto dest: only_closed_fields only_closed_fields(5))

lemma send_listening:
  "ps_listening (sock p s) \<Longrightarrow>
     send_msg s m p = upd s (\<lambda>x. x\<lparr>ps_active := True, ps_out := ps_out x @ [m]\<rparr>) p"
  by (simp add: send_msg_def setActive_def upd_def)

subsection \<open>The socket of a request\<close>

text \<open>
  A request is given a socket to the peer that no one uses and that is active from then on: an idle
  one, or a new one when all are busy; it is given none only if the address of the peer is unknown.
\<close>

theorem getASocket_spec:
  assumes "pool_ok m p" "getASocket e drops garbage p = (r, q)"
  shows "(r = None \<longleftrightarrow> (\<forall>s \<in> set (cp_toPeer p). ps_active (sock p s)) \<and> cp_ip p = None) \<and>
    (\<forall>s. r = Some s \<longrightarrow> s \<in> set (cp_toPeer q) \<and> s \<notin> set (cp_fromPeer q) \<and> ps_active (sock q s) \<and>
       (s \<in> set (cp_toPeer p) \<and> \<not> ps_active (sock p s) \<or> s \<notin> set (getAllSockets p) \<and> ps_listening (sock q s))) \<and>
    (\<forall>t. r \<noteq> Some t \<longrightarrow> sock q t = sock p t)"
proof (cases "find (\<lambda>s. \<not> ps_active (sock p s)) (cp_toPeer p)")
  case (Some s)
  then have s: "s \<in> set (cp_toPeer p)" "\<not> ps_active (sock p s)" by (auto simp: find_Some_iff)
  then have "s \<notin> set (cp_fromPeer p)" using assms(1) by (auto simp: pool_ok_def getAllSockets_def)
  then show ?thesis using assms(2) s Some by (auto simp: getASocket_def setActive_def upd_def)
next
  case None
  have all: "\<forall>s \<in> set (cp_toPeer p). ps_active (sock p s)" using None by (auto simp: find_None_iff)
  have new: "cp_nb p \<notin> set (getAllSockets p)" using assms(1) by (auto simp: pool_ok_def)
  show ?thesis
  proof (cases "cp_ip p = None")
    case True
    then have "r = None" "q = p" using assms(2) None by (simp_all add: getASocket_def)
    then show ?thesis using True all by blast
  next
    case False
    then have "r = Some (cp_nb p)" "q = p\<lparr>cp_nb := Suc (cp_nb p), cp_toPeer := cp_toPeer p @ [cp_nb p],
        cp_sockets := (cp_sockets p)(cp_nb p := (new_peer_socket garbage [])\<lparr>ps_listening := True\<rparr>)\<rparr>"
      using assms(2) None by (auto simp: getASocket_def addNewSocket_def start_listening_def read_waiting_def
          new_peer_socket_def upd_def Let_def)
    then show ?thesis using False new by (simp add: getAllSockets_def new_peer_socket_def)
  qed
qed

definition example_env :: node_env where
  "example_env = \<lparr>max_number_idle_socket = 6, gossip_max_peers = 2, gossip_peer_ttl_minutes = 1, now_secs = 1000,
     self_id = [], live_peers = [], address_text = (\<lambda>_. []), text_address = (\<lambda>_. None), fm_roots = 0,
     fm_scanned = (\<lambda>d. if d = 1 then Some \<lparr>er_status = ER_OK, er_entries = Some 11\<rparr> else None),
     fm_hashes = (\<lambda>_. (HR_OK, 2)), fm_chunk = (\<lambda>_. None)\<rparr>"

theorem getASocket_spec_witness:
  "fst (getASocket example_env (\<lambda>_ _. False) 0 new_pool) = None"
proof -
  obtain r q where g: "getASocket example_env (\<lambda>_ _. False) 0 new_pool = (r, q)" by (cases "getASocket example_env (\<lambda>_ _. False) 0 new_pool")
  have "pool_ok 6 new_pool" by (simp add: pool_ok_def new_pool_def getAllSockets_def idle_sockets_def)
  from getASocket_spec [OF this g] show ?thesis unfolding g by (simp add: new_pool_def)
qed

text \<open>
  C11: In every state that the events of the connections reach, each socket of the pool is held once, and at
  most the number of idle sockets of the settings are idle and not about to be removed.
\<close>

theorem pool_idle_bounded:
  assumes "pool_reachable e p"
  shows "distinct (getAllSockets p) \<and> (\<forall>s \<in> set (getAllSockets p). s < cp_nb p) \<and>
    length (idle_sockets p) \<le> max_number_idle_socket e"
  using pool_reachable_ok [OF assms] by (simp add: pool_ok_def)

theorem pool_idle_bounded_witness:
  "length (idle_sockets (pool_step example_env (\<lambda>_ _. False) (Peer_connects 0 [Get_peer_list 0]) new_pool)) \<le> 6"
proof -
  have "max_number_idle_socket example_env = 6" by (simp add: example_env_def)
  then show ?thesis
    using pool_idle_bounded [OF pool_reachable.step [OF pool_reachable.start, of example_env "\<lambda>_ _. False"]] by metis
qed

subsection \<open>Hashes\<close>

lemma word_count_down:
  assumes "Suc n < 2 ^ 32"
  shows "word_of_nat (Suc n) - 1 = (word_of_nat n :: 32 word)" "word_of_nat n = (0 :: 32 word) \<longleftrightarrow> n = 0"
  using assms by (auto simp: word_of_nat_eq_0_iff dest: dvd_imp_le)

lemma nextAskedHash_listening:
  fixes n h
  assumes "ps_listening (sock p s)" "ps_nbHash (sock p s) = c + 1"
  defines "q \<equiv> upd s (\<lambda>x. x\<lparr>ps_active := True, ps_out := ps_out x @ [Hash_result n h], ps_nbHash := c\<rparr>) p"
  shows "nextAskedHash resume e s n h p =
    (if c = 0 then finished_with resume e False s (upd s (\<lambda>x. x\<lparr>ps_hashes := False\<rparr>) q) else q)"
  using assms(1,2) by (simp add: nextAskedHash_def Let_def send_listening q_def upd_def)

lemma serve_hashes:
  assumes "ps_listening (sock p s)" "ps_valid (sock p s)" "hs \<noteq> []" "length hs < 2 ^ 32"
    "ps_nbHash (sock p s) = word_of_nat (length hs)"
  shows "\<not> ps_active (sock (fold (\<lambda>(n, h). nextAskedHash resume e s n h) hs p) s) \<and>
    ps_out (sock (fold (\<lambda>(n, h). nextAskedHash resume e s n h) hs p) s) =
      ps_out (sock p s) @ map (\<lambda>(n, h). Hash_result n h) hs"
  using assms
proof (induction hs arbitrary: p)
  case (Cons nh hs)
  obtain n h where nh: "nh = (n, h)" by (cases nh)
  define q where "q = upd s (\<lambda>x. x\<lparr>ps_active := True, ps_out := ps_out x @ [Hash_result n h],
    ps_nbHash := word_of_nat (length hs)\<rparr>) p"
  have c: "ps_nbHash (sock p s) = word_of_nat (length hs) + 1"
    "word_of_nat (length hs) = (0 :: 32 word) \<longleftrightarrow> hs = []"
    using Cons.prems(4,5) word_count_down(2) [of "length hs"] by (simp_all add: add.commute)
  have step: "nextAskedHash resume e s n h p =
      (if hs = [] then finished_with resume e False s (upd s (\<lambda>x. x\<lparr>ps_hashes := False\<rparr>) q) else q)"
    using nextAskedHash_listening [OF Cons.prems(1) c(1)] c(2) by (simp add: q_def)
  have q: "ps_listening (sock q s)" "ps_valid (sock q s)" "ps_active (sock q s)"
    "ps_out (sock q s) = ps_out (sock p s) @ [Hash_result n h]" using Cons.prems(1,2) by (simp_all add: q_def)
  show ?case
  proof (cases "hs = []")
    case True
    then show ?thesis using finished_ends [of "upd s (\<lambda>x. x\<lparr>ps_hashes := False\<rparr>) q" s resume e] q
      by (simp add: nh step)
  next
    case False
    then show ?thesis using Cons.IH [of q] Cons.prems(4) q by (simp add: nh step) (simp add: q_def)
  qed
qed simp

lemma serve_some_hashes:
  assumes "ps_listening (sock p s)" "length hs < n" "n < 2 ^ 32" "ps_nbHash (sock p s) = word_of_nat n" "ps_active (sock p s)"
  shows "ps_active (sock (fold (\<lambda>(n, h). nextAskedHash resume e s n h) hs p) s)"
  using assms
proof (induction hs arbitrary: p n)
  case (Cons nh hs)
  obtain i h where nh: "nh = (i, h)" by (cases nh)
  obtain k where k: "n = Suc k" "k \<noteq> 0" using Cons.prems(2) by (cases n) auto
  have c: "ps_nbHash (sock p s) = word_of_nat k + 1" "(word_of_nat k :: 32 word) \<noteq> 0"
    using Cons.prems(3,4) word_count_down(2) [of k] k by (simp_all add: add.commute)
  define q where "q = upd s (\<lambda>x. x\<lparr>ps_active := True, ps_out := ps_out x @ [Hash_result i h],
    ps_nbHash := word_of_nat k\<rparr>) p"
  have "nextAskedHash resume e s i h p = q"
    using nextAskedHash_listening [OF Cons.prems(1) c(1)] c(2) by (simp add: q_def)
  then show ?case using Cons.IH [of q k] Cons.prems k by (simp add: nh) (simp add: q_def)
qed simp

lemma take_hash_results:
  assumes "ps_listening (sock p s)" "ps_valid (sock p s)" "length hs \<le> n" "0 < n" "n < 2 ^ 32"
    "ps_nbHash (sock p s) = word_of_nat n" "hs \<noteq> []"
  shows "ps_active (sock (fold (\<lambda>m p. onNewMessage e s m (setActive s p)) (map (\<lambda>(n, h). Hash_result n h) hs) p) s)
    \<longleftrightarrow> length hs < n"
  using assms
proof (induction hs arbitrary: p n)
  case (Cons nh hs)
  obtain i h where nh: "nh = (i, h)" by (cases nh)
  obtain k where k: "n = Suc k" using Cons.prems(4) by (cases n) auto
  have c: "ps_nbHash (sock p s) - 1 = word_of_nat k" "(word_of_nat k :: 32 word) = 0 \<longleftrightarrow> k = 0"
    using Cons.prems(5,6) word_count_down [of k] k by auto
  define q where "q = upd s (\<lambda>x. x\<lparr>ps_active := True, ps_nbHash := word_of_nat k\<rparr>) p"
  have step: "onNewMessage e s (Hash_result i h) (setActive s p) = (if k = 0 then finished_in e False s q else q)"
    using c by (simp add: onNewMessage_def on_hash_result_def setActive_def Let_def q_def upd_def)
  have q: "ps_listening (sock q s)" "ps_valid (sock q s)" "ps_active (sock q s)" "ps_nbHash (sock q s) = word_of_nat k"
    using Cons.prems by (simp_all add: q_def)
  show ?case
  proof (cases "hs = []")
    case True
    then show ?thesis using finished_ends(1) [of q s "\<lambda>p. p" e] q k by (simp add: nh step)
  next
    case False
    then have "k \<noteq> 0" using Cons.prems(3) k by (cases hs) auto
    then show ?thesis using Cons.IH [of q k] Cons.prems k q False by (simp add: nh step)
  qed
qed simp

text \<open>
  C18: A file with \<open>n > 0\<close> hashes to send: the socket that is asked answers with their number and, as they come,
  with each of them in order; it is busy until the last one and idle after it, and so is the socket that
  asked when it has received these messages.
\<close>

theorem hashes_exchange:
  fixes resume e e'
  assumes "ps_listening (sock p s)" "ps_valid (sock p s)" "ps_active (sock p s)"
    and "ps_listening (sock q t)" "ps_valid (sock q t)" "ps_active (sock q t)"
    and "fm_hashes e file = (HR_OK, word_of_nat (length hs))" "hs \<noteq> []" "length hs < 2 ^ 32"
  defines "asked \<equiv> \<lambda>k. fold (\<lambda>(n, h). nextAskedHash resume e s n h) (take k hs) (onNewMessage e s (Get_hashes file) p)"
    and "asking \<equiv> \<lambda>ms. fold (\<lambda>m q. onNewMessage e' t m (setActive t q)) ms q"
  shows "ps_out (sock (asked (length hs)) s) =
      ps_out (sock p s) @ Get_hashes_result HR_OK (word_of_nat (length hs)) # map (\<lambda>(n, h). Hash_result n h) hs \<and>
    (\<forall>k \<le> length hs. ps_active (sock (asked k) s) = (k < length hs) \<and>
      ps_active (sock (asking (Get_hashes_result HR_OK (word_of_nat (length hs)) #
        take k (map (\<lambda>(n, h). Hash_result n h) hs))) t) = (k < length hs))"
proof -
  define p0 where "p0 = onNewMessage e s (Get_hashes file) p"
  have p0: "p0 = upd s (\<lambda>x. x\<lparr>ps_hashes := True, ps_nbHash := word_of_nat (length hs), ps_active := True,
      ps_out := ps_out x @ [Get_hashes_result HR_OK (word_of_nat (length hs))]\<rparr>) p"
    using assms(1,7) by (simp add: p0_def onNewMessage_def on_get_hashes_def Let_def send_listening upd_def)
  define q0 where "q0 = upd t (\<lambda>x. x\<lparr>ps_active := True, ps_nbHash := word_of_nat (length hs)\<rparr>) q"
  have ask: "asking (Get_hashes_result HR_OK (word_of_nat (length hs)) # ms) =
      fold (\<lambda>m q. onNewMessage e' t m (setActive t q)) ms q0" for ms
    by (simp add: asking_def onNewMessage_def q0_def setActive_def upd_def)
  have pre: "ps_listening (sock p0 s)" "ps_valid (sock p0 s)" "ps_active (sock p0 s)"
    "ps_nbHash (sock p0 s) = word_of_nat (length hs)"
    "ps_out (sock p0 s) = ps_out (sock p s) @ [Get_hashes_result HR_OK (word_of_nat (length hs))]"
    using assms(1,2) by (simp_all add: p0)
  note all = serve_hashes [OF pre(1,2) assms(8,9) pre(4), of resume e]
  have "ps_active (sock (asked k) s) = (k < length hs)" if "k \<le> length hs" for k
  proof (cases "k < length hs")
    case True
    then show ?thesis
      using serve_some_hashes [OF pre(1) _ assms(9) pre(4,3), of "take k hs" resume e] by (simp add: asked_def p0_def)
  next
    case False
    then show ?thesis using all that by (simp add: asked_def p0_def [symmetric])
  qed
  moreover have "ps_active (sock (asking (Get_hashes_result HR_OK (word_of_nat (length hs)) #
      take k (map (\<lambda>(n, h). Hash_result n h) hs))) t) = (k < length hs)" if "k \<le> length hs" for k
  proof (cases "k = 0")
    case True
    then show ?thesis using assms(8) by (simp add: ask) (simp add: q0_def)
  next
    case False
    have "take k hs \<noteq> []" using False assms(8) by simp
    moreover have "ps_listening (sock q0 t)" "ps_valid (sock q0 t)" "ps_nbHash (sock q0 t) = word_of_nat (length hs)"
      using assms(4,5) by (simp_all add: q0_def)
    ultimately show ?thesis
      using take_hash_results [of q0 t "take k hs" "length hs" e'] assms(8,9) that by (simp add: ask take_map)
  qed
  moreover have "ps_out (sock (asked (length hs)) s) =
      ps_out (sock p s) @ Get_hashes_result HR_OK (word_of_nat (length hs)) # map (\<lambda>(n, h). Hash_result n h) hs"
    using all pre(5) by (simp add: asked_def p0_def [symmetric])
  ultimately show ?thesis by blast
qed

theorem hashes_exchange_witness:
  "let p = snd (addNewSocket example_env (\<lambda>_ _. False) (new_peer_socket 0 []) FROM_PEER new_pool)
   in ps_active (sock (fold (\<lambda>m q. onNewMessage example_env 0 m (setActive 0 q))
       (Get_hashes_result HR_OK (word_of_nat 2) # map (\<lambda>(n, h). Hash_result n h) [(0, [1]), (1, [2])]) p) 0) = False"
proof -
  let ?p = "snd (addNewSocket example_env (\<lambda>_ _. False) (new_peer_socket 0 []) FROM_PEER new_pool)"
  have a: "ps_listening (sock ?p 0)" "ps_valid (sock ?p 0)" "ps_active (sock ?p 0)"
    by (simp_all add: addNewSocket_def start_listening_def read_waiting_def new_pool_def new_peer_socket_def upd_def Let_def)
  have h: "fm_hashes example_env 5 = (HR_OK, word_of_nat (length [(0, [1]), (1, [2]) :: 32 word \<times> hash]))"
    by (simp add: example_env_def)
  show ?thesis
    using hashes_exchange [OF a a h, of "\<lambda>p. p" example_env, THEN conjunct2, rule_format, of 2]
    by (simp add: Let_def)
qed

subsection \<open>Entries\<close>

text \<open>While the directories \<open>D\<close> of \<open>ids\<close> are answered and the others are not.\<close>

definition waiting ::
  "nat \<Rightarrow> nat list \<Rightarrow> (nat \<Rightarrow> entry_result) \<Rightarrow> entry_result list \<Rightarrow> core_msg list \<Rightarrow> nat set \<Rightarrow> conn_pool \<Rightarrow> bool" where
  "waiting s ids g roots out D p \<longleftrightarrow>
     ps_results (sock p s) = map (\<lambda>i. if i \<in> D then None else Some i) ids \<and>
     ps_answer (sock p s) = map (\<lambda>i. if i \<in> D then g i else empty_result) ids @ roots \<and>
     ps_listening (sock p s) \<and> ps_valid (sock p s) \<and> ps_out (sock p s) = out"

definition answered :: "nat \<Rightarrow> entry_result list \<Rightarrow> core_msg list \<Rightarrow> conn_pool \<Rightarrow> bool" where
  "answered s answer out p \<longleftrightarrow> ps_out (sock p s) = out @ [Get_entries_result answer] \<and> \<not> ps_active (sock p s) \<and>
     ps_results (sock p s) = [] \<and> ps_answer (sock p s) = []"

lemma send_entries_answer_ok:
  assumes "ps_listening (sock p s)" "ps_valid (sock p s)"
  shows "answered s (ps_answer (sock p s)) (ps_out (sock p s)) (send_entries_answer resume e s p)"
proof -
  define q where "q = upd s (\<lambda>x. x\<lparr>ps_active := True, ps_out := ps_out x @ [Get_entries_result (ps_answer x)],
    ps_answer := [], ps_results := []\<rparr>) p"
  have "send_entries_answer resume e s p = finished_with resume e False s q"
    using assms(1) by (simp add: send_entries_answer_def Let_def send_listening q_def upd_def)
  moreover have "ps_active (sock q s)" "ps_valid (sock q s)" "ps_listening (sock q s)" using assms by (simp_all add: q_def)
  ultimately show ?thesis using finished_ends [of q s resume e] by (simp add: answered_def) (simp add: q_def)
qed

lemma zip_map_same: "zip (map f xs) (map g xs @ ys) = map (\<lambda>x. (f x, g x)) xs"
  by (induction xs) simp_all

lemma settle_waiting:
  assumes "waiting s ids g roots out D p" "i \<in> set ids" "i \<notin> D" "f empty_result = g i"
  shows "waiting s ids g roots out (insert i D) (upd s (settle_result i f) p)"
    "(\<forall>r \<in> set (ps_results (sock p s)). r = Some i \<or> r = None) \<longleftrightarrow> set ids \<subseteq> insert i D"
  using assms by (auto simp: waiting_def settle_result_def zip_map_same split: if_splits)

lemma settle_slot_step:
  assumes "waiting s ids g roots out D p" "i \<in> set ids" "i \<notin> D" "f empty_result = g i"
  shows "if set ids \<subseteq> insert i D then answered s (map g ids @ roots) out (settle_slot resume e s i f p)
         else waiting s ids g roots out (insert i D) (settle_slot resume e s i f p)"
proof -
  let ?q = "upd s (settle_result i f) p"
  note w = settle_waiting [of s ids g roots out D p i f, OF assms]
  show ?thesis
  proof (cases "set ids \<subseteq> insert i D")
    case True
    have "ps_answer (sock ?q s) = map g ids @ roots" "ps_out (sock ?q s) = out" "ps_listening (sock ?q s)" "ps_valid (sock ?q s)"
      using w(1) True unfolding waiting_def by auto
    then show ?thesis using send_entries_answer_ok [of ?q s resume e] True w(2) by (simp add: settle_slot_def Let_def)
  next
    case False
    then have "\<not> (\<forall>r \<in> set (ps_results (sock p s)). r = Some i \<or> r = None)" using w(2) by blast
    then have "settle_slot resume e s i f p = ?q" unfolding settle_slot_def Let_def by (simp only: if_False)
    then show ?thesis using w(1) False by simp
  qed
qed

lemma settle_slots:
  fixes resume e
  assumes "waiting s ids g roots out D p" "distinct (map fst ks)" "fst ` set ks \<subseteq> set ids - D"
    "\<forall>(i, f) \<in> set ks. f empty_result = g i"
  defines "q \<equiv> fold (\<lambda>(i, f). settle_slot resume e s i f) ks p"
  shows "if set ids \<subseteq> D \<union> fst ` set ks \<and> ks \<noteq> [] then answered s (map g ids @ roots) out q
         else waiting s ids g roots out (D \<union> fst ` set ks) q"
  using assms(1-4) unfolding q_def
proof (induction ks arbitrary: p D)
  case (Cons k ks)
  obtain i f where k: "k = (i, f)" by (cases k)
  note st = settle_slot_step [OF Cons.prems(1), of i f resume e]
  have i: "i \<in> set ids" "i \<notin> D" "f empty_result = g i" using Cons.prems(3,4) k by auto
  show ?case
  proof (cases "set ids \<subseteq> insert i D")
    case True
    then have "ks = []" using Cons.prems(2,3) k by (cases ks) auto
    then show ?thesis using st [OF i] True by (auto simp: k)
  next
    case False
    then have w: "waiting s ids g roots out (insert i D) (settle_slot resume e s i f p)" using st [OF i] by simp
    have "fst ` set ks \<subseteq> set ids - insert i D" using Cons.prems(2,3) k by auto
    from Cons.IH [OF w _ this] Cons.prems(2,4) k False show ?thesis by (auto simp: insert_commute split: if_splits)
  qed
qed simp

definition start_slots :: "node_env \<Rightarrow> (nat \<times> entry) list \<Rightarrow> (nat \<times> (entry_result \<Rightarrow> entry_result)) list" where
  "start_slots e l = concat (map (\<lambda>(i, d). case fm_scanned e d of None \<Rightarrow> [] | Some r \<Rightarrow> [(i, \<lambda>_. r)]) l)"

lemma fold_start_result:
  "fold (start_result e s) l p = fold (\<lambda>(i, f). settle_slot (\<lambda>p. p) e s i f) (start_slots e l) p"
  by (induction l arbitrary: p) (auto simp: start_slots_def start_result_def entriesResult_def split: option.split)

lemma start_slots_fst: "map fst (start_slots e l) = map fst (filter (\<lambda>(i, d). fm_scanned e d \<noteq> None) l)"
  by (induction l) (auto simp: start_slots_def split: option.split)

lemma start_slots_in: "(i, f) \<in> set (start_slots e l) \<longleftrightarrow> (\<exists>d r. (i, d) \<in> set l \<and> fm_scanned e d = Some r \<and> f = (\<lambda>_. r))"
proof (induction l)
  case (Cons a l)
  obtain j d where a: "a = (j, d)" by (cases a)
  have s: "start_slots e ((j, d) # l) = (case fm_scanned e d of None \<Rightarrow> [] | Some r \<Rightarrow> [(j, \<lambda>_. r)]) @ start_slots e l"
    by (simp add: start_slots_def)
  show ?case unfolding a s by (cases "fm_scanned e d") (auto simp: Cons)
qed (simp add: start_slots_def)

text \<open>The answer for the \<open>i\<close>-th directory: at once, later, or when time is out (\<open>None\<close>).\<close>

definition dir_answer :: "node_env \<Rightarrow> entry list \<Rightarrow> (nat \<times> entry_result option) list \<Rightarrow> nat \<Rightarrow> entry_result" where
  "dir_answer e dirs replies i =
     (case fm_scanned e (dirs ! i) of
        Some r \<Rightarrow> r
      | None \<Rightarrow> (case map_of replies i of Some (Some r) \<Rightarrow> r
                 | _ \<Rightarrow> \<lparr>er_status = ER_TIMEOUT_SCANNING_IN_PROGRESS, er_entries = None\<rparr>))"

definition late_reply :: "(conn_pool \<Rightarrow> conn_pool) \<Rightarrow> node_env \<Rightarrow> nat \<Rightarrow> nat \<Rightarrow> nat \<times> entry_result option \<Rightarrow> conn_pool \<Rightarrow> conn_pool" where
  "late_reply resume e s b ir p =
     (case snd ir of Some r \<Rightarrow> entriesResult resume e s (b + fst ir) r p
      | None \<Rightarrow> entriesResultTimeout resume e s (b + fst ir) p)"

definition reply_slot :: "nat \<Rightarrow> nat \<times> entry_result option \<Rightarrow> nat \<times> (entry_result \<Rightarrow> entry_result)" where
  "reply_slot b ir = (b + fst ir, case snd ir of Some r \<Rightarrow> (\<lambda>_. r) | None \<Rightarrow> (\<lambda>a. a\<lparr>er_status := ER_TIMEOUT_SCANNING_IN_PROGRESS\<rparr>))"

lemma fold_late_reply:
  "fold (late_reply resume e s b) replies p = fold (\<lambda>(i, f). settle_slot resume e s i f) (map (reply_slot b) replies) p"
  by (induction replies arbitrary: p)
    (auto simp: late_reply_def reply_slot_def entriesResult_def entriesResultTimeout_def split: option.split)



subsection \<open>The list of the peers\<close>

definition with_address :: "live_peer list \<Rightarrow> live_peer list" where
  "with_address qs = filter (\<lambda>q. lp_ip q \<noteq> None) qs"

definition info_of :: "node_env \<Rightarrow> live_peer \<Rightarrow> peer_info" where
  "info_of e q = \<lparr>pi_address = address_text e (the (lp_ip q)), pi_port = ucast (lp_port q), pi_nick = lp_nick q,
     pi_id = lp_id q, pi_last_seen = now_secs e\<rparr>"

lemma list_peers_take: "list_peers e m n qs = map (info_of e) (take (nat (m - n)) (with_address qs))"
proof (induction qs arbitrary: n)
  case (Cons q qs)
  show ?case
  proof (cases "lp_ip q")
    case (Some ip)
    have "nat (m - n) = Suc (nat (m - (n + 1)))" if "n < m" using that by simp
    then show ?thesis using Some Cons by (cases "n < m") (simp_all add: with_address_def info_of_def)
  qed (use Cons in \<open>simp add: with_address_def\<close>)
qed (simp add: with_address_def)

text \<open>
  The list of peers that is sent holds the first of the live peers whose address is known, as many as are
  asked (or as the settings say when none is), and the socket is idle after it.
\<close>

theorem peer_list_bounded:
  assumes "ps_listening (sock p s)" "ps_valid (sock p s)" "sint n \<ge> 0" "sint (gossip_max_peers e) \<ge> 0"
  defines "q \<equiv> onNewMessage e s (Get_peer_list n) p"
  shows "ps_out (sock q s) = ps_out (sock p s) @
      [Get_peer_list_result (map (info_of e)
        (take (unat (if n = 0 then gossip_max_peers e else n)) (with_address (live_peers e))))] \<and>
    \<not> ps_active (sock q s)"
proof -
  define m where "m = (if n > 0 then n else gossip_max_peers e)"
  have n: "n > 0 \<longleftrightarrow> n \<noteq> 0" by (simp add: word_neq_0_conv)
  have "0 \<le> sint m" using assms(3,4) by (simp add: m_def)
  then have "uint m = sint m" using sint_lt [of m] by (simp add: uint_sint take_bit_int_eq_self)
  then have m: "nat (sint m) = unat m" by (metis nat_uint_eq)
  define p1 where "p1 = upd s (\<lambda>x. x\<lparr>ps_active := True,
    ps_out := ps_out x @ [Get_peer_list_result (list_peers e (sint m) 0 (live_peers e))]\<rparr>) p"
  have q: "q = finished_in e False s p1"
    using assms(1) by (simp add: q_def onNewMessage_def on_get_peer_list_def Let_def send_listening m_def p1_def)
  have "ps_active (sock p1 s)" "ps_valid (sock p1 s)" "ps_listening (sock p1 s)" using assms(1,2) by (simp_all add: p1_def)
  then show ?thesis using finished_ends [of p1 s "\<lambda>p. p" e, folded q]
    by (simp add: p1_def list_peers_take m) (simp add: m_def n)
qed

text \<open>With a limit that is negative as a signed number no peer is listed.\<close>

lemma peer_list_huge_limit: "list_peers e (sint (0x80000000 :: 32 word)) 0 qs = []"
  by (simp add: list_peers_take)

subsection \<open>Sockets that are given back twice, closed or never given back\<close>

definition run_pool :: "node_env \<Rightarrow> pool_event list \<Rightarrow> conn_pool" where
  "run_pool e evs = fold (pool_step e (\<lambda>_ _. False)) evs new_pool"

text \<open>
  The peer ends a transaction of hashes before the client has all it expects: the socket is idle and is
  given to a request of a chunk.  Then the request of hashes is out of time: it gives back the socket
  of the other one, and a third request shares it.
\<close>

lemma request_frees_socket_of_another:
  "let p = run_pool example_env
     [Set_ip (Some (1, 2)), Ask Hashes_request 0, Start 0 (Get_hashes 5),
      Messages 0 [Get_hashes_result HR_OK 1, Hash_result 0 []],
      Ask Chunks_request 0, Start 1 (Get_chunks [([1], 0)]), Request_timeout 0 True, Ask Entries_request 0]
   in map rq_socket (cp_requests p) = [None, Some 0, Some 0]"
  by code_simp

text \<open>Before the queued \<open>closed\<close> is delivered a closed socket is given to a request, whose message is lost.\<close>

lemma closed_socket_is_given:
  "let p = run_pool example_env
     [Set_ip (Some (1, 2)), Ask Entries_request 0, Inactivity 0, Ask Hashes_request 0, Start 1 (Get_hashes 5), Deliver_closed]
   in map rq_socket (cp_requests p) = [Some 0, Some 0] \<and> ps_out (sock p 0) = [] \<and> cp_toPeer p = []"
  by code_simp

text \<open>A file without hashes to send: the answer is sent but neither side ends the transaction.\<close>

lemma no_hash_never_ends:
  "let e = example_env\<lparr>fm_hashes := (\<lambda>_. (HR_OK, 0))\<rparr>;
       p = fold (pool_step e (\<lambda>_ _. False)) [Peer_connects 0 [Get_hashes 5]] new_pool;
       q = run_pool example_env [Set_ip (Some (1, 2)), Ask Hashes_request 0, Start 0 (Get_hashes 5), Messages 0 (ps_out (sock p 0))]
   in ps_out (sock p 0) = [Get_hashes_result HR_OK 0] \<and> ps_active (sock p 0) \<and> ps_active (sock q 0)"
  by code_simp

text \<open>A result that comes after its time is out, when nothing is awaited any more, is sent as an empty answer.\<close>

lemma stray_result_is_answered:
  "let p = run_pool example_env
     [Peer_connects 0 [Get_entries [5] False], Entries_late 0 0, Entries_ready 0 0 \<lparr>er_status = ER_OK, er_entries = Some 3\<rparr>]
   in ps_out (sock p 0) = [Get_entries_result [\<lparr>er_status = ER_TIMEOUT_SCANNING_IN_PROGRESS, er_entries = None\<rparr>],
       Get_entries_result []]"
  by code_simp

text \<open>A hash that is not announced counts down an uninitialised number.\<close>

lemma hash_counts_garbage:
  "ps_active (sock (run_pool example_env [Peer_connects 1 [Hash_result 0 []]]) 0) \<noteq>
   ps_active (sock (run_pool example_env [Peer_connects 2 [Hash_result 0 []]]) 0)"
  by code_simp

text \<open>A request of a chunk that is given no socket dereferences it.\<close>

lemma null_socket_crash:
  "cp_crashed (run_pool example_env [Ask Chunks_request 0, Start 0 (Get_chunks [([1], 0)])])"
  by code_simp

end
