(* ===== verification/Peers.thy ===== *)
theory Peers
  imports Peer_Exchanges
begin

text \<open>
  \<open>Core/PeerManager/priv/Peer.cpp\<close>, \<open>PeerSelf.cpp\<close> and \<open>PeerManager.cpp\<close>: the life of a peer, its
  speed, the peers by identifier in the order of \<open>QMap\<close>, the signals about their availability and the
  incoming connections that wait for a first header.  Times are milliseconds; a timer is whether it runs.
\<close>

subsection \<open>A peer\<close>

record peer_state =
  pe_ID :: hash
  pe_IP :: "address option"
  pe_port :: "16 word"
  pe_nick :: qstring
  pe_coreVersion :: qstring
  pe_sharingAmount :: "64 word"
  pe_downloadRate :: "32 word"
  pe_uploadRate :: "32 word"
  pe_lanSpeed :: "32 word"
  pe_masterPeer :: bool
  pe_httpPort :: "32 word"
  pe_protocolVersion :: "32 word"
  pe_speed :: "32 word"
  pe_speedTimer :: "nat option"
  pe_alive :: bool
  pe_aliveTimer :: bool
  pe_blocked :: bool
  pe_blockedTimer :: bool
  pe_pool :: conn_pool

definition MAX_SPEED :: "32 word" where
  "MAX_SPEED = - 1"

definition PROTOCOL_VERSION :: "32 word" where
  "PROTOCOL_VERSION = 4"

text \<open>The rates and the speed of the link are not initialised; nothing reads them before \<open>update\<close>.\<close>

definition new_peer :: "hash \<Rightarrow> qstring \<Rightarrow> peer_state" where
  "new_peer i nick =
     \<lparr>pe_ID = i, pe_IP = None, pe_port = 0, pe_nick = nick, pe_coreVersion = [], pe_sharingAmount = 0,
      pe_downloadRate = 0, pe_uploadRate = 0, pe_lanSpeed = 0, pe_masterPeer = False, pe_httpPort = 0,
      pe_protocolVersion = 0, pe_speed = MAX_SPEED, pe_speedTimer = None, pe_alive = False, pe_aliveTimer = False,
      pe_blocked = False, pe_blockedTimer = False, pe_pool = new_pool\<rparr>"

text \<open>\<open>PeerSelf\<close>: alive at once, at the local address.\<close>

definition new_self :: "hash \<Rightarrow> qstring \<Rightarrow> address \<Rightarrow> 16 word \<Rightarrow> peer_state" where
  "new_self i nick localHost port =
     (new_peer i nick)\<lparr>pe_IP := Some localHost, pe_port := port, pe_alive := True,
       pe_protocolVersion := PROTOCOL_VERSION, pe_pool := setIP (Some (localHost, port)) new_pool\<rparr>"

definition PEER_MAX_NICK_LENGTH :: nat where
  "PEER_MAX_NICK_LENGTH = 255"

definition setNick :: "qstring \<Rightarrow> peer_state \<Rightarrow> peer_state" where
  "setNick nick p = p\<lparr>pe_nick := (if length nick > PEER_MAX_NICK_LENGTH then take PEER_MAX_NICK_LENGTH nick else nick)\<rparr>"

definition isVersionCompatible :: "peer_state \<Rightarrow> bool" where
  "isVersionCompatible p \<longleftrightarrow> pe_protocolVersion p = PROTOCOL_VERSION"

definition isAvailable :: "peer_state \<Rightarrow> bool" where
  "isAvailable p \<longleftrightarrow> pe_alive p \<and> \<not> pe_blocked p \<and> isVersionCompatible p"

text \<open>\<open>getSpeed\<close>; \<open>None\<close> is the division by zero.\<close>

definition speed_validity_period :: "32 word \<Rightarrow> 32 word \<Rightarrow> 32 word option" where
  "speed_validity_period factor lan_speed =
     (let d = lan_speed div 1024 div 1024 in if d = 0 then None else Some (1000 * factor div d))"

definition getSpeed :: "32 word \<Rightarrow> nat \<Rightarrow> peer_state \<Rightarrow> 32 word \<times> peer_state" where
  "getSpeed validity now p =
     (let p = (case pe_speedTimer p of
                 None \<Rightarrow> p
               | Some t \<Rightarrow> if now - t > unat validity then p\<lparr>pe_speed := MAX_SPEED\<rparr> else p)
      in (pe_speed p, p))"

definition setSpeed :: "nat \<Rightarrow> 32 word \<Rightarrow> peer_state \<Rightarrow> peer_state" where
  "setSpeed now newSpeed p =
     p\<lparr>pe_speedTimer := Some now,
       pe_speed := (if pe_speed p = MAX_SPEED then newSpeed else (pe_speed p + newSpeed) div 2)\<rparr>"

definition block_peer :: "peer_state \<Rightarrow> peer_state" where
  "block_peer p = p\<lparr>pe_blocked := True, pe_blockedTimer := True\<rparr>"

record alive_info =
  ai_IP :: "address option"
  ai_port :: "16 word"
  ai_nick :: qstring
  ai_amount :: "64 word"
  ai_coreVersion :: qstring
  ai_downloadRate :: "32 word"
  ai_uploadRate :: "32 word"
  ai_version :: "32 word"
  ai_lanSpeed :: "32 word"
  ai_isMaster :: bool
  ai_httpPort :: "32 word"

definition update :: "alive_info \<Rightarrow> peer_state \<Rightarrow> peer_state" where
  "update a p =
     p\<lparr>pe_alive := True, pe_aliveTimer := True, pe_IP := ai_IP a, pe_port := ai_port a, pe_nick := ai_nick a,
       pe_coreVersion := ai_coreVersion a, pe_sharingAmount := ai_amount a, pe_downloadRate := ai_downloadRate a,
       pe_uploadRate := ai_uploadRate a, pe_lanSpeed := ai_lanSpeed a, pe_masterPeer := ai_isMaster a,
       pe_httpPort := ai_httpPort a, pe_protocolVersion := ai_version a,
       pe_pool := setIP (map_option (\<lambda>ip. (ip, ai_port a)) (ai_IP a)) (pe_pool p)\<rparr>"

text \<open>\<open>consideredDead\<close> and \<open>unblock\<close> with whether they emit their signal.\<close>

definition consideredDead :: "peer_state \<Rightarrow> bool \<times> peer_state" where
  "consideredDead p = (pe_alive p, p\<lparr>pe_pool := closeAllSocket (pe_pool p), pe_alive := False\<rparr>)"

definition setAsDead :: "peer_state \<Rightarrow> bool \<times> peer_state" where
  "setAsDead p = consideredDead (p\<lparr>pe_aliveTimer := False\<rparr>)"

definition unblock :: "peer_state \<Rightarrow> peer_state" where
  "unblock p = p\<lparr>pe_blocked := False\<rparr>"

text \<open>\<open>getEntries\<close>, \<open>getHashes\<close> and \<open>getChunks\<close>: a request, if the peer is available.\<close>

definition peer_request :: "node_env \<Rightarrow> client \<Rightarrow> request_kind \<Rightarrow> 32 word \<Rightarrow> peer_state \<Rightarrow> nat option \<times> peer_state" where
  "peer_request e drops k garbage p =
     (if \<not> isAvailable p then (None, p)
      else (Some (length (cp_requests (pe_pool p))), p\<lparr>pe_pool := make_request e drops k garbage (pe_pool p)\<rparr>))"

subsection \<open>The peers\<close>

datatype peer_signal = Becomes_available hash | Becomes_unavailable hash

record peer_manager =
  pm_self :: peer_state
  pm_peers :: "(hash \<times> peer_state) list"
  pm_pending :: "(nat \<times> nat) list"
  pm_timer :: bool
  pm_signals :: "peer_signal list"
  pm_deleted :: "nat list"

definition new_manager :: "peer_state \<Rightarrow> peer_manager" where
  "new_manager self = \<lparr>pm_self = self, pm_peers = [], pm_pending = [], pm_timer = False, pm_signals = [], pm_deleted = []\<rparr>"

text \<open>\<open>QMap::insert\<close>: in the order of the keys, in place of a value with the same key.\<close>

fun qmap_insert :: "hash \<Rightarrow> 'v \<Rightarrow> (hash \<times> 'v) list \<Rightarrow> (hash \<times> 'v) list" where
  "qmap_insert k v [] = [(k, v)]"
| "qmap_insert k v ((k', v') # m) =
     (if k = k' then (k, v) # m else if hash_less k k' then (k, v) # (k', v') # m else (k', v') # qmap_insert k v m)"

definition getNbOfPeers :: "peer_manager \<Rightarrow> nat" where
  "getNbOfPeers m = fold (\<lambda>(_, p) n. if pe_alive p then n + 1 else n) (pm_peers m) 0"

definition getPeers :: "peer_manager \<Rightarrow> hash list" where
  "getPeers m = fold (\<lambda>(i, p) l. if pe_alive p then l @ [i] else l) (pm_peers m) []"

datatype peer_ref = Self_peer | Other_peer hash

definition getPeer :: "hash \<Rightarrow> peer_manager \<Rightarrow> peer_ref option" where
  "getPeer i m =
     (if hash_isNull i then None
      else if pe_ID (pm_self m) = i then Some Self_peer
      else if i \<in> fst ` set (pm_peers m) then Some (Other_peer i)
      else None)"

definition createPeer :: "hash \<Rightarrow> qstring \<Rightarrow> peer_manager \<Rightarrow> peer_ref \<times> peer_manager" where
  "createPeer i nick m =
     (case getPeer i m of
        Some r \<Rightarrow> (r, m)
      | None \<Rightarrow> (Other_peer i, m\<lparr>pm_peers := qmap_insert i (new_peer i nick) (pm_peers m)\<rparr>))"

text \<open>A change of the peer \<open>i\<close> in place.\<close>

definition on_peer :: "hash \<Rightarrow> (peer_state \<Rightarrow> peer_state) \<Rightarrow> peer_manager \<Rightarrow> peer_manager" where
  "on_peer i f m = m\<lparr>pm_peers := map (\<lambda>(j, p). (j, if j = i then f p else p)) (pm_peers m)\<rparr>"

definition peer_at :: "hash \<Rightarrow> peer_manager \<Rightarrow> peer_state" where
  "peer_at i m = the (map_of (pm_peers m) i)"

definition emit :: "peer_signal \<Rightarrow> peer_manager \<Rightarrow> peer_manager" where
  "emit sig m = m\<lparr>pm_signals := pm_signals m @ [sig]\<rparr>"

definition updatePeer :: "hash \<Rightarrow> alive_info \<Rightarrow> peer_manager \<Rightarrow> peer_manager" where
  "updatePeer i a m =
     (if hash_isNull i \<or> i = pe_ID (pm_self m) then m
      else (let m = (if getPeer i m = None then m\<lparr>pm_peers := qmap_insert i (new_peer i []) (pm_peers m)\<rparr> else m);
                wasDead = (\<not> pe_alive (peer_at i m));
                m = on_peer i (update a) m
            in if wasDead \<and> isAvailable (peer_at i m) then emit (Becomes_available i) m else m))"

text \<open>\<open>consideredDead\<close> with the slot \<open>peerBecameDead\<close>, and \<open>unblock\<close> with \<open>peerUnblocked\<close>.\<close>

definition dead_peer :: "hash \<Rightarrow> (peer_state \<Rightarrow> bool \<times> peer_state) \<Rightarrow> peer_manager \<Rightarrow> peer_manager" where
  "dead_peer i f m =
     (let wasAlive = fst (f (peer_at i m)); m = on_peer i (\<lambda>p. snd (f p)) m
      in if wasAlive then emit (Becomes_unavailable i) m else m)"

definition peer_unblocks :: "hash \<Rightarrow> peer_manager \<Rightarrow> peer_manager" where
  "peer_unblocks i m =
     (let m = on_peer i unblock m
      in if isAvailable (peer_at i m) then emit (Becomes_available i) m else m)"

definition removePeer :: "hash \<Rightarrow> address option \<Rightarrow> peer_manager \<Rightarrow> peer_manager" where
  "removePeer i ip m =
     (if hash_isNull i \<or> i = pe_ID (pm_self m) then m
      else if getPeer i m \<noteq> None \<and> ip = pe_IP (peer_at i m) then dead_peer i setAsDead m else m)"

definition removeAllPeers :: "peer_manager \<Rightarrow> peer_manager" where
  "removeAllPeers m = fold (\<lambda>i. dead_peer i setAsDead) (map fst (pm_peers m)) m"

subsection \<open>Incoming connections\<close>

definition removeFromPending :: "nat \<Rightarrow> peer_manager \<Rightarrow> peer_manager" where
  "removeFromPending s m =
     (let l = (case find (\<lambda>(t, _). t = s) (pm_pending m) of None \<Rightarrow> pm_pending m | Some x \<Rightarrow> remove1 x (pm_pending m))
      in m\<lparr>pm_pending := l, pm_timer := (if l = [] then False else pm_timer m)\<rparr>)"

definition pending_disconnected :: "nat \<Rightarrow> peer_manager \<Rightarrow> peer_manager" where
  "pending_disconnected s m =
     (let m = removeFromPending s m in m\<lparr>pm_deleted := pm_deleted m @ [s]\<rparr>)"

text \<open>\<open>sender\<close> is the identifier of the first header when there are enough bytes for it.\<close>

definition give_socket ::
  "node_env \<Rightarrow> client \<Rightarrow> 32 word \<Rightarrow> core_msg list \<Rightarrow> peer_ref \<Rightarrow> peer_manager \<Rightarrow> peer_manager" where
  "give_socket e drops garbage msgs r m =
     (let f = (\<lambda>p. p\<lparr>pe_pool := newConnexion e drops garbage msgs (pe_pool p)\<rparr>)
      in case r of Self_peer \<Rightarrow> m\<lparr>pm_self := f (pm_self m)\<rparr> | Other_peer i \<Rightarrow> on_peer i f m)"

definition pending_dataReceived ::
  "node_env \<Rightarrow> client \<Rightarrow> 32 word \<Rightarrow> nat \<Rightarrow> hash option \<Rightarrow> core_msg list \<Rightarrow> peer_manager \<Rightarrow> peer_manager" where
  "pending_dataReceived e drops garbage s sender msgs m =
     (case sender of
        None \<Rightarrow> m
      | Some i \<Rightarrow>
          (let r = getPeer i m; m = removeFromPending s m
           in case r of
                Some r \<Rightarrow> give_socket e drops garbage msgs r m
              | None \<Rightarrow> pending_disconnected s m))"

definition newConnection ::
  "node_env \<Rightarrow> client \<Rightarrow> 32 word \<Rightarrow> nat \<Rightarrow> bool \<Rightarrow> nat \<Rightarrow> hash option \<Rightarrow> core_msg list \<Rightarrow> peer_manager \<Rightarrow> peer_manager" where
  "newConnection e drops garbage s valid now sender msgs m =
     (if \<not> valid then m\<lparr>pm_deleted := pm_deleted m @ [s]\<rparr>
      else pending_dataReceived e drops garbage s sender msgs
             (m\<lparr>pm_timer := True, pm_pending := pm_pending m @ [(s, now)]\<rparr>))"

definition checkIdlePendingSockets :: "nat \<Rightarrow> nat \<Rightarrow> peer_manager \<Rightarrow> peer_manager" where
  "checkIdlePendingSockets timeout now m =
     (let late = (\<lambda>(s, t). now - t > timeout); l = filter (\<lambda>x. \<not> late x) (pm_pending m)
      in m\<lparr>pm_pending := l, pm_deleted := pm_deleted m @ map fst (filter late (pm_pending m)),
           pm_timer := (if l = [] then False else pm_timer m)\<rparr>)"

subsection \<open>Events\<close>

datatype manager_event =
    IMAlive hash alive_info
  | Goodbye hash "address option"
  | All_dead
  | Silence hash
  | Blocked hash
  | Block_ends hash
  | Created hash qstring
  | Requested hash request_kind "32 word"
  | Socket_event hash pool_event
  | Measured hash nat "32 word"
  | Connected "32 word" nat bool nat "hash option" "core_msg list"
  | First_data "32 word" nat "hash option" "core_msg list"
  | Pending_closed nat
  | Check_pending nat

definition manager_step :: "node_env \<Rightarrow> client \<Rightarrow> nat \<Rightarrow> manager_event \<Rightarrow> peer_manager \<Rightarrow> peer_manager" where
  "manager_step e drops timeout ev m =
     (case ev of
        IMAlive i a \<Rightarrow> updatePeer i a m
      | Goodbye i ip \<Rightarrow> removePeer i ip m
      | All_dead \<Rightarrow> removeAllPeers m
      | Silence i \<Rightarrow> if i \<in> fst ` set (pm_peers m) \<and> pe_aliveTimer (peer_at i m)
                   then dead_peer i (\<lambda>p. consideredDead (p\<lparr>pe_aliveTimer := False\<rparr>)) m else m
      | Blocked i \<Rightarrow> on_peer i block_peer m
      | Block_ends i \<Rightarrow> if i \<in> fst ` set (pm_peers m) \<and> pe_blockedTimer (peer_at i m)
                      then peer_unblocks i (on_peer i (\<lambda>p. p\<lparr>pe_blockedTimer := False\<rparr>) m) else m
      | Created i nick \<Rightarrow> snd (createPeer i nick m)
      | Requested i k garbage \<Rightarrow> on_peer i (\<lambda>p. snd (peer_request e drops k garbage p)) m
      | Socket_event i pev \<Rightarrow> on_peer i (\<lambda>p. p\<lparr>pe_pool := pool_step e drops pev (pe_pool p)\<rparr>) m
      | Measured i now v \<Rightarrow> on_peer i (setSpeed now v) m
      | Connected garbage s valid now sender msgs \<Rightarrow> newConnection e drops garbage s valid now sender msgs m
      | First_data garbage s sender msgs \<Rightarrow>
          if s \<in> fst ` set (pm_pending m) then pending_dataReceived e drops garbage s sender msgs m else m
      | Pending_closed s \<Rightarrow> if s \<in> fst ` set (pm_pending m) then pending_disconnected s m else m
      | Check_pending now \<Rightarrow> if pm_timer m then checkIdlePendingSockets timeout now m else m)"

text \<open>
  What a listener of the signals believes; and the events where no peer changes the version of its
  protocol while it is alive and none is created with the null identifier.
\<close>

definition announced :: "hash \<Rightarrow> peer_signal list \<Rightarrow> bool" where
  "announced i l = fold (\<lambda>s b. case s of Becomes_available j \<Rightarrow> j = i \<or> b | Becomes_unavailable j \<Rightarrow> j \<noteq> i \<and> b) l False"

definition steady :: "manager_event \<Rightarrow> peer_manager \<Rightarrow> bool" where
  "steady ev m \<longleftrightarrow> (case ev of
     IMAlive i a \<Rightarrow> i \<in> fst ` set (pm_peers m) \<and> pe_alive (peer_at i m) \<longrightarrow>
       (ai_version a = PROTOCOL_VERSION \<longleftrightarrow> isVersionCompatible (peer_at i m))
   | Created i nick \<Rightarrow> \<not> hash_isNull i
   | _ \<Rightarrow> True)"

inductive manager_reachable :: "node_env \<Rightarrow> peer_state \<Rightarrow> peer_manager \<Rightarrow> bool" for e self where
  start: "manager_reachable e self (new_manager self)"
| step: "manager_reachable e self m \<Longrightarrow> steady ev m \<Longrightarrow> manager_reachable e self (manager_step e drops timeout ev m)"

lemma announced_append [simp]:
  "announced i (l @ [Becomes_available j]) = (j = i \<or> announced i l)"
  "announced i (l @ [Becomes_unavailable j]) = (j \<noteq> i \<and> announced i l)"
  "\<not> announced i []"
  by (simp_all add: announced_def)

subsection \<open>The invariant\<close>

definition peer_fine :: "node_env \<Rightarrow> peer_signal list \<Rightarrow> hash \<Rightarrow> peer_state \<Rightarrow> bool" where
  "peer_fine e l i p \<longleftrightarrow> (isAvailable p \<longrightarrow> announced i l) \<and> (\<not> pe_alive p \<longrightarrow> \<not> announced i l) \<and> pool_reachable e (pe_pool p)"

definition manager_ok :: "node_env \<Rightarrow> peer_manager \<Rightarrow> bool" where
  "manager_ok e m \<longleftrightarrow> distinct (map fst (pm_peers m)) \<and> (\<forall>i p. (i, p) \<in> set (pm_peers m) \<longrightarrow> peer_fine e (pm_signals m) i p) \<and>
     (\<forall>i. i \<notin> fst ` set (pm_peers m) \<longrightarrow> \<not> announced i (pm_signals m)) \<and> (pm_timer m \<longleftrightarrow> pm_pending m \<noteq> []) \<and>
     pool_reachable e (pe_pool (pm_self m))"

lemma on_peer_keys [simp]: "map fst (pm_peers (on_peer i f m)) = map fst (pm_peers m)"
  "fst ` set (pm_peers (on_peer i f m)) = fst ` set (pm_peers m)"
  by (auto simp: on_peer_def comp_def case_prod_beta image_image)

lemma on_peer_fields [simp]:
  "pm_self (on_peer i f m) = pm_self m" "pm_pending (on_peer i f m) = pm_pending m" "pm_timer (on_peer i f m) = pm_timer m"
  "pm_signals (on_peer i f m) = pm_signals m"
  by (simp_all add: on_peer_def)

lemma in_on_peer: "(j, q) \<in> set (pm_peers (on_peer i f m)) \<longleftrightarrow> (\<exists>p. (j, p) \<in> set (pm_peers m) \<and> q = (if j = i then f p else p))"
proof
  assume "\<exists>p. (j, p) \<in> set (pm_peers m) \<and> q = (if j = i then f p else p)"
  then obtain p where p: "(j, p) \<in> set (pm_peers m)" "(case (j, p) of (j, p) \<Rightarrow> (j, if j = i then f p else p)) = (j, q)"
    by auto
  have "(j, q) \<in> set (map (\<lambda>(j, p). (j, if j = i then f p else p)) (pm_peers m))"
    unfolding set_map by (rule image_eqI [where x = "(j, p)"]) (use p in simp_all)
  then show "(j, q) \<in> set (pm_peers (on_peer i f m))" unfolding on_peer_def by (simp del: set_map)
qed (auto simp: on_peer_def)

lemma on_peer_absent: "i \<notin> fst ` set (pm_peers m) \<Longrightarrow> on_peer i f m = m"
proof -
  assume a: "i \<notin> fst ` set (pm_peers m)"
  have "map (\<lambda>(j, p). (j, if j = i then f p else p)) l = l" if "i \<notin> fst ` set l" for l
    using that by (induction l) auto
  with a show ?thesis by (simp add: on_peer_def)
qed

lemma peer_at_in: "distinct (map fst (pm_peers m)) \<Longrightarrow> (i, p) \<in> set (pm_peers m) \<Longrightarrow> peer_at i m = p"
  by (simp add: peer_at_def)

lemma peer_at_on_peer:
  assumes "i \<in> fst ` set (pm_peers m)" shows "peer_at i (on_peer i f m) = f (peer_at i m)"
proof -
  have "map_of (map (\<lambda>(j, p). (j, if j = i then f p else p)) l) i = map_option f (map_of l i)" for l
    by (induction l) auto
  moreover obtain p where "map_of (pm_peers m) i = Some p" using assms by (metis domD dom_map_of_conv_image_fst)
  ultimately show ?thesis by (simp add: peer_at_def on_peer_def)
qed

text \<open>An operation on one peer, with signals about it.\<close>

lemma manager_ok_on_peer:
  assumes "manager_ok e m" "i \<in> fst ` set (pm_peers m)"
    and "\<And>j. j \<noteq> i \<Longrightarrow> announced j l = announced j (pm_signals m)"
    and "peer_fine e (pm_signals m) i (peer_at i m) \<Longrightarrow> peer_fine e l i (f (peer_at i m))"
  shows "manager_ok e ((on_peer i f m)\<lparr>pm_signals := l\<rparr>)"
proof -
  let ?m = "(on_peer i f m)\<lparr>pm_signals := l\<rparr>"
  have d: "distinct (map fst (pm_peers m))" using assms(1) by (simp add: manager_ok_def)
  have "peer_fine e l j q" if jq: "(j, q) \<in> set (pm_peers (on_peer i f m))" for j q
  proof -
    obtain p where p: "(j, p) \<in> set (pm_peers m)" "q = (if j = i then f p else p)" using jq unfolding in_on_peer by blast
    have fine: "peer_fine e (pm_signals m) j p" using assms(1) p(1) by (auto simp: manager_ok_def)
    show ?thesis
    proof (cases "j = i")
      case True
      then show ?thesis using p fine assms(4) peer_at_in [OF d] by simp
    next
      case False
      then show ?thesis using p(2) fine assms(3) by (simp add: peer_fine_def)
    qed
  qed
  moreover have "\<not> announced j l" if "j \<notin> fst ` set (pm_peers m)" for j
    using that assms(1-3) unfolding manager_ok_def by (cases "j = i") auto
  ultimately show ?thesis using assms(1) unfolding manager_ok_def by simp
qed

lemma manager_ok_quiet:
  assumes "manager_ok e m"
    and "\<And>p. isAvailable (f p) \<Longrightarrow> isAvailable p" "\<And>p. pe_alive (f p) = pe_alive p"
    and "\<And>p. pool_reachable e (pe_pool p) \<Longrightarrow> pool_reachable e (pe_pool (f p))"
  shows "manager_ok e (on_peer i f m)"
proof (cases "i \<in> fst ` set (pm_peers m)")
  case True
  have "manager_ok e ((on_peer i f m)\<lparr>pm_signals := pm_signals m\<rparr>)"
    by (rule manager_ok_on_peer [OF assms(1) True]) (use assms(2-4) in \<open>auto simp: peer_fine_def\<close>)
  moreover have "(on_peer i f m)\<lparr>pm_signals := pm_signals m\<rparr> = on_peer i f m" by (simp add: on_peer_def)
  ultimately show ?thesis by simp
qed (simp add: on_peer_absent assms(1))

lemma peer_fine_emit:
  assumes "manager_ok e m" "i \<in> fst ` set (pm_peers m)"
  shows "peer_fine e (pm_signals m) i (peer_at i m)"
proof -
  obtain p where p: "(i, p) \<in> set (pm_peers m)" using assms(2) by force
  then show ?thesis using assms(1) peer_at_in [of m i p] by (auto simp: manager_ok_def)
qed

lemma emit_on_peer: "emit sig (on_peer i f m) = (on_peer i f m)\<lparr>pm_signals := pm_signals m @ [sig]\<rparr>"
  by (simp add: emit_def)

lemma qmap_insert_keys: "fst ` set (qmap_insert k v m) = insert k (fst ` set m)"
  by (induction k v m rule: qmap_insert.induct) auto

lemma qmap_insert_in: "(j, q) \<in> set (qmap_insert k v m) \<Longrightarrow> (j, q) = (k, v) \<or> (j, q) \<in> set m"
  by (induction m) (auto split: if_splits)

lemma qmap_insert_distinct: "distinct (map fst m) \<Longrightarrow> k \<notin> fst ` set m \<Longrightarrow> distinct (map fst (qmap_insert k v m))"
  by (induction m) (auto simp: qmap_insert_keys)

lemma qmap_insert_map: "map_of (qmap_insert k v m) = (map_of m)(k \<mapsto> v)"
  by (induction m) auto

lemma manager_ok_insert:
  assumes "manager_ok e m" "i \<notin> fst ` set (pm_peers m)"
  shows "manager_ok e (m\<lparr>pm_peers := qmap_insert i (new_peer i nick) (pm_peers m)\<rparr>)"
proof -
  have new: "peer_fine e (pm_signals m) i (new_peer i nick)"
    using assms by (simp add: peer_fine_def new_peer_def isAvailable_def manager_ok_def pool_reachable.start)
  show ?thesis using assms new qmap_insert_distinct
    by (auto simp: manager_ok_def qmap_insert_keys dest!: qmap_insert_in)
qed

lemma getPeer_None: "getPeer i m = None \<Longrightarrow> \<not> hash_isNull i \<Longrightarrow> i \<notin> fst ` set (pm_peers m)"
  by (simp add: getPeer_def split: if_splits)

lemma manager_ok_updatePeer:
  assumes "manager_ok e m" "steady (IMAlive i a) m"
  shows "manager_ok e (updatePeer i a m)"
proof (cases "hash_isNull i \<or> i = pe_ID (pm_self m)")
  case False
  define m1 where "m1 = (if getPeer i m = None then m\<lparr>pm_peers := qmap_insert i (new_peer i []) (pm_peers m)\<rparr> else m)"
  define p where "p = peer_at i m1"
  have ok: "manager_ok e m1" using assms(1) False getPeer_None manager_ok_insert by (simp add: m1_def)
  have i: "i \<in> fst ` set (pm_peers m1)" using False by (auto simp: m1_def qmap_insert_keys getPeer_def split: if_splits)
  have st: "ai_version a = PROTOCOL_VERSION \<longleftrightarrow> isVersionCompatible p" if "pe_alive p"
  proof (cases "getPeer i m = None")
    case True
    then show ?thesis using that by (simp add: p_def m1_def peer_at_def qmap_insert_map new_peer_def)
  next
    case n: False
    then have "m1 = m" unfolding m1_def by (rule if_not_P)
    then show ?thesis using that assms(2) i by (simp add: p_def steady_def)
  qed
  have pool: "pool_reachable e (pe_pool (update a p))" if "pool_reachable e (pe_pool p)"
    using pool_reachable.step [OF that, of "\<lambda>_ _. False" "Set_ip (map_option (\<lambda>ip. (ip, ai_port a)) (ai_IP a))"]
    by (simp add: update_def pool_step_def)
  have al: "pe_alive (update a p)" by (simp add: update_def)
  have u: "updatePeer i a m = (let m2 = on_peer i (update a) m1
      in if \<not> pe_alive p \<and> isAvailable (update a p) then emit (Becomes_available i) m2 else m2)"
    using False by (simp add: updatePeer_def m1_def [symmetric] p_def peer_at_on_peer [OF i] Let_def)
  show ?thesis
  proof (cases "\<not> pe_alive p \<and> isAvailable (update a p)")
    case True
    have "manager_ok e ((on_peer i (update a) m1)\<lparr>pm_signals := pm_signals m1 @ [Becomes_available i]\<rparr>)"
      by (rule manager_ok_on_peer [OF ok i]) (use pool al in \<open>auto simp: peer_fine_def p_def\<close>)
    then show ?thesis unfolding u Let_def emit_on_peer using True by simp
  next
    case no: False
    have av: "isAvailable p" if "isAvailable (update a p)"
      using that no st by (auto simp: isAvailable_def update_def isVersionCompatible_def)
    have "manager_ok e ((on_peer i (update a) m1)\<lparr>pm_signals := pm_signals m1\<rparr>)"
      by (rule manager_ok_on_peer [OF ok i]) (use pool al av in \<open>auto simp: peer_fine_def p_def\<close>)
    moreover have "updatePeer i a m = (on_peer i (update a) m1)\<lparr>pm_signals := pm_signals m1\<rparr>"
      unfolding u Let_def by (simp only: no if_False) (simp add: on_peer_def)
    ultimately show ?thesis by simp
  qed
qed (simp add: updatePeer_def assms(1))

lemma manager_ok_dead:
  assumes "manager_ok e m" "i \<in> fst ` set (pm_peers m)"
    and f: "f = setAsDead \<or> f = (\<lambda>p. consideredDead (p\<lparr>pe_aliveTimer := False\<rparr>))"
  shows "manager_ok e (dead_peer i f m)"
proof -
  let ?p = "peer_at i m"
  have d: "fst (f p) = pe_alive p" "pe_alive (snd (f p)) = False" "pe_pool (snd (f p)) = closeAllSocket (pe_pool p)" for p
    using f by (auto simp: setAsDead_def consideredDead_def)
  have pool: "pool_reachable e (closeAllSocket q)" if "pool_reachable e q" for q
    using pool_reachable.step [OF that, of "\<lambda>_ _. False" Close_all] by (simp add: pool_step_def)
  have fine: "peer_fine e (pm_signals m) i ?p" by (rule peer_fine_emit [OF assms(1,2)])
  show ?thesis
  proof (cases "pe_alive ?p")
    case True
    have "manager_ok e ((on_peer i (\<lambda>p. snd (f p)) m)\<lparr>pm_signals := pm_signals m @ [Becomes_unavailable i]\<rparr>)"
      by (rule manager_ok_on_peer [OF assms(1,2)]) (use pool fine in \<open>auto simp: peer_fine_def isAvailable_def d\<close>)
    then show ?thesis using True by (simp add: dead_peer_def d emit_on_peer Let_def)
  next
    case False
    have "manager_ok e ((on_peer i (\<lambda>p. snd (f p)) m)\<lparr>pm_signals := pm_signals m\<rparr>)"
      by (rule manager_ok_on_peer [OF assms(1,2)]) (use pool fine False in \<open>auto simp: peer_fine_def isAvailable_def d\<close>)
    then show ?thesis using False by (simp add: dead_peer_def d Let_def on_peer_def)
  qed
qed

lemma manager_ok_unblocks:
  assumes "manager_ok e m" "i \<in> fst ` set (pm_peers m)"
  shows "manager_ok e (peer_unblocks i m)"
proof -
  let ?p = "peer_at i m"
  have fine: "peer_fine e (pm_signals m) i ?p" by (rule peer_fine_emit [OF assms])
  have u: "pe_alive (unblock p) = pe_alive p" "pe_pool (unblock p) = pe_pool p" for p by (simp_all add: unblock_def)
  show ?thesis
  proof (cases "isAvailable (unblock ?p)")
    case True
    have "manager_ok e ((on_peer i unblock m)\<lparr>pm_signals := pm_signals m @ [Becomes_available i]\<rparr>)"
      by (rule manager_ok_on_peer [OF assms]) (use fine True in \<open>auto simp: peer_fine_def u isAvailable_def\<close>)
    then show ?thesis using True by (simp add: peer_unblocks_def emit_on_peer Let_def peer_at_on_peer assms(2))
  next
    case False
    have "manager_ok e ((on_peer i unblock m)\<lparr>pm_signals := pm_signals m\<rparr>)"
      by (rule manager_ok_on_peer [OF assms]) (use fine False in \<open>auto simp: peer_fine_def u\<close>)
    then show ?thesis using False by (simp add: peer_unblocks_def Let_def peer_at_on_peer assms(2)) (simp add: on_peer_def)
  qed
qed

lemma manager_ok_pending:
  assumes "manager_ok e m" "pm_peers m' = pm_peers m" "pm_signals m' = pm_signals m" "pm_self m' = pm_self m"
    "pm_timer m' \<longleftrightarrow> pm_pending m' \<noteq> []"
  shows "manager_ok e m'"
  using assms by (simp add: manager_ok_def)

lemma removeFromPending_ok: "pm_timer m \<Longrightarrow> pm_timer (removeFromPending s m) \<longleftrightarrow> pm_pending (removeFromPending s m) \<noteq> []"
  by (simp add: removeFromPending_def Let_def)

lemma removeFromPending_fields [simp]:
  "pm_peers (removeFromPending s m) = pm_peers m" "pm_signals (removeFromPending s m) = pm_signals m"
  "pm_self (removeFromPending s m) = pm_self m"
  by (simp_all add: removeFromPending_def Let_def)

lemma manager_ok_give_socket:
  assumes "manager_ok e m" shows "manager_ok e (give_socket e drops g msgs r m)"
proof -
  have pool: "pool_reachable e (newConnexion e drops g msgs q)" if "pool_reachable e q" for q
    using pool_reachable.step [OF that, of drops "Peer_connects g msgs"] by (simp add: pool_step_def)
  show ?thesis
  proof (cases r)
    case Self_peer
    then show ?thesis using assms pool by (simp add: give_socket_def manager_ok_def)
  next
    case (Other_peer i)
    then show ?thesis using pool
      by (auto simp: give_socket_def isAvailable_def isVersionCompatible_def intro!: manager_ok_quiet [OF assms])
  qed
qed

lemma manager_ok_dataReceived:
  assumes "manager_ok e m" "pm_timer m"
  shows "manager_ok e (pending_dataReceived e drops g s sender msgs m)"
proof -
  have r: "manager_ok e (removeFromPending s m)"
    by (rule manager_ok_pending [OF assms(1)]) (simp_all add: removeFromPending_ok assms(2))
  have t: "pm_timer (removeFromPending s (removeFromPending s m)) \<longleftrightarrow> pm_pending (removeFromPending s (removeFromPending s m)) \<noteq> []"
    using assms(2) by (auto simp: removeFromPending_def Let_def split: option.split)
  have "manager_ok e (pending_disconnected s (removeFromPending s m))"
    by (rule manager_ok_pending [OF assms(1)]) (use t in \<open>simp_all add: pending_disconnected_def Let_def\<close>)
  then show ?thesis using r assms(1) by (auto simp: pending_dataReceived_def Let_def intro: manager_ok_give_socket split: option.split)
qed

lemma pending_timer: "manager_ok e m \<Longrightarrow> s \<in> fst ` set (pm_pending m) \<Longrightarrow> pm_timer m"
  by (auto simp: manager_ok_def)

lemma manager_ok_all_dead:
  "manager_ok e m \<Longrightarrow> set is \<subseteq> fst ` set (pm_peers m) \<Longrightarrow> manager_ok e (fold (\<lambda>i. dead_peer i setAsDead) is m)"
proof (induction "is" arbitrary: m)
  case (Cons i "is")
  have "fst ` set (pm_peers (dead_peer i setAsDead m)) = fst ` set (pm_peers m)"
    by (simp add: dead_peer_def Let_def emit_on_peer)
  then show ?case using Cons manager_ok_dead [of e m i setAsDead] by auto
qed simp

lemma manager_step_ok:
  assumes ok: "manager_ok e m" and "steady ev m"
  shows "manager_ok e (manager_step e drops timeout ev m)"
proof (cases ev)
  case (IMAlive i a)
  then show ?thesis using manager_ok_updatePeer [OF ok] assms(2) by (simp add: manager_step_def)
next
  case (Goodbye i ip)
  then show ?thesis using ok manager_ok_dead
    by (auto simp: manager_step_def removePeer_def getPeer_def split: if_splits)
next
  case All_dead
  then show ?thesis using manager_ok_all_dead [OF ok] by (simp add: manager_step_def removeAllPeers_def)
next
  case (Silence i)
  then show ?thesis using ok manager_ok_dead by (simp add: manager_step_def)
next
  case (Blocked i)
  then show ?thesis
    by (auto simp: manager_step_def block_peer_def isAvailable_def intro!: manager_ok_quiet [OF ok])
next
  case (Block_ends i)
  have "manager_ok e (on_peer i (\<lambda>p. p\<lparr>pe_blockedTimer := False\<rparr>) m)"
    by (auto simp: isAvailable_def isVersionCompatible_def intro!: manager_ok_quiet [OF ok])
  then show ?thesis using Block_ends ok manager_ok_unblocks by (simp add: manager_step_def)
next
  case (Created i nick)
  then show ?thesis using ok manager_ok_insert [OF ok getPeer_None] assms(2)
    by (auto simp: manager_step_def createPeer_def steady_def split: option.split)
next
  case (Requested i k g)
  have "pool_reachable e (make_request e drops k g q)" if "pool_reachable e q" for q
    using pool_reachable.step [OF that, of drops "Ask k g"] by (simp add: pool_step_def)
  then show ?thesis
    using Requested by (auto simp: manager_step_def peer_request_def isAvailable_def isVersionCompatible_def split: if_splits
        intro!: manager_ok_quiet [OF ok])
next
  case (Socket_event i pev)
  then show ?thesis
    by (auto simp: manager_step_def isAvailable_def isVersionCompatible_def intro!: manager_ok_quiet [OF ok]
        intro: pool_reachable.step)
next
  case (Measured i now v)
  then show ?thesis
    by (auto simp: manager_step_def setSpeed_def isAvailable_def isVersionCompatible_def intro!: manager_ok_quiet [OF ok])
next
  case (Connected g s valid now sender msgs)
  have "manager_ok e (m\<lparr>pm_timer := True, pm_pending := pm_pending m @ [(s, now)]\<rparr>)"
    by (rule manager_ok_pending [OF ok]) simp_all
  moreover have "manager_ok e (m\<lparr>pm_deleted := pm_deleted m @ [s]\<rparr>)"
    by (rule manager_ok_pending [OF ok]) (use ok in \<open>simp_all add: manager_ok_def\<close>)
  ultimately show ?thesis using Connected manager_ok_dataReceived
    by (simp add: manager_step_def newConnection_def)
next
  case (First_data g s sender msgs)
  then show ?thesis using ok manager_ok_dataReceived [OF ok pending_timer [OF ok]] by (simp add: manager_step_def)
next
  case (Pending_closed s)
  have "manager_ok e (pending_disconnected s m)" if "pm_timer m"
    by (rule manager_ok_pending [OF ok]) (use removeFromPending_ok [OF that] in \<open>simp_all add: pending_disconnected_def Let_def\<close>)
  then show ?thesis using Pending_closed ok pending_timer [OF ok] by (simp add: manager_step_def)
next
  case (Check_pending now)
  have "manager_ok e (checkIdlePendingSockets timeout now m)" if "pm_timer m"
    by (rule manager_ok_pending [OF ok]) (use that in \<open>simp_all add: checkIdlePendingSockets_def Let_def\<close>)
  then show ?thesis using Check_pending ok by (simp add: manager_step_def)
qed

lemma manager_reachable_ok:
  assumes "pool_reachable e (pe_pool self)"
  shows "manager_reachable e self m \<Longrightarrow> manager_ok e m"
proof (induction rule: manager_reachable.induct)
  case start
  then show ?case using assms by (simp add: manager_ok_def new_manager_def)
qed (rule manager_step_ok)

subsection \<open>Properties of the peers\<close>

text \<open>
  C22: In every history where no peer changes the version of its protocol while it is alive, a peer that is
  available was announced by the last signal about it, one that is dead was not, and the peers are
  exactly one per identifier; each of them holds at most the given number of idle sockets; and the timer of
  the connections that wait runs exactly when one waits.
\<close>

theorem availability_is_signalled:
  assumes "pool_reachable e (pe_pool self)" "manager_reachable e self m"
  shows "distinct (map fst (pm_peers m)) \<and> (pm_timer m \<longleftrightarrow> pm_pending m \<noteq> []) \<and>
    (\<forall>i p. (i, p) \<in> set (pm_peers m) \<longrightarrow>
      (isAvailable p \<longrightarrow> announced i (pm_signals m)) \<and> (\<not> pe_alive p \<longrightarrow> \<not> announced i (pm_signals m)) \<and>
      length (idle_sockets (pe_pool p)) \<le> max_number_idle_socket e)"
  using manager_reachable_ok [OF assms] pool_reachable_ok unfolding manager_ok_def peer_fine_def pool_ok_def by blast

definition some_alive :: "32 word \<Rightarrow> alive_info" where
  "some_alive v = \<lparr>ai_IP = Some 1, ai_port = 2, ai_nick = [], ai_amount = 0, ai_coreVersion = [], ai_downloadRate = 0,
     ai_uploadRate = 0, ai_version = v, ai_lanSpeed = 0, ai_isMaster = False, ai_httpPort = 0\<rparr>"

definition some_id :: "nat \<Rightarrow> hash" where
  "some_id n = replicate HASH_SIZE (word_of_nat n)"

definition example_manager :: "manager_event list \<Rightarrow> peer_manager" where
  "example_manager evs =
     fold (manager_step example_env (\<lambda>_ _. False) 100) evs (new_manager (new_self (some_id 9) [] 1 3))"

theorem availability_is_signalled_witness:
  "announced (some_id 1) (pm_signals (example_manager [IMAlive (some_id 1) (some_alive PROTOCOL_VERSION)]))"
proof -
  let ?self = "new_self (some_id 9) [] 1 3" and ?ev = "IMAlive (some_id 1) (some_alive PROTOCOL_VERSION)"
  let ?m = "manager_step example_env (\<lambda>_ _. False) 100 ?ev (new_manager ?self)"
  have p: "pool_reachable example_env (pe_pool ?self)"
    using pool_reachable.step [OF pool_reachable.start, of example_env "\<lambda>_ _. False" "Set_ip (Some (1, 3))"]
    by (simp add: new_self_def pool_step_def)
  have "steady ?ev (new_manager ?self)" by (simp add: steady_def new_manager_def)
  then have r: "manager_reachable example_env ?self ?m" by (intro manager_reachable.intros)
  have "map fst (pm_peers ?m) = [some_id 1] \<and> map (isAvailable \<circ> snd) (pm_peers ?m) = [True]" by code_simp
  then obtain q where "(some_id 1, q) \<in> set (pm_peers ?m)" "isAvailable q" by (cases "pm_peers ?m") auto
  then show ?thesis using availability_is_signalled [OF p r] by (simp add: example_manager_def)
qed

text \<open>A peer that comes back with the right version before it is considered dead is available without a signal.\<close>

lemma new_version_is_not_signalled:
  "let m = example_manager [IMAlive (some_id 1) (some_alive 3), IMAlive (some_id 1) (some_alive PROTOCOL_VERSION)]
   in map (isAvailable \<circ> snd) (pm_peers m) = [True] \<and> pm_signals m = []"
  by code_simp

text \<open>A \<open>GOODBYE\<close> counts only from the address of the peer.\<close>

lemma goodbye_from_elsewhere: "ip \<noteq> pe_IP (peer_at i m) \<Longrightarrow> removePeer i ip m = m"
  by (simp add: removePeer_def)

lemma getPeers_alive: "getPeers m = map fst (filter (\<lambda>(i, p). pe_alive p) (pm_peers m))"
proof -
  have "fold (\<lambda>(i, p) l. if pe_alive p then l @ [i] else l) ps l = l @ map fst (filter (\<lambda>(i, p). pe_alive p) ps)" for ps :: "(hash \<times> peer_state) list" and l
    by (induction ps arbitrary: l) auto
  then show ?thesis by (simp add: getPeers_def)
qed

text \<open>
  The speed of a peer is unknown (the greatest number) until it is measured and again when the measure is
  too old; two measures that are below \<open>2 ^ 31\<close> give their mean, which lies between them.
\<close>

theorem speed_of_peer:
  assumes "pe_speed p \<noteq> MAX_SPEED" "pe_speed p < 2 ^ 31" "v < 2 ^ 31"
  shows "unat (fst (getSpeed validity now (setSpeed t v p))) =
    (if now - t > unat validity then 2 ^ 32 - 1 else (unat (pe_speed p) + unat v) div 2)"
proof -
  have a: "unat (pe_speed p) < 2 ^ 31" "unat v < 2 ^ 31" using assms(2,3) by (simp_all add: word_less_nat_alt)
  then have "unat (pe_speed p + v) = unat (pe_speed p) + unat v" by (simp add: unat_word_ariths)
  then have "unat ((pe_speed p + v) div 2) = (unat (pe_speed p) + unat v) div 2" by (simp add: unat_div)
  moreover have "unat MAX_SPEED = 2 ^ 32 - 1" by (simp add: MAX_SPEED_def unsigned_minus_1_eq_mask mask_eq_exp_minus_1)
  ultimately show ?thesis using assms(1) by (simp add: getSpeed_def setSpeed_def Let_def)
qed

theorem speed_of_peer_witness:
  "unat (fst (getSpeed 1000 10 (setSpeed 5 300 (setSpeed 4 100 (new_peer [] []))))) = 200"
  using speed_of_peer [of "setSpeed 4 100 (new_peer [] [])" 300 1000 10 5]
  by (simp add: setSpeed_def new_peer_def MAX_SPEED_def)

text \<open>The sum of great speeds wraps; the period of validity divides by zero below 1 MiB/s.\<close>

lemma speed_wraps: "pe_speed (setSpeed 2 0xC0000000 (setSpeed 1 0xC0000000 (new_peer [] []))) = 0x40000000"
  by code_simp

lemma validity_of_slow_link: "speed_validity_period f 1000000 = None"
  by (simp add: speed_validity_period_def)

text \<open>A null identifier is created anew each time.\<close>

lemma null_peer_is_replaced:
  "getPeer NULL_HASH m = None \<and> (\<exists>m'. createPeer NULL_HASH nick m = (Other_peer NULL_HASH, m'))"
  by (simp add: getPeer_def hash_isNull_def createPeer_def)

subsection \<open>Properties of the connections that wait\<close>

lemma find_SomeD: "find P l = Some x \<Longrightarrow> P x \<and> x \<in> set l"
  by (metis find_Some_iff nth_mem)

lemma removeFromPending_subset: "set (pm_pending (removeFromPending s m)) \<subseteq> set (pm_pending m)"
  using set_remove1_subset by (fastforce simp: removeFromPending_def Let_def split: option.splits)

lemma removeFromPending_list:
  assumes "distinct (map fst (pm_pending m))"
  shows "pm_pending (removeFromPending s m) = filter (\<lambda>(t, _). t \<noteq> s) (pm_pending m)"
proof -
  have "(case find (\<lambda>(t, _). t = s) l of None \<Rightarrow> l | Some x \<Rightarrow> remove1 x l) = filter (\<lambda>(t, _). t \<noteq> s) l"
    if "distinct (map fst l)" for l :: "(nat \<times> nat) list"
    using that
  proof (induction l)
    case (Cons a l)
    obtain t b where a: "a = (t, b)" by (cases a)
    show ?case
    proof (cases "t = s")
      case True
      then have "filter (\<lambda>(t, _). t \<noteq> s) l = l" using Cons.prems a by (force simp: filter_id_conv)
      then show ?thesis using a True by simp
    next
      case False
      have "x \<noteq> (t, b)" if "find (\<lambda>(t, _). t = s) l = Some x" for x
        using that False find_SomeD by fastforce
      then show ?thesis using Cons a False by (auto split: option.splits)
    qed
  qed simp
  then show ?thesis using assms by (simp add: removeFromPending_def Let_def)
qed

text \<open>
  The first header of a connection that waits decides: the connection leaves the list, and it is given
  to the peer it names and to no other, or deleted when the peer is unknown; with fewer bytes than a header
  nothing changes.
\<close>

theorem first_header_decides:
  fixes e drops garbage s sender msgs
  assumes "distinct (map fst (pm_pending m))"
  defines "q \<equiv> pending_dataReceived e drops garbage s sender msgs m"
  shows "(sender = None \<longrightarrow> q = m) \<and>
    (\<forall>i. sender = Some i \<longrightarrow> s \<notin> fst ` set (pm_pending q) \<and>
      (getPeer i m = None \<longrightarrow> pm_deleted q = pm_deleted m @ [s] \<and> pm_peers q = pm_peers m \<and> pm_self q = pm_self m) \<and>
      (getPeer i m = Some (Other_peer i) \<longrightarrow> pm_deleted q = pm_deleted m \<and> pm_self q = pm_self m \<and>
        peer_at i q = (peer_at i m)\<lparr>pe_pool := newConnexion e drops garbage msgs (pe_pool (peer_at i m))\<rparr> \<and>
        (\<forall>j p. j \<noteq> i \<longrightarrow> ((j, p) \<in> set (pm_peers q) \<longleftrightarrow> (j, p) \<in> set (pm_peers m)))))"
proof (cases sender)
  case None
  then show ?thesis by (simp add: q_def pending_dataReceived_def)
next
  case (Some i)
  define m1 where "m1 = removeFromPending s m"
  have l1: "s \<notin> fst ` set (pm_pending m1)" using removeFromPending_list [OF assms(1)] by (auto simp: m1_def)
  have d1: "pm_deleted m1 = pm_deleted m" "pm_peers m1 = pm_peers m" "pm_self m1 = pm_self m"
    by (simp_all add: m1_def removeFromPending_def Let_def)
  have l2: "s \<notin> fst ` set (pm_pending (removeFromPending s m1))"
    using l1 removeFromPending_subset by blast
  have q: "q = (case getPeer i m of Some r \<Rightarrow> give_socket e drops garbage msgs r m1 | None \<Rightarrow> pending_disconnected s m1)"
    unfolding q_def Some pending_dataReceived_def m1_def Let_def by (simp only: option.case)
  have dd: "pm_deleted (removeFromPending s m1) = pm_deleted m" using d1 by (simp add: removeFromPending_def Let_def)
  have pend: "pm_pending q = pm_pending m1 \<or> pm_pending q = pm_pending (removeFromPending s m1)"
    by (simp add: q give_socket_def pending_disconnected_def Let_def split: option.split peer_ref.split)
  show ?thesis
  proof (cases "getPeer i m")
    case None
    then show ?thesis using pend l1 l2 Some dd d1 by (auto simp: q pending_disconnected_def Let_def)
  next
    case (Some r)
    have "i \<in> fst ` set (pm_peers m1)" if "r = Other_peer i" using Some that d1 by (simp add: getPeer_def split: if_splits)
    then show ?thesis
      using pend l1 l2 \<open>sender = Some i\<close> d1 Some
      by (auto simp: q give_socket_def Let_def peer_at_on_peer in_on_peer) (auto simp: peer_at_def on_peer_def)
  qed
qed

theorem first_header_decides_witness:
  "pm_deleted (pending_dataReceived example_env (\<lambda>_ _. False) 0 7 (Some (some_id 1)) []
     ((new_manager (new_self (some_id 9) [] 1 3))\<lparr>pm_pending := [(7, 0)]\<rparr>)) = [7]"
proof -
  let ?m = "(new_manager (new_self (some_id 9) [] 1 3))\<lparr>pm_pending := [(7, 0)]\<rparr>"
  have "getPeer (some_id 1) ?m = None" by code_simp
  moreover have "distinct (map fst (pm_pending ?m))" by simp
  ultimately show ?thesis
    using first_header_decides [where m = ?m and e = example_env and drops = "\<lambda>_ _. False" and garbage = 0 and s = 7
        and sender = "Some (some_id 1)" and msgs = "[]"]
    by (simp add: new_manager_def)
qed

text \<open>
  A connection waits for its header no longer than the given time and the period of the checks.
\<close>

lemma check_drops_late: "\<forall>(s, t) \<in> set (pm_pending (checkIdlePendingSockets timeout now m)). now - t \<le> timeout"
  by (auto simp: checkIdlePendingSockets_def Let_def)

end
