(* ===== verification/Udp_Listener.thy ===== *)
theory Udp_Listener
  imports Peers Messages File_Search
begin

text \<open>
  \<open>Core/NetworkListener/priv/UDPListener.cpp\<close>: the datagrams between cores.  The state has the one
  buffer that is used to send and to receive, the tag and the chunks of the last \<open>IM_ALIVE\<close>, the
  ways of discovery (multicast, broadcast, scan of the subnets) and the peers of \<open>Peers\<close>.  Sent
  datagrams, links of peers to chunk downloaders and emitted signals are lists.  Arguments: the settings,
  the file manager, the interfaces of the machine, the protobuf encoding, and whether the network
  takes a datagram.
\<close>

subsection \<open>Messages\<close>

record im_alive =
  ia_version :: "32 word"
  ia_core_version :: qstring
  ia_port :: "32 word"
  ia_nick :: qstring
  ia_amount :: "64 word"
  ia_download_rate :: "32 word"
  ia_upload_rate :: "32 word"
  ia_lan_speed :: "32 word"
  ia_tag :: "64 word"
  ia_chunks :: "byte list list"
  ia_rooms :: "qstring list"
  ia_master_key :: "byte list option"
  ia_is_master :: bool
  ia_http_port :: "32 word"

record find_pattern =
  fp_pattern :: qstring
  fp_extensions :: "qstring list"
  fp_min_size :: "64 word"
  fp_max_size :: "64 word"
  fp_category :: nat

text \<open>A result of a search is its tag and its entries, named by a number.\<close>

datatype udp_msg =
    M_im_alive im_alive
  | M_goodbye
  | M_chunks_owned "64 word" "bool list"
  | M_find "64 word" find_pattern
  | M_find_result "64 word" nat
  | M_other message_type nat

fun msg_type :: "udp_msg \<Rightarrow> 32 word" where
  "msg_type (M_im_alive _) = type_code CORE_IM_ALIVE"
| "msg_type M_goodbye = type_code CORE_GOODBYE"
| "msg_type (M_chunks_owned _ _) = type_code CORE_CHUNKS_OWNED"
| "msg_type (M_find _ _) = type_code CORE_FIND"
| "msg_type (M_find_result _ _) = type_code CORE_FIND_RESULT"
| "msg_type (M_other t _) = type_code t"

subsection \<open>State\<close>

datatype destination = Multicast_group | To_address address "16 word" | To_ipv4 "32 word" "16 word" | To_broadcast "32 word" "16 word"

datatype send_status = S_OK | S_PEER_UNKNOWN | S_MESSAGE_TOO_LARGE | S_UNABLE_TO_SEND

datatype hash_request_type = FIRST_HASHES | OLDEST_HASHES

record udp_state =
  us_buffer :: "byte list"
  us_tag :: "64 word"
  us_chunks :: "(nat \<times> hash) list"
  us_next :: hash_request_type
  us_failures :: int
  us_fallback :: bool
  us_scanning :: bool
  us_scan_timer :: bool
  us_targets :: "32 word list"
  us_index :: nat
  us_counter :: int
  us_manager :: peer_manager
  us_candidates :: "(address \<times> 16 word) list"
  us_master_key :: hash
  us_key_was_reset :: bool
  us_sent :: "(destination \<times> byte list) list"
  us_links :: "(nat \<times> peer_ref \<times> bool) list"
  us_found :: "(hash \<times> 64 word \<times> nat) list"
  us_received :: "(msg_header \<times> udp_msg) list"
  us_overrun :: bool

definition BUFFER_SIZE_UDP :: nat where
  "BUFFER_SIZE_UDP = 65536"

text \<open>The interfaces: \<open>ni_capture\<close> is a name that has \<open>Npcap\<close> or \<open>Loopback\<close>.\<close>

record net_entry =
  ne_ipv4 :: bool
  ne_ip :: "32 word"
  ne_mask :: "32 word"
  ne_broadcast :: "32 word option"

record net_iface =
  ni_name :: qstring
  ni_usable :: bool
  ni_capture :: bool
  ni_entries :: "net_entry list"

record udp_env =
  ue_ser :: "udp_msg \<Rightarrow> byte list"
  ue_parse :: "proto_class \<Rightarrow> byte list \<Rightarrow> udp_msg option"
  ue_max :: "32 word"
  ue_unicast_port :: "16 word"
  ue_multicast_port :: "16 word"
  ue_threshold :: "32 word"
  ue_interface_name :: qstring
  ue_interfaces :: "net_iface list"
  ue_imalive_period :: "32 word"
  ue_max_throughput :: "32 word"
  ue_max_results :: "32 word"
  ue_owns :: "hash \<Rightarrow> bool"
  ue_complete :: "hash \<Rightarrow> bool"
  ue_find :: "qstring \<Rightarrow> qstring list \<Rightarrow> int \<Rightarrow> int \<Rightarrow> nat \<Rightarrow> 32 word \<Rightarrow> int \<Rightarrow> nat list"
  ue_first_chunks :: "int \<Rightarrow> (nat \<times> hash) list"
  ue_oldest_chunks :: "int \<Rightarrow> (nat \<times> hash) list"

definition new_listener :: "peer_manager \<Rightarrow> udp_state" where
  "new_listener m =
     \<lparr>us_buffer = replicate BUFFER_SIZE_UDP 0, us_tag = 0, us_chunks = [], us_next = FIRST_HASHES, us_failures = 0,
      us_fallback = False, us_scanning = False, us_scan_timer = False, us_targets = [], us_index = 0, us_counter = 0,
      us_manager = m, us_candidates = [], us_master_key = NULL_HASH, us_key_was_reset = False, us_sent = [], us_links = [],
      us_found = [], us_received = [], us_overrun = False\<rparr>"

subsection \<open>Sending\<close>

definition write_buffer :: "udp_env \<Rightarrow> udp_msg \<Rightarrow> udp_state \<Rightarrow> 32 word \<times> udp_state" where
  "write_buffer e m s =
     (let body = ue_ser e m;
          header = \<lparr>h_type = msg_type m, h_size = word_of_nat (length body), h_senderID = pe_ID (pm_self (us_manager s))\<rparr>
      in case writeMessageToBuffer (us_buffer s) (ue_max e) header (Some body) of
           Inl _ \<Rightarrow> (0, s\<lparr>us_overrun := True\<rparr>)
         | Inr (n, b) \<Rightarrow> (n, s\<lparr>us_buffer := b\<rparr>))"

definition write_datagram :: "bool \<Rightarrow> 32 word \<Rightarrow> destination \<Rightarrow> udp_state \<Rightarrow> udp_state" where
  "write_datagram ok n dest s = (if ok then s\<lparr>us_sent := us_sent s @ [(dest, take (unat n) (us_buffer s))]\<rparr> else s)"

definition send_to_peer :: "udp_env \<Rightarrow> bool \<Rightarrow> udp_msg \<Rightarrow> hash \<Rightarrow> udp_state \<Rightarrow> send_status \<times> udp_state" where
  "send_to_peer e ok m i s =
     (case getPeer i (us_manager s) of
        None \<Rightarrow> (S_PEER_UNKNOWN, s)
      | Some r \<Rightarrow>
          (let p = (case r of Self_peer \<Rightarrow> pm_self (us_manager s) | Other_peer j \<Rightarrow> peer_at j (us_manager s))
           in case write_buffer e m s of
                (n, s) \<Rightarrow>
                  if n = 0 then (S_MESSAGE_TOO_LARGE, s)
                  else if \<not> ok \<or> pe_IP p = None then (S_UNABLE_TO_SEND, s)
                  else (S_OK, write_datagram True n (To_address (the (pe_IP p)) (pe_port p)) s)))"

definition send_multicast :: "udp_env \<Rightarrow> bool \<Rightarrow> udp_msg \<Rightarrow> udp_state \<Rightarrow> send_status \<times> udp_state" where
  "send_multicast e ok m s =
     (case write_buffer e m s of
        (n, s) \<Rightarrow>
          if n = 0 then (S_MESSAGE_TOO_LARGE, s)
          else if \<not> ok
          then (S_UNABLE_TO_SEND,
                if ue_threshold e > 0
                then (let s = s\<lparr>us_failures := us_failures s + 1\<rparr>
                      in if us_failures s \<ge> sint (ue_threshold e) \<and> \<not> us_fallback s then s\<lparr>us_fallback := True\<rparr> else s)
                else s)
          else (S_OK, (write_datagram True n Multicast_group s)\<lparr>us_failures := 0\<rparr>))"

text \<open>The list of candidates of \<open>PeerManager\<close>, which the connections of all the peers fill.\<close>

definition us_addGossipCandidate :: "address \<times> 16 word \<Rightarrow> udp_state \<Rightarrow> udp_state" where
  "us_addGossipCandidate c s = (if c \<in> set (us_candidates s) then s else s\<lparr>us_candidates := us_candidates s @ [c]\<rparr>)"

definition us_takeGossipCandidates :: "udp_state \<Rightarrow> (address \<times> 16 word) list \<times> udp_state" where
  "us_takeGossipCandidates s = (us_candidates s, s\<lparr>us_candidates := []\<rparr>)"

subsection \<open>Interfaces and subnets\<close>

definition iface_selected :: "udp_env \<Rightarrow> net_iface \<Rightarrow> bool" where
  "iface_selected e i \<longleftrightarrow> ni_usable i \<and> (ue_interface_name e = [] \<or> ni_name i = ue_interface_name e) \<and> \<not> ni_capture i"

definition link_local :: "32 word \<Rightarrow> bool" where
  "link_local ip \<longleftrightarrow> ip AND 0xFFFF0000 = 0xA9FE0000"

text \<open>The size of the message is read back from the buffer.\<close>

definition buffer_message_size :: "udp_state \<Rightarrow> 32 word" where
  "buffer_message_size s = header_size32 + h_size (readHeader (take HEADER_SIZE (us_buffer s)))"

fun broadcast_of :: "net_entry list \<Rightarrow> 32 word option" where
  "broadcast_of [] = None"
| "broadcast_of (n # ns) =
     (if \<not> ne_ipv4 n \<or> ne_broadcast n = None \<or> link_local (ne_ip n) then broadcast_of ns else ne_broadcast n)"

definition sendBroadcastIMAlive :: "udp_env \<Rightarrow> bool \<Rightarrow> udp_state \<Rightarrow> udp_state" where
  "sendBroadcastIMAlive e ok s =
     (let n = buffer_message_size s
      in fold (\<lambda>i s. if \<not> iface_selected e i then s
                     else (case broadcast_of (ni_entries i) of
                             None \<Rightarrow> s
                           | Some a \<Rightarrow> write_datagram ok n (To_broadcast a (ue_multicast_port e)) s))
           (ue_interfaces e) s)"

definition subnet_hosts :: "32 word \<Rightarrow> 32 word \<Rightarrow> 32 word" where
  "subnet_hosts ip netmask = (let network = ip AND netmask in (network OR NOT netmask) - network - 1)"

definition entry_scanned :: "net_entry \<Rightarrow> bool" where
  "entry_scanned n \<longleftrightarrow> ne_ipv4 n \<and> \<not> link_local (ne_ip n) \<and> ne_mask n \<noteq> 0 \<and>
     subnet_hosts (ne_ip n) (ne_mask n) \<noteq> 0 \<and> \<not> subnet_hosts (ne_ip n) (ne_mask n) > 65534"

text \<open>The loop on the hosts: \<open>k\<close> is what is left of them.\<close>

fun host_targets :: "32 word \<Rightarrow> 32 word \<Rightarrow> nat \<Rightarrow> 32 word \<Rightarrow> 32 word list" where
  "host_targets ip network 0 h = []"
| "host_targets ip network (Suc k) h =
     (if network + h = ip then host_targets ip network k (h + 1)
      else (network + h) # host_targets ip network k (h + 1))"

fun entries_targets :: "net_entry list \<Rightarrow> 32 word list" where
  "entries_targets [] = []"
| "entries_targets (n # ns) =
     (if entry_scanned n
      then host_targets (ne_ip n) (ne_ip n AND ne_mask n) (unat (subnet_hosts (ne_ip n) (ne_mask n))) 1
      else entries_targets ns)"

definition runSubnetScan :: "udp_env \<Rightarrow> udp_state \<Rightarrow> udp_state" where
  "runSubnetScan e s =
     (if us_scanning s then s
      else (let targets = concat (map (\<lambda>i. if iface_selected e i then entries_targets (ni_entries i) else []) (ue_interfaces e));
                s = s\<lparr>us_targets := targets\<rparr>
            in if targets = [] then s
               else s\<lparr>us_index := 0, us_scanning := True, us_scan_timer := True\<rparr>))"

definition scan_interval :: "udp_env \<Rightarrow> udp_state \<Rightarrow> int" where
  "scan_interval e s = max 1 (sint (ue_imalive_period e) div int (length (us_targets s)))"

subsection \<open>IM_ALIVE\<close>

text \<open>What the message says of this core; the parts from the other managers are the argument \<open>m\<close>.\<close>

definition own_im_alive :: "udp_env \<Rightarrow> im_alive \<Rightarrow> udp_state \<Rightarrow> im_alive" where
  "own_im_alive e m s = m
     \<lparr>ia_version := PROTOCOL_VERSION, ia_port := ucast (ue_unicast_port e),
      ia_nick := (let nick = pe_nick (pm_self (us_manager s)) in if length nick > 255 then take 255 nick else nick),
      ia_master_key := (if hash_isNull (us_master_key s) then None else Some (us_master_key s)), ia_chunks := [], ia_rooms := []\<rparr>"

definition sendUnicastIMAlive :: "udp_env \<Rightarrow> bool \<Rightarrow> im_alive \<Rightarrow> destination \<Rightarrow> udp_state \<Rightarrow> udp_state" where
  "sendUnicastIMAlive e ok m dest s =
     (case write_buffer e (M_im_alive ((own_im_alive e m s)\<lparr>ia_tag := us_tag s\<rparr>)) s of
        (n, s) \<Rightarrow> if n = 0 then s else write_datagram ok n dest s)"

definition sendNextSubnetScanProbe :: "udp_env \<Rightarrow> bool \<Rightarrow> im_alive \<Rightarrow> udp_state \<Rightarrow> udp_state" where
  "sendNextSubnetScanProbe e ok m s =
     (if us_index s \<ge> length (us_targets s)
      then s\<lparr>us_scan_timer := False, us_scanning := False, us_targets := [], us_index := 0\<rparr>
      else sendUnicastIMAlive e ok m (To_ipv4 (us_targets s ! us_index s) (ue_multicast_port e))
             (s\<lparr>us_index := us_index s + 1\<rparr>))"

text \<open>
  The number of hashes: \<open>None\<close> is a division by zero.  The first product, difference and quotient are
  unsigned numbers of 32 bits, the second of 64 bits (\<open>size_t\<close>).
\<close>

definition max_hashes_of_peers :: "udp_env \<Rightarrow> nat \<Rightarrow> int option" where
  "max_hashes_of_peers e n =
     (let period = ue_imalive_period e div 1000; peers = word_of_nat n :: 32 word
      in if period = 0 then None
         else Some (sint (if n = 0 then 0x7FFFFFFF
                          else period * (ue_max_throughput e - peers * (100 div period)) div (peers * 32))))"

definition hashes_in_datagram :: "udp_env \<Rightarrow> nat \<Rightarrow> int" where
  "hashes_in_datagram e len =
     sint (ucast (((ucast (ue_max e) :: 64 word) - word_of_nat len - word_of_nat HEADER_SIZE) div 32) :: 32 word)"

definition number_of_hashes :: "udp_env \<Rightarrow> nat \<Rightarrow> nat \<Rightarrow> int option" where
  "number_of_hashes e peers len =
     (case max_hashes_of_peers e peers of
        None \<Rightarrow> None
      | Some m \<Rightarrow> Some (let n = hashes_in_datagram e len in if n > m then m else n))"

definition choose_chunks :: "udp_env \<Rightarrow> int \<Rightarrow> udp_state \<Rightarrow> udp_state" where
  "choose_chunks e n s =
     (case us_next s of
        FIRST_HASHES \<Rightarrow> s\<lparr>us_chunks := ue_first_chunks e n, us_next := OLDEST_HASHES\<rparr>
      | OLDEST_HASHES \<Rightarrow> s\<lparr>us_chunks := ue_oldest_chunks e n, us_next := FIRST_HASHES\<rparr>)"

text \<open>The end of \<open>sendIMAliveMessage\<close>: the message of the buffer by broadcast and to each peer, the candidates, the scan.\<close>

definition propagateIMAlive :: "udp_env \<Rightarrow> bool \<Rightarrow> im_alive \<Rightarrow> udp_state \<Rightarrow> udp_state" where
  "propagateIMAlive e ok m s =
     (let s = sendBroadcastIMAlive e ok s;
          len = buffer_message_size s;
          s = fold (\<lambda>i s. case pe_IP (peer_at i (us_manager s)) of
                            None \<Rightarrow> s
                          | Some a \<Rightarrow> write_datagram ok len (To_address a (ue_multicast_port e)) s)
                (getPeers (us_manager s)) s;
          (candidates, s) = us_takeGossipCandidates s;
          s = fold (\<lambda>(a, p). sendUnicastIMAlive e ok m (To_address a p)) candidates s
      in if \<not> us_scanning s \<and> us_counter s mod 12 = 1 then runSubnetScan e s else s)"

text \<open>
  \<open>sendIMAliveMessage\<close>: \<open>tag\<close> is drawn at random, \<open>rooms\<close> is what the chat adds by the signal
  \<open>IMAliveMessageToBeSend\<close>, \<open>ok\<close> whether the multicast datagram is taken and \<open>ok'\<close> the others.
\<close>

definition sendIMAliveMessage ::
  "udp_env \<Rightarrow> bool \<Rightarrow> bool \<Rightarrow> 64 word \<Rightarrow> qstring list \<Rightarrow> im_alive \<Rightarrow> udp_state \<Rightarrow> udp_state option" where
  "sendIMAliveMessage e ok ok' tag rooms m s =
     (let s = s\<lparr>us_tag := tag\<rparr>; msg = (own_im_alive e m s)\<lparr>ia_tag := tag\<rparr>;
          numberOfPeers = getNbOfPeers (us_manager s)
      in case number_of_hashes e numberOfPeers (length (ue_ser e (M_im_alive msg))) of
           None \<Rightarrow> None
         | Some n \<Rightarrow>
             (let s = choose_chunks e n s;
                  msg = msg\<lparr>ia_chunks := map snd (us_chunks s), ia_rooms := rooms\<rparr>;
                  s = s\<lparr>us_links := us_links s @ map (\<lambda>(c, h). (c, Self_peer, ue_complete e h)) (us_chunks s)\<rparr>;
                  s = snd (send_multicast e ok (M_im_alive msg) s)
              in Some (propagateIMAlive e ok' m (s\<lparr>us_counter := us_counter s + 1\<rparr>))))"

definition rebindSockets :: "udp_state \<Rightarrow> udp_state" where
  "rebindSockets s = s\<lparr>us_failures := 0, us_fallback := False, us_scanning := False, us_scan_timer := False,
     us_targets := [], us_index := 0\<rparr>"

subsection \<open>Receiving\<close>

text \<open>\<open>readDatagram\<close> copies what fits in the buffer; \<open>None\<close> is an error of reading.\<close>

definition copy_datagram :: "byte list \<Rightarrow> udp_state \<Rightarrow> nat \<times> udp_state" where
  "copy_datagram bs s =
     (let d = take (length (us_buffer s)) bs in (length d, s\<lparr>us_buffer := d @ drop (length d) (us_buffer s)\<rparr>))"

definition accepted_header :: "nat \<Rightarrow> msg_header \<Rightarrow> peer_manager \<Rightarrow> bool" where
  "accepted_header len h m \<longleftrightarrow>
     \<not> int (unat (h_size h)) > int len - int HEADER_SIZE \<and> h_senderID h \<noteq> pe_ID (pm_self m) \<and>
     (h_type h \<noteq> type_code CORE_IM_ALIVE \<longrightarrow>
       (case getPeer (h_senderID h) m of Some (Other_peer i) \<Rightarrow> pe_alive (peer_at i m) | Some Self_peer \<Rightarrow> pe_alive (pm_self m)
        | None \<Rightarrow> False))"

definition readDatagramToBuffer :: "byte list \<Rightarrow> udp_state \<Rightarrow> msg_header \<times> udp_state" where
  "readDatagramToBuffer bs s =
     (case copy_datagram bs s of
        (len, s) \<Rightarrow>
          (let h = readHeader (take HEADER_SIZE (us_buffer s))
           in (if accepted_header len h (us_manager s) then h else header_setNull h, s)))"

definition alive_of :: "address \<Rightarrow> im_alive \<Rightarrow> alive_info" where
  "alive_of a m = \<lparr>ai_IP = Some a, ai_port = ucast (ia_port m), ai_nick = ia_nick m, ai_amount = ia_amount m,
     ai_coreVersion = ia_core_version m, ai_downloadRate = ia_download_rate m, ai_uploadRate = ia_upload_rate m,
     ai_version = ia_version m, ai_lanSpeed = ia_lan_speed m, ai_isMaster = ia_is_master m, ai_httpPort = ia_http_port m\<rparr>"

definition adopt_master_key :: "im_alive \<Rightarrow> udp_state \<Rightarrow> udp_state" where
  "adopt_master_key m s =
     (case ia_master_key m of
        None \<Rightarrow> s
      | Some k \<Rightarrow>
          if length k = HASH_SIZE \<and> \<not> hash_isNull (hash_of_chars (Some k)) \<and> hash_isNull (us_master_key s) \<and> \<not> us_key_was_reset s
          then s\<lparr>us_master_key := hash_of_chars (Some k)\<rparr> else s)"

definition answer_chunks :: "udp_env \<Rightarrow> bool \<Rightarrow> im_alive \<Rightarrow> hash \<Rightarrow> udp_state \<Rightarrow> udp_state" where
  "answer_chunks e ok m sender s =
     (if ia_chunks m = [] then s
      else (case haveChunks {h. ue_owns e h} (map hash_of_string (ia_chunks m)) of
              [] \<Rightarrow> s
            | bits \<Rightarrow> snd (send_to_peer e ok (M_chunks_owned (ia_tag m) bits) sender s)))"

definition on_im_alive :: "udp_env \<Rightarrow> bool \<Rightarrow> address \<Rightarrow> im_alive \<Rightarrow> hash \<Rightarrow> udp_state \<Rightarrow> udp_state" where
  "on_im_alive e ok a m sender s =
     answer_chunks e ok m sender (adopt_master_key m (s\<lparr>us_manager := updatePeer sender (alive_of a m) (us_manager s)\<rparr>))"

definition peer_available :: "hash \<Rightarrow> peer_manager \<Rightarrow> peer_ref option" where
  "peer_available i m =
     (case getPeer i m of
        None \<Rightarrow> None
      | Some Self_peer \<Rightarrow> if isAvailable (pm_self m) then Some Self_peer else None
      | Some (Other_peer j) \<Rightarrow> if isAvailable (peer_at j m) then Some (Other_peer j) else None)"

definition on_find :: "udp_env \<Rightarrow> bool \<Rightarrow> 64 word \<Rightarrow> find_pattern \<Rightarrow> hash \<Rightarrow> udp_state \<Rightarrow> udp_state" where
  "on_find e ok tag f sender s =
     (if peer_available sender (us_manager s) = None then s
      else (let results = ue_find e (fp_pattern f) (fp_extensions f)
                  (if fp_min_size f = 0 then - (2 ^ 63) else sint (fp_min_size f))
                  (if fp_max_size f = 0 then 2 ^ 63 - 1 else sint (fp_max_size f))
                  (fp_category f) (ue_max_results e) (sint (ue_max e) - int HEADER_SIZE)
            in fold (\<lambda>r s. snd (send_to_peer e ok (M_find_result tag r) sender s)) results s))"

definition on_chunks_owned :: "64 word \<Rightarrow> bool list \<Rightarrow> peer_ref \<Rightarrow> udp_state \<Rightarrow> udp_state option" where
  "on_chunks_owned tag bits r s =
     (if tag \<noteq> us_tag s \<or> length bits \<noteq> length (us_chunks s) then None
      else Some (s\<lparr>us_links := us_links s @ map (\<lambda>((c, _), b). (c, r, b)) (zip (us_chunks s) bits)\<rparr>))"

definition received :: "msg_header \<Rightarrow> udp_msg \<Rightarrow> udp_state \<Rightarrow> udp_state" where
  "received h m s = s\<lparr>us_received := us_received s @ [(h, m)]\<rparr>"

definition multicast_message :: "udp_env \<Rightarrow> bool \<Rightarrow> address \<Rightarrow> msg_header \<Rightarrow> udp_msg \<Rightarrow> udp_state \<Rightarrow> udp_state" where
  "multicast_message e ok a h m s =
     received h m
       (case (type_of_code (h_type h), m) of
          (Some CORE_IM_ALIVE, M_im_alive x) \<Rightarrow> on_im_alive e ok a x (h_senderID h) s
        | (Some CORE_GOODBYE, _) \<Rightarrow> s\<lparr>us_manager := removePeer (h_senderID h) (Some a) (us_manager s)\<rparr>
        | (Some CORE_FIND, M_find tag f) \<Rightarrow> on_find e ok tag f (h_senderID h) s
        | _ \<Rightarrow> s)"

definition unicast_other :: "msg_header \<Rightarrow> udp_msg \<Rightarrow> peer_ref \<Rightarrow> udp_state \<Rightarrow> udp_state" where
  "unicast_other h m r s =
     (case (type_of_code (h_type h), m) of
        (Some CORE_CHUNKS_OWNED, M_chunks_owned tag bits) \<Rightarrow>
          (case on_chunks_owned tag bits r s of None \<Rightarrow> s | Some s \<Rightarrow> received h m s)
      | (Some CORE_FIND_RESULT, M_find_result tag x) \<Rightarrow> received h m (s\<lparr>us_found := us_found s @ [(h_senderID h, tag, x)]\<rparr>)
      | _ \<Rightarrow> received h m s)"

definition unicast_message :: "udp_env \<Rightarrow> bool \<Rightarrow> address \<Rightarrow> msg_header \<Rightarrow> udp_msg \<Rightarrow> udp_state \<Rightarrow> udp_state" where
  "unicast_message e ok a h m s =
     (case (type_of_code (h_type h), m) of
        (Some CORE_IM_ALIVE, M_im_alive x) \<Rightarrow> received h m (on_im_alive e ok a x (h_senderID h) s)
      | _ \<Rightarrow>
          (case peer_available (h_senderID h) (us_manager s) of
             None \<Rightarrow> s
           | Some r \<Rightarrow> unicast_other h m r s))"

text \<open>
  One turn of the loops \<open>processPendingMulticastDatagrams\<close> and \<open>processPendingUnicastDatagrams\<close>; the
  body of a message is read from the buffer, and what cannot be parsed is skipped.
\<close>

definition process_datagram ::
  "(udp_env \<Rightarrow> bool \<Rightarrow> address \<Rightarrow> msg_header \<Rightarrow> udp_msg \<Rightarrow> udp_state \<Rightarrow> udp_state) \<Rightarrow> udp_env \<Rightarrow> bool \<Rightarrow>
   address \<times> byte list \<Rightarrow> udp_state \<Rightarrow> udp_state" where
  "process_datagram handle e ok d s =
     (case readDatagramToBuffer (snd d) s of
        (h, s) \<Rightarrow>
          if header_isNull h then s
          else (case readMessageBody (ue_parse e) h (drop HEADER_SIZE (us_buffer s)) of
                  Inl _ \<Rightarrow> s
                | Inr (h, m) \<Rightarrow> handle e ok (fst d) h m s))"

text \<open>At most \<open>limit\<close> datagrams of the pending ones; an error of reading (\<open>None\<close>) ends the loop.\<close>

fun process_pending ::
  "(udp_env \<Rightarrow> bool \<Rightarrow> address \<Rightarrow> msg_header \<Rightarrow> udp_msg \<Rightarrow> udp_state \<Rightarrow> udp_state) \<Rightarrow> udp_env \<Rightarrow> bool \<Rightarrow> nat \<Rightarrow>
   (address \<times> byte list) option list \<Rightarrow> udp_state \<Rightarrow> (address \<times> byte list) option list \<times> udp_state" where
  "process_pending handle e ok 0 ds s = (ds, s)"
| "process_pending handle e ok (Suc limit) [] s = ([], s)"
| "process_pending handle e ok (Suc limit) (None # ds) s = (ds, s)"
| "process_pending handle e ok (Suc limit) (Some d # ds) s =
     process_pending handle e ok limit ds (process_datagram handle e ok d s)"

definition MAX_DATAGRAMS_PER_CALL :: nat where
  "MAX_DATAGRAMS_PER_CALL = 500"

definition processPendingMulticastDatagrams ::
  "udp_env \<Rightarrow> bool \<Rightarrow> (address \<times> byte list) option list \<Rightarrow> udp_state \<Rightarrow> (address \<times> byte list) option list \<times> udp_state" where
  "processPendingMulticastDatagrams e ok ds s = process_pending multicast_message e ok MAX_DATAGRAMS_PER_CALL ds s"

definition processPendingUnicastDatagrams ::
  "udp_env \<Rightarrow> bool \<Rightarrow> (address \<times> byte list) option list \<Rightarrow> udp_state \<Rightarrow> (address \<times> byte list) option list \<times> udp_state" where
  "processPendingUnicastDatagrams e ok ds s = process_pending unicast_message e ok MAX_DATAGRAMS_PER_CALL ds s"

end
