(* ===== verification/Udp_Discovery.thy ===== *)
theory Udp_Discovery
  imports Udp_Listener
begin

text \<open>
  The buffer of the listener and what sending keeps; what a heartbeat leaves; and the exchange of the owned
  chunks between two cores, each in its own state, joined by the datagrams they send.
\<close>

declare type_code.simps [simp del]

subsection \<open>The buffer\<close>

lemma word_size_fits: "n < 2 ^ 32 \<Longrightarrow> unat (word_of_nat n :: 32 word) = n"
  by (simp add: unat_of_nat take_bit_nat_eq_self_iff)

text \<open>The largest datagram is at most the buffer.\<close>

definition own_header :: "udp_env \<Rightarrow> udp_msg \<Rightarrow> udp_state \<Rightarrow> msg_header" where
  "own_header e m s = \<lparr>h_type = msg_type m, h_size = word_of_nat (length (ue_ser e m)), h_senderID = pe_ID (pm_self (us_manager s))\<rparr>"

definition own_datagram :: "udp_env \<Rightarrow> udp_msg \<Rightarrow> udp_state \<Rightarrow> byte list" where
  "own_datagram e m s = writeHeader (own_header e m s) @ ue_ser e m"

definition msg_fits :: "udp_env \<Rightarrow> udp_msg \<Rightarrow> bool" where
  "msg_fits e m \<longleftrightarrow> HEADER_SIZE + length (ue_ser e m) \<le> unat (ue_max e)"

lemma msg_fits_size: "msg_fits e m \<Longrightarrow> HEADER_SIZE + length (ue_ser e m) < 2 ^ 32"
proof -
  assume "msg_fits e m"
  moreover have "unat (ue_max e) < 2 ^ LENGTH(32)" by (rule unsigned_less)
  ultimately show ?thesis by (simp add: msg_fits_def)
qed

definition udp_wf :: "udp_env \<Rightarrow> udp_state \<Rightarrow> bool" where
  "udp_wf e s \<longleftrightarrow> length (us_buffer s) = BUFFER_SIZE_UDP \<and> 
     HEADER_SIZE \<le> unat (ue_max e) \<and> unat (ue_max e) \<le> BUFFER_SIZE_UDP \<and> hash_wf (pe_ID (pm_self (us_manager s)))"

lemma own_datagram_length:
  "udp_wf e s \<Longrightarrow> length (own_datagram e m s) = HEADER_SIZE + length (ue_ser e m)"
  by (simp add: own_datagram_def own_header_def udp_wf_def header_wf_def)

lemma write_buffer_fits:
  assumes wf: "udp_wf e s" and fits: "msg_fits e m"
  shows "write_buffer e m s = (word_of_nat (length (own_datagram e m s)),
           s\<lparr>us_buffer := own_datagram e m s @ drop (length (own_datagram e m s)) (us_buffer s)\<rparr>)"
proof -
  let ?h = "own_header e m s" and ?b = "ue_ser e m"
  have hw: "header_wf ?h" using wf by (simp add: own_header_def udp_wf_def header_wf_def)
  have lt: "HEADER_SIZE + length ?b < 2 ^ 32" by (rule msg_fits_size [OF fits])
  have size: "unat (h_size ?h) = length ?b" using lt by (simp add: own_header_def word_size_fits)
  have add: "unat (header_size32 + h_size ?h) = HEADER_SIZE + length ?b" using lt size by (subst header_size_add) simp_all
  have sub: "unat (ue_max e - header_size32) = unat (ue_max e) - HEADER_SIZE"
    using fits by (subst header_size_sub) (simp_all add: msg_fits_def)
  have room: "HEADER_SIZE + length ?b \<le> length (us_buffer s)" using wf fits by (simp add: udp_wf_def msg_fits_def)
  have put: "put_at 0 (writeHeader ?h) (us_buffer s) = Inr (writeHeader ?h @ drop HEADER_SIZE (us_buffer s))"
    using room hw by (simp add: put_at_def)
  have ser: "serializeToArray HEADER_SIZE ?b (ue_max e - header_size32) (writeHeader ?h @ drop HEADER_SIZE (us_buffer s)) =
        Inr (writeHeader ?h @ ?b @ drop (HEADER_SIZE + length ?b) (us_buffer s))"
  proof -
    have "\<not> length ?b > unat (ue_max e - header_size32)" using fits unfolding sub by (simp add: msg_fits_def)
    then show ?thesis using room hw by (simp add: serializeToArray_def put_at_def add.commute)
  qed
  have w: "header_size32 + h_size ?h = word_of_nat (HEADER_SIZE + length ?b)"
    by (simp add: header_size32_def own_header_def)
  have "writeMessageToBuffer (us_buffer s) (ue_max e) ?h (Some ?b) =
      Inr (header_size32 + h_size ?h, writeHeader ?h @ ?b @ drop (HEADER_SIZE + length ?b) (us_buffer s))"
    using add put ser fits unfolding writeMessageToBuffer_def by (simp add: word_less_nat_alt msg_fits_def)
  then show ?thesis
    unfolding write_buffer_def own_header_def [symmetric] Let_def own_datagram_length [OF wf]
    by (simp add: w own_datagram_def)
qed

lemma write_buffer_too_large:
  assumes "\<not> msg_fits e m" "HEADER_SIZE + length (ue_ser e m) < 2 ^ 32"
  shows "write_buffer e m s = (0, s)"
proof -
  let ?h = "own_header e m s" and ?b = "ue_ser e m"
  have "unat (h_size ?h) = length ?b" using assms(2) by (simp add: own_header_def word_size_fits)
  then have "unat (header_size32 + h_size ?h) = HEADER_SIZE + length ?b" using assms(2) by (subst header_size_add) simp_all
  then have "header_size32 + h_size ?h > ue_max e" using assms(1) by (simp add: word_less_nat_alt msg_fits_def)
  then show ?thesis unfolding write_buffer_def own_header_def [symmetric] Let_def by (simp add: writeMessageToBuffer_def)
qed

lemma datagram_size_nonzero:
  assumes "udp_wf e s" "msg_fits e m"
  shows "word_of_nat (length (own_datagram e m s)) \<noteq> (0 :: 32 word)"
    "unat (word_of_nat (length (own_datagram e m s)) :: 32 word) = length (own_datagram e m s)"
proof -
  have lt: "length (own_datagram e m s) < 2 ^ 32"
    using msg_fits_size [OF assms(2)] by (simp add: own_datagram_length [OF assms(1)])
  show u: "unat (word_of_nat (length (own_datagram e m s)) :: 32 word) = length (own_datagram e m s)"
    by (rule word_size_fits [OF lt])
  show "word_of_nat (length (own_datagram e m s)) \<noteq> (0 :: 32 word)"
    using u assms(1) by (metis own_datagram_length HEADER_SIZE_36 add_eq_0_iff_both_eq_0 unat_0 zero_neq_numeral)
qed

text \<open>A datagram, once copied to the buffer of its receiver, is read back.\<close>

lemma own_datagram_read:
  assumes wf: "udp_wf e s" "udp_wf e' s'" and fits: "msg_fits e m"
    and parse: "ue_parse e' (body_class_of_code (msg_type m)) (ue_ser e m) = Some m"
    and acc: "accepted_header (length (own_datagram e m s)) (own_header e m s) (us_manager s')"
    and notnull: "\<not> header_isNull (own_header e m s)"
  shows "process_datagram handle e' ok (a, own_datagram e m s) s' =
    handle e' ok a (own_header e m s) m
      (s'\<lparr>us_buffer := own_datagram e m s @ drop (length (own_datagram e m s)) (us_buffer s')\<rparr>)"
proof -
  let ?d = "own_datagram e m s" and ?h = "own_header e m s"
  have len: "length ?d \<le> length (us_buffer s')"
    using wf fits by (simp add: own_datagram_length msg_fits_def udp_wf_def)
  have copy: "copy_datagram ?d s' = (length ?d, s'\<lparr>us_buffer := ?d @ drop (length ?d) (us_buffer s')\<rparr>)"
    using len by (simp add: copy_datagram_def Let_def)
  have hw: "header_wf ?h" using wf by (simp add: own_header_def udp_wf_def header_wf_def)
  have rd: "readHeader (take HEADER_SIZE (?d @ drop (length ?d) (us_buffer s'))) = ?h"
    using hw by (simp add: own_datagram_def readHeader_writeHeader)
  have sz: "unat (h_size ?h) = length (ue_ser e m)"
    using msg_fits_size [OF fits] by (simp add: own_header_def word_size_fits)
  have read: "readMessageBody (ue_parse e') ?h (drop HEADER_SIZE (?d @ drop (length ?d) (us_buffer s'))) = Inr (?h, m)"
    using hw parse sz by (simp add: own_datagram_def readMessageBody_def) (simp add: own_header_def)
  show ?thesis unfolding process_datagram_def readDatagramToBuffer_def
    using rd acc notnull read by (simp add: copy Let_def)
qed

subsection \<open>What sending keeps\<close>

definition sending_keeps :: "udp_env \<Rightarrow> udp_state \<Rightarrow> udp_state \<Rightarrow> bool" where
  "sending_keeps e s s' \<longleftrightarrow> (udp_wf e s \<longrightarrow> us_overrun s' = us_overrun s) \<and> us_scan_timer s' = us_scan_timer s \<and>
     us_tag s' = us_tag s \<and> us_chunks s' = us_chunks s \<and> us_manager s' = us_manager s \<and>
     us_links s' = us_links s \<and> us_master_key s' = us_master_key s \<and> us_key_was_reset s' = us_key_was_reset s \<and>
     us_found s' = us_found s \<and> us_received s' = us_received s \<and> us_counter s' = us_counter s \<and>
     us_scanning s' = us_scanning s \<and> us_targets s' = us_targets s \<and> us_index s' = us_index s \<and>
     us_candidates s' = us_candidates s \<and>
     length (us_buffer s') = length (us_buffer s) \<and> (\<exists>l. us_sent s' = us_sent s @ l)"

lemma sending_keeps_fields:
  assumes "sending_keeps e s s'"
  shows "us_scan_timer s' = us_scan_timer s" "us_tag s' = us_tag s" "us_chunks s' = us_chunks s" "us_manager s' = us_manager s"
    "us_links s' = us_links s" "us_master_key s' = us_master_key s" "us_key_was_reset s' = us_key_was_reset s"
    "us_found s' = us_found s" "us_received s' = us_received s" "us_counter s' = us_counter s" "us_scanning s' = us_scanning s"
    "us_targets s' = us_targets s" "us_index s' = us_index s" "us_candidates s' = us_candidates s"
    "length (us_buffer s') = length (us_buffer s)" "udp_wf e s' = udp_wf e s"
  using assms by (simp_all add: sending_keeps_def udp_wf_def)

lemma sending_keeps_sent: "sending_keeps e s s' \<Longrightarrow> set (us_sent s) \<subseteq> set (us_sent s')"
  by (auto simp: sending_keeps_def)

lemma sending_keeps_overrun: "sending_keeps e s s' \<Longrightarrow> udp_wf e s \<Longrightarrow> us_overrun s' = us_overrun s"
  by (simp add: sending_keeps_def)

lemma sending_keeps_refl [simp]: "sending_keeps e s s"
  by (simp add: sending_keeps_def)

lemma sending_keeps_trans:
  assumes "sending_keeps e s s'" "sending_keeps e s' s''"
  shows "sending_keeps e s s''"
proof -
  note f = sending_keeps_fields [OF assms(1)] sending_keeps_fields [OF assms(2)]
  have "\<exists>l. us_sent s'' = us_sent s @ l" using assms by (auto simp: sending_keeps_def)
  moreover have "udp_wf e s \<longrightarrow> us_overrun s'' = us_overrun s" using sending_keeps_overrun assms f(16) by metis
  ultimately show ?thesis unfolding sending_keeps_def by (simp add: f)
qed

lemma sends_fold_keeps: "(\<And>x s. sending_keeps e s (f x s)) \<Longrightarrow> sending_keeps e s (fold f l s)"
  by (induction l arbitrary: s) (auto intro: sending_keeps_trans)

lemma write_datagram_keeps [simp]: "sending_keeps e s (write_datagram ok n d s)"
  by (simp add: sending_keeps_def write_datagram_def)

lemma write_datagram_after: "sending_keeps e s s' \<Longrightarrow> sending_keeps e s (write_datagram ok n d s')"
  by (rule sending_keeps_trans [OF _ write_datagram_keeps])

lemma put_at_length: "put_at i bs mem = Inr mem' \<Longrightarrow> length mem' = length mem"
  by (auto simp: put_at_def split: if_splits)

lemma writeMessageToBuffer_length:
  "writeMessageToBuffer b sz h (Some body) = Inr (n, b') \<Longrightarrow> length b' = length b"
  by (auto simp: writeMessageToBuffer_def serializeToArray_def dest!: put_at_length split: if_splits sum.splits)

lemma write_stays_in_buffer:
  assumes "header_wf h" "HEADER_SIZE \<le> unat n" "unat n \<le> length b"
  shows "writeMessageToBuffer b n h (Some body) \<noteq> Inl x"
proof -
  have "unat (n - header_size32) = unat n - HEADER_SIZE" by (rule header_size_sub [OF assms(2)])
  then show ?thesis using assms
    by (auto simp: writeMessageToBuffer_def serializeToArray_def put_at_def split: if_splits)
qed

lemma write_buffer_keeps: "sending_keeps e s (snd (write_buffer e m s))"
proof (cases "writeMessageToBuffer (us_buffer s) (ue_max e) (own_header e m s) (Some (ue_ser e m))")
  case (Inl x)
  then have "\<not> udp_wf e s"
    using write_stays_in_buffer [of "own_header e m s" "ue_max e" "us_buffer s" "ue_ser e m" x]
    by (auto simp: udp_wf_def header_wf_def own_header_def)
  then show ?thesis using Inl by (simp add: write_buffer_def own_header_def [symmetric] sending_keeps_def Let_def)
next
  case (Inr q)
  then show ?thesis
    by (cases q) (simp add: write_buffer_def own_header_def [symmetric] sending_keeps_def Let_def writeMessageToBuffer_length)
qed

lemma sendUnicastIMAlive_keeps [simp]: "sending_keeps e s (sendUnicastIMAlive e ok m d s)"
proof -
  let ?m = "M_im_alive ((own_im_alive e m s)\<lparr>ia_tag := us_tag s\<rparr>)"
  obtain n s' where w: "write_buffer e ?m s = (n, s')" by fastforce
  then have "sending_keeps e s s'" using write_buffer_keeps [of e s ?m] by simp
  then show ?thesis unfolding sendUnicastIMAlive_def w by (simp add: write_datagram_after)
qed

lemma sendBroadcastIMAlive_keeps [simp]: "sending_keeps e s (sendBroadcastIMAlive e ok s)"
  unfolding sendBroadcastIMAlive_def Let_def by (rule sends_fold_keeps) (simp split: option.split)

lemma send_to_peer_keeps [simp]: "sending_keeps e s (snd (send_to_peer e ok m i s))"
proof -
  obtain n s' where w: "write_buffer e m s = (n, s')" by fastforce
  then have "sending_keeps e s s'" using write_buffer_keeps [of e s m] by simp
  then show ?thesis unfolding send_to_peer_def w by (simp add: write_datagram_after Let_def split: option.split)
qed

lemma own_datagram_manager: "us_manager s = us_manager s' \<Longrightarrow> own_datagram e m s = own_datagram e m s'"
  by (simp add: own_datagram_def own_header_def)

lemma own_datagram_buffer [simp]: "own_datagram e m (s\<lparr>us_buffer := b\<rparr>) = own_datagram e m s"
  by (rule own_datagram_manager) simp

subsection \<open>The exchange of the owned chunks\<close>

definition heartbeat :: "udp_env \<Rightarrow> 64 word \<Rightarrow> qstring list \<Rightarrow> im_alive \<Rightarrow> (nat \<times> hash) list \<Rightarrow> udp_state \<Rightarrow> im_alive" where
  "heartbeat e tag rooms m cs s = (own_im_alive e m s)\<lparr>ia_tag := tag, ia_chunks := map snd cs, ia_rooms := rooms\<rparr>"

lemma own_im_alive_manager:
  "us_manager s = us_manager s' \<Longrightarrow> us_master_key s = us_master_key s' \<Longrightarrow> own_im_alive e m s = own_im_alive e m s'"
  by (simp add: own_im_alive_def)

lemma send_multicast_keeps:
  "sending_keeps e s (snd (send_multicast e ok m s))"
proof -
  obtain n s' where w: "write_buffer e m s = (n, s')" by fastforce
  then have k: "sending_keeps e s s'" using write_buffer_keeps [of e s m] by simp
  then have "sending_keeps e s (write_datagram True n Multicast_group s')" by (rule write_datagram_after)
  then show ?thesis using k unfolding send_multicast_def w by (simp add: sending_keeps_def Let_def)
qed

lemma send_multicast_sent:
  assumes "udp_wf e s" "msg_fits e m"
  shows "us_sent (snd (send_multicast e True m s)) = us_sent s @ [(Multicast_group, own_datagram e m s)]"
  using assms by (simp add: send_multicast_def write_buffer_fits datagram_size_nonzero write_datagram_def)

text \<open>A scan: its timer runs exactly while it is on, and it has no targets otherwise.\<close>

definition scan_ok :: "udp_state \<Rightarrow> bool" where
  "scan_ok s \<longleftrightarrow> (us_scan_timer s \<longleftrightarrow> us_scanning s) \<and> us_index s \<le> length (us_targets s) \<and>
     (us_scanning s \<longleftrightarrow> us_targets s \<noteq> [])"

lemma runSubnetScan_scan_ok: "scan_ok s \<Longrightarrow> scan_ok (runSubnetScan e s)"
proof -
  assume ok: "scan_ok s"
  define ts where "ts = concat (map (\<lambda>i. if iface_selected e i then entries_targets (ni_entries i) else []) (ue_interfaces e))"
  have "runSubnetScan e s = (if us_scanning s then s
      else if ts = [] then s\<lparr>us_targets := ts\<rparr> else s\<lparr>us_targets := ts, us_index := 0, us_scanning := True, us_scan_timer := True\<rparr>)"
    unfolding runSubnetScan_def ts_def Let_def by simp
  with ok show ?thesis by (auto simp: scan_ok_def)
qed

lemma propagateIMAlive_keeps:
  "us_tag (propagateIMAlive e ok m s) = us_tag s" "us_chunks (propagateIMAlive e ok m s) = us_chunks s"
  "us_manager (propagateIMAlive e ok m s) = us_manager s" "us_links (propagateIMAlive e ok m s) = us_links s"
  "us_master_key (propagateIMAlive e ok m s) = us_master_key s"
  "us_key_was_reset (propagateIMAlive e ok m s) = us_key_was_reset s"
  "length (us_buffer (propagateIMAlive e ok m s)) = length (us_buffer s)"
  "us_candidates (propagateIMAlive e ok m s) = []"
  "us_found (propagateIMAlive e ok m s) = us_found s" "us_received (propagateIMAlive e ok m s) = us_received s"
  "set (us_sent s) \<subseteq> set (us_sent (propagateIMAlive e ok m s))"
  "udp_wf e s \<Longrightarrow> us_overrun (propagateIMAlive e ok m s) = us_overrun s"
  "scan_ok s \<Longrightarrow> scan_ok (propagateIMAlive e ok m s)"
proof -
  define s4 where "s4 = sendBroadcastIMAlive e ok s"
  define s5 where "s5 = fold (\<lambda>i s. case pe_IP (peer_at i (us_manager s)) of None \<Rightarrow> s
      | Some a \<Rightarrow> write_datagram ok (buffer_message_size s4) (To_address a (ue_multicast_port e)) s) (getPeers (us_manager s4)) s4"
  define s6 where "s6 = fold (\<lambda>(a, p). sendUnicastIMAlive e ok m (To_address a p)) (us_candidates s5) (s5\<lparr>us_candidates := []\<rparr>)"
  have s': "propagateIMAlive e ok m s = (if \<not> us_scanning s6 \<and> us_counter s6 mod 12 = 1 then runSubnetScan e s6 else s6)"
    by (simp add: propagateIMAlive_def Let_def s4_def [symmetric] s5_def [symmetric] us_takeGossipCandidates_def s6_def [symmetric])
  have k4: "sending_keeps e s s4" by (simp add: s4_def)
  have k5: "sending_keeps e s4 s5" unfolding s5_def by (rule sends_fold_keeps) (simp split: option.split)
  have k6: "sending_keeps e (s5\<lparr>us_candidates := []\<rparr>) s6"
    unfolding s6_def by (rule sends_fold_keeps) (simp split: prod.split)
  note k = sending_keeps_fields [OF k4] sending_keeps_fields [OF k5] sending_keeps_fields [OF k6]
  have wf: "udp_wf e (s5\<lparr>us_candidates := []\<rparr>) = udp_wf e s4" using k by (simp add: udp_wf_def)
  have f: "us_tag s6 = us_tag s" "us_chunks s6 = us_chunks s" "us_manager s6 = us_manager s" "us_links s6 = us_links s"
    "us_master_key s6 = us_master_key s" "us_key_was_reset s6 = us_key_was_reset s" "length (us_buffer s6) = length (us_buffer s)"
    "us_scanning s6 = us_scanning s" "us_targets s6 = us_targets s" "us_index s6 = us_index s" "us_scan_timer s6 = us_scan_timer s"
    "us_candidates s6 = []" "us_counter s6 = us_counter s" "us_found s6 = us_found s" "us_received s6 = us_received s"
    by (simp_all add: k)
  have o: "udp_wf e s \<Longrightarrow> us_overrun s6 = us_overrun s"
    using sending_keeps_overrun [OF k4] sending_keeps_overrun [OF k5] sending_keeps_overrun [OF k6] wf k by simp
  have sent: "set (us_sent s) \<subseteq> set (us_sent s6)"
    using sending_keeps_sent [OF k4] sending_keeps_sent [OF k5] sending_keeps_sent [OF k6] by auto
  show "us_tag (propagateIMAlive e ok m s) = us_tag s" "us_chunks (propagateIMAlive e ok m s) = us_chunks s"
    "us_manager (propagateIMAlive e ok m s) = us_manager s" "us_links (propagateIMAlive e ok m s) = us_links s"
    "us_master_key (propagateIMAlive e ok m s) = us_master_key s"
    "us_key_was_reset (propagateIMAlive e ok m s) = us_key_was_reset s"
    "length (us_buffer (propagateIMAlive e ok m s)) = length (us_buffer s)"
    "us_candidates (propagateIMAlive e ok m s) = []"
    "us_found (propagateIMAlive e ok m s) = us_found s" "us_received (propagateIMAlive e ok m s) = us_received s"
    by (simp_all add: s' runSubnetScan_def Let_def f)
  show "set (us_sent s) \<subseteq> set (us_sent (propagateIMAlive e ok m s))"
    using sent by (simp add: s' runSubnetScan_def Let_def)
  show "udp_wf e s \<Longrightarrow> us_overrun (propagateIMAlive e ok m s) = us_overrun s"
    using o by (simp add: s' runSubnetScan_def Let_def)
  show "scan_ok s \<Longrightarrow> scan_ok (propagateIMAlive e ok m s)"
    unfolding s' using runSubnetScan_scan_ok [of s6 e] by (simp add: scan_ok_def f)
qed

text \<open>What a heartbeat leaves, whatever else is sent after it.\<close>

lemma sendIMAliveMessage_state:
  assumes run: "sendIMAliveMessage e ok ok' tag rooms m s = Some s'"
  obtains cs n where "us_tag s' = tag" "us_chunks s' = cs" "us_manager s' = us_manager s"
    "us_links s' = us_links s @ map (\<lambda>(c, h). (c, Self_peer, ue_complete e h)) cs"
    "cs = (case us_next s of FIRST_HASHES \<Rightarrow> ue_first_chunks e n | OLDEST_HASHES \<Rightarrow> ue_oldest_chunks e n)"
    "number_of_hashes e (getNbOfPeers (us_manager s)) (length (ue_ser e (M_im_alive ((own_im_alive e m s)\<lparr>ia_tag := tag\<rparr>)))) = Some n"
    "us_master_key s' = us_master_key s" "us_key_was_reset s' = us_key_was_reset s" "length (us_buffer s') = length (us_buffer s)"
    "us_candidates s' = []" "udp_wf e s \<Longrightarrow> us_overrun s' = us_overrun s" "scan_ok s \<Longrightarrow> scan_ok s'"
    "udp_wf e s \<Longrightarrow> ok \<Longrightarrow> msg_fits e (M_im_alive (heartbeat e tag rooms m cs s)) \<Longrightarrow>
       (Multicast_group, own_datagram e (M_im_alive (heartbeat e tag rooms m cs s)) s) \<in> set (us_sent s')"
proof -
  let ?msg0 = "(own_im_alive e m s)\<lparr>ia_tag := tag\<rparr>"
  have o: "own_im_alive e m (s\<lparr>us_tag := tag\<rparr>) = own_im_alive e m s" by (rule own_im_alive_manager) simp_all
  obtain n where n: "number_of_hashes e (getNbOfPeers (us_manager s)) (length (ue_ser e (M_im_alive ?msg0))) = Some n"
    using run by (auto simp: sendIMAliveMessage_def o Let_def split: option.splits)
  define cs where "cs = (case us_next s of FIRST_HASHES \<Rightarrow> ue_first_chunks e n | OLDEST_HASHES \<Rightarrow> ue_oldest_chunks e n)"
  define s1 where "s1 = choose_chunks e n (s\<lparr>us_tag := tag\<rparr>)"
  have s1: "us_chunks s1 = cs" "us_tag s1 = tag" "us_links s1 = us_links s" "us_manager s1 = us_manager s"
      "us_master_key s1 = us_master_key s" "us_buffer s1 = us_buffer s" "us_sent s1 = us_sent s"
      "us_key_was_reset s1 = us_key_was_reset s" "us_overrun s1 = us_overrun s" "us_scanning s1 = us_scanning s"
      "us_scan_timer s1 = us_scan_timer s" "us_targets s1 = us_targets s" "us_index s1 = us_index s"
    by (simp_all add: s1_def choose_chunks_def cs_def split: hash_request_type.split)
  define s2 where "s2 = s1\<lparr>us_links := us_links s @ map (\<lambda>(c, h). (c, Self_peer, ue_complete e h)) cs\<rparr>"
  let ?msg = "M_im_alive (heartbeat e tag rooms m cs s)"
  define s3 where "s3 = snd (send_multicast e ok ?msg s2)"
  have "sending_keeps e s2 s3" unfolding s3_def by (rule send_multicast_keeps)
  note k3 = sending_keeps_fields [OF this] and o3 = sending_keeps_overrun [OF this]
  have s': "s' = propagateIMAlive e ok' m (s3\<lparr>us_counter := us_counter s3 + 1\<rparr>)"
    using run by (simp add: sendIMAliveMessage_def o n Let_def s1_def [symmetric] s1 s2_def s3_def heartbeat_def)
  show thesis
  proof (rule that)
    show "us_tag s' = tag" "us_chunks s' = cs" "us_manager s' = us_manager s"
      "us_links s' = us_links s @ map (\<lambda>(c, h). (c, Self_peer, ue_complete e h)) cs"
      "us_master_key s' = us_master_key s" "us_key_was_reset s' = us_key_was_reset s"
      "length (us_buffer s') = length (us_buffer s)" "us_candidates s' = []"
      by (simp_all add: s' propagateIMAlive_keeps k3) (simp_all add: s2_def s1)
    show "us_overrun s' = us_overrun s" if "udp_wf e s"
    proof -
      have "udp_wf e s2" "udp_wf e (s3\<lparr>us_counter := us_counter s3 + 1\<rparr>)"
        using that by (simp_all add: udp_wf_def k3) (simp_all add: s2_def s1)
      then show ?thesis using o3 by (simp add: s' propagateIMAlive_keeps) (simp add: s2_def s1)
    qed
    show "scan_ok s'" if "scan_ok s"
    proof -
      have "scan_ok (s3\<lparr>us_counter := us_counter s3 + 1\<rparr>)" using that by (simp add: scan_ok_def k3) (simp add: s2_def s1)
      then show ?thesis unfolding s' by (rule propagateIMAlive_keeps)
    qed
    show "(Multicast_group, own_datagram e ?msg s) \<in> set (us_sent s')"
      if "udp_wf e s" "ok" "msg_fits e ?msg"
    proof -
      have "udp_wf e s2" using that(1) by (simp add: udp_wf_def s2_def s1)
      then have "us_sent s3 = us_sent s2 @ [(Multicast_group, own_datagram e ?msg s2)]"
        unfolding s3_def using that send_multicast_sent by simp
      moreover have "own_datagram e ?msg s2 = own_datagram e ?msg s" by (rule own_datagram_manager) (simp add: s2_def s1)
      ultimately show ?thesis
        using propagateIMAlive_keeps(11) [of "s3\<lparr>us_counter := us_counter s3 + 1\<rparr>" e ok' m] by (auto simp: s')
    qed
  qed (use n in \<open>simp_all add: cs_def\<close>)
qed

subsection \<open>The receiver\<close>

lemma updatePeer_at:
  assumes "\<not> hash_isNull i" "i \<noteq> pe_ID (pm_self m)"
  shows "getPeer i (updatePeer i a m) = Some (Other_peer i)"
    and "pe_IP (peer_at i (updatePeer i a m)) = ai_IP a" "pe_port (peer_at i (updatePeer i a m)) = ai_port a"
    and "pm_self (updatePeer i a m) = pm_self m"
proof -
  define m1 where "m1 = (if getPeer i m = None then m\<lparr>pm_peers := qmap_insert i (new_peer i []) (pm_peers m)\<rparr> else m)"
  have i: "i \<in> fst ` set (pm_peers m1)"
    using assms by (auto simp: m1_def qmap_insert_keys getPeer_def split: if_splits)
  have self: "pm_self m1 = pm_self m" by (simp add: m1_def)
  define m2 where "m2 = on_peer i (update a) m1"
  have u: "updatePeer i a m = m2 \<or> updatePeer i a m = emit (Becomes_available i) m2"
    using assms by (simp add: updatePeer_def m1_def [symmetric] m2_def [symmetric] Let_def)
  have at: "peer_at i m2 = update a (peer_at i m1)" unfolding m2_def by (rule peer_at_on_peer [OF i])
  have at': "peer_at i (emit (Becomes_available i) m2) = peer_at i m2" by (simp add: peer_at_def emit_def)
  have keys: "fst ` set (pm_peers m2) = fst ` set (pm_peers m1)" "pm_self m2 = pm_self m" by (simp_all add: m2_def self)
  show "getPeer i (updatePeer i a m) = Some (Other_peer i)"
    using u assms(1,2) i keys by (elim disjE) (simp_all add: getPeer_def emit_def)
  show "pe_IP (peer_at i (updatePeer i a m)) = ai_IP a" "pe_port (peer_at i (updatePeer i a m)) = ai_port a"
    using u at at' by (auto simp: update_def)
  show "pm_self (updatePeer i a m) = pm_self m" using u keys by (auto simp: emit_def)
qed

lemma adopt_fields [simp]:
  "us_manager (adopt_master_key m s) = us_manager s" "us_sent (adopt_master_key m s) = us_sent s"
  "us_buffer (adopt_master_key m s) = us_buffer s" "us_links (adopt_master_key m s) = us_links s"
  "us_tag (adopt_master_key m s) = us_tag s" "us_chunks (adopt_master_key m s) = us_chunks s"
  by (simp_all add: adopt_master_key_def split: option.split)

lemma send_to_other_peer:
  assumes "udp_wf e s" "msg_fits e m" "getPeer i (us_manager s) = Some (Other_peer i)"
    and "pe_IP (peer_at i (us_manager s)) = Some a"
  shows "us_sent (snd (send_to_peer e True m i s)) =
    us_sent s @ [(To_address a (pe_port (peer_at i (us_manager s))), own_datagram e m s)]"
  using assms by (simp add: send_to_peer_def Let_def write_buffer_fits datagram_size_nonzero write_datagram_def)

lemma on_im_alive_answers:
  assumes wf: "udp_wf e s" and i: "\<not> hash_isNull i" "i \<noteq> pe_ID (pm_self (us_manager s))"
    and hs: "\<forall>h \<in> set hs. hash_wf h" "ia_chunks x = hs"
    and fits: "msg_fits e (M_chunks_owned (ia_tag x) (map (ue_owns e) hs))"
  shows "us_sent (on_im_alive e True a x i s) = us_sent s @
    (if \<exists>h \<in> set hs. ue_owns e h
     then [(To_address a (ucast (ia_port x)), own_datagram e (M_chunks_owned (ia_tag x) (map (ue_owns e) hs)) s)] else [])"
proof -
  define s1 where "s1 = adopt_master_key x (s\<lparr>us_manager := updatePeer i (alive_of a x) (us_manager s)\<rparr>)"
  have s1: "us_manager s1 = updatePeer i (alive_of a x) (us_manager s)" "us_sent s1 = us_sent s" "us_buffer s1 = us_buffer s"
    by (simp_all add: s1_def)
  note at = updatePeer_at [OF i, of "alive_of a x"]
  have wf1: "udp_wf e s1" using wf by (simp add: udp_wf_def s1 at)
  have d: "own_datagram e m s1 = own_datagram e m s" for m by (simp add: own_datagram_def own_header_def s1 at)
  have ai: "ai_IP (alive_of a x) = Some a" "ai_port (alive_of a x) = ucast (ia_port x)" by (simp_all add: alive_of_def)
  have sent: "us_sent (snd (send_to_peer e True (M_chunks_owned (ia_tag x) (map (ue_owns e) hs)) i s1)) =
      us_sent s @ [(To_address a (ucast (ia_port x)), own_datagram e (M_chunks_owned (ia_tag x) (map (ue_owns e) hs)) s)]"
    using send_to_other_peer [OF wf1 fits, of i a] by (simp add: s1 at d ai)
  have "map hash_of_string hs = hs" using hs by (simp add: hash_of_string_id map_idI)
  then have "answer_chunks e True x i s1 = (if \<exists>h \<in> set hs. ue_owns e h
      then snd (send_to_peer e True (M_chunks_owned (ia_tag x) (map (ue_owns e) hs)) i s1) else s1)"
    using hs(2) by (auto simp: answer_chunks_def haveChunks_def Let_def split: list.split)
  then show ?thesis using sent unfolding on_im_alive_def s1_def [symmetric] by (simp add: s1)
qed

lemma own_header_fields [simp]:
  "h_type (own_header e m s) = msg_type m" "h_senderID (own_header e m s) = pe_ID (pm_self (us_manager s))"
  by (simp_all add: own_header_def)

lemma own_header_not_null [simp]:
  "\<not> header_isNull (own_header e (M_im_alive x) s)" "\<not> header_isNull (own_header e (M_chunks_owned t b) s)"
  by (simp_all add: header_isNull_def type_code.simps)

lemma own_header_size:
  assumes "udp_wf e s" "msg_fits e m"
  shows "int (unat (h_size (own_header e m s))) = int (length (own_datagram e m s)) - int HEADER_SIZE"
proof -
  have u: "unat (h_size (own_header e m s)) = length (ue_ser e m)"
    using msg_fits_size [OF assms(2)] by (simp add: own_header_def word_size_fits)
  show ?thesis unfolding u own_datagram_length [OF assms(1)] by simp
qed

text \<open>
  C9: The exchange about chunks between two cores.  A core \<open>A\<close> sends a heartbeat with the chunks it
  looks for; a core \<open>B\<close> that gets the datagram answers to the address it came from, on the port the
  message names, exactly when it owns one of them, and \<open>A\<close>, given the answer while the heartbeat is its last
  one and \<open>B\<close> is available, adds \<open>B\<close> to each chunk that \<open>B\<close> owns and removes it from each one that it
  does not own.
\<close>

theorem chunk_ownership_exchange:
  fixes ea eb :: udp_env and sa sa' sb :: udp_state and tag :: "64 word" and rooms :: "qstring list" and m :: im_alive
    and a b :: address
  defines "ida \<equiv> pe_ID (pm_self (us_manager sa))" and "idb \<equiv> pe_ID (pm_self (us_manager sb))"
  defines "msg \<equiv> M_im_alive (heartbeat ea tag rooms m (us_chunks sa') sa)"
  defines "answer \<equiv> M_chunks_owned tag (map (ue_owns eb) (map snd (us_chunks sa')))"
  defines "sb' \<equiv> process_datagram multicast_message eb True (a, own_datagram ea msg sa) sb"
  assumes wf: "udp_wf ea sa" "udp_wf eb sb" "ida \<noteq> idb" "\<not> hash_isNull ida"
    and run: "sendIMAliveMessage ea True ok tag rooms m sa = Some sa'"
    and chunks: "\<forall>(c, h) \<in> set (us_chunks sa'). hash_wf h"
    and msg: "msg_fits ea msg" "ue_parse eb (body_class CORE_IM_ALIVE) (ue_ser ea msg) = Some msg"
    and answer: "msg_fits eb answer" "ue_parse ea (body_class CORE_CHUNKS_OWNED) (ue_ser eb answer) = Some answer"
    and known: "peer_available idb (us_manager sa) = Some (Other_peer idb)"
  shows "(Multicast_group, own_datagram ea msg sa) \<in> set (us_sent sa') \<and>
    us_sent sb' = us_sent sb @
      (if \<exists>(c, h) \<in> set (us_chunks sa'). ue_owns eb h
       then [(To_address a (ue_unicast_port ea), own_datagram eb answer sb)] else []) \<and>
    us_links (process_datagram unicast_message ea ok (b, own_datagram eb answer sb) sa') =
      us_links sa' @ map (\<lambda>(c, h). (c, Other_peer idb, ue_owns eb h)) (us_chunks sa')"
proof -
  let ?cs = "us_chunks sa'"
  from run obtain cs n where s': "us_tag sa' = tag" "cs = ?cs" "us_manager sa' = us_manager sa"
      "length (us_buffer sa') = length (us_buffer sa)"
    and sent: "udp_wf ea sa \<Longrightarrow> True \<Longrightarrow> msg_fits ea (M_im_alive (heartbeat ea tag rooms m cs sa)) \<Longrightarrow>
       (Multicast_group, own_datagram ea (M_im_alive (heartbeat ea tag rooms m cs sa)) sa) \<in> set (us_sent sa')"
    by (rule sendIMAliveMessage_state) auto
  have heartbeat_sent: "(Multicast_group, own_datagram ea msg sa) \<in> set (us_sent sa')"
    using sent msg(1) wf(1) unfolding msg_def s'(2) by blast
  let ?x = "heartbeat ea tag rooms m ?cs sa" and ?hs = "map snd ?cs"
  have x: "ia_chunks ?x = ?hs" "ia_tag ?x = tag" "ia_port ?x = ucast (ue_unicast_port ea)"
    by (simp_all add: heartbeat_def own_im_alive_def)
  have cls: "body_class_of_code (type_code t) = body_class t" for t by (simp add: body_class_of_code_def)
  let ?s1 = "sb\<lparr>us_buffer := own_datagram ea msg sa @ drop (length (own_datagram ea msg sa)) (us_buffer sb)\<rparr>"
  have acc: "accepted_header (length (own_datagram ea msg sa)) (own_header ea msg sa) (us_manager sb)"
    using wf own_header_size [OF wf(1) msg(1)] unfolding accepted_header_def msg_def ida_def idb_def by simp
  have sb': "sb' = multicast_message eb True a (own_header ea msg sa) msg ?s1"
    unfolding sb'_def
    by (rule own_datagram_read [OF wf(1,2) msg(1)]) (use msg acc in \<open>simp_all add: cls msg_def\<close>)
  have len: "length (own_datagram ea msg sa) \<le> length (us_buffer sb)"
    using wf msg(1) by (simp add: own_datagram_length msg_fits_def udp_wf_def)
  have wf1: "udp_wf eb ?s1" using wf(2) len by (simp add: udp_wf_def)
  have "us_sent (on_im_alive eb True a ?x ida ?s1) = us_sent ?s1 @
      (if \<exists>h \<in> set ?hs. ue_owns eb h
       then [(To_address a (ucast (ia_port ?x)), own_datagram eb (M_chunks_owned (ia_tag ?x) (map (ue_owns eb) ?hs)) ?s1)] else [])"
    by (rule on_im_alive_answers [OF wf1]) (use wf chunks answer(1) in \<open>auto simp: x answer_def idb_def case_prod_beta\<close>)
  moreover have "(\<exists>h \<in> set ?hs. ue_owns eb h) = (\<exists>(c, h) \<in> set ?cs. ue_owns eb h)" by (auto simp: case_prod_beta)
  moreover have "ucast (ia_port ?x) = ue_unicast_port ea" unfolding x by (rule bit_word_eqI) (simp add: bit_simps)
  ultimately have answered: "us_sent sb' = us_sent sb @
      (if \<exists>(c, h) \<in> set ?cs. ue_owns eb h then [(To_address a (ue_unicast_port ea), own_datagram eb answer sb)] else [])"
    unfolding sb' by (simp add: multicast_message_def received_def msg_def x answer_def ida_def)
  let ?s2 = "sa'\<lparr>us_buffer := own_datagram eb answer sb @ drop (length (own_datagram eb answer sb)) (us_buffer sa')\<rparr>"
  have wfa: "udp_wf ea sa'" using wf(1) s' by (simp add: udp_wf_def)
  have av: "getPeer idb (us_manager sa) = Some (Other_peer idb)" "pe_alive (peer_at idb (us_manager sa))"
    using known by (auto simp: peer_available_def isAvailable_def split: option.splits peer_ref.splits if_splits)
  have acc: "accepted_header (length (own_datagram eb answer sb)) (own_header eb answer sb) (us_manager sa')"
    using wf av s' own_header_size [OF wf(2) answer(1)] unfolding accepted_header_def answer_def ida_def
    by (simp add: idb_def [symmetric])
  have "process_datagram unicast_message ea ok (b, own_datagram eb answer sb) sa' =
      unicast_message ea ok b (own_header eb answer sb) answer ?s2"
    by (rule own_datagram_read [OF wf(2) wfa answer(1)]) (use answer acc in \<open>simp_all add: cls answer_def\<close>)
  moreover have "map (\<lambda>((c, _), y). (c, r, y)) (zip l (map f (map snd l))) = map (\<lambda>(c, h). (c, r, f h)) l" for r f and l :: "(nat \<times> hash) list"
    by (induction l) auto
  ultimately have linked: "us_links (process_datagram unicast_message ea ok (b, own_datagram eb answer sb) sa') =
      us_links sa' @ map (\<lambda>(c, h). (c, Other_peer idb, ue_owns eb h)) ?cs"
    using known s' by (simp add: unicast_message_def unicast_other_def answer_def on_chunks_owned_def received_def idb_def [symmetric])
  show ?thesis by (intro conjI) (rule heartbeat_sent, rule answered, rule linked)
qed

text \<open>Two cores: the second owns the first of two chunks; messages are encoded by their chunks, rooms and states.\<close>

definition demo_hash :: "byte \<Rightarrow> hash" where
  "demo_hash b = replicate HASH_SIZE b"

definition demo_alive :: im_alive where
  "demo_alive = \<lparr>ia_version = 0, ia_core_version = [], ia_port = 0, ia_nick = [], ia_amount = 0, ia_download_rate = 0,
     ia_upload_rate = 0, ia_lan_speed = 0, ia_tag = 0, ia_chunks = [], ia_rooms = [], ia_master_key = None,
     ia_is_master = True, ia_http_port = 0\<rparr>"

fun demo_ser :: "udp_msg \<Rightarrow> byte list" where
  "demo_ser (M_im_alive x) = concat (ia_chunks x) @ map ucast (concat (ia_rooms x))"
| "demo_ser (M_chunks_owned t bits) = map (\<lambda>b. if b then 1 else 0) bits"
| "demo_ser _ = []"

definition demo_parse :: "im_alive \<Rightarrow> 64 word \<Rightarrow> proto_class \<Rightarrow> byte list \<Rightarrow> udp_msg option" where
  "demo_parse x t k bs =
     (if k = body_class CORE_IM_ALIVE
      then Some (M_im_alive (x\<lparr>ia_chunks := [take HASH_SIZE bs, drop HASH_SIZE bs]\<rparr>))
      else if k = body_class CORE_CHUNKS_OWNED then Some (M_chunks_owned t (map (\<lambda>b. b = 1) bs)) else None)"

definition demo_env :: "im_alive \<Rightarrow> 64 word \<Rightarrow> (hash \<Rightarrow> bool) \<Rightarrow> udp_env" where
  "demo_env x t owns =
     \<lparr>ue_ser = demo_ser, ue_parse = demo_parse x t, ue_max = 1000, ue_unicast_port = 59486, ue_multicast_port = 59486,
      ue_threshold = 3, ue_interface_name = [], ue_interfaces = [], ue_imalive_period = 5000, ue_max_throughput = 10000,
      ue_max_results = 100, ue_owns = owns, ue_complete = owns, ue_find = (\<lambda>_ _ _ _ _ _ _. []),
      ue_first_chunks = (\<lambda>_. [(0, demo_hash 7), (1, demo_hash 8)]), ue_oldest_chunks = (\<lambda>_. [])\<rparr>"

definition demo_listener :: "byte \<Rightarrow> byte \<Rightarrow> udp_state" where
  "demo_listener self other =
     new_listener (updatePeer (demo_hash other) ((alive_of 0 demo_alive)\<lparr>ai_version := PROTOCOL_VERSION\<rparr>)
       (new_manager (new_self (demo_hash self) [] 0 1)))"

lemma demo_hash_simps [simp]:
  "hash_wf (demo_hash b)" "demo_hash a = demo_hash b \<longleftrightarrow> a = b" "length (demo_hash b) = HASH_SIZE" "demo_hash b \<noteq> []"
  by (simp_all add: demo_hash_def hash_wf_def HASH_SIZE_def)

lemma demo_hash_null: "hash_isNull (demo_hash b) \<longleftrightarrow> b = 0"
  by (simp add: demo_hash_def hash_isNull_def NULL_HASH_def)

lemma demo_listener_simps:
  assumes "self \<noteq> other" "other \<noteq> 0"
  shows "udp_wf (demo_env x t owns) (demo_listener self other)"
    and "pe_ID (pm_self (us_manager (demo_listener self other))) = demo_hash self"
    and "peer_available (demo_hash other) (us_manager (demo_listener self other)) = Some (Other_peer (demo_hash other))"
    and "us_next (demo_listener self other) = FIRST_HASHES"
  using assms
  by (simp_all add: udp_wf_def demo_listener_def new_listener_def demo_env_def updatePeer_def new_manager_def new_self_def new_peer_def
      getPeer_def peer_at_def on_peer_def emit_def isAvailable_def isVersionCompatible_def update_def alive_of_def demo_hash_null
      peer_available_def BUFFER_SIZE_UDP_def HEADER_SIZE_36 Let_def demo_alive_def)

lemma chunk_ownership_exchange_witness:
  defines "ea \<equiv> demo_env demo_alive 5 (\<lambda>_. False)" and "sa \<equiv> demo_listener 1 2" and "sb \<equiv> demo_listener 2 1"
  defines "x \<equiv> heartbeat ea 5 [] demo_alive [(0, demo_hash 7), (1, demo_hash 8)] sa"
  defines "eb \<equiv> demo_env x 5 (\<lambda>h. h = demo_hash 7)"
  shows "\<exists>sa' d. sendIMAliveMessage ea True True 5 [] demo_alive sa = Some sa' \<and>
    us_sent (process_datagram multicast_message eb True (9, own_datagram ea (M_im_alive x) sa) sb) = us_sent sb @ [(To_address 9 59486, d)] \<and>
    us_links (process_datagram unicast_message ea True (9, d) sa') =
      us_links sa' @ [(0, Other_peer (demo_hash 2), True), (1, Other_peer (demo_hash 2), False)]"
proof -
  have ne: "(1::byte) \<noteq> 2" "(2::byte) \<noteq> 0" "(2::byte) \<noteq> 1" "(1::byte) \<noteq> 0" "(8::byte) \<noteq> 7" by simp_all
  note A = demo_listener_simps [OF ne(1,2), folded sa_def] and B = demo_listener_simps [OF ne(3,4), folded sb_def]
  let ?cs = "[(0 :: nat, demo_hash 7), (1, demo_hash 8)]"
  have "\<exists>n. number_of_hashes ea p k = Some n" for p k
    by (simp add: ea_def demo_env_def number_of_hashes_def max_hashes_of_peers_def Let_def)
  then obtain sa' where run: "sendIMAliveMessage ea True True 5 [] demo_alive sa = Some sa'"
    unfolding sendIMAliveMessage_def Let_def by (metis (no_types, lifting) option.simps(5))
  have cs: "us_chunks sa' = ?cs"
    using run by (rule sendIMAliveMessage_state) (simp add: A ea_def demo_env_def)
  have x: "ia_chunks x = map snd ?cs" "ia_rooms x = []" by (simp_all add: x_def heartbeat_def)
  have e: "ue_ser ea = demo_ser" "ue_ser eb = demo_ser" "ue_parse eb = demo_parse x 5" "ue_parse ea = demo_parse demo_alive 5"
    "ue_owns eb = (\<lambda>h. h = demo_hash 7)" "ue_max ea = 1000" "ue_max eb = 1000" "ue_unicast_port ea = 59486"
    by (simp_all add: ea_def eb_def demo_env_def)
  have px: "x\<lparr>ia_chunks := [demo_hash 7, demo_hash 8]\<rparr> = x" using x by simp
  note exchange = chunk_ownership_exchange [where ea = ea and eb = eb and sa = sa and sb = sb and tag = 5 and rooms = "[]" and m = demo_alive and
    sa' = sa' and ok = True and a = 9 and b = 9, unfolded cs, folded x_def]
  have len: "length (ue_ser ea (M_im_alive x)) = 56" "length (ue_ser eb (M_chunks_owned 5 [True, False])) = 2"
    by (simp_all add: e x HASH_SIZE_def)
  have fits: "msg_fits ea (M_im_alive x)" "msg_fits eb (M_chunks_owned 5 [True, False])"
    unfolding msg_fits_def len e(6,7) HEADER_SIZE_36 by simp_all
  have bits: "map (ue_owns eb) (map snd ?cs) = [True, False]" by (simp add: e(5))
  have owns: "\<exists>(c, h) \<in> set ?cs. ue_owns eb h" by (simp add: e(5))
  have "ue_ser ea (M_im_alive x) = demo_hash 7 @ demo_hash 8" by (simp add: e(1) x)
  then have p1: "ue_parse eb (body_class CORE_IM_ALIVE) (ue_ser ea (M_im_alive x)) = Some (M_im_alive x)"
    by (simp add: e(3) demo_parse_def px)
  have p2: "ue_parse ea (body_class CORE_CHUNKS_OWNED) (ue_ser eb (M_chunks_owned 5 [True, False])) = Some (M_chunks_owned 5 [True, False])"
    by (simp add: e(2,4) demo_parse_def)
  have ids: "demo_hash 1 \<noteq> demo_hash 2" "\<not> hash_isNull (demo_hash 1)" by (simp_all add: demo_hash_null)
  have hs: "\<forall>(c, h) \<in> set ?cs. hash_wf h" by simp
  have wf: "udp_wf ea sa" "udp_wf eb sb" unfolding ea_def eb_def by (rule A(1), rule B(1))
  note ex = exchange [unfolded A(2) B(2) bits, OF wf ids run hs fits(1) p1 fits(2) p2 A(3)]
  let ?d = "own_datagram eb (M_chunks_owned 5 [True, False]) sb"
  have 1: "us_sent (process_datagram multicast_message eb True (9, own_datagram ea (M_im_alive x) sa) sb) =
      us_sent sb @ [(To_address 9 59486, ?d)]"
    using ex [THEN conjunct2, THEN conjunct1] unfolding if_P [OF owns] e(8) .
  have 2: "us_links (process_datagram unicast_message ea True (9, ?d) sa') =
      us_links sa' @ [(0, Other_peer (demo_hash 2), True), (1, Other_peer (demo_hash 2), False)]"
    using ex [THEN conjunct2, THEN conjunct2] by (simp add: e(5))
  show ?thesis by (intro exI conjI) (rule run, rule 1, rule 2)
qed

end
