(* ===== verification/Udp_Scan.thy ===== *)
theory Udp_Scan
  imports Udp_Discovery
begin

text \<open>
  The scan of the subnets: the addresses it probes and its end; and the number of hashes a heartbeat asks
  for, with the arithmetic of 32 and 64 bits it is computed in.
\<close>

unbundle bit_operations_syntax

subsection \<open>The addresses of a subnet\<close>

lemma host_targets_eq:
  "host_targets ip network k h = filter (\<lambda>x. x \<noteq> ip) (map (\<lambda>j. network + h + word_of_nat j) [0..<k])"
proof (induction k arbitrary: h)
  case (Suc k)
  have "map (\<lambda>j. network + h + word_of_nat j) [0..<Suc k] = (network + h) # map (\<lambda>j. network + (h + 1) + word_of_nat j) [0..<k]"
    by (rule nth_equalityI) (auto simp: nth_Cons algebra_simps split: nat.split simp del: upt_Suc)
  then show ?case using Suc by (simp del: upt_Suc)
qed simp

lemma add_low_bits:
  fixes x :: "32 word"
  assumes "j < 2 ^ k" "k \<le> 32"
  shows "(x AND NOT (mask k)) + word_of_nat j = (x AND NOT (mask k)) OR word_of_nat j"
    "((x AND NOT (mask k)) OR word_of_nat j) AND NOT (mask k) = x AND NOT (mask k)"
    "((x AND NOT (mask k)) OR word_of_nat j) AND mask k = word_of_nat j"
proof -
  have j: "\<not> bit (word_of_nat j :: 32 word) n" if "k \<le> n" for n
  proof
    assume b: "bit (word_of_nat j :: 32 word) n"
    then have "bit j n" by (simp add: bit_simps)
    moreover have "j < 2 ^ n" using assms(1) that by (meson less_le_trans power_increasing one_le_numeral)
    ultimately show False by (simp add: bit_iff_odd)
  qed
  show "(x AND NOT (mask k)) + word_of_nat j = (x AND NOT (mask k)) OR word_of_nat j"
    by (rule disjunctive_add) (use j in \<open>auto simp: bit_simps\<close>)
  show "((x AND NOT (mask k)) OR word_of_nat j) AND NOT (mask k) = x AND NOT (mask k)"
    "((x AND NOT (mask k)) OR word_of_nat j) AND mask k = word_of_nat j"
    by (rule bit_word_eqI; use j in \<open>auto simp: bit_simps dest: not_le_imp_less\<close>)+
qed

lemma subnet_split:
  fixes x :: "32 word"
  assumes "k < 32"
  shows "x = (x AND NOT (mask k)) + word_of_nat (unat (x AND mask k))" "unat (x AND mask k) < 2 ^ k"
proof -
  have "(2 :: nat) ^ k < 2 ^ 32" by (rule power_strict_increasing [OF assms]) simp
  then have "unat (2 ^ k :: 32 word) = 2 ^ k" using word_size_fits [of "2 ^ k"] by simp
  then show lt: "unat (x AND mask k) < 2 ^ k"
    using and_mask_less' [of k x] assms by (simp add: word_less_nat_alt)
  show "x = (x AND NOT (mask k)) + word_of_nat (unat (x AND mask k))"
    unfolding add_low_bits(1) [OF lt less_imp_le [OF assms]] by (rule bit_word_eqI) (auto simp: bit_simps)
qed

lemma subnet_hosts_mask: "subnet_hosts ip (NOT (mask k)) = mask k - 1"
proof -
  let ?n = "ip AND NOT (mask k)"
  have "?n OR NOT (NOT (mask k)) = ?n + mask k"
    by (simp, rule disjunctive_add [symmetric]) (auto simp: bit_simps)
  then show ?thesis by (simp add: subnet_hosts_def Let_def)
qed

lemma subnet_hosts_prefix:
  assumes "1 \<le> k" "k < 32"
  shows "unat (subnet_hosts ip (NOT (mask k))) = 2 ^ k - 2"
proof -
  have le: "(2 :: nat) \<le> 2 ^ k" using power_increasing [of 1 k "2 :: nat"] assms by simp
  then have h: "subnet_hosts ip (NOT (mask k)) = word_of_nat (2 ^ k - 2)"
    unfolding subnet_hosts_mask by (simp add: mask_eq_exp_minus_1 of_nat_diff)
  have "(2 :: nat) ^ k < 2 ^ 32" by (rule power_strict_increasing) (use assms in simp_all)
  then show ?thesis unfolding h by (intro word_size_fits) simp
qed



subsection \<open>The scan\<close>

definition probe :: "udp_env \<Rightarrow> im_alive \<Rightarrow> udp_state \<Rightarrow> udp_msg" where
  "probe e m s = M_im_alive ((own_im_alive e m s)\<lparr>ia_tag := us_tag s\<rparr>)"

lemma sendUnicastIMAlive_sent:
  assumes "udp_wf e s" "msg_fits e (probe e m s)"
  shows "us_sent (sendUnicastIMAlive e True m d s) = us_sent s @ [(d, own_datagram e (probe e m s) s)]"
  using assms unfolding sendUnicastIMAlive_def probe_def [symmetric]
  by (simp add: write_buffer_fits datagram_size_nonzero write_datagram_def)

lemma probe_keeps: "us_manager s' = us_manager s \<Longrightarrow> us_master_key s' = us_master_key s \<Longrightarrow> us_tag s' = us_tag s \<Longrightarrow> probe e m s' = probe e m s"
  by (simp add: probe_def own_im_alive_def)

text \<open>
  C27: A scan ends after one tick of its timer for each target and one more; it has then sent one
  \<open>IM_ALIVE\<close> to each of the targets in their order, and another scan can start.
\<close>

theorem scan_probes_each_target:
  assumes start: "us_targets s = ts" "us_index s = 0"
    and fits: "udp_wf e s" "msg_fits e (probe e m s)"
  defines "tick \<equiv> sendNextSubnetScanProbe e True m"
  shows "us_sent ((tick ^^ (length ts + 1)) s) =
      us_sent s @ map (\<lambda>t. (To_ipv4 t (ue_multicast_port e), own_datagram e (probe e m s) s)) ts \<and>
    \<not> us_scanning ((tick ^^ (length ts + 1)) s) \<and> \<not> us_scan_timer ((tick ^^ (length ts + 1)) s) \<and>
    us_targets ((tick ^^ (length ts + 1)) s) = []"
proof -
  let ?d = "own_datagram e (probe e m s) s" and ?f = "\<lambda>t. (To_ipv4 t (ue_multicast_port e), own_datagram e (probe e m s) s)"
  have "k \<le> length ts \<Longrightarrow> us_sent ((tick ^^ k) s) = us_sent s @ map ?f (take k ts) \<and> us_index ((tick ^^ k) s) = k \<and>
      us_targets ((tick ^^ k) s) = ts \<and> us_manager ((tick ^^ k) s) = us_manager s \<and>
      us_master_key ((tick ^^ k) s) = us_master_key s \<and> us_tag ((tick ^^ k) s) = us_tag s \<and>
      length (us_buffer ((tick ^^ k) s)) = length (us_buffer s)" for k
  proof (induction k)
    case 0
    then show ?case using start by simp
  next
    case (Suc k)
    define s1 where "s1 = (tick ^^ k) s"
    define s2 where "s2 = s1\<lparr>us_index := us_index s1 + 1\<rparr>"
    have IH: "us_sent s1 = us_sent s @ map ?f (take k ts)" "us_index s1 = k" "us_targets s1 = ts" "us_manager s1 = us_manager s"
      "us_master_key s1 = us_master_key s" "us_tag s1 = us_tag s" "length (us_buffer s1) = length (us_buffer s)"
      using Suc by (simp_all add: s1_def)
    have t: "tick s1 = sendUnicastIMAlive e True m (To_ipv4 (ts ! k) (ue_multicast_port e)) s2"
      using Suc.prems IH by (simp add: tick_def sendNextSubnetScanProbe_def s2_def)
    have wf: "udp_wf e s2" using fits(1) IH by (simp add: udp_wf_def s2_def)
    have p: "probe e m s2 = probe e m s" by (rule probe_keeps) (simp_all add: s2_def IH)
    have d: "own_datagram e (probe e m s2) s2 = ?d" unfolding p by (rule own_datagram_manager) (simp add: s2_def IH)
    have sent: "us_sent (tick s1) = us_sent s1 @ [?f (ts ! k)]"
      unfolding t using sendUnicastIMAlive_sent [OF wf, of m] fits(2) d p by (simp add: s2_def)
    note keep = sending_keeps_fields [OF sendUnicastIMAlive_keeps [where e = e and s = s2 and ok = True and m = m
        and d = "To_ipv4 (ts ! k) (ue_multicast_port e)"], folded t]
    have "us_sent (tick s1) = us_sent s @ map ?f (take (Suc k) ts)"
      using sent IH(1) Suc.prems by (simp add: take_Suc_conv_app_nth)
    then show ?case using keep IH by (simp add: s1_def [symmetric] s2_def)
  qed
  from this [of "length ts"] have all: "us_sent ((tick ^^ length ts) s) = us_sent s @ map ?f ts"
    "us_index ((tick ^^ length ts) s) = length ts" "us_targets ((tick ^^ length ts) s) = ts" by simp_all
  have "(tick ^^ (length ts + 1)) s = tick ((tick ^^ length ts) s)" by simp
  then show ?thesis using all unfolding tick_def by (simp add: sendNextSubnetScanProbe_def)
qed

lemma scan_probes_each_target_witness:
  "let e = demo_env demo_alive 5 (\<lambda>_. True); s = (demo_listener 1 2)\<lparr>us_targets := [10, 11], us_scanning := True, us_scan_timer := True\<rparr>;
       s' = (sendNextSubnetScanProbe e True demo_alive ^^ 3) s in
   \<not> us_scanning s' \<and> map fst (us_sent s') = [To_ipv4 10 59486, To_ipv4 11 59486]"
proof -
  let ?e = "demo_env demo_alive 5 (\<lambda>_. True)"
  let ?s = "(demo_listener 1 2)\<lparr>us_targets := [10, 11], us_scanning := True, us_scan_timer := True\<rparr>"
  have "udp_wf ?e (demo_listener 1 2)" by (rule demo_listener_simps) simp_all
  then have wf: "udp_wf ?e ?s" by (simp add: udp_wf_def)
  have fits: "msg_fits ?e (probe ?e demo_alive ?s)"
    by (simp add: msg_fits_def probe_def own_im_alive_def demo_env_def HEADER_SIZE_36)
  have s: "us_targets ?s = [10, 11]" "us_index ?s = 0" "us_sent ?s = []"
    by (simp_all add: demo_listener_def new_listener_def)
  have "ue_multicast_port ?e = 59486" by (simp add: demo_env_def)
  then show ?thesis using scan_probes_each_target [OF s(1,2) wf fits] s(3) by (simp add: Let_def numeral_eq_Suc)
qed

subsection \<open>The number of hashes\<close>

lemma sint_small: "unat w < 2 ^ 31 \<Longrightarrow> sint w = int (unat w)" for w :: "32 word"
  by (simp add: sint_uint signed_take_bit_int_eq_self uint_nat del: of_nat_unat)

lemma unat_less_32: "unat w < 2 ^ 32" for w :: "32 word"
proof -
  have "unat w < 2 ^ LENGTH(32)" by (rule unsigned_less)
  then show ?thesis by simp
qed

lemma word64_of_nat: "n < 2 ^ 64 \<Longrightarrow> unat (word_of_nat n :: 64 word) = n"
  by (simp add: unat_of_nat take_bit_nat_eq_self_iff)

lemma hashes_in_datagram_exact:
  assumes "HEADER_SIZE + l \<le> unat (ue_max e)"
  shows "hashes_in_datagram e l = int ((unat (ue_max e) - l - HEADER_SIZE) div 32)"
proof -
  let ?M = "unat (ue_max e)" and ?y = "((ucast (ue_max e) :: 64 word) - word_of_nat l - word_of_nat HEADER_SIZE) div 32"
  have m: "?M < 2 ^ 32" by (rule unat_less_32)
  have u: "unat (ucast (ue_max e) :: 64 word) = ?M" using m by (simp add: unsigned_ucast_eq take_bit_nat_eq_self)
  have l: "unat (word_of_nat l :: 64 word) = l" "unat (word_of_nat HEADER_SIZE :: 64 word) = HEADER_SIZE"
    using assms m by (auto intro: word64_of_nat)
  have y: "unat ?y = (?M - l - HEADER_SIZE) div 32"
    unfolding unat_div unat_sub_if' u l using assms by simp
  have "unat ?y < 2 ^ 27" unfolding y using m by simp
  then have "unat (ucast ?y :: 32 word) = unat ?y" by (simp add: unsigned_ucast_eq take_bit_nat_eq_self)
  then show ?thesis using \<open>unat ?y < 2 ^ 27\<close> sint_small [of "ucast ?y"] by (simp only: hashes_in_datagram_def y) simp
qed

lemma max_hashes_exact:
  fixes e :: udp_env
  defines "P \<equiv> unat (ue_imalive_period e) div 1000" and "T \<equiv> unat (ue_max_throughput e)"
  assumes "0 < p" "p * 32 < 2 ^ 32" "0 < P" "p * (100 div P) \<le> T" "P * T < 2 ^ 31"
  shows "max_hashes_of_peers e p = Some (int (P * (T - p * (100 div P)) div (p * 32)))"
proof -
  let ?period = "ue_imalive_period e div 1000" and ?peers = "word_of_nat p :: 32 word"
  let ?w = "?period * (ue_max_throughput e - ?peers * (100 div ?period)) div (?peers * 32)"
  have T: "T < 2 ^ 32" unfolding T_def by (rule unat_less_32)
  have period: "unat ?period = P" by (simp add: unat_div P_def)
  have peers: "unat ?peers = p" by (rule word_size_fits) (use assms in simp)
  have r: "unat (?peers * (100 div ?period)) = p * (100 div P)"
    using assms T by (subst unat_mult_lem [THEN iffD1]) (simp_all add: unat_div period peers)
  have d: "unat (ue_max_throughput e - ?peers * (100 div ?period)) = T - p * (100 div P)"
    using assms by (subst unat_sub) (simp_all add: word_le_nat_alt r T_def)
  have le: "P * (T - p * (100 div P)) \<le> P * T" by simp
  have n: "unat (?period * (ue_max_throughput e - ?peers * (100 div ?period))) = P * (T - p * (100 div P))"
  proof -
    have "P * (T - p * (100 div P)) < 2 ^ 32" by (rule le_less_trans [OF le]) (use assms(7) in simp)
    then have "unat ?period * unat (ue_max_throughput e - ?peers * (100 div ?period)) < 2 ^ LENGTH(32)" unfolding period d by simp
    then have "unat (?period * (ue_max_throughput e - ?peers * (100 div ?period))) =
        unat ?period * unat (ue_max_throughput e - ?peers * (100 div ?period))" unfolding unat_mult_lem .
    then show ?thesis unfolding period d .
  qed
  have q: "unat (?peers * 32) = p * 32"
    by (subst unat_mult_lem [THEN iffD1]) (use assms in \<open>simp_all add: peers\<close>)
  have w: "unat ?w = P * (T - p * (100 div P)) div (p * 32)" unfolding unat_div n q ..
  also have "\<dots> \<le> P * T" using le by (meson div_le_dividend order_trans)
  finally have "unat ?w < 2 ^ 31" using assms by simp
  from sint_small [OF this] have s: "sint ?w = int (P * (T - p * (100 div P)) div (p * 32))" unfolding w .
  have "?period \<noteq> 0"
  proof
    assume "?period = 0"
    then have "unat ?period = 0" by simp
    then show False unfolding period using assms by simp
  qed
  then show ?thesis using s assms(3) by (simp add: max_hashes_of_peers_def Let_def)
qed



lemma hashes_wrap_with_many_peers:
  assumes "ue_imalive_period e = 5000" "ue_max_throughput e = 10000"
  shows "max_hashes_of_peers e 500 = Some 0" "max_hashes_of_peers e 501 = Some 267899"
    "ue_imalive_period e' < 1000 \<Longrightarrow> max_hashes_of_peers e' p = None"
proof -
  show "max_hashes_of_peers e 500 = Some 0" "max_hashes_of_peers e 501 = Some 267899"
    using assms by (simp_all add: max_hashes_of_peers_def Let_def)
  assume "ue_imalive_period e' < 1000"
  then have "unat (ue_imalive_period e') < 1000" by (simp add: word_less_nat_alt)
  then have "unat (ue_imalive_period e' div 1000) = 0" unfolding unat_div by simp
  then have "ue_imalive_period e' div 1000 = 0" by (simp add: unat_eq_zero)
  then show "max_hashes_of_peers e' p = None" by (simp add: max_hashes_of_peers_def Let_def)
qed

end
