(* ===== verification/Udp_Safety.thy ===== *)
theory Udp_Safety
  imports Udp_Discovery
begin

text \<open>
  Which datagrams the listener handles; the events of the listener, what every run of them keeps
  (the buffer, the scan, the shared key, the peers); and what the known peers get at a heartbeat.
\<close>

subsection \<open>What is accepted\<close>

definition sender_alive :: "hash \<Rightarrow> peer_manager \<Rightarrow> bool" where
  "sender_alive i m \<longleftrightarrow> (case getPeer i m of Some (Other_peer j) \<Rightarrow> pe_alive (peer_at j m)
     | Some Self_peer \<Rightarrow> pe_alive (pm_self m) | None \<Rightarrow> False)"

definition in_buffer :: "byte list \<Rightarrow> udp_state \<Rightarrow> udp_state" where
  "in_buffer d s = s\<lparr>us_buffer := d @ drop (length d) (us_buffer s)\<rparr>"

text \<open>
  C16: Which datagrams are handled, and what is read of them.  The listener handles a datagram exactly when
  it has a whole header and all the bytes the header announces, the sender is another core, which is known
  and alive unless the message is an \<open>IM_ALIVE\<close>, and the body can be parsed; the header and the body
  are then bytes of this datagram, never of an earlier one left in the buffer, even when it is shorter than
  a header.  Otherwise nothing but the buffer changes.
\<close>

theorem datagram_handled_iff:
  assumes "length d \<le> length (us_buffer s)"
  shows "process_datagram handle e ok (a, d) s =
    (let h = readHeader (take HEADER_SIZE d) in
     if HEADER_SIZE \<le> length d \<and> HEADER_SIZE + unat (h_size h) \<le> length d \<and> h_type h \<noteq> type_code NULL_MESS \<and>
        h_senderID h \<noteq> pe_ID (pm_self (us_manager s)) \<and>
        (h_type h = type_code CORE_IM_ALIVE \<or> sender_alive (h_senderID h) (us_manager s))
     then (case ue_parse e (body_class_of_code (h_type h)) (take (unat (h_size h)) (drop HEADER_SIZE d)) of
             None \<Rightarrow> in_buffer d s
           | Some m \<Rightarrow> handle e ok a h m (in_buffer d s))
     else in_buffer d s)"
proof -
  let ?h = "readHeader (take HEADER_SIZE d)" and ?b = "d @ drop (length d) (us_buffer s)"
  have copy: "copy_datagram d s = (length d, in_buffer d s)"
    using assms by (simp add: copy_datagram_def in_buffer_def Let_def)
  have b: "us_buffer (in_buffer d s) = ?b" "us_manager (in_buffer d s) = us_manager s" by (simp_all add: in_buffer_def)
  have null: "header_isNull (header_setNull h)" for h by (simp add: header_isNull_def header_setNull_def)
  show ?thesis
  proof (cases "HEADER_SIZE \<le> length d")
    case True
    have h: "readHeader (take HEADER_SIZE ?b) = ?h" using True by simp
    have acc: "accepted_header (length d) ?h (us_manager s) \<longleftrightarrow> HEADER_SIZE + unat (h_size ?h) \<le> length d \<and>
        h_senderID ?h \<noteq> pe_ID (pm_self (us_manager s)) \<and>
        (h_type ?h = type_code CORE_IM_ALIVE \<or> sender_alive (h_senderID ?h) (us_manager s))"
    proof -
      have "(\<not> int (unat (h_size ?h)) > int (length d) - int HEADER_SIZE) = (HEADER_SIZE + unat (h_size ?h) \<le> length d)" by linarith
      then show ?thesis unfolding accepted_header_def sender_alive_def by (simp, blast)
    qed
    have rd: "readDatagramToBuffer d s =
        (if accepted_header (length d) ?h (us_manager s) then ?h else header_setNull ?h, in_buffer d s)"
      unfolding readDatagramToBuffer_def copy prod.case b h Let_def ..
    show ?thesis
    proof (cases "accepted_header (length d) ?h (us_manager s) \<and> h_type ?h \<noteq> type_code NULL_MESS")
      case acc': True
      then have sz: "HEADER_SIZE + unat (h_size ?h) \<le> length d" using acc by simp
      then have body: "take (unat (h_size ?h)) (drop HEADER_SIZE ?b) = take (unat (h_size ?h)) (drop HEADER_SIZE d)"
        "\<not> length (drop HEADER_SIZE ?b) < unat (h_size ?h)" using True by simp_all
      have "readMessageBody (ue_parse e) ?h (drop HEADER_SIZE ?b) =
          (case ue_parse e (body_class_of_code (h_type ?h)) (take (unat (h_size ?h)) (drop HEADER_SIZE d)) of
             None \<Rightarrow> Inl ReadErrorException | Some m \<Rightarrow> Inr (?h, m))"
        unfolding readMessageBody_def body(1) if_not_P [OF body(2)] ..
      then show ?thesis using acc acc' True
        by (simp add: process_datagram_def rd b header_isNull_def Let_def split: option.split)
    next
      case False
      then have "process_datagram handle e ok (a, d) s = in_buffer d s"
        by (auto simp: process_datagram_def rd header_isNull_def header_setNull_def)
      then show ?thesis using False acc unfolding Let_def by (simp only: if_False) auto
    qed
  next
    case False
    then have "int (unat w) > int (length d) - int HEADER_SIZE" for w :: "32 word" by linarith
    then have "\<not> accepted_header (length d) h m" for h m unfolding accepted_header_def by blast
    then show ?thesis using False by (simp add: process_datagram_def readDatagramToBuffer_def copy b null Let_def)
  qed
qed

lemma datagram_handled_iff_witness:
  "process_datagram multicast_message (demo_env demo_alive 5 (\<lambda>_. True)) True (0, [0, 0, 0, 2]) (demo_listener 1 2) =
    in_buffer [0, 0, 0, 2] (demo_listener 1 2)"
proof -
  have "length [0, 0, 0, 2 :: byte] \<le> length (us_buffer (demo_listener 1 2))"
    by (simp add: demo_listener_def new_listener_def BUFFER_SIZE_UDP_def)
  from datagram_handled_iff [OF this] show ?thesis by (simp add: HEADER_SIZE_36)
qed

subsection \<open>Events\<close>

datatype udp_event =
    Heartbeat bool bool "64 word" "qstring list" im_alive
  | Scan_tick bool im_alive
  | Multicast_ready bool "(address \<times> byte list) option list"
  | Unicast_ready bool "(address \<times> byte list) option list"
  | Send_all bool udp_msg
  | Send_one bool udp_msg hash
  | Candidate "address \<times> 16 word"
  | Rebind

text \<open>\<open>None\<close> is the division by zero of a heartbeat.\<close>

definition udp_step :: "udp_env \<Rightarrow> udp_event \<Rightarrow> udp_state \<Rightarrow> udp_state option" where
  "udp_step e ev s =
     (case ev of
        Heartbeat ok ok' tag rooms m \<Rightarrow> sendIMAliveMessage e ok ok' tag rooms m s
      | Scan_tick ok m \<Rightarrow> Some (if us_scan_timer s then sendNextSubnetScanProbe e ok m s else s)
      | Multicast_ready ok ds \<Rightarrow> Some (snd (processPendingMulticastDatagrams e ok ds s))
      | Unicast_ready ok ds \<Rightarrow> Some (snd (processPendingUnicastDatagrams e ok ds s))
      | Send_all ok m \<Rightarrow> Some (snd (send_multicast e ok m s))
      | Send_one ok m i \<Rightarrow> Some (snd (send_to_peer e ok m i s))
      | Candidate c \<Rightarrow> Some (us_addGossipCandidate c s)
      | Rebind \<Rightarrow> Some (rebindSockets s))"

inductive udp_run :: "udp_env \<Rightarrow> udp_state \<Rightarrow> udp_state \<Rightarrow> bool" for e s where
  start: "udp_run e s s"
| step: "udp_run e s s' \<Longrightarrow> udp_step e ev s' = Some s'' \<Longrightarrow> udp_run e s s''"

text \<open>What a datagram may change: the buffer, the master key, the peers, and what is recorded.\<close>

definition key_of :: "udp_state \<Rightarrow> hash \<times> bool" where
  "key_of s = (us_master_key s, us_key_was_reset s)"

definition key_kept :: "udp_state \<Rightarrow> udp_state \<Rightarrow> bool" where
  "key_kept s s' \<longleftrightarrow> us_key_was_reset s' = us_key_was_reset s \<and>
     (us_key_was_reset s \<or> \<not> hash_isNull (us_master_key s) \<longrightarrow> us_master_key s' = us_master_key s)"

definition listener_ok :: "udp_env \<Rightarrow> udp_state \<Rightarrow> bool" where
  "listener_ok e s \<longleftrightarrow> udp_wf e s \<and> \<not> us_overrun s \<and> scan_ok s \<and> distinct (us_candidates s)"

definition manager_moves :: "peer_manager \<Rightarrow> peer_manager \<Rightarrow> bool" where
  "manager_moves m m' \<longleftrightarrow>
     (\<exists>evs. (\<forall>ev \<in> set evs. (\<exists>i a. ev = IMAlive i a) \<or> (\<exists>i a. ev = Goodbye i (Some a))) \<and>
        (\<forall>ne drops timeout. m' = fold (manager_step ne drops timeout) evs m))"

definition udp_change :: "udp_env \<Rightarrow> udp_state \<Rightarrow> udp_state \<Rightarrow> bool" where
  "udp_change e s s' \<longleftrightarrow> key_kept s s' \<and> (listener_ok e s \<longrightarrow> listener_ok e s') \<and> manager_moves (us_manager s) (us_manager s')"

lemma manager_moves_refl [simp]: "manager_moves m m"
  by (auto simp: manager_moves_def intro!: exI [where x = "[]"])

lemma manager_moves_trans:
  assumes "manager_moves m m'" "manager_moves m' m''"
  shows "manager_moves m m''"
proof -
  obtain l l' where l: "\<forall>ev \<in> set l. (\<exists>i a. ev = IMAlive i a) \<or> (\<exists>i a. ev = Goodbye i (Some a))"
      "\<And>ne drops timeout. m' = fold (manager_step ne drops timeout) l m"
      "\<forall>ev \<in> set l'. (\<exists>i a. ev = IMAlive i a) \<or> (\<exists>i a. ev = Goodbye i (Some a))"
      "\<And>ne drops timeout. m'' = fold (manager_step ne drops timeout) l' m'"
    using assms unfolding manager_moves_def by blast
  have "m'' = fold (manager_step ne drops timeout) (l @ l') m" for ne drops timeout
    using l(2) [of ne drops timeout] l(4) [of ne drops timeout] by simp
  moreover have "\<forall>ev \<in> set (l @ l'). (\<exists>i a. ev = IMAlive i a) \<or> (\<exists>i a. ev = Goodbye i (Some a))"
    using l(1,3) by (simp add: ball_Un)
  ultimately show ?thesis unfolding manager_moves_def by blast
qed

lemma manager_moves_one:
  "manager_moves m (updatePeer i a m)" "manager_moves m (removePeer i (Some ip) m)"
  unfolding manager_moves_def
  by (rule exI [where x = "[IMAlive i a]"], simp add: manager_step_def)
     (rule exI [where x = "[Goodbye i (Some ip)]"], simp add: manager_step_def)

lemma udp_change_refl [simp]: "udp_change e s s"
  by (simp add: udp_change_def key_kept_def)

lemma udp_change_trans: "udp_change e s s' \<Longrightarrow> udp_change e s' s'' \<Longrightarrow> udp_change e s s''"
  using manager_moves_trans by (auto simp: udp_change_def key_kept_def)

lemma sending_changes: "sending_keeps e s s' \<Longrightarrow> udp_change e s s'"
  using sending_keeps_fields [of e s s'] sending_keeps_overrun [of e s s']
  by (simp add: udp_change_def key_kept_def listener_ok_def scan_ok_def)

lemma fold_changes: "(\<And>x s. udp_change e s (f x s)) \<Longrightarrow> udp_change e s (fold f l s)"
  by (induction l arbitrary: s) (auto intro: udp_change_trans)

lemma in_buffer_changes: "length d \<le> length (us_buffer s) \<Longrightarrow> udp_change e s (in_buffer d s)"
  by (auto simp: udp_change_def key_kept_def listener_ok_def udp_wf_def scan_ok_def in_buffer_def)

lemma manager_changes:
  assumes "manager_moves (us_manager s) m" "pm_self m = pm_self (us_manager s)"
  shows "udp_change e s (s\<lparr>us_manager := m\<rparr>)"
  using assms by (simp add: udp_change_def key_kept_def listener_ok_def udp_wf_def scan_ok_def)

lemma updatePeer_self: "pm_self (updatePeer i a m) = pm_self m"
  by (auto simp: updatePeer_def emit_def Let_def)

lemma removePeer_self: "pm_self (removePeer i ip m) = pm_self m"
  by (auto simp: removePeer_def dead_peer_def emit_def Let_def)

lemma adopt_changes: "udp_change e s (adopt_master_key m s)"
  by (auto simp: udp_change_def key_kept_def adopt_master_key_def listener_ok_def udp_wf_def scan_ok_def split: option.split)

lemma answer_changes: "udp_change e s (answer_chunks e ok m i s)"
  by (auto simp: answer_chunks_def intro!: sending_changes split: list.split)

lemma on_im_alive_changes: "udp_change e s (on_im_alive e ok a m i s)"
  unfolding on_im_alive_def
  by (rule udp_change_trans [OF udp_change_trans [OF manager_changes adopt_changes] answer_changes])
     (simp_all add: manager_moves_one updatePeer_self)

lemma on_find_changes: "udp_change e s (on_find e ok tag f i s)"
  unfolding on_find_def Let_def by (simp add: fold_changes sending_changes)

lemma recorded_changes:
  "udp_change e s s' \<Longrightarrow> udp_change e s (received h m s')"
  "udp_change e s (s\<lparr>us_found := x\<rparr>)" "udp_change e s (s\<lparr>us_links := y\<rparr>)"
  by (simp_all add: udp_change_def key_kept_def listener_ok_def udp_wf_def scan_ok_def received_def)

lemma multicast_changes: "udp_change e s (multicast_message e ok a h m s)"
  unfolding multicast_message_def
  by (rule recorded_changes(1))
     (auto split: option.split message_type.split udp_msg.split
       simp: on_im_alive_changes on_find_changes manager_changes manager_moves_one removePeer_self)

lemma unicast_other_changes: "udp_change e s (unicast_other h m r s)"
  by (auto simp: unicast_other_def on_chunks_owned_def recorded_changes
      split: option.split message_type.split udp_msg.split)

lemma unicast_changes: "udp_change e s (unicast_message e ok a h m s)"
  by (auto simp: unicast_message_def on_im_alive_changes recorded_changes unicast_other_changes
      split: option.split message_type.split udp_msg.split)

lemma copy_changes: "udp_change e s (snd (copy_datagram d s))"
proof -
  let ?d = "take (length (us_buffer s)) d"
  have "snd (copy_datagram d s) = in_buffer ?d s" by (simp add: copy_datagram_def in_buffer_def Let_def)
  then show ?thesis using in_buffer_changes [of ?d s e] by simp
qed

lemma datagram_changes:
  assumes "\<And>a h m s. udp_change e s (handle e ok a h m s)"
  shows "udp_change e s (process_datagram handle e ok d s)"
proof -
  obtain n s1 where c: "copy_datagram (snd d) s = (n, s1)" by fastforce
  have s1: "udp_change e s s1" using copy_changes [of e s "snd d"] c by simp
  have "process_datagram handle e ok d s = s1 \<or> (\<exists>a h m. process_datagram handle e ok d s = handle e ok a h m s1)"
    by (auto simp: process_datagram_def readDatagramToBuffer_def c Let_def split: sum.split)
  then show ?thesis using s1 assms udp_change_trans by auto
qed

lemma pending_changes:
  assumes "\<And>a h m s. udp_change e s (handle e ok a h m s)"
  shows "udp_change e s (snd (process_pending handle e ok n ds s))"
proof (induction n arbitrary: ds s)
  case (Suc n)
  show ?case
  proof (cases ds)
    case (Cons d ds')
    then show ?thesis
      using Suc datagram_changes [of e handle ok, OF assms] udp_change_trans by (cases d) (simp_all, blast)
  qed simp
qed simp

lemma probe_changes: "udp_change e s (sendNextSubnetScanProbe e ok m s)"
proof (cases "us_index s \<ge> length (us_targets s)")
  case True
  then show ?thesis
    by (simp add: sendNextSubnetScanProbe_def udp_change_def key_kept_def listener_ok_def udp_wf_def scan_ok_def)
next
  case False
  have "udp_change e s (s\<lparr>us_index := us_index s + 1\<rparr>)"
    using False by (auto simp: udp_change_def key_kept_def listener_ok_def udp_wf_def scan_ok_def)
  then show ?thesis using False udp_change_trans [OF _ sending_changes]
    by (simp add: sendNextSubnetScanProbe_def)
qed

lemma heartbeat_changes:
  assumes "sendIMAliveMessage e ok ok' tag rooms m s = Some s'"
  shows "udp_change e s s'"
proof -
  from assms obtain cs n where f: "us_manager s' = us_manager s" "us_master_key s' = us_master_key s"
      "us_key_was_reset s' = us_key_was_reset s" "length (us_buffer s') = length (us_buffer s)" "us_candidates s' = []"
      "udp_wf e s \<Longrightarrow> us_overrun s' = us_overrun s" "scan_ok s \<Longrightarrow> scan_ok s'"
    by (rule sendIMAliveMessage_state) blast
  have "udp_wf e s' = udp_wf e s" using f(1,4) by (simp add: udp_wf_def)
  then show ?thesis using f by (simp add: udp_change_def key_kept_def listener_ok_def)
qed

lemma candidate_changes: "udp_change e s (us_addGossipCandidate c s)"
  by (cases "c \<in> set (us_candidates s)")
     (simp_all add: us_addGossipCandidate_def udp_change_def key_kept_def listener_ok_def udp_wf_def scan_ok_def)

lemma rebind_changes: "udp_change e s (rebindSockets s)"
  by (simp add: rebindSockets_def udp_change_def key_kept_def listener_ok_def udp_wf_def scan_ok_def)

lemma udp_step_changes: "udp_step e ev s = Some s' \<Longrightarrow> udp_change e s s'"
  by (cases ev) (auto simp: udp_step_def heartbeat_changes probe_changes candidate_changes rebind_changes
    processPendingMulticastDatagrams_def processPendingUnicastDatagrams_def
    pending_changes multicast_changes unicast_changes sending_changes send_multicast_keeps)

lemma udp_run_changes: "udp_run e s s' \<Longrightarrow> udp_change e s s'"
  by (induction rule: udp_run.induct) (auto intro: udp_change_trans dest: udp_step_changes)

subsection \<open>Properties of every run\<close>



text \<open>
  C33: The key all cores share is taken from another core at most once: after any run, if there was a key
  or the user had reset it, it is the one of the beginning.  And a core that has none takes the one of an
  \<open>IM_ALIVE\<close> when it has the right length and is not null.
\<close>

theorem master_key_taken_once:
  assumes "udp_run e s s'"
  shows "us_key_was_reset s' = us_key_was_reset s \<and>
    (us_key_was_reset s \<or> \<not> hash_isNull (us_master_key s) \<longrightarrow> us_master_key s' = us_master_key s) \<and>
    (\<not> us_key_was_reset s \<and> hash_isNull (us_master_key s) \<and> ia_master_key x = Some k \<and> hash_wf k \<and> \<not> hash_isNull k \<longrightarrow>
      us_master_key (on_im_alive e ok a x i s) = k)"
proof (intro conjI impI; (elim conjE)?)
  show "us_key_was_reset s' = us_key_was_reset s"
    and "us_key_was_reset s \<or> \<not> hash_isNull (us_master_key s) \<Longrightarrow> us_master_key s' = us_master_key s"
    using udp_run_changes [OF assms] by (simp_all add: udp_change_def key_kept_def)
  have ans: "us_master_key (answer_chunks e ok x i s) = us_master_key s" for s
    using sending_keeps_fields(6) [OF send_to_peer_keeps] by (simp add: answer_chunks_def split: list.split)
  assume "\<not> us_key_was_reset s" "hash_isNull (us_master_key s)" "ia_master_key x = Some k" "hash_wf k" "\<not> hash_isNull k"
  then show "us_master_key (on_im_alive e ok a x i s) = k"
    by (simp add: on_im_alive_def ans adopt_master_key_def hash_of_chars_def hash_wf_def)
qed

lemma master_key_taken_once_witness:
  "let e = demo_env demo_alive 5 (\<lambda>_. True); s = demo_listener 1 2; x = demo_alive\<lparr>ia_master_key := Some (demo_hash 9)\<rparr>;
       s1 = on_im_alive e True 0 x (demo_hash 2) s in
   us_master_key s1 = demo_hash 9 \<and> us_master_key (snd (send_multicast e True (M_im_alive x) s1)) = demo_hash 9"
proof -
  let ?e = "demo_env demo_alive 5 (\<lambda>_. True)" and ?s = "demo_listener 1 2" and ?x = "demo_alive\<lparr>ia_master_key := Some (demo_hash 9)\<rparr>"
  let ?s1 = "on_im_alive ?e True 0 ?x (demo_hash 2) ?s"
  have s: "\<not> us_key_was_reset ?s" "hash_isNull (us_master_key ?s)"
    by (simp_all add: demo_listener_def new_listener_def hash_isNull_def)
  have 1: "us_master_key ?s1 = demo_hash 9"
    using master_key_taken_once [OF udp_run.start, THEN conjunct2, THEN conjunct2, rule_format, OF conjI [OF s(1) conjI [OF s(2)]],
      where x = ?x and k = "demo_hash 9"] by (simp add: demo_hash_null)
  have r: "udp_run ?e ?s1 (snd (send_multicast ?e True (M_im_alive ?x) ?s1))"
    by (rule udp_run.step [OF udp_run.start, where ev = "Send_all True (M_im_alive ?x)"]) (simp add: udp_step_def)
  have "us_master_key (snd (send_multicast ?e True (M_im_alive ?x) ?s1)) = us_master_key ?s1"
    using master_key_taken_once [OF r] by (simp add: 1 demo_hash_null)
  then show ?thesis using 1 by (simp add: Let_def)
qed



subsection \<open>What the peers get\<close>

lemma write_datagram_fields [simp]:
  "us_buffer (write_datagram ok n d s) = us_buffer s" "us_manager (write_datagram ok n d s) = us_manager s"
  "set (us_sent s) \<subseteq> set (us_sent (write_datagram ok n d s))"
  by (auto simp: write_datagram_def)

lemma send_to_peers:
  defines "f n p \<equiv> \<lambda>i s. case pe_IP (peer_at i (us_manager s)) of None \<Rightarrow> s | Some a \<Rightarrow> write_datagram True n (To_address a p) s"
  assumes "i \<in> set l" "pe_IP (peer_at i (us_manager s)) = Some a"
  shows "(To_address a p, take (unat n) (us_buffer s)) \<in> set (us_sent (fold (f n p) l s))"
  using assms(2,3)
proof (induction l arbitrary: s)
  case (Cons j l)
  have k: "us_buffer (f n p j s) = us_buffer s" "us_manager (f n p j s) = us_manager s" for s
    by (simp_all add: f_def split: option.split)
  have mono: "set (us_sent s) \<subseteq> set (us_sent (fold (f n p) l s))" for s
    by (rule sending_keeps_sent [where e = e], rule sends_fold_keeps) (simp add: f_def split: option.split)
  show ?case
  proof (cases "j = i")
    case True
    have "(To_address a p, take (unat n) (us_buffer s)) \<in> set (us_sent (f n p j s))"
      using Cons.prems(2) True by (simp add: f_def write_datagram_def)
    then show ?thesis using mono by auto
  next
    case False
    then show ?thesis using Cons.IH [of "f n p j s"] Cons.prems by (simp add: k)
  qed
qed simp

lemma broadcast_buffer [simp]: "us_buffer (sendBroadcastIMAlive e ok s) = us_buffer s"
proof -
  have keep: "us_buffer (fold f l s) = us_buffer s" if "\<And>i s. us_buffer (f i s) = us_buffer s" for f and l :: "net_iface list" and s
    using that by (induction l arbitrary: s) simp_all
  show ?thesis unfolding sendBroadcastIMAlive_def Let_def by (rule keep) (simp split: option.split)
qed

lemma propagate_to_peers:
  assumes "i \<in> set (getPeers (us_manager s))" "pe_IP (peer_at i (us_manager s)) = Some a"
  shows "(To_address a (ue_multicast_port e), take (unat (buffer_message_size s)) (us_buffer s)) \<in>
    set (us_sent (propagateIMAlive e True m s))"
proof -
  define s4 where "s4 = sendBroadcastIMAlive e True s"
  define s5 where "s5 = fold (\<lambda>i s. case pe_IP (peer_at i (us_manager s)) of None \<Rightarrow> s
      | Some a \<Rightarrow> write_datagram True (buffer_message_size s4) (To_address a (ue_multicast_port e)) s) (getPeers (us_manager s4)) s4"
  define s6 where "s6 = fold (\<lambda>(a, p). sendUnicastIMAlive e True m (To_address a p)) (us_candidates s5) (s5\<lparr>us_candidates := []\<rparr>)"
  have s': "propagateIMAlive e True m s = (if \<not> us_scanning s6 \<and> us_counter s6 mod 12 = 1 then runSubnetScan e s6 else s6)"
    by (simp add: propagateIMAlive_def Let_def s4_def [symmetric] s5_def [symmetric] us_takeGossipCandidates_def s6_def [symmetric])
  have m4: "us_manager s4 = us_manager s" "us_buffer s4 = us_buffer s"
    using sending_keeps_fields(4) [OF sendBroadcastIMAlive_keeps] by (simp_all add: s4_def)
  then have b4: "buffer_message_size s4 = buffer_message_size s" by (simp add: buffer_message_size_def)
  have "(To_address a (ue_multicast_port e), take (unat (buffer_message_size s)) (us_buffer s)) \<in> set (us_sent s5)"
    using send_to_peers [of i "getPeers (us_manager s4)" s4 a "ue_multicast_port e" "buffer_message_size s4"] assms
    unfolding s5_def by (simp only: m4 b4)
  moreover have "sending_keeps e (s5\<lparr>us_candidates := []\<rparr>) s6"
    unfolding s6_def by (rule sends_fold_keeps) (simp split: prod.split)
  ultimately have "(To_address a (ue_multicast_port e), take (unat (buffer_message_size s)) (us_buffer s)) \<in> set (us_sent s6)"
    using sending_keeps_sent by fastforce
  then show ?thesis by (simp add: s' runSubnetScan_def Let_def)
qed

lemma sendIMAliveMessage_form:
  assumes "sendIMAliveMessage e ok ok' tag rooms m s = Some s'"
  obtains s2 where "us_manager s2 = us_manager s" "us_buffer s2 = us_buffer s"
    "s' = propagateIMAlive e ok' m ((snd (send_multicast e ok (M_im_alive (heartbeat e tag rooms m (us_chunks s') s)) s2))
       \<lparr>us_counter := us_counter (snd (send_multicast e ok (M_im_alive (heartbeat e tag rooms m (us_chunks s') s)) s2)) + 1\<rparr>)"
proof -
  have o: "own_im_alive e m (s\<lparr>us_tag := tag\<rparr>) = own_im_alive e m s" by (rule own_im_alive_manager) simp_all
  obtain n where n: "number_of_hashes e (getNbOfPeers (us_manager s))
      (length (ue_ser e (M_im_alive ((own_im_alive e m s)\<lparr>ia_tag := tag\<rparr>)))) = Some n"
    using assms by (auto simp: sendIMAliveMessage_def o Let_def split: option.splits)
  define s1 where "s1 = choose_chunks e n (s\<lparr>us_tag := tag\<rparr>)"
  define s2 where "s2 = s1\<lparr>us_links := us_links s1 @ map (\<lambda>(c, h). (c, Self_peer, ue_complete e h)) (us_chunks s1)\<rparr>"
  have s2: "us_manager s2 = us_manager s" "us_buffer s2 = us_buffer s" "us_chunks s2 = us_chunks s1"
    by (simp_all add: s2_def s1_def choose_chunks_def split: hash_request_type.split)
  have s': "s' = propagateIMAlive e ok' m ((snd (send_multicast e ok (M_im_alive (heartbeat e tag rooms m (us_chunks s1) s)) s2))
      \<lparr>us_counter := us_counter (snd (send_multicast e ok (M_im_alive (heartbeat e tag rooms m (us_chunks s1) s)) s2)) + 1\<rparr>)"
    using assms by (simp add: sendIMAliveMessage_def o n Let_def s1_def [symmetric] s2_def heartbeat_def)
  have "us_chunks s' = us_chunks s1"
    using sending_keeps_fields(3) [OF send_multicast_keeps] by (simp add: s' propagateIMAlive_keeps s2)
  then show thesis using that [OF s2(1,2)] s' by simp
qed

lemma own_datagram_in_buffer:
  assumes "udp_wf e s" "msg_fits e m" "us_buffer s' = own_datagram e m s @ rest"
  shows "take (unat (buffer_message_size s')) (us_buffer s') = own_datagram e m s"
proof -
  have hw: "header_wf (own_header e m s)" using assms(1) by (simp add: own_header_def udp_wf_def header_wf_def)
  have "readHeader (take HEADER_SIZE (us_buffer s')) = own_header e m s"
    using hw by (simp add: assms(3) own_datagram_def readHeader_writeHeader)
  moreover have sz: "unat (h_size (own_header e m s)) = length (ue_ser e m)"
    using msg_fits_size [OF assms(2)] by (simp add: own_header_def word_size_fits)
  ultimately have "unat (buffer_message_size s') = length (own_datagram e m s)"
    using header_size_add [of "h_size (own_header e m s)"] msg_fits_size [OF assms(2)]
    by (simp only: buffer_message_size_def sz own_datagram_length [OF assms(1)])
  then show ?thesis by (simp add: assms(3))
qed

text \<open>
  C23: What the known peers get at a heartbeat.  When the message fits in a datagram each of them gets it;
  when it does not (the rooms of the chat are added after the number of hashes is computed) each of them is
  sent the message the buffer held before, whatever it was.
\<close>

theorem heartbeat_to_peers:
  assumes run: "sendIMAliveMessage e ok True tag rooms m s = Some s'" and wf: "udp_wf e s"
    and size: "HEADER_SIZE + length (ue_ser e (M_im_alive (heartbeat e tag rooms m (us_chunks s') s))) < 2 ^ 32"
    and peer: "i \<in> set (getPeers (us_manager s))" "pe_IP (peer_at i (us_manager s)) = Some a"
  shows "(To_address a (ue_multicast_port e),
    if msg_fits e (M_im_alive (heartbeat e tag rooms m (us_chunks s') s))
    then own_datagram e (M_im_alive (heartbeat e tag rooms m (us_chunks s') s)) s
    else take (unat (buffer_message_size s)) (us_buffer s)) \<in> set (us_sent s')"
proof -
  obtain s2 where s2: "us_manager s2 = us_manager s" "us_buffer s2 = us_buffer s"
    "s' = propagateIMAlive e True m ((snd (send_multicast e ok (M_im_alive (heartbeat e tag rooms m (us_chunks s') s)) s2))
       \<lparr>us_counter := us_counter (snd (send_multicast e ok (M_im_alive (heartbeat e tag rooms m (us_chunks s') s)) s2)) + 1\<rparr>)"
    using run by (rule sendIMAliveMessage_form)
  let ?m = "M_im_alive (heartbeat e tag rooms m (us_chunks s') s)"
  define s3 where "s3 = (snd (send_multicast e ok ?m s2))\<lparr>us_counter := us_counter (snd (send_multicast e ok ?m s2)) + 1\<rparr>"
  have m3: "us_manager s3 = us_manager s"
    using sending_keeps_fields(4) [OF send_multicast_keeps [where e = e and s = s2 and ok = ok and m = ?m]] by (simp add: s3_def s2(1))
  have wf2: "udp_wf e s2" using wf by (simp add: udp_wf_def s2(1,2))
  have sent: "(To_address a (ue_multicast_port e), take (unat (buffer_message_size s3)) (us_buffer s3)) \<in> set (us_sent s')"
  proof -
    have "s' = propagateIMAlive e True m s3" unfolding s3_def by (rule s2(3))
    moreover have "(To_address a (ue_multicast_port e), take (unat (buffer_message_size s3)) (us_buffer s3)) \<in>
        set (us_sent (propagateIMAlive e True m s3))" by (rule propagate_to_peers [where i = i]) (simp_all add: m3 peer)
    ultimately show ?thesis by (simp only:)
  qed
  have d: "own_datagram e ?m s2 = own_datagram e ?m s" by (rule own_datagram_manager) (rule s2(1))
  show ?thesis
  proof (cases "msg_fits e ?m")
    case True
    have "us_buffer s3 = own_datagram e ?m s2 @ drop (length (own_datagram e ?m s2)) (us_buffer s2)"
      by (simp add: s3_def send_multicast_def write_buffer_fits [OF wf2 True] datagram_size_nonzero [OF wf2 True]
        write_datagram_def Let_def)
    from own_datagram_in_buffer [OF wf2 True this] show ?thesis using sent True d by simp
  next
    case False
    have "us_buffer s3 = us_buffer s"
      by (simp add: s3_def send_multicast_def write_buffer_too_large [OF False size] s2(2))
    then show ?thesis using sent False by (simp add: buffer_message_size_def)
  qed
qed

lemma heartbeat_to_peers_witness:
  defines "e \<equiv> demo_env demo_alive 5 (\<lambda>_. True)" and "s \<equiv> demo_listener 1 2"
  shows "\<exists>s'. sendIMAliveMessage e True True 5 [replicate 2000 0] demo_alive s = Some s' \<and>
    (To_address 0 59486, replicate 36 0) \<in> set (us_sent s')"
proof -
  let ?rooms = "[replicate 2000 0]"
  have ne: "(1::byte) \<noteq> 2" "(2::byte) \<noteq> 0" by simp_all
  note A = demo_listener_simps [OF ne, folded s_def]
  have "\<exists>n. number_of_hashes e p k = Some n" for p k
    by (simp add: e_def demo_env_def number_of_hashes_def max_hashes_of_peers_def Let_def)
  then obtain s' where run: "sendIMAliveMessage e True True 5 ?rooms demo_alive s = Some s'"
    unfolding sendIMAliveMessage_def Let_def by (metis (no_types, lifting) option.simps(5))
  have cs: "us_chunks s' = [(0, demo_hash 7), (1, demo_hash 8)]"
    using run by (rule sendIMAliveMessage_state) (simp add: A e_def demo_env_def)
  let ?m = "M_im_alive (heartbeat e 5 ?rooms demo_alive (us_chunks s') s)"
  have len: "length (ue_ser e ?m) = 2056" by (simp add: e_def demo_env_def heartbeat_def cs HASH_SIZE_def)
  have big: "\<not> msg_fits e ?m" unfolding msg_fits_def len by (simp add: e_def demo_env_def HEADER_SIZE_36)
  have wf: "udp_wf e s" unfolding e_def by (rule A(1))
  have peers: "demo_hash 2 \<in> set (getPeers (us_manager s))" "pe_IP (peer_at (demo_hash 2) (us_manager s)) = Some 0"
    by (simp_all add: s_def demo_listener_def new_listener_def updatePeer_def new_manager_def new_self_def new_peer_def
      getPeer_def getPeers_def peer_at_def on_peer_def emit_def isAvailable_def isVersionCompatible_def update_def alive_of_def
      demo_hash_null Let_def demo_alive_def)
  have buf: "us_buffer s = replicate BUFFER_SIZE_UDP 0" by (simp add: s_def demo_listener_def new_listener_def)
  have "take HEADER_SIZE (us_buffer s) = replicate 36 0" by (simp add: buf BUFFER_SIZE_UDP_def HEADER_SIZE_36)
  moreover have "of_be32 (replicate 4 0) = 0" by code_simp
  ultimately have "buffer_message_size s = 36"
    by (simp add: buffer_message_size_def readHeader_def header_size32_def HEADER_SIZE_36)
  then have old: "take (unat (buffer_message_size s)) (us_buffer s) = replicate 36 0" by (simp add: buf BUFFER_SIZE_UDP_def)
  have "HEADER_SIZE + length (ue_ser e ?m) < 2 ^ 32" unfolding len HEADER_SIZE_36 by simp
  from heartbeat_to_peers [OF run wf this peers] have "(To_address 0 (ue_multicast_port e), replicate 36 0) \<in> set (us_sent s')"
    unfolding if_not_P [OF big] old .
  then show ?thesis using run by (auto simp: e_def demo_env_def)
qed

end
