(* ===== verification/Network_Search.thy ===== *)
theory Network_Search
  imports Udp_Safety Udp_Scan
begin

text \<open>
  \<open>Core/NetworkListener/priv/Search.cpp\<close>, \<open>TCPListener.cpp\<close> and \<open>NetworkListener.cpp\<close>: a search in the
  network, whose request goes to all the cores and whose results come back by the signal of the listener,
  the port the core listens to, and the binding of the sockets when the network changes.
\<close>

subsection \<open>A search\<close>

record 'r search_state =
  ns_tag :: "64 word"
  ns_nbResult :: "32 word"
  ns_connected :: bool
  ns_found :: "'r list"

definition new_search :: "'r search_state" where
  "new_search = \<lparr>ns_tag = 0, ns_nbResult = 0, ns_connected = False, ns_found = []\<rparr>"

text \<open>\<open>search\<close>: \<open>tag\<close> is drawn at random; the result is the tag, zero if a search was launched before.\<close>

definition launch_search ::
  "udp_env \<Rightarrow> bool \<Rightarrow> 64 word \<Rightarrow> find_pattern \<Rightarrow> 'r search_state \<Rightarrow> udp_state \<Rightarrow> 64 word \<times> 'r search_state \<times> udp_state" where
  "launch_search e ok tag f q s =
     (if ns_tag q \<noteq> 0 then (0, q, s)
      else (tag, q\<lparr>ns_nbResult := 0, ns_tag := tag, ns_connected := True\<rparr>, snd (send_multicast e ok (M_find tag f) s)))"

text \<open>A result is its tag, the number of its entries and what it holds; the sum is one of 32 bits.\<close>

definition newFindResult :: "32 word \<Rightarrow> 64 word \<Rightarrow> 32 word \<Rightarrow> 'r \<Rightarrow> 'r search_state \<Rightarrow> 'r search_state" where
  "newFindResult shown tag entries r q =
     (if tag = ns_tag q \<and> ns_nbResult q + entries \<le> shown
      then q\<lparr>ns_nbResult := ns_nbResult q + entries, ns_found := ns_found q @ [r]\<rparr> else q)"

definition search_results :: "32 word \<Rightarrow> (64 word \<times> 32 word \<times> 'r) list \<Rightarrow> 'r search_state \<Rightarrow> 'r search_state" where
  "search_results shown l q = fold (\<lambda>(tag, n, r) q. if ns_connected q then newFindResult shown tag n r q else q) l q"

subsection \<open>The port of the core\<close>

definition MAX_LISTEN_ATTEMPT :: nat where
  "MAX_LISTEN_ATTEMPT = 10"

text \<open>The loop of \<open>rebindSockets\<close>: \<open>n\<close> attempts are left, \<open>free\<close> is whether listening succeeds.\<close>

fun try_listen :: "(16 word \<Rightarrow> bool) \<Rightarrow> nat \<Rightarrow> 16 word \<Rightarrow> bool \<times> 16 word" where
  "try_listen free 0 port = (False, port)"
| "try_listen free (Suc n) port =
     (if free port then (True, port) else if n = 0 then (False, port) else try_listen free n (port + 1))"

definition tcp_rebind :: "(16 word \<Rightarrow> bool) \<Rightarrow> 16 word \<Rightarrow> bool \<times> 16 word" where
  "tcp_rebind free base = try_listen free MAX_LISTEN_ATTEMPT base"

record network_listener =
  nl_udp :: udp_state
  nl_listening :: bool
  nl_port :: "16 word"
  nl_unicast_port :: "16 word"

text \<open>The constructor: the port the TCP listener found is the constant \<open>UNICAST_PORT\<close> of the UDP listener.\<close>

definition new_network_listener :: "(16 word \<Rightarrow> bool) \<Rightarrow> 16 word \<Rightarrow> peer_manager \<Rightarrow> network_listener" where
  "new_network_listener free base m =
     (let (ok, port) = tcp_rebind free base
      in \<lparr>nl_udp = new_listener m, nl_listening = ok, nl_port = port, nl_unicast_port = port\<rparr>)"

definition network_rebind :: "(16 word \<Rightarrow> bool) \<Rightarrow> 16 word \<Rightarrow> network_listener \<Rightarrow> network_listener" where
  "network_rebind free base n =
     (let s = (nl_udp n)\<lparr>us_manager := removeAllPeers (us_manager (nl_udp n))\<rparr>;
          (ok, port) = tcp_rebind free base
      in n\<lparr>nl_udp := rebindSockets s, nl_listening := ok, nl_port := port\<rparr>)"

definition network_send :: "udp_env \<Rightarrow> bool \<Rightarrow> udp_msg \<Rightarrow> hash \<Rightarrow> udp_state \<Rightarrow> send_status \<times> udp_state" where
  "network_send e ok m i s = (if hash_isNull i then send_multicast e ok m s else send_to_peer e ok m i s)"

subsection \<open>Results\<close>

fun entries_of :: "64 word \<times> 32 word \<times> 'r \<Rightarrow> nat" where
  "entries_of (t, n, r) = unat n"

fun result_of :: "64 word \<times> 32 word \<times> 'r \<Rightarrow> 'r" where
  "result_of (t, n, r) = r"

text \<open>
  A search shows results of its own only and never more entries than the settings allow: the number it
  keeps is the number of entries of the results it has passed on, which are, among the results with its tag,
  each one that still fits after those before it.
\<close>

theorem search_shows_bounded:
  assumes "ns_connected q" "unat (ns_nbResult q) \<le> unat shown" "\<forall>(t, n, r) \<in> set l. unat shown + unat n < 2 ^ 32"
  shows "\<exists>m. ns_found (search_results shown l q) = ns_found q @ map result_of m \<and>
    set m \<subseteq> {x \<in> set l. fst x = ns_tag q} \<and>
    unat (ns_nbResult (search_results shown l q)) = unat (ns_nbResult q) + sum_list (map entries_of m) \<and>
    unat (ns_nbResult (search_results shown l q)) \<le> unat shown \<and>
    (unat (ns_nbResult q) + sum_list (map entries_of (filter (\<lambda>x. fst x = ns_tag q) l)) \<le> unat shown \<longrightarrow>
      m = filter (\<lambda>x. fst x = ns_tag q) l)"
  using assms
proof (induction l arbitrary: q)
  case Nil
  then show ?case by (intro exI [where x = "[]"]) (simp add: search_results_def)
next
  case (Cons x l)
  obtain t n r where x: "x = (t, n, r)" by (cases x)
  define q' where "q' = newFindResult shown t n r q"
  have step: "search_results shown (x # l) q = search_results shown l q'"
    using Cons.prems(1) by (simp add: search_results_def x q'_def)
  have add: "unat (ns_nbResult q + n) = unat (ns_nbResult q) + unat n"
    using Cons.prems(2,3) x by (subst unat_add_lem [THEN iffD1]) auto
  have tag: "ns_tag q' = ns_tag q" "ns_connected q'" using Cons.prems(1) by (simp_all add: q'_def newFindResult_def)
  have ls: "\<forall>(t, n, r) \<in> set l. unat shown + unat n < 2 ^ 32" using Cons.prems(3) by simp
  show ?case
  proof (cases "t = ns_tag q \<and> unat (ns_nbResult q) + unat n \<le> unat shown")
    case True
    then have q': "ns_found q' = ns_found q @ [r]" "unat (ns_nbResult q') = unat (ns_nbResult q) + unat n"
      using add by (simp_all add: q'_def newFindResult_def word_le_nat_alt)
    have fit': "unat (ns_nbResult q') \<le> unat shown" using q'(2) True by simp
    obtain m where m: "ns_found (search_results shown l q') = ns_found q' @ map result_of m"
      "set m \<subseteq> {x \<in> set l. fst x = ns_tag q'}"
      "unat (ns_nbResult (search_results shown l q')) = unat (ns_nbResult q') + sum_list (map entries_of m)"
      "unat (ns_nbResult (search_results shown l q')) \<le> unat shown"
      "unat (ns_nbResult q') + sum_list (map entries_of (filter (\<lambda>x. fst x = ns_tag q') l)) \<le> unat shown \<longrightarrow>
        m = filter (\<lambda>x. fst x = ns_tag q') l"
      using Cons.IH [OF tag(2) fit' ls] by blast
    show ?thesis unfolding step
      by (rule exI [where x = "x # m"]) (use m tag q' True in \<open>auto simp: x\<close>)
  next
    case False
    then have q': "q' = q" using add by (auto simp: q'_def newFindResult_def word_le_nat_alt)
    obtain m where m: "ns_found (search_results shown l q) = ns_found q @ map result_of m"
      "set m \<subseteq> {x \<in> set l. fst x = ns_tag q}"
      "unat (ns_nbResult (search_results shown l q)) = unat (ns_nbResult q) + sum_list (map entries_of m)"
      "unat (ns_nbResult (search_results shown l q)) \<le> unat shown"
      "unat (ns_nbResult q) + sum_list (map entries_of (filter (\<lambda>x. fst x = ns_tag q) l)) \<le> unat shown \<longrightarrow>
        m = filter (\<lambda>x. fst x = ns_tag q) l"
      using Cons.IH [OF Cons.prems(1,2) ls] by blast
    show ?thesis unfolding step q'
      by (rule exI [where x = m]) (use m False in \<open>auto simp: x\<close>)
  qed
qed

lemma search_shows_bounded_witness:
  "ns_found (search_results 5 [(7, 2, 0 :: nat), (8, 1, 1), (7, 3, 2)] (new_search\<lparr>ns_tag := 7, ns_connected := True\<rparr>)) = [0, 2]"
proof -
  let ?q = "new_search\<lparr>ns_tag := 7, ns_connected := True\<rparr>" and ?l = "[(7, 2, 0), (8, 1, 1), (7, 3, 2)] :: (64 word \<times> 32 word \<times> nat) list"
  have "ns_connected ?q" "unat (ns_nbResult ?q) \<le> unat (5 :: 32 word)" "\<forall>(t, n, r) \<in> set ?l. unat (5 :: 32 word) + unat n < 2 ^ 32"
    by (simp_all add: new_search_def)
  from search_shows_bounded [OF this] show ?thesis by (auto simp: new_search_def)
qed

subsection \<open>A search between two cores\<close>

lemma send_results:
  assumes "udp_wf e s" "getPeer i (us_manager s) = Some (Other_peer i)" "pe_IP (peer_at i (us_manager s)) = Some a"
    and "\<forall>r \<in> set l. msg_fits e (M_find_result tag r)"
  shows "us_sent (fold (\<lambda>r s. snd (send_to_peer e True (M_find_result tag r) i s)) l s) =
    us_sent s @ map (\<lambda>r. (To_address a (pe_port (peer_at i (us_manager s))), own_datagram e (M_find_result tag r) s)) l"
  using assms
proof (induction l arbitrary: s)
  case (Cons r l)
  let ?s = "snd (send_to_peer e True (M_find_result tag r) i s)"
  note k = sending_keeps_fields [OF send_to_peer_keeps [of e s True "M_find_result tag r" i]]
  have d: "own_datagram e m ?s = own_datagram e m s" for m by (rule own_datagram_manager) (rule k(4))
  have "us_sent ?s = us_sent s @ [(To_address a (pe_port (peer_at i (us_manager s))), own_datagram e (M_find_result tag r) s)]"
    by (rule send_to_other_peer) (use Cons.prems in simp_all)
  then show ?case using Cons.IH [of ?s] Cons.prems by (simp add: k d)
qed simp

lemma own_header_result_not_null [simp]:
  "\<not> header_isNull (own_header e (M_find t f) s)" "\<not> header_isNull (own_header e (M_find_result t r) s)"
  by (simp_all add: header_isNull_def type_code.simps)

lemma body_class_code: "body_class_of_code (type_code t) = body_class t"
  by (simp add: body_class_of_code_def)

lemma available_peer:
  assumes "peer_available i m = Some (Other_peer i)"
  shows "getPeer i m = Some (Other_peer i)" "pe_alive (peer_at i m)"
  using assms by (auto simp: peer_available_def isAvailable_def split: option.splits peer_ref.splits if_splits)

lemma accepted_from_available:
  assumes "udp_wf e s" "msg_fits e x" "pe_ID (pm_self (us_manager s)) = i" "i \<noteq> pe_ID (pm_self m)"
    and "peer_available i m = Some (Other_peer i)"
  shows "accepted_header (length (own_datagram e x s)) (own_header e x s) m"
  using assms available_peer [OF assms(5)] own_header_size [OF assms(1,2)] by (simp add: accepted_header_def)

lemma collect_results:
  assumes "udp_wf eb sb" "udp_wf ea sa" "pe_ID (pm_self (us_manager sb)) = idb" "idb \<noteq> pe_ID (pm_self (us_manager sa))"
    and "peer_available idb (us_manager sa) = Some (Other_peer idb)"
    and "\<forall>r \<in> set l. msg_fits eb (M_find_result tag r) \<and>
      ue_parse ea (body_class CORE_FIND_RESULT) (ue_ser eb (M_find_result tag r)) = Some (M_find_result tag r)"
  shows "us_found (fold (\<lambda>r. process_datagram unicast_message ea ok (b, own_datagram eb (M_find_result tag r) sb)) l sa) =
    us_found sa @ map (\<lambda>r. (idb, tag, r)) l"
  using assms
proof (induction l arbitrary: sa)
  case (Cons r l)
  let ?m = "M_find_result tag r"
  let ?s = "sa\<lparr>us_buffer := own_datagram eb ?m sb @ drop (length (own_datagram eb ?m sb)) (us_buffer sa)\<rparr>"
  have fits: "msg_fits eb ?m" using Cons.prems(6) by simp
  have "process_datagram unicast_message ea ok (b, own_datagram eb ?m sb) sa =
      unicast_message ea ok b (own_header eb ?m sb) ?m ?s"
    by (rule own_datagram_read [OF Cons.prems(1,2) fits])
      (use Cons.prems accepted_from_available [OF Cons.prems(1) fits Cons.prems(3,4,5)] in \<open>simp_all add: body_class_code\<close>)
  also have "\<dots> = received (own_header eb ?m sb) ?m (?s\<lparr>us_found := us_found sa @ [(idb, tag, r)]\<rparr>)"
    using Cons.prems(3,5) by (simp add: unicast_message_def unicast_other_def)
  finally have step: "process_datagram unicast_message ea ok (b, own_datagram eb ?m sb) sa =
      received (own_header eb ?m sb) ?m (?s\<lparr>us_found := us_found sa @ [(idb, tag, r)]\<rparr>)" .
  let ?s' = "received (own_header eb ?m sb) ?m (?s\<lparr>us_found := us_found sa @ [(idb, tag, r)]\<rparr>)"
  have len: "length (own_datagram eb ?m sb) \<le> length (us_buffer sa)"
    using Cons.prems(1,2) fits by (simp add: own_datagram_length msg_fits_def udp_wf_def)
  have "udp_wf ea ?s'" using Cons.prems(2) len by (simp add: udp_wf_def received_def)
  moreover have "us_manager ?s' = us_manager sa" "us_found ?s' = us_found sa @ [(idb, tag, r)]" by (simp_all add: received_def)
  ultimately show ?case using Cons.IH [of ?s'] Cons.prems by (simp add: step)
qed simp

text \<open>
  C19: A search between two cores.  When \<open>A\<close> sends its request and \<open>B\<close>, which knows \<open>A\<close> as an available peer
  at \<open>a\<close>, gets the datagram, \<open>B\<close> looks for the pattern among its entries, with zero standing for no limit
  of size, and sends its results one by one to \<open>A\<close>; and \<open>A\<close>, given these datagrams while \<open>B\<close> is available, passes
  on exactly the results, in their order, with the identifier of \<open>B\<close>.
\<close>

theorem search_exchange:
  fixes ea eb :: udp_env and sa sb :: udp_state and f :: find_pattern and tag :: "64 word" and a b :: address
  defines "ida \<equiv> pe_ID (pm_self (us_manager sa))" and "idb \<equiv> pe_ID (pm_self (us_manager sb))"
  defines "results \<equiv> ue_find eb (fp_pattern f) (fp_extensions f)
      (if fp_min_size f = 0 then - (2 ^ 63) else sint (fp_min_size f)) (if fp_max_size f = 0 then 2 ^ 63 - 1 else sint (fp_max_size f))
      (fp_category f) (ue_max_results eb) (sint (ue_max eb) - int HEADER_SIZE)"
  defines "answer \<equiv> \<lambda>r. own_datagram eb (M_find_result tag r) sb"
  assumes wf: "udp_wf ea sa" "udp_wf eb sb" "ida \<noteq> idb"
    and request: "msg_fits ea (M_find tag f)" "ue_parse eb (body_class CORE_FIND) (ue_ser ea (M_find tag f)) = Some (M_find tag f)"
    and answers: "\<forall>r \<in> set results. msg_fits eb (M_find_result tag r) \<and>
      ue_parse ea (body_class CORE_FIND_RESULT) (ue_ser eb (M_find_result tag r)) = Some (M_find_result tag r)"
    and known: "peer_available ida (us_manager sb) = Some (Other_peer ida)" "pe_IP (peer_at ida (us_manager sb)) = Some a"
      "peer_available idb (us_manager sa) = Some (Other_peer idb)"
  shows "us_sent (process_datagram multicast_message eb True (a, own_datagram ea (M_find tag f) sa) sb) =
      us_sent sb @ map (\<lambda>r. (To_address a (pe_port (peer_at ida (us_manager sb))), answer r)) results \<and>
    us_found (fold (\<lambda>r. process_datagram unicast_message ea ok (b, answer r)) results sa) =
      us_found sa @ map (\<lambda>r. (idb, tag, r)) results"
proof
  let ?m = "M_find tag f"
  let ?s = "sb\<lparr>us_buffer := own_datagram ea ?m sa @ drop (length (own_datagram ea ?m sa)) (us_buffer sb)\<rparr>"
  have len: "length (own_datagram ea ?m sa) \<le> length (us_buffer sb)"
    using wf request(1) by (simp add: own_datagram_length msg_fits_def udp_wf_def)
  have wfs: "udp_wf eb ?s" using wf(2) len by (simp add: udp_wf_def)
  have "process_datagram multicast_message eb True (a, own_datagram ea ?m sa) sb =
      multicast_message eb True a (own_header ea ?m sa) ?m ?s"
    by (rule own_datagram_read [OF wf(1,2) request(1)])
      (use request(2) wf(3) accepted_from_available [OF wf(1) request(1) _ _ known(1)] in \<open>simp_all add: body_class_code ida_def idb_def\<close>)
  also have "\<dots> = received (own_header ea ?m sa) ?m (on_find eb True tag f ida ?s)" by (simp add: multicast_message_def ida_def)
  also have "on_find eb True tag f ida ?s = fold (\<lambda>r s. snd (send_to_peer eb True (M_find_result tag r) ida s)) results ?s"
    using known(1) by (simp add: on_find_def results_def)
  finally have "us_sent (process_datagram multicast_message eb True (a, own_datagram ea ?m sa) sb) =
      us_sent (fold (\<lambda>r s. snd (send_to_peer eb True (M_find_result tag r) ida s)) results ?s)" by (simp add: received_def)
  also have "\<dots> = us_sent ?s @ map (\<lambda>r. (To_address a (pe_port (peer_at ida (us_manager ?s))), own_datagram eb (M_find_result tag r) ?s)) results"
    by (rule send_results [OF wfs]) (use available_peer [OF known(1)] known(2) answers in simp_all)
  finally show "us_sent (process_datagram multicast_message eb True (a, own_datagram ea ?m sa) sb) =
      us_sent sb @ map (\<lambda>r. (To_address a (pe_port (peer_at ida (us_manager sb))), answer r)) results" by (simp add: answer_def)
  show "us_found (fold (\<lambda>r. process_datagram unicast_message ea ok (b, answer r)) results sa) =
      us_found sa @ map (\<lambda>r. (idb, tag, r)) results"
    unfolding answer_def by (rule collect_results) (use wf known answers in \<open>simp_all add: ida_def idb_def\<close>)
qed

fun find_ser :: "udp_msg \<Rightarrow> byte list" where
  "find_ser (M_find_result t r) = [word_of_nat r]"
| "find_ser _ = []"

definition find_parse :: "64 word \<Rightarrow> find_pattern \<Rightarrow> proto_class \<Rightarrow> byte list \<Rightarrow> udp_msg option" where
  "find_parse t f k bs = (if k = body_class CORE_FIND then Some (M_find t f)
     else if k = body_class CORE_FIND_RESULT then Some (M_find_result t (unat (hd bs))) else None)"

lemma search_exchange_witness:
  defines "f \<equiv> \<lparr>fp_pattern = [97], fp_extensions = [], fp_min_size = 0, fp_max_size = 0, fp_category = 0\<rparr>"
  defines "e \<equiv> (demo_env demo_alive 5 (\<lambda>_. True))\<lparr>ue_ser := find_ser, ue_parse := find_parse 5 f, ue_find := \<lambda>_ _ _ _ _ _ _. [3, 4]\<rparr>"
    and "sa \<equiv> demo_listener 1 2" and "sb \<equiv> demo_listener 2 1"
  shows "map fst (us_sent (process_datagram multicast_message e True (0, own_datagram e (M_find 5 f) sa) sb)) =
      [To_address 0 0, To_address 0 0] \<and>
    us_found (fold (\<lambda>r. process_datagram unicast_message e True (0, own_datagram e (M_find_result 5 r) sb)) [3, 4] sa) =
      [(demo_hash 2, 5, 3), (demo_hash 2, 5, 4)]"
proof -
  have ne: "(1::byte) \<noteq> 2" "(2::byte) \<noteq> 0" "(2::byte) \<noteq> 1" "(1::byte) \<noteq> 0" by simp_all
  note A = demo_listener_simps [OF ne(1,2), folded sa_def] and B = demo_listener_simps [OF ne(3,4), folded sb_def]
  have e: "ue_ser e = find_ser" "ue_parse e = find_parse 5 f" "ue_max e = 1000" "ue_find e = (\<lambda>_ _ _ _ _ _ _. [3, 4])"
    by (simp_all add: e_def demo_env_def)
  have wf: "udp_wf e sa" "udp_wf e sb"
    using A(1) [of demo_alive 5 "\<lambda>_. True"] B(1) [of demo_alive 5 "\<lambda>_. True"] by (simp_all add: udp_wf_def e_def)
  have ids: "pe_ID (pm_self (us_manager sa)) \<noteq> pe_ID (pm_self (us_manager sb))" by (simp add: A B)
  have req: "msg_fits e (M_find 5 f)" "ue_parse e (body_class CORE_FIND) (ue_ser e (M_find 5 f)) = Some (M_find 5 f)"
    by (simp_all add: msg_fits_def e HEADER_SIZE_36 find_parse_def)
  have ans: "\<forall>r \<in> set (ue_find e p x lo hi c n l). msg_fits e (M_find_result 5 r) \<and>
      ue_parse e (body_class CORE_FIND_RESULT) (ue_ser e (M_find_result 5 r)) = Some (M_find_result 5 r)" for p x lo hi c n l
    by (simp add: msg_fits_def e HEADER_SIZE_36 find_parse_def)
  have known: "peer_available (pe_ID (pm_self (us_manager sa))) (us_manager sb) = Some (Other_peer (pe_ID (pm_self (us_manager sa))))"
    "peer_available (pe_ID (pm_self (us_manager sb))) (us_manager sa) = Some (Other_peer (pe_ID (pm_self (us_manager sb))))"
    unfolding A(2) B(2) by (rule B(3), rule A(3))
  have at: "peer_at (demo_hash 1) (us_manager sb) = update ((alive_of 0 demo_alive)\<lparr>ai_version := PROTOCOL_VERSION\<rparr>) (new_peer (demo_hash 1) [])"
    by (simp add: sb_def demo_listener_def new_listener_def updatePeer_def new_manager_def new_self_def new_peer_def
      getPeer_def peer_at_def on_peer_def emit_def demo_hash_null Let_def)
  have ip: "pe_IP (peer_at (pe_ID (pm_self (us_manager sa))) (us_manager sb)) = Some 0"
    "pe_port (peer_at (pe_ID (pm_self (us_manager sa))) (us_manager sb)) = 0"
    unfolding A(2) at by (simp_all add: update_def alive_of_def demo_alive_def)
  have empty: "us_sent sb = []" "us_found sa = []" by (simp_all add: sb_def sa_def demo_listener_def new_listener_def)
  show ?thesis
    using search_exchange [where ea = e and eb = e and sa = sa and sb = sb and tag = 5 and f = f and a = 0 and b = 0 and ok = True,
        OF wf ids req ans known(1) ip(1) known(2)]
    unfolding ip(2) B(2) empty e(4) by simp
qed

subsection \<open>The port\<close>

text \<open>
  The port the core listens to is the first free one among the ten from the base port on, modulo
  \<open>2 ^ 16\<close>; when none is free the core does not listen and announces the last port it has tried.
\<close>

theorem first_free_port:
  "tcp_rebind free base =
    (case find (\<lambda>k. free (base + word_of_nat k)) [0..<MAX_LISTEN_ATTEMPT] of
       Some k \<Rightarrow> (True, base + word_of_nat k) | None \<Rightarrow> (False, base + word_of_nat (MAX_LISTEN_ATTEMPT - 1)))"
proof -
  have "try_listen free (Suc n) (base + word_of_nat j) =
      (case find (\<lambda>k. free (base + word_of_nat k)) [j..<j + Suc n] of
         Some k \<Rightarrow> (True, base + word_of_nat k) | None \<Rightarrow> (False, base + word_of_nat (j + n)))" for n j
  proof (induction n arbitrary: j)
    case (Suc n)
    have l: "[j..<j + Suc (Suc n)] = j # [Suc j..<Suc j + Suc n]" by (simp add: upt_conv_Cons)
    have s: "try_listen free (Suc (Suc n)) p = (if free p then (True, p) else try_listen free (Suc n) (p + 1))" for p
      by (simp only: try_listen.simps(2) nat.distinct if_False)
    have p: "base + word_of_nat j + 1 = base + word_of_nat (Suc j)" "j + Suc n = Suc j + n" by simp_all
    show ?case unfolding l s p find.simps using Suc.IH [of "Suc j"] by (simp only: if_distrib [of "case_option _ _"] option.case)
  qed (simp add: upt_conv_Cons)
  from this [of 9 0] show ?thesis by (simp add: tcp_rebind_def MAX_LISTEN_ATTEMPT_def numeral_eq_Suc)
qed

text \<open>
  When the network changes, the TCP listener looks for a port anew but the UDP listener keeps
  announcing the first one: the core may then listen to a port that no message of its own names.
\<close>

theorem announced_port_not_updated:
  assumes "tcp_rebind free base = (True, port)" "tcp_rebind free' base = (True, port')" "port \<noteq> port'"
  shows "let n = network_rebind free' base (new_network_listener free base m)
    in nl_listening n \<and> nl_port n = port' \<and> nl_unicast_port n = port \<and> nl_port n \<noteq> nl_unicast_port n"
  using assms by (simp add: network_rebind_def new_network_listener_def Let_def)

lemma announced_port_not_updated_witness:
  "let n = network_rebind (\<lambda>p. p \<noteq> 59485) 59485 (new_network_listener (\<lambda>_. True) 59485 (new_manager (new_self [] [] 0 1)))
    in nl_port n = 59486 \<and> nl_unicast_port n = 59485"
proof -
  have "tcp_rebind (\<lambda>_. True) 59485 = (True, 59485)" "tcp_rebind (\<lambda>p. p \<noteq> 59485) 59485 = (True, 59486)"
    by (simp_all add: tcp_rebind_def MAX_LISTEN_ATTEMPT_def numeral_eq_Suc)
  from announced_port_not_updated [OF this] show ?thesis by (simp add: Let_def)
qed

text \<open>A second search with the same object does nothing.\<close>

lemma search_once:
  assumes "tag \<noteq> 0" "launch_search e ok tag f q s = (tag, q', s')"
  shows "launch_search e' ok' tag' f' q' s'' = (0, q', s'')"
  using assms by (auto simp: launch_search_def split: if_splits)

text \<open>The listener after a change of the network: no peer is alive, no scan is on.\<close>

lemma network_rebind_udp:
  "udp_change e ((nl_udp n)\<lparr>us_manager := removeAllPeers (us_manager (nl_udp n))\<rparr>) (nl_udp (network_rebind free base n))"
  by (simp add: network_rebind_def rebind_changes Let_def split: prod.split)

end
