(* ===== verification/Chunk_Upload.thy ===== *)
theory Chunk_Upload
  imports Chunk_Transfer
begin

text \<open>
  \<open>Core/UploadManager/priv/ChunkUploader.cpp\<close> and \<open>UploadManager.cpp\<close>: the thread that reads a chunk
  and writes it to the socket of a peer, over a script of what it meets, and the list of the uploads.
  The chunk is read through \<open>File_Chunks\<close>.
\<close>

subsection \<open>The loop\<close>

text \<open>
  One turn: what others do to the file before it, the bytes the socket accepts (\<open>None\<close> is \<open>-1\<close>), whether
  \<open>toStop\<close> is set, and whether the data leave the socket before the time limit.
\<close>

record up_input =
  ui_change :: "cfile \<Rightarrow> cfile"
  ui_accepted :: "nat option"
  ui_stop :: bool
  ui_flushed :: bool

record upload =
  ul_offset :: nat
  ul_file :: cfile
  ul_sent :: "byte list"
  ul_rate :: "nat list"

record up_end =
  ue_close :: bool             \<comment> \<open>\<open>closeTheSocket\<close>\<close>
  ue_upload :: upload

definition up_turn :: "nat \<Rightarrow> nat \<Rightarrow> device \<Rightarrow> nat \<Rightarrow> up_input \<Rightarrow> upload \<Rightarrow> up_end + upload" where
  "up_turn cs bufferSize dev k i u =
     (let u = u\<lparr>ul_file := ui_change i (ul_file u)\<rparr> in
      case chunk_read cs bufferSize dev k (ul_offset u) (ul_file u) of
        Inl e \<Rightarrow> Inl \<lparr>ue_close = True, ue_upload = u\<rparr>
      | Inr [] \<Rightarrow> Inl \<lparr>ue_close = False, ue_upload = u\<rparr>
      | Inr bytes \<Rightarrow>
          (case ui_accepted i of
             None \<Rightarrow> Inl \<lparr>ue_close = True, ue_upload = u\<rparr>
           | Some n \<Rightarrow>
               (let n = min n (length bytes); u = u\<lparr>ul_sent := ul_sent u @ take n bytes\<rparr> in
                if ui_stop i then Inl \<lparr>ue_close = False, ue_upload = u\<rparr>
                else (let u = u\<lparr>ul_offset := ul_offset u + n\<rparr> in
                      if \<not> ui_flushed i then Inl \<lparr>ue_close = True, ue_upload = u\<rparr>
                      else Inr (u\<lparr>ul_rate := ul_rate u @ [n]\<rparr>)))))"

fun up_loop :: "nat \<Rightarrow> nat \<Rightarrow> device \<Rightarrow> nat \<Rightarrow> up_input list \<Rightarrow> upload \<Rightarrow> up_end option" where
  "up_loop cs bufferSize dev k [] u = None"
| "up_loop cs bufferSize dev k (i # is) u =
     (case up_turn cs bufferSize dev k i u of Inl r \<Rightarrow> Some r | Inr u \<Rightarrow> up_loop cs bufferSize dev k is u)"

text \<open>\<open>run\<close>: the reader is created first, which may throw, and deleted at the end of the \<open>try\<close>.\<close>

definition upload_run :: "nat \<Rightarrow> nat \<Rightarrow> device \<Rightarrow> nat \<Rightarrow> nat \<Rightarrow> up_input list \<Rightarrow> cfile \<Rightarrow> up_end option" where
  "upload_run cs bufferSize dev k offset is f =
     (let start = (\<lambda>f. \<lparr>ul_offset = offset, ul_file = f, ul_sent = [], ul_rate = []\<rparr>) in
      case (if fc_file (fi_chunks f ! k) then newDataReaderCreated dev f else Inr f) of
        Inl (e, f) \<Rightarrow> Some \<lparr>ue_close = True, ue_upload = start f\<rparr>
      | Inr f \<Rightarrow>
          map_option (\<lambda>r. r\<lparr>ue_upload := (ue_upload r)\<lparr>ul_file := dataReaderDeleted (ul_file (ue_upload r))\<rparr>\<rparr>)
            (up_loop cs bufferSize dev k is (start f)))"

text \<open>\<open>getProgress\<close>, in ten thousandths.\<close>

definition upload_progress :: "nat \<Rightarrow> nat \<Rightarrow> upload \<Rightarrow> nat" where
  "upload_progress cs k u =
     (if getChunkSize cs (ul_file u) k \<noteq> 0 then 10000 * ul_offset u div getChunkSize cs (ul_file u) k else 0)"

subsection \<open>The uploads\<close>

text \<open>
  An upload is its identifier and whether it has ended; it stays in the list for \<open>upload_lifetime\<close> after
  its end, with its timer running.
\<close>

record upload_entry =
  ule_ID :: nat
  ule_ended :: bool
  ule_timer :: bool
  ule_stop :: bool

record upload_manager =
  um_nextID :: nat
  um_uploads :: "upload_entry list"
  um_finished :: "(nat \<times> bool) list"

definition new_upload_manager :: upload_manager where
  "new_upload_manager = \<lparr>um_nextID = 1, um_uploads = [], um_finished = []\<rparr>"

definition um_getChunk :: "upload_manager \<Rightarrow> upload_manager" where
  "um_getChunk m = m\<lparr>um_nextID := um_nextID m + 1,
     um_uploads := um_uploads m @ [\<lparr>ule_ID = um_nextID m, ule_ended = False, ule_timer = False, ule_stop = False\<rparr>]\<rparr>"

definition on_upload :: "nat \<Rightarrow> (upload_entry \<Rightarrow> upload_entry) \<Rightarrow> upload_manager \<Rightarrow> upload_manager" where
  "on_upload i f m = m\<lparr>um_uploads := map (\<lambda>u. if ule_ID u = i then f u else u) (um_uploads m)\<rparr>"

text \<open>\<open>ChunkUploader::finished\<close>, after \<open>run\<close>; the socket is told whether to close.\<close>

definition upload_finished :: "nat \<Rightarrow> bool \<Rightarrow> upload_manager \<Rightarrow> upload_manager" where
  "upload_finished i close m = (on_upload i (\<lambda>u. u\<lparr>ule_ended := True, ule_timer := True\<rparr>) m)
     \<lparr>um_finished := um_finished m @ [(i, close)]\<rparr>"

fun remove_upload :: "nat \<Rightarrow> upload_entry list \<Rightarrow> upload_entry list" where
  "remove_upload i [] = []"
| "remove_upload i (u # us) = (if ule_ID u = i then us else u # remove_upload i us)"

definition uploadTimeout :: "nat \<Rightarrow> upload_manager \<Rightarrow> upload_manager" where
  "uploadTimeout i m = m\<lparr>um_uploads := remove_upload i (um_uploads m)\<rparr>"

definition getChunkUploaders :: "upload_manager \<Rightarrow> nat list" where
  "getChunkUploaders m = map ule_ID (um_uploads m)"

definition stop_all_uploads :: "upload_manager \<Rightarrow> upload_manager" where
  "stop_all_uploads m = m\<lparr>um_uploads := map (\<lambda>u. u\<lparr>ule_stop := True\<rparr>) (um_uploads m)\<rparr>"

datatype upload_event = Asked | Ended nat bool | Timed_out nat | Stopped

text \<open>An upload ends once, and its timer runs out after that.\<close>

definition upload_step :: "upload_event \<Rightarrow> upload_manager \<Rightarrow> upload_manager" where
  "upload_step ev m =
     (case ev of
        Asked \<Rightarrow> um_getChunk m
      | Ended i close \<Rightarrow>
          if \<exists>u \<in> set (um_uploads m). ule_ID u = i \<and> \<not> ule_ended u then upload_finished i close m else m
      | Timed_out i \<Rightarrow> if \<exists>u \<in> set (um_uploads m). ule_ID u = i \<and> ule_timer u then uploadTimeout i m else m
      | Stopped \<Rightarrow> stop_all_uploads m)"

inductive uploads_reachable :: "upload_manager \<Rightarrow> bool" where
  start: "uploads_reachable new_upload_manager"
| step: "uploads_reachable m \<Longrightarrow> uploads_reachable (upload_step ev m)"

subsection \<open>Reading a complete chunk\<close>

definition served :: "nat \<Rightarrow> nat \<Rightarrow> byte list \<Rightarrow> cfile \<Rightarrow> bool" where
  "served cs k c f \<longleftrightarrow> file_ok cs f \<and> k < getNbChunks cs f \<and> chunk_isComplete cs f k \<and> fi_r f \<and> content cs k f = c"

definition reads_all :: "device \<Rightarrow> bool" where
  "reads_all dev \<longleftrightarrow> dv_openR dev \<and> dv_read dev \<and> (\<forall>off. dv_seek dev off)"

lemma chunk_read_served:
  assumes "served cs k c f" "reads_all dev"
  shows "chunk_read cs b dev k off f = Inr (take b (drop off c))"
proof -
  have ok: "file_ok cs f" "k < getNbChunks cs f" and full: "chunk_isComplete cs f k" and r: "fi_r f" and c: "content cs k f = c"
    using assms(1) by (simp_all add: served_def)
  have has: "fc_file (fi_chunks f ! k)" using file_okD(4) [OF ok] .
  have known: "fc_known (fi_chunks f ! k) = getChunkSize cs f k" using full chunk_isComplete_known [OF ok] by simp
  note fits = chunk_fits [OF file_okD(1) [OF ok(1)] ok(2) has]
  show ?thesis
  proof (cases "off \<ge> fc_known (fi_chunks f ! k)")
    case True
    then show ?thesis using has known fits content_length [OF ok] c by (simp add: chunk_read_def)
  next
    case False
    let ?n = "getChunkSize cs f k"
    have "off + k * cs < fi_size f" using fits False known by simp
    moreover have "take (if ?n - off \<ge> b then b else ?n - off) (drop (off + k * cs) (fi_data f)) =
        take b (drop off (take ?n (drop (k * cs) (fi_data f))))"
      by (simp add: drop_take add.commute min_def)
    moreover have "c = take ?n (drop (k * cs) (fi_data f))" using c known by (simp add: content_def)
    ultimately show ?thesis using False has r known fits assms(2)
      by (simp add: chunk_read_def file_read_def Let_def reads_all_def)
  qed
qed

text \<open>What others do to the file leaves the chunk readable and as it is.\<close>

definition undisturbed :: "nat \<Rightarrow> nat \<Rightarrow> byte list \<Rightarrow> up_input list \<Rightarrow> bool" where
  "undisturbed cs k c is \<longleftrightarrow> (\<forall>i \<in> set is. \<forall>f. served cs k c f \<longrightarrow> served cs k c (ui_change i f))"

lemma up_turn_served:
  assumes "served cs k c (ui_change i (ul_file u))" "reads_all dev" "0 < b"
  defines "f \<equiv> ui_change i (ul_file u)" and "n a \<equiv> min a (length (take b (drop (ul_offset u) c)))"
  shows "up_turn cs b dev k i u =
    (if length c \<le> ul_offset u then Inl \<lparr>ue_close = False, ue_upload = u\<lparr>ul_file := f\<rparr>\<rparr>
     else (case ui_accepted i of
             None \<Rightarrow> Inl \<lparr>ue_close = True, ue_upload = u\<lparr>ul_file := f\<rparr>\<rparr>
           | Some a \<Rightarrow>
               (let u = u\<lparr>ul_file := f, ul_sent := ul_sent u @ take (n a) (drop (ul_offset u) c)\<rparr> in
                if ui_stop i then Inl \<lparr>ue_close = False, ue_upload = u\<rparr>
                else if \<not> ui_flushed i then Inl \<lparr>ue_close = True, ue_upload = u\<lparr>ul_offset := ul_offset u + n a\<rparr>\<rparr>
                else Inr (u\<lparr>ul_offset := ul_offset u + n a, ul_rate := ul_rate u @ [n a]\<rparr>))))"
proof (cases "length c \<le> ul_offset u")
  case True
  then show ?thesis using chunk_read_served [OF assms(1,2)] by (simp add: up_turn_def f_def)
next
  case False
  then obtain x xs where bytes: "take b (drop (ul_offset u) c) = x # xs"
    using assms(3) by (cases "take b (drop (ul_offset u) c)") auto
  have "take (n a) (x # xs) = take (n a) (drop (ul_offset u) c)" for a
    unfolding bytes [symmetric] by (simp add: n_def)
  then show ?thesis using False chunk_read_served [OF assms(1,2), of b "ul_offset u"] bytes
    by (simp add: up_turn_def f_def n_def Let_def split: option.split)
qed

lemma up_loop_sends:
  assumes "up_loop cs b dev k is u = Some r" "served cs k c (ul_file u)" "undisturbed cs k c is" "reads_all dev" "0 < b"
  shows "(\<exists>n. ul_sent (ue_upload r) = ul_sent u @ take n (drop (ul_offset u) c)) \<and>
    (\<not> ue_close r \<and> \<not> (\<exists>i \<in> set is. ui_stop i) \<longrightarrow> ul_sent (ue_upload r) = ul_sent u @ drop (ul_offset u) c)"
  using assms(1-3)
proof (induction "is" arbitrary: u)
  case (Cons i ins)
  define f where "f = ui_change i (ul_file u)"
  have f: "served cs k c f" using Cons.prems(2,3) by (simp add: undisturbed_def f_def)
  have rest: "undisturbed cs k c ins" using Cons.prems(3) by (simp add: undisturbed_def)
  note turn = up_turn_served [OF f [unfolded f_def] assms(4,5), folded f_def]
  show ?case
  proof (cases "length c \<le> ul_offset u")
    case True
    then have "r = \<lparr>ue_close = False, ue_upload = u\<lparr>ul_file := f\<rparr>\<rparr>" using Cons.prems(1) turn by simp
    then show ?thesis using True by simp
  next
    case False
    show ?thesis
    proof (cases "ui_accepted i")
      case None
      then have "r = \<lparr>ue_close = True, ue_upload = u\<lparr>ul_file := f\<rparr>\<rparr>" using Cons.prems(1) turn False by simp
      then show ?thesis by (auto intro: exI [where x = 0])
    next
      case (Some a)
      define n where "n = min a (length (take b (drop (ul_offset u) c)))"
      define u1 where "u1 = u\<lparr>ul_file := f, ul_sent := ul_sent u @ take n (drop (ul_offset u) c)\<rparr>"
      define u2 where "u2 = u1\<lparr>ul_offset := ul_offset u1 + n, ul_rate := ul_rate u1 @ [n]\<rparr>"
      have t: "up_turn cs b dev k i u = (if ui_stop i then Inl \<lparr>ue_close = False, ue_upload = u1\<rparr>
          else if \<not> ui_flushed i then Inl \<lparr>ue_close = True, ue_upload = u1\<lparr>ul_offset := ul_offset u + n\<rparr>\<rparr> else Inr u2)"
        using turn False Some by (simp add: n_def u1_def u2_def Let_def)
      show ?thesis
      proof (cases "\<not> ui_stop i \<and> ui_flushed i")
        case True
        have "up_loop cs b dev k ins u2 = Some r" using Cons.prems(1) t True by simp
        moreover have "served cs k c (ul_file u2)" using f by (simp add: u2_def u1_def)
        ultimately have IH: "\<exists>m. ul_sent (ue_upload r) = ul_sent u2 @ take m (drop (ul_offset u2) c)"
          "\<not> ue_close r \<and> \<not> (\<exists>i \<in> set ins. ui_stop i) \<longrightarrow> ul_sent (ue_upload r) = ul_sent u2 @ drop (ul_offset u2) c"
          using Cons.IH [of u2] rest by simp_all
        have u2: "ul_sent u2 = ul_sent u @ take n (drop (ul_offset u) c)" "drop (ul_offset u2) c = drop n (drop (ul_offset u) c)"
          by (simp_all add: u2_def u1_def add.commute)
        obtain m where "ul_sent (ue_upload r) = ul_sent u2 @ take m (drop (ul_offset u2) c)" using IH(1) by blast
        then have "ul_sent (ue_upload r) = ul_sent u @ take (n + m) (drop (ul_offset u) c)" by (simp only: u2 take_add append_assoc)
        moreover have "take n (drop (ul_offset u) c) @ drop n (drop (ul_offset u) c) = drop (ul_offset u) c" by (rule append_take_drop_id)
        ultimately show ?thesis using IH(2) u2 by (auto simp del: drop_drop)
      next
        case no: False
        then have "ul_sent (ue_upload r) = ul_sent u @ take n (drop (ul_offset u) c) \<and> (ue_close r \<or> ui_stop i)"
          using Cons.prems(1) t by (auto simp: u1_def split: if_splits)
        then show ?thesis by auto
      qed
    qed
  qed
qed simp

lemma up_loop_ends:
  assumes "served cs k c (ul_file u)" "undisturbed cs k c is" "reads_all dev" "0 < b"
    and "\<forall>i \<in> set is. ui_accepted i \<noteq> Some 0" "length c - ul_offset u < length is"
  shows "\<exists>r. up_loop cs b dev k is u = Some r"
  using assms(1,2,5,6)
proof (induction "is" arbitrary: u)
  case (Cons i ins)
  define f where "f = ui_change i (ul_file u)"
  have f: "served cs k c f" using Cons.prems(1,2) by (simp add: undisturbed_def f_def)
  have rest: "undisturbed cs k c ins" using Cons.prems(2) by (simp add: undisturbed_def)
  show ?case
  proof (cases "up_turn cs b dev k i u")
    case (Inr u2)
    have "\<not> length c \<le> ul_offset u" "ul_file u2 = f" "ul_offset u < ul_offset u2"
      using Inr Cons.prems(3) assms(4) unfolding up_turn_served [OF f [unfolded f_def] assms(3,4), folded f_def]
      by (auto simp: Let_def min_def split: if_splits option.splits)
    then show ?thesis using Cons.IH [of u2] Inr f rest Cons.prems(3,4) by simp
  qed simp
qed simp

subsection \<open>An upload\<close>

text \<open>A complete chunk in a file where no opening has failed.\<close>

definition serves :: "nat \<Rightarrow> nat \<Rightarrow> cfile \<Rightarrow> bool" where
  "serves cs k f \<longleftrightarrow> file_ok cs f \<and> k < getNbChunks cs f \<and> chunk_isComplete cs f k \<and> (fi_numR f = 0 \<or> fi_r f)"

lemma reader_opened:
  assumes "serves cs k f" "reads_all dev"
  obtains f1 where "(if fc_file (fi_chunks f ! k) then newDataReaderCreated dev f else Inr f) = Inr f1"
    "served cs k (content cs k f) f1"
proof -
  have ok: "file_ok cs f" "k < getNbChunks cs f" using assms(1) by (simp_all add: serves_def)
  have same: "file_ok cs (f\<lparr>fi_numR := x, fi_r := y\<rparr>) = file_ok cs f" "getNbChunks cs (f\<lparr>fi_numR := x, fi_r := y\<rparr>) = getNbChunks cs f"
      "chunk_isComplete cs (f\<lparr>fi_numR := x, fi_r := y\<rparr>) k = chunk_isComplete cs f k"
      "content cs k (f\<lparr>fi_numR := x, fi_r := y\<rparr>) = content cs k f" for x y
    by (simp_all add: file_ok_def getNbChunks_def chunk_isComplete_def getChunkSize_def content_def)
  have "newDataReaderCreated dev f = Inr (f\<lparr>fi_numR := fi_numR f + 1, fi_r := True\<rparr>)"
  proof (cases "fi_numR f = 0")
    case True
    then show ?thesis using assms(2) by (simp add: newDataReaderCreated_def reads_all_def Let_def)
  next
    case False
    then have "fi_r f" using assms(1) by (simp add: serves_def)
    then show ?thesis using False by (simp add: newDataReaderCreated_def Let_def)
  qed
  then have "(if fc_file (fi_chunks f ! k) then newDataReaderCreated dev f else Inr f) = Inr (f\<lparr>fi_numR := fi_numR f + 1, fi_r := True\<rparr>)"
    using file_okD(4) [OF ok] by simp
  moreover have "served cs k (content cs k f) (f\<lparr>fi_numR := fi_numR f + 1, fi_r := True\<rparr>)"
    using assms(1) unfolding served_def serves_def by (simp add: same)
  ultimately show thesis by (rule that)
qed


definition quiet_turn :: "nat \<Rightarrow> up_input" where
  "quiet_turn n = \<lparr>ui_change = id, ui_accepted = Some n, ui_stop = False, ui_flushed = True\<rparr>"

lemma quiet_undisturbed [simp]: "undisturbed cs k c (map quiet_turn l)"
  by (auto simp: undisturbed_def quiet_turn_def)

definition full_cfile :: cfile where
  "full_cfile = hashed_cfile\<lparr>fi_chunks := (fi_chunks hashed_cfile)[1 := \<lparr>fc_known = 2, fc_hash = Some [3, 4], fc_file = True\<rparr>],
     fi_data := [1, 2, 3, 4, 5]\<rparr>"

lemma full_cfile_serves: "serves 2 1 full_cfile" "content 2 1 full_cfile = [3, 4]" "reads_all good_device"
proof -
  have nb: "getNbChunks 2 full_cfile = 3" by (simp add: full_cfile_def hashed_cfile_def sample_cfile_def getNbChunks_def)
  have "list_all (\<lambda>k. fc_file (fi_chunks full_cfile ! k) \<and> fc_known (fi_chunks full_cfile ! k) \<le> getChunkSize 2 full_cfile k) [0..<3]"
    by code_simp
  moreover have "length (fi_data full_cfile) = fi_size full_cfile" "length (fi_chunks full_cfile) = 3" by code_simp+
  ultimately have "file_ok 2 full_cfile" by (simp add: file_ok_def nb list_all_iff)
  moreover have "chunk_isComplete 2 full_cfile 1" by code_simp
  moreover have "fi_numR full_cfile = 0" by code_simp
  ultimately show "serves 2 1 full_cfile" by (simp add: serves_def nb)
  show "content 2 1 full_cfile = [3, 4]" by code_simp
  show "reads_all good_device" by (simp add: reads_all_def good_device_def)
qed




text \<open>
  The data of a chunk that is only partly known are read up to the end of the chunk, not of what is
  known: an upload of such a chunk sends, after the known bytes, whatever the file holds there.
\<close>

theorem incomplete_chunk_sends_unwritten:
  assumes "file_ok cs f" "k < getNbChunks cs f" "fi_r f" "reads_all dev" "0 < fc_known (fi_chunks f ! k)"
  shows "chunk_read cs cs dev k 0 f = Inr (take (getChunkSize cs f k) (drop (k * cs) (fi_data f))) \<and>
    content cs k f = take (fc_known (fi_chunks f ! k)) (drop (k * cs) (fi_data f))"
proof -
  have has: "fc_file (fi_chunks f ! k)" using file_okD(4) [OF assms(1,2)] .
  note fits = chunk_fits [OF file_okD(1) [OF assms(1)] assms(2) has]
  show ?thesis using has fits assms(3-5)
    by (auto simp: chunk_read_def file_read_def Let_def reads_all_def content_def min_def)
qed

definition part_cfile :: cfile where
  "part_cfile = hashed_cfile\<lparr>fi_chunks := (fi_chunks hashed_cfile)[1 := \<lparr>fc_known = 1, fc_hash = Some [3, 4], fc_file = True\<rparr>],
     fi_data := [0, 0, 3, 0, 0]\<rparr>"

lemma incomplete_chunk_sends_unwritten_witness:
  "content 2 1 part_cfile = [3] \<and> map_option (\<lambda>r. (ue_close r, ul_sent (ue_upload r)))
    (upload_run 2 2 good_device 1 0 (map quiet_turn [2, 2]) part_cfile) = Some (False, [3, 0]) \<and>
   chunk_read 2 2 good_device 1 0 (part_cfile\<lparr>fi_r := True\<rparr>) = Inr [3, 0]"
proof -
  let ?f = "part_cfile\<lparr>fi_r := True\<rparr>"
  have nb: "getNbChunks 2 ?f = 3" by (simp add: part_cfile_def hashed_cfile_def sample_cfile_def getNbChunks_def)
  have "list_all (\<lambda>k. fc_file (fi_chunks ?f ! k) \<and> fc_known (fi_chunks ?f ! k) \<le> getChunkSize 2 ?f k) [0..<3]" by code_simp
  moreover have "length (fi_data ?f) = fi_size ?f" "length (fi_chunks ?f) = 3" by code_simp+
  ultimately have ok: "file_ok 2 ?f" by (simp add: file_ok_def nb list_all_iff)
  have known: "0 < fc_known (fi_chunks ?f ! 1)" by code_simp
  have "chunk_read 2 2 good_device 1 0 ?f = Inr (take (getChunkSize 2 ?f 1) (drop (1 * 2) (fi_data ?f)))"
    using incomplete_chunk_sends_unwritten [OF ok _ _ full_cfile_serves(3) known] nb by simp
  also have "\<dots> = Inr [3, 0]" by code_simp
  finally have "chunk_read 2 2 good_device 1 0 ?f = Inr [3, 0]" .
  moreover have "content 2 1 part_cfile = [3]" by code_simp
  moreover have "map_option (\<lambda>r. (ue_close r, ul_sent (ue_upload r)))
    (upload_run 2 2 good_device 1 0 (map quiet_turn [2, 2]) part_cfile) = Some (False, [3, 0])" by code_simp
  ultimately show ?thesis by simp
qed

text \<open>
  When a file becomes complete while one of its chunks is being uploaded, its descriptors are closed and
  the next read gives nothing: the upload ends as if all was sent and the socket is kept, while the other
  core still waits for the rest.
\<close>

theorem completed_file_cuts_upload:
  assumes "isFileUnfinished suf (fi_name (ul_file u))" "0 < fi_numR (ul_file u)"
    and "fc_file (fi_chunks (ul_file u) ! k)" "0 < fc_known (fi_chunks (ul_file u) ! k)"
    and "ui_change i = setAsComplete suf dev"
  shows "\<exists>u'. up_turn cs b dev' k i u = Inl \<lparr>ue_close = False, ue_upload = u'\<rparr> \<and> ul_sent u' = ul_sent u \<and> ul_offset u' = ul_offset u"
proof -
  have "\<not> fi_r (setAsComplete suf dev (ul_file u))" using assms(1,2) by (simp add: setAsComplete_def Let_def note_event_def)
  then have "chunk_read cs b dev' k (ul_offset u) (setAsComplete suf dev (ul_file u)) = Inr []"
    using assms(3,4) by (simp add: chunk_read_def file_read_def Let_def)
  then show ?thesis by (simp add: up_turn_def assms(5) Let_def)
qed

lemma completed_file_cuts_upload_witness:
  "map_option (\<lambda>r. (ue_close r, ul_sent (ue_upload r)))
    (upload_run 2 1 good_device 1 0 [quiet_turn 1, (quiet_turn 1)\<lparr>ui_change := setAsComplete ''.unfinished'' good_device\<rparr>] full_cfile) =
    Some (False, [3]) \<and>
   (\<exists>u'. up_turn 2 1 good_device 1 ((quiet_turn 1)\<lparr>ui_change := setAsComplete ''.unfinished'' good_device\<rparr>)
      \<lparr>ul_offset = 1, ul_file = full_cfile\<lparr>fi_numR := 1, fi_r := True\<rparr>, ul_sent = [3], ul_rate = [1]\<rparr> =
      Inl \<lparr>ue_close = False, ue_upload = u'\<rparr>)"
proof -
  let ?u = "\<lparr>ul_offset = 1, ul_file = full_cfile\<lparr>fi_numR := 1, fi_r := True\<rparr>, ul_sent = [3], ul_rate = [1]\<rparr>"
  let ?i = "(quiet_turn 1)\<lparr>ui_change := setAsComplete ''.unfinished'' good_device\<rparr>"
  have "isFileUnfinished ''.unfinished'' (fi_name (ul_file ?u))" "0 < fi_numR (ul_file ?u)" "fc_file (fi_chunks (ul_file ?u) ! 1)"
    "0 < fc_known (fi_chunks (ul_file ?u) ! 1)" by code_simp+
  then have "\<exists>u'. up_turn 2 1 good_device 1 ?i ?u = Inl \<lparr>ue_close = False, ue_upload = u'\<rparr>"
    using completed_file_cuts_upload [of "''.unfinished''" ?u 1 ?i good_device 2 1 good_device] by auto
  moreover have "map_option (\<lambda>r. (ue_close r, ul_sent (ue_upload r))) (upload_run 2 1 good_device 1 0 [quiet_turn 1, ?i] full_cfile) =
    Some (False, [3])" by code_simp
  ultimately show ?thesis by blast
qed

subsection \<open>The list of the uploads\<close>

lemma remove_upload_filter: "distinct (map ule_ID l) \<Longrightarrow> remove_upload i l = filter (\<lambda>u. ule_ID u \<noteq> i) l"
  by (induction l) (auto simp: image_iff intro!: filter_True [symmetric])

definition uploads_ok :: "upload_manager \<Rightarrow> bool" where
  "uploads_ok m \<longleftrightarrow> distinct (map ule_ID (um_uploads m)) \<and> (\<forall>u \<in> set (um_uploads m). ule_ID u < um_nextID m \<and>
     (ule_timer u \<longleftrightarrow> ule_ended u) \<and> (ule_ended u \<longleftrightarrow> ule_ID u \<in> fst ` set (um_finished m))) \<and>
     distinct (map fst (um_finished m)) \<and> (\<forall>i \<in> fst ` set (um_finished m). i < um_nextID m) \<and>
     (\<forall>i. 0 < i \<and> i < um_nextID m \<longrightarrow> i \<in> ule_ID ` set (um_uploads m) \<or> i \<in> fst ` set (um_finished m))"

lemma on_upload_IDs [simp]: "(\<And>u. ule_ID (f u) = ule_ID u) \<Longrightarrow> map ule_ID (um_uploads (on_upload i f m)) = map ule_ID (um_uploads m)"
  by (simp add: on_upload_def comp_def)

lemma uploads_ok_step: "uploads_ok m \<Longrightarrow> uploads_ok (upload_step ev m)"
proof (cases ev)
  case Asked
  assume ok: "uploads_ok m"
  have "um_nextID m \<notin> fst ` set (um_finished m)" "um_nextID m \<notin> ule_ID ` set (um_uploads m)"
    using ok by (auto simp: uploads_ok_def)
  then show ?thesis using ok unfolding uploads_ok_def by (auto simp: Asked upload_step_def um_getChunk_def less_Suc_eq)
next
  case (Ended i close)
  assume ok: "uploads_ok m"
  show ?thesis
  proof (cases "\<exists>u \<in> set (um_uploads m). ule_ID u = i \<and> \<not> ule_ended u")
    case True
    then obtain u where u: "u \<in> set (um_uploads m)" "ule_ID u = i" "\<not> ule_ended u" by blast
    have i: "i \<notin> fst ` set (um_finished m)" "i < um_nextID m" using ok u by (auto simp: uploads_ok_def)
    have "map ule_ID (um_uploads (upload_finished i close m)) = map ule_ID (um_uploads m)" by (simp add: upload_finished_def)
    from arg_cong [OF this, of set] have ids: "ule_ID ` set (um_uploads (upload_finished i close m)) = ule_ID ` set (um_uploads m)"
      by simp
    have "distinct (map ule_ID (um_uploads (upload_finished i close m)))"
      using ok by (simp add: upload_finished_def uploads_ok_def)
    moreover have "\<forall>v \<in> set (um_uploads (upload_finished i close m)). ule_ID v < um_nextID m \<and> (ule_timer v \<longleftrightarrow> ule_ended v) \<and>
        (ule_ended v \<longleftrightarrow> ule_ID v = i \<or> ule_ID v \<in> fst ` set (um_finished m))"
      using ok by (auto simp: upload_finished_def on_upload_def uploads_ok_def)
    moreover have "um_nextID (upload_finished i close m) = um_nextID m" "um_finished (upload_finished i close m) = um_finished m @ [(i, close)]"
      by (simp_all add: upload_finished_def on_upload_def)
    ultimately have "uploads_ok (upload_finished i close m)"
      using ok i unfolding uploads_ok_def ids by auto
    then show ?thesis using True by (simp add: Ended upload_step_def)
  qed (use ok in \<open>auto simp: Ended upload_step_def\<close>)
next
  case (Timed_out i)
  assume ok: "uploads_ok m"
  then have r: "remove_upload i (um_uploads m) = filter (\<lambda>u. ule_ID u \<noteq> i) (um_uploads m)"
    by (intro remove_upload_filter) (simp add: uploads_ok_def)
  show ?thesis
  proof (cases "\<exists>u \<in> set (um_uploads m). ule_ID u = i \<and> ule_timer u")
    case True
    then have "i \<in> fst ` set (um_finished m)" using ok by (auto simp: uploads_ok_def)
    moreover have "ule_ID ` {u \<in> set (um_uploads m). ule_ID u \<noteq> i} = ule_ID ` set (um_uploads m) - {i}" by auto
    ultimately have "\<forall>j. 0 < j \<and> j < um_nextID m \<longrightarrow>
        j \<in> ule_ID ` {u \<in> set (um_uploads m). ule_ID u \<noteq> i} \<or> j \<in> fst ` set (um_finished m)"
      using ok unfolding uploads_ok_def by simp blast
    then have "uploads_ok (uploadTimeout i m)" using ok unfolding uploads_ok_def
      by (simp add: uploadTimeout_def r distinct_map_filter)
    then show ?thesis using True by (simp add: Timed_out upload_step_def)
  qed (use ok in \<open>auto simp: Timed_out upload_step_def\<close>)
next
  case Stopped
  assume "uploads_ok m"
  then show ?thesis by (simp add: Stopped upload_step_def stop_all_uploads_def uploads_ok_def comp_def image_image)
qed

text \<open>
  In every reachable state of the upload manager the identifiers of the uploads are distinct, the socket
  of an upload is given back at most once, and every upload ever asked is either listed or has given its
  socket back: none is forgotten while it runs.
\<close>

theorem uploads_invariant:
  assumes "uploads_reachable m"
  shows "distinct (getChunkUploaders m) \<and> distinct (map fst (um_finished m)) \<and>
    (\<forall>i. 0 < i \<and> i < um_nextID m \<longrightarrow> i \<in> set (getChunkUploaders m) \<or> i \<in> fst ` set (um_finished m)) \<and>
    (\<forall>u \<in> set (um_uploads m). ule_ended u \<longleftrightarrow> ule_ID u \<in> fst ` set (um_finished m))"
proof -
  have "uploads_ok m" using assms
  proof (induction rule: uploads_reachable.induct)
    case start
    then show ?case by (auto simp: uploads_ok_def new_upload_manager_def)
  qed (rule uploads_ok_step)
  then show ?thesis by (simp add: uploads_ok_def getChunkUploaders_def)
qed

lemma uploads_invariant_witness:
  "let m = upload_step (Timed_out 1) (upload_step (Ended 1 False) (upload_step Asked (upload_step Asked new_upload_manager))) in
   distinct (getChunkUploaders m) \<and> getChunkUploaders m = [2] \<and> um_finished m = [(1, False)]"
proof -
  let ?m = "upload_step (Timed_out 1) (upload_step (Ended 1 False) (upload_step Asked (upload_step Asked new_upload_manager)))"
  have "uploads_reachable ?m" by (intro uploads_reachable.intros)
  from uploads_invariant [OF this] have "distinct (getChunkUploaders ?m)" by simp
  moreover have "getChunkUploaders ?m = [2]" "um_finished ?m = [(1, False)]" by code_simp+
  ultimately show ?thesis by (simp add: Let_def)
qed

end
