(* ===== verification/Spec2Isabelle.thy ===== *)
theory Spec2Isabelle
  imports Queue_Steps Chunk_Transfer File_Choice Dir_Download File_Search Paths Message_Socket Chat_System Size_Index Peers Udp_Scan Network_Search Chunk_Upload
begin

text \<open>
  DG-LAN (a fork of D-LAN) shares files on a local network without a server.  Each machine runs
  a core (\<open>src/application/Core\<close>) that finds the other cores by UDP, talks to them over TCP with
  protobuf messages, shares directories cut into chunks of 64 MiB known by their hash, and
  downloads the chunks of a file from every peer that has them; a graphical interface drives the
  core over the same kind of messages.  This development models the logic of the core that can be
  stated without the operating system, the thread scheduler and the libraries.

  \<^bold>\<open>Parts of the program and theories.\<close>

  \<^item> \<open>Dg_Prelude\<close>: types and Qt list operations that everything shares.
  \<^item> Downloads (\<open>Core/DownloadManager/priv\<close>).  \<open>Download_Queue\<close>, \<open>Queue_Scan\<close> and
    \<open>Queue_Steps\<close> model \<open>DownloadQueue\<close>: the list of downloads in a heap of
    \<open>download\<close> records, the markers of the first downloads to scan, the indexes by name and by
    peer, every operation and the scans with a predicate.  \<open>Peers_In_Use\<close> is
    \<open>OccupiedPeers\<close> and \<open>LinkedPeers\<close>.  \<open>Chunk_Downloader\<close> is the state machine of
    \<open>ChunkDownloader\<close> (the peers of a chunk, the request, the end of a transfer) and
    \<open>Chunk_Transfer\<close> its loop \<open>run\<close>, which moves bytes from a socket to the chunk.
    \<open>File_Download\<close> is \<open>FileDownload\<close> with what it inherits from \<open>Download\<close>,
    \<open>File_Choice\<close> its choice of a chunk, \<open>Dir_Download\<close> is \<open>DirDownload\<close>.
  \<^item> Shared files (\<open>Core/FileManager/priv\<close>).  \<open>File_Chunks\<close> is a file of the cache, its chunks,
    their reading, writing and hashing.  \<open>Word_Node\<close> and \<open>Word_Index\<close> are the tree of words
    behind the search, \<open>File_Search\<close> the index of extensions and \<open>FileManager::find\<close>.
  \<^item> Containers (\<open>Common/Containers\<close>).  \<open>Sorted_Array\<close> is the B-tree of \<open>SortedArray.h\<close>: its
    searches, its access by index and its iterator; \<open>Sorted_Array_Insert\<close> and
    \<open>Sorted_Array_Remove\<close> change it; \<open>Sorted_Array_Inv\<close>, \<open>Sorted_Array_Search\<close>,
    \<open>Sorted_Array_Index\<close> and \<open>Sorted_Array_Iter\<close> hold its invariant and the proofs of the
    searches, \<open>Sorted_Array_Use\<close> its properties.  \<open>Sorted_Array_Clients\<close> is \<open>MapArray.h\<close>
    over an interface of sorted stores, \<open>Size_Index\<close> the index of the shared entries by size.
  \<^item> Messages (\<open>Common/Network\<close>, \<open>Common\<close>).  \<open>Hash_Value\<close> is \<open>Common::Hash\<close>, \<open>Zero_Copy\<close> the
    bridges between a device and protobuf, \<open>Messages\<close> the header and the reading and writing of
    a message, \<open>Message_Socket\<close> the exchange of messages over a TCP connection.
  \<^item> Peers (\<open>Core/PeerManager/priv\<close>).  \<open>Peer_Socket\<close> is \<open>PeerMessageSocket\<close>,
    \<open>ConnectionPool\<close> and the three kinds of request; \<open>Peer_Connections\<close> makes them a state
    machine and proves its invariant, \<open>Peer_Exchanges\<close> follows the exchanges of hashes, entries
    and peers from end to end; \<open>Peers\<close> is \<open>Peer\<close> and \<open>PeerManager\<close> over them.
  \<^item> Discovery (\<open>Core/NetworkListener/priv\<close>).  \<open>Udp_Listener\<close> is \<open>UDPListener\<close>: the heartbeat, the
    ways it is spread, the scan of the subnets and the handling of every datagram, over \<open>Peers\<close> and
    \<open>Messages\<close>.  \<open>Udp_Discovery\<close> follows the exchange about chunks between two cores, \<open>Udp_Safety\<close>
    holds what every run of the listener keeps, \<open>Udp_Scan\<close> the scan and the size of a heartbeat,
    \<open>Network_Search\<close> the search in the network, \<open>TCPListener\<close> and \<open>NetworkListener\<close>.
  \<^item> Uploads (\<open>Core/UploadManager/priv\<close>).  \<open>Chunk_Upload\<close> is \<open>ChunkUploader\<close> and \<open>UploadManager\<close>, over
    \<open>File_Chunks\<close>; with \<open>Chunk_Transfer\<close> a chunk goes from one core to another.
  \<^item> Chat (\<open>Core/ChatSystem/priv\<close>).  \<open>Chat_Messages\<close> is the bounded, sorted list of the
    messages of a room and the datagrams that carry them, \<open>Chat_System\<close> the rooms, who is in
    them and the handling of the messages of the other cores.
  \<^item> Text (\<open>Common\<close>).  \<open>String_Utils\<close> is \<open>StringUtils\<close>, \<open>Paths\<close> is \<open>Path\<close>.

  A download manager asks the queue for a chunk (\<open>File_Choice\<close>, over \<open>Peers_In_Use\<close> and
  \<open>Chunk_Downloader\<close>), the chunk is asked from a peer by a message (\<open>Message_Socket\<close>), the
  socket then carries the bytes of the chunk (\<open>Chunk_Transfer\<close>), which are written, hashed and
  make the file complete (\<open>File_Chunks\<close>); the entries that are shared are found by
  \<open>File_Search\<close>.

  \<^bold>\<open>How the code is modelled.\<close>  A class is a record and a method a function from the state to the
  state; objects that are shared by pointers (downloads, chunk downloaders, peers) are named by
  numbers in a list or a map.  Exceptions and early returns are values.  Signals are either the
  calls they make or lists that are returned.  What comes from a library or the operating system
  (protobuf, digests, Unicode tables, files, sockets) is an argument of the definitions, and what is
  relied on is a hypothesis by name.  Sizes and offsets are integers or natural numbers where the
  code cannot overflow on the inputs considered, words where the width matters (headers, hashes,
  characters).

  \<^bold>\<open>What the groups of lemmas show.\<close>  The queue keeps its markers, indexes and heap consistent in
  every reachable state, and moving, removing and scanning do what a specification on plain lists
  says.  A peer is occupied by one request at a time, and links are counted exactly through every
  sequence of operations.  A transfer ends, writes a prefix of what the peer sent whatever happens,
  and the whole chunk when it succeeds; chunks written in any order make up the file.  The choice
  of a chunk prefers the rarest.  The B-tree keeps its shape, and
  its operations are those of an ordered list without duplicates; a map and the search by size rest
  on that.  The word tree is a map from words to items, searches by prefix
  are exact, and a search by several words returns the best matches first.  Messages survive
  any segmentation of the TCP stream, from one socket to the other, and a connection belongs to one
  peer.  A room of the chat keeps the newest messages it was given, within its limit and without
  duplicates, and a peer is in the rooms it says it is in.  In every state of the connections to a
  peer few sockets are idle, requests of entries and of hashes are answered completely and end, and the
  signals tell which peers are available.  The listener reads only whole datagrams of known cores and writes
  within its buffer; a core learns exactly which chunks and which results of a search another core has,
  a scan probes every host of a subnet once, and a heartbeat fits in a datagram.  An uploaded chunk
  arrives as it is.  Text forms (paths, hashes, names) are round trips.

  \<^bold>\<open>Bounds and fuel.\<close>  \<open>scan_all\<close> takes one unit per download and a lemma shows that the
  length of the queue is enough; \<open>hash_known\<close> takes one unit per read and each read advances, so
  the size of the chunk is enough; \<open>us_fuel\<close> allows one nested call of
  \<open>FileDownload::updateStatus\<close> per chunk downloader and one more, which is enough because a
  nested call follows the reset of one of them.  The search inside a node of
  the B-tree is a partial function that is shown to return whenever the comparison is an order, and
  the iterations over it are shown to end.  All the other loops are proved to terminate by a
  measure.  \<open>nCombinations\<close> is on unbounded integers: the code calls it with the number of
  words of a search, far below an overflow.

  \<^bold>\<open>Not modelled.\<close>  The threads and their interleavings inside an operation (each operation is
  atomic, as its mutex makes it), the log, the persistence in files and in SQLite, the watching of
  directories, the configuration, the graphical interface, the command line client, the HTTP server,
  the service wrapper and the libraries that are copied into the repository.  These parts are calls
  of the operating system, of Qt or of a database, or present data on a screen.
\<close>

end
